(* ===== verification/Prelude.thy ===== *)
theory Prelude
  imports Main "HOL-Library.Word"
begin

text \<open>
  Shared vocabulary of the development.

  \<^item> The C integer types of \<open>types.h\<close> as machine words.
  \<^item> The error type: every \<open>panic\<close> of the kernel, every access the C code makes through a
    null pointer or outside an array, and every loop the code never leaves is a value of \<open>kerror\<close>.
  \<^item> A flat, byte-addressed physical memory \<open>mem\<close> with little-endian loads and stores; page-table
    entries, free-list links and page contents all live in it, so aliasing is the machine's.
  \<^item> \<open>foldE\<close>: a loop over a list of indices that stops at the first error.
  \<^item> Generic lemmas on words, page arithmetic and memory that the component theories share.
\<close>

unbundle bit_operations_syntax

subsection \<open>Machine integers\<close>

type_synonym u8 = "8 word"
type_synonym u16 = "16 word"
type_synonym u32 = "32 word"
type_synonym u64 = "64 word"
type_synonym mem = "u64 \<Rightarrow> u8"

named_theorems mem_simps \<open>reads after writes\<close>
named_theorems page_simps \<open>page arithmetic\<close>

subsection \<open>Errors and sequencing\<close>

datatype kerror =
    Panic string          \<comment> \<open>a call of \<open>panic\<close>\<close>
  | NullDeref             \<comment> \<open>a dereference of a null pointer\<close>
  | OutOfBounds           \<comment> \<open>an access outside an array\<close>
  | WouldSleep            \<comment> \<open>the caller is put to sleep on a channel\<close>
  | Diverges              \<comment> \<open>a loop whose counter wraps around and that never ends\<close>

definition bindE :: "'e + 'a \<Rightarrow> ('a \<Rightarrow> 'e + 'b) \<Rightarrow> 'e + 'b" where
  "bindE m f = (case m of Inl e \<Rightarrow> Inl e | Inr x \<Rightarrow> f x)"

lemma bindE_simps [simp]:
  "bindE (Inl e) f = Inl e"
  "bindE (Inr x) f = f x"
  by (simp_all add: bindE_def)

lemma bindE_eq_Inr [simp]: "bindE m f = Inr y \<longleftrightarrow> (\<exists>x. m = Inr x \<and> f x = Inr y)"
  by (cases m) auto

lemma bindE_eq_Inl: "bindE m f = Inl e \<longleftrightarrow> m = Inl e \<or> (\<exists>x. m = Inr x \<and> f x = Inl e)"
  by (cases m) auto

lemma bindE_assoc: "bindE (bindE m f) g = bindE m (\<lambda>x. bindE (f x) g)"
  by (cases m) simp_all

lemma bindE_cong [fundef_cong]:
  "m = m' \<Longrightarrow> (\<And>x. m' = Inr x \<Longrightarrow> f x = f' x) \<Longrightarrow> bindE m f = bindE m' f'"
  by (cases m') auto

text \<open>A \<^verbatim>\<open>for\<close> loop over given indices that stops at the first error.\<close>

primrec foldE :: "('i \<Rightarrow> 's \<Rightarrow> 'e + 's) \<Rightarrow> 'i list \<Rightarrow> 's \<Rightarrow> 'e + 's" where
  "foldE f [] s = Inr s"
| "foldE f (i # is) s = bindE (f i s) (foldE f is)"

lemma foldE_append: "foldE f (is @ js) s = bindE (foldE f is s) (foldE f js)"
  by (induction "is" arbitrary: s) (auto simp: bindE_def split: sum.splits)

lemma foldE_invariant:
  assumes "foldE f is s = Inr s'" "P s" "\<And>i s s'. i \<in> set is \<Longrightarrow> P s \<Longrightarrow> f i s = Inr s' \<Longrightarrow> P s'"
  shows "P s'"
  using assms by (induction "is" arbitrary: s) auto

subsection \<open>Word arithmetic seen as natural numbers\<close>

lemma unat_lt64 [simp]: "unat (x :: u64) < 18446744073709551616"
  using unsigned_less [where w = x and ?'a = nat] by simp

lemma unat_add64: "unat (a :: u64) + unat b < 18446744073709551616 \<Longrightarrow> unat (a + b) = unat a + unat b"
  by (simp add: unat_word_ariths)

lemma unat_add64_numeral:
  "unat (a :: u64) + n < 18446744073709551616 \<Longrightarrow> unat (a + of_nat n) = unat a + n"
  by (simp add: unat_word_ariths unat_of_nat)

lemma unat_sub64: "unat (b :: u64) \<le> unat a \<Longrightarrow> unat (a - b) = unat a - unat b"
  by (rule unat_sub) (simp add: word_le_nat_alt)

lemma unat_lt32: "unat (w :: u32) < 4294967296"
  using unsigned_less [of w] by simp

lemma unat_ucast_32_64 [simp]: "unat (ucast (w :: u32) :: u64) = unat w"
  using unat_lt32 [of w] by (simp add: unsigned_ucast_eq take_bit_nat_eq_self)

lemma unat_eq_iff64: "(a :: u64) = b \<longleftrightarrow> unat a = unat b"
  by (rule word_unat_eq_iff)

lemma unat_and_mask64: "unat ((x :: u64) AND mask n) = unat x mod 2 ^ n"
  by (metis take_bit_eq_mask take_bit_eq_mod unsigned_take_bit_eq)

lemma unat_drop64: "unat (drop_bit n (x :: u64)) = unat x div 2 ^ n"
  by (simp only: unat_drop_bit_eq) (simp add: drop_bit_eq_div)

lemma take_bit_less_exp: "unat (x :: u64) < 2 ^ n \<Longrightarrow> take_bit n x = x"
  by (simp only: word_unat_eq_iff unsigned_take_bit_eq take_bit_nat_eq_self)

lemma bit_less_exp: "unat (x :: u64) < 2 ^ n \<Longrightarrow> bit x i \<Longrightarrow> i < n"
  by (metis bit_take_bit_iff take_bit_less_exp)

lemma take_bit_eq_0_iff64: "take_bit n (x :: u64) = 0 \<longleftrightarrow> unat x mod 2 ^ n = 0"
  by (metis take_bit_eq_mod unsigned_take_bit_eq unsigned_0 word_unat_eq_iff)

subsection \<open>Byte-addressed memory\<close>

definition load64 :: "mem \<Rightarrow> u64 \<Rightarrow> u64" where
  "load64 m a =
     ucast (m a) OR push_bit 8 (ucast (m (a + 1)) OR push_bit 8 (ucast (m (a + 2))
     OR push_bit 8 (ucast (m (a + 3)) OR push_bit 8 (ucast (m (a + 4))
     OR push_bit 8 (ucast (m (a + 5)) OR push_bit 8 (ucast (m (a + 6))
     OR push_bit 8 (ucast (m (a + 7)))))))))"

definition store64 :: "mem \<Rightarrow> u64 \<Rightarrow> u64 \<Rightarrow> mem" where
  "store64 m a v =
     m(a := ucast v, a + 1 := ucast (drop_bit 8 v), a + 2 := ucast (drop_bit 16 v),
       a + 3 := ucast (drop_bit 24 v), a + 4 := ucast (drop_bit 32 v),
       a + 5 := ucast (drop_bit 40 v), a + 6 := ucast (drop_bit 48 v),
       a + 7 := ucast (drop_bit 56 v))"

text \<open>\<open>in_range a p n\<close>: the byte \<open>a\<close> is one of the \<open>n\<close> bytes at \<open>p\<close>.\<close>

definition in_range :: "u64 \<Rightarrow> u64 \<Rightarrow> nat \<Rightarrow> bool" where
  "in_range a p n \<longleftrightarrow> unat (a - p) < n"

lemma join_byte64: "(ucast (ucast (x :: u64) :: u8) :: u64) OR push_bit 8 (drop_bit 8 x) = x"
proof (rule bit_word_eqI)
  fix n assume "n < LENGTH(64)"
  then show "bit ((ucast (ucast x :: u8) :: u64) OR push_bit 8 (drop_bit 8 x)) n \<longleftrightarrow> bit x n"
    by (cases "n < 8") (auto simp: bit_simps)
qed

lemma join_drop64:
  "y = drop_bit k' (x :: u64) \<Longrightarrow> k' = k + 8
   \<Longrightarrow> ucast (ucast (drop_bit k x) :: u8) OR push_bit 8 y = drop_bit k x"
  using join_byte64 [of "drop_bit k x"] by (simp add: add.commute)

lemma last_byte64: "(ucast (ucast (drop_bit 56 (x :: u64)) :: u8) :: u64) = drop_bit 56 x"
  by (rule bit_word_eqI) (auto simp: bit_simps dest: bit_imp_le_length)

lemma load64_store64 [simp, mem_simps]: "load64 (store64 m a v) a = v"
proof -
  have "load64 (store64 m a v) a =
     ucast (ucast (drop_bit 0 v) :: u8) OR push_bit 8 (ucast (ucast (drop_bit 8 v) :: u8)
     OR push_bit 8 (ucast (ucast (drop_bit 16 v) :: u8) OR push_bit 8 (ucast (ucast (drop_bit 24 v) :: u8)
     OR push_bit 8 (ucast (ucast (drop_bit 32 v) :: u8) OR push_bit 8 (ucast (ucast (drop_bit 40 v) :: u8)
     OR push_bit 8 (ucast (ucast (drop_bit 48 v) :: u8)
     OR push_bit 8 (ucast (ucast (drop_bit 56 v) :: u8))))))))"
    by (simp add: load64_def store64_def)
  also have "\<dots> = drop_bit 0 v"
    by (rule join_drop64, rule join_drop64, rule join_drop64, rule join_drop64, rule join_drop64,
        rule join_drop64, rule join_drop64, rule last_byte64) simp_all
  finally show ?thesis by simp
qed

lemma in_range_self [simp]: "in_range p p n \<longleftrightarrow> 0 < n"
  by (simp add: in_range_def)

lemma in_range_add [simp]: "in_range (p + i) p n \<longleftrightarrow> unat i < n"
  by (simp add: in_range_def)

lemma store64_other: "\<not> in_range x a 8 \<Longrightarrow> store64 m a v x = m x"
  by (auto simp: store64_def)

lemma load64_cong:
  assumes "\<And>x. in_range x a 8 \<Longrightarrow> m x = m' x"
  shows "load64 m a = load64 m' a"
  using assms [of a] assms [of "a + 1"] assms [of "a + 2"] assms [of "a + 3"] assms [of "a + 4"]
    assms [of "a + 5"] assms [of "a + 6"] assms [of "a + 7"]
  by (simp add: load64_def)

definition aligned :: "nat \<Rightarrow> u64 \<Rightarrow> bool" where
  "aligned k a \<longleftrightarrow> unat a mod k = 0"

text \<open>For an aligned block, the bytes in range are those with the block's number.\<close>

lemma in_range_aligned:
  assumes k: "0 < k" "k dvd 18446744073709551616" and al: "aligned k p"
  shows "in_range x p k \<longleftrightarrow> unat x div k = unat p div k"
proof -
  obtain q where q: "unat p = k * q" using al by (auto simp: aligned_def)
  obtain r where r: "18446744073709551616 = k * r" using k(2) by (auto simp: dvd_def)
  have "k * q < k * r" unfolding q [symmetric] r [symmetric] by (rule unat_lt64)
  then have "q < r" using k(1) by simp
  then have qr: "k * q + k \<le> k * r" by (metis Suc_leI mult_Suc_right mult_le_mono2 add.commute)
  show ?thesis
  proof (cases "unat p \<le> unat x")
    case True
    then have "unat (x - p) = unat x - k * q" by (simp add: unat_sub64 q)
    moreover have "unat x - k * q < k \<longleftrightarrow> unat x div k = q"
    proof -
      obtain d where d: "unat x = k * q + d" using True q le_Suc_ex by metis
      have "unat x div k = q + d div k" using k(1) d by simp
      then show ?thesis using d k(1) by (auto simp: div_eq_0_iff)
    qed
    ultimately show ?thesis using q k(1) by (simp add: in_range_def)
  next
    case False
    then have "unat (x - p) = 18446744073709551616 + unat x - unat p"
      using unat_lt64 [of p] by (simp add: unat_sub_if_size word_size word_le_nat_alt)
    then have "k \<le> unat (x - p)" using qr q r by simp
    moreover have "unat x div k < q"
      using False q k(1) by (simp add: div_less_iff_less_mult mult.commute)
    ultimately show ?thesis using q k(1) by (simp add: in_range_def)
  qed
qed

lemma load64_store64_other [mem_simps]:
  assumes "aligned 8 a" "aligned 8 b" "a \<noteq> b"
  shows "load64 (store64 m a v) b = load64 m b"
proof (rule load64_cong)
  fix x assume x: "in_range x b 8"
  have "unat a div 8 \<noteq> unat b div 8"
    using assms by (auto simp: aligned_def unat_eq_iff64)
  then have "\<not> in_range x a 8" using x assms by (simp add: in_range_aligned)
  then show "store64 m a v x = m x" by (rule store64_other)
qed

text \<open>Growing a range by one byte, at either end.\<close>

lemma unat_eq_of_nat64: "n < 18446744073709551616 \<Longrightarrow> unat (x::u64) = n \<longleftrightarrow> x = of_nat n"
  by (auto simp: unat_of_nat)

lemma in_range_0 [simp]: "\<not> in_range a p 0"
  by (simp add: in_range_def)

lemma in_range_Suc_right:
  assumes "n < 18446744073709551616"
  shows "in_range a p (Suc n) \<longleftrightarrow> in_range a p n \<or> a = p + of_nat n"
  using assms by (auto simp: in_range_def less_Suc_eq unat_eq_of_nat64 algebra_simps)

lemma in_range_Suc_left:
  assumes "n < 18446744073709551616"
  shows "in_range a p (Suc n) \<longleftrightarrow> a = p \<or> in_range a (p + 1) n"
proof (cases "a = p")
  case False
  then have "0 < unat (a - p)" by (simp add: unat_gt_0)
  then have "unat (a - p) = Suc (unat (a - (p + 1)))"
    using unat_sub64 [of 1 "a - p"] by (simp add: algebra_simps)
  then show ?thesis using False by (simp add: in_range_def)
qed simp

lemma in_range_Suc_down:
  assumes "n < 18446744073709551616"
  shows "in_range a (d - of_nat (Suc n)) (Suc n) \<longleftrightarrow> a = d - 1 \<or> in_range a (d - 1 - of_nat n) n"
  using in_range_Suc_right [OF assms, of a "d - of_nat (Suc n)"] by (auto simp: algebra_simps)

subsection \<open>Separation of memory ranges\<close>

definition separate :: "u64 \<Rightarrow> nat \<Rightarrow> u64 \<Rightarrow> nat \<Rightarrow> bool" where
  "separate p n q k \<longleftrightarrow> unat p + n \<le> unat q \<or> unat q + k \<le> unat p"

lemma in_range_nowrap:
  assumes "unat p + n \<le> 18446744073709551616"
  shows "in_range a p n \<longleftrightarrow> unat p \<le> unat a \<and> unat a < unat p + n"
proof (cases "unat p \<le> unat a")
  case True
  then show ?thesis by (auto simp: in_range_def unat_sub64)
next
  case False
  then have "unat (a - p) = 18446744073709551616 + unat a - unat p"
    using unat_lt64 [of p] by (simp add: unat_sub_if_size word_size word_le_nat_alt)
  then show ?thesis using False assms by (simp add: in_range_def)
qed

lemma separate_in_range:
  assumes "separate p n q k" "unat p + n \<le> 18446744073709551616" "unat q + k \<le> 18446744073709551616"
    "in_range a p n"
  shows "\<not> in_range a q k"
  using assms by (auto simp: separate_def in_range_nowrap)

lemma in_range_offset:
  assumes "unat p + n \<le> 18446744073709551616" "i + k \<le> n"
  shows "in_range a (p + of_nat i) k \<Longrightarrow> in_range a p n"
proof (cases "k = 0")
  case False
  then have "unat (p + of_nat i) = unat p + i" using assms by (intro unat_add64_numeral) simp
  then show "in_range a (p + of_nat i) k \<Longrightarrow> in_range a p n"
    using assms by (simp add: in_range_nowrap)
qed simp

end
