(* ===== verification/Ulthread.thy ===== *)
theory Ulthread
  imports Prelude
begin

text \<open>
  The user-level threading library \<open>user/ulthread.c\<close> with its header and the context switch of
  \<open>user/ulthread_swtch.S\<close> (Project 3). The state holds the library's globals, the registers of the
  processor that the context switch saves and loads, and the trace of the lines the library prints.
  One iteration of the scheduler's endless loop is a definition that either returns from
  \<open>ulthread_schedule\<close> or switches to a thread; the step relation \<open>ul_step\<close> interleaves the
  scheduler, the main program and the threads at the calls of the library.

  A local variable with value -1 for "none" is an option. When no thread is left the priority
  scheduler reads \<open>ul_thread[-1].priority\<close>; the parameter \<open>junk\<close> is the value found there.
\<close>

subsection \<open>Data\<close>

definition MAXULTHREADS :: nat where "MAXULTHREADS = 100"

datatype ulthread_state = FREE | RUNNABLE | YIELD

datatype ulthread_scheduling_algorithm = ROUNDROBIN | PRIORITY | FCFS

record ulcontext =
  c_ra :: u64
  c_sp :: u64
  c_s0 :: u64
  c_s1 :: u64
  c_s2 :: u64
  c_s3 :: u64
  c_s4 :: u64
  c_s5 :: u64
  c_s6 :: u64
  c_s7 :: u64
  c_s8 :: u64
  c_s9 :: u64
  c_s10 :: u64
  c_s11 :: u64

definition zero_context :: ulcontext where
  "zero_context = \<lparr>c_ra = 0, c_sp = 0, c_s0 = 0, c_s1 = 0, c_s2 = 0, c_s3 = 0, c_s4 = 0, c_s5 = 0,
     c_s6 = 0, c_s7 = 0, c_s8 = 0, c_s9 = 0, c_s10 = 0, c_s11 = 0\<rparr>"

record ulthread =
  tid :: int
  state :: ulthread_state
  priority :: int
  stack :: u64
  ctx :: ulcontext
  time_created :: u64

datatype ul_event = EvCreate int u64 u64 | EvSchedule int | EvYield int | EvDestroy int

record ulstate =
  ul_thread :: "ulthread list"
  algorithm :: ulthread_scheduling_algorithm
  current_tid :: nat
  prev_tid :: nat
  regs :: ulcontext
  arg_regs :: "u64 list"
  trace :: "ul_event list"

definition set_thread :: "nat \<Rightarrow> (ulthread \<Rightarrow> ulthread) \<Rightarrow> ulstate \<Rightarrow> ulstate" where
  "set_thread i f s = s\<lparr>ul_thread := (ul_thread s)[i := f (ul_thread s ! i)]\<rparr>"

definition emit :: "ul_event \<Rightarrow> ulstate \<Rightarrow> ulstate" where
  "emit e s = s\<lparr>trace := trace s @ [e]\<rparr>"

subsection \<open>The context switch\<close>

definition ulthread_context_switch :: "nat \<Rightarrow> nat \<Rightarrow> ulstate \<Rightarrow> ulstate" where
  "ulthread_context_switch old new s =
     (let s1 = set_thread old (\<lambda>t. t\<lparr>ctx := regs s\<rparr>) s; c = ctx (ul_thread s1 ! new) in
      s1\<lparr>regs := c, arg_regs := [c_s0 c, c_s1 c, c_s2 c, c_s3 c, c_s4 c, c_s5 c]\<rparr>)"

subsection \<open>Operations\<close>

definition get_current_tid :: "ulstate \<Rightarrow> nat" where
  "get_current_tid s = current_tid s"

definition ulthread_init :: "ulthread_scheduling_algorithm \<Rightarrow> ulstate \<Rightarrow> ulstate" where
  "ulthread_init schedalgo s =
     (let ts = map (\<lambda>t. t\<lparr>tid := - 1\<rparr>) (ul_thread s) in
      s\<lparr>ul_thread := ts[0 := (ts ! 0)\<lparr>state := RUNNABLE, tid := 0\<rparr>], algorithm := schedalgo\<rparr>)"

text \<open>The slot \<open>ulthread_create\<close> uses: the first one from 1 with \<open>tid = -1\<close>, and slot 0 if there is none.\<close>

definition create_slot :: "ulthread list \<Rightarrow> nat" where
  "create_slot ts = (case find (\<lambda>i. tid (ts ! i) = - 1) [1..<MAXULTHREADS] of None \<Rightarrow> 0 | Some i \<Rightarrow> i)"

definition ulthread_create :: "u64 \<Rightarrow> u64 \<Rightarrow> u64 list \<Rightarrow> int \<Rightarrow> ulstate \<Rightarrow> ulstate" where
  "ulthread_create start stk args prio s =
     (let i = create_slot (ul_thread s) in
      emit (EvCreate (int i) start stk)
        (set_thread i (\<lambda>t. t\<lparr>tid := int i, state := RUNNABLE, priority := prio,
            ctx := zero_context\<lparr>c_ra := start, c_sp := stk, c_s0 := args ! 0, c_s1 := args ! 1,
              c_s2 := args ! 2, c_s3 := args ! 3, c_s4 := args ! 4, c_s5 := args ! 5\<rparr>\<rparr>) s))"

definition ulthread_yield :: "ulstate \<Rightarrow> ulstate" where
  "ulthread_yield s =
     (let s1 = emit (EvYield (tid (ul_thread s ! current_tid s))) s;
          s2 = set_thread (current_tid s1) (\<lambda>t. t\<lparr>state := YIELD\<rparr>) s1 in
      ulthread_context_switch (current_tid s2) 0 s2)"

definition ulthread_destroy :: "ulstate \<Rightarrow> ulstate" where
  "ulthread_destroy s =
     (if current_tid s \<noteq> 0
      then let s1 = emit (EvDestroy (tid (ul_thread s ! current_tid s))) s;
               s2 = set_thread (current_tid s1) (\<lambda>t. t\<lparr>state := FREE, tid := - 1\<rparr>) s1;
               s3 = s2\<lparr>prev_tid := current_tid s2\<rparr> in
        ulthread_context_switch (current_tid s3) 0 s3
      else s)"

subsection \<open>The scheduler\<close>

datatype sched_out = Returned ulstate | Switched ulstate

definition first_runnable :: "ulthread list \<Rightarrow> nat option" where
  "first_runnable ts = find (\<lambda>i. state (ts ! i) = RUNNABLE) [1..<MAXULTHREADS]"

text \<open>When no thread is runnable, those that yielded become runnable again; the last one is remembered.\<close>

definition revive_step :: "nat \<Rightarrow> ulthread list \<times> nat option \<Rightarrow> ulthread list \<times> nat option" where
  "revive_step i = (\<lambda>(ts, np).
     if state (ts ! i) = YIELD then (ts[i := (ts ! i)\<lparr>state := RUNNABLE\<rparr>], Some i) else (ts, np))"

definition revive :: "ulthread list \<Rightarrow> ulthread list \<times> nat option" where
  "revive ts = fold revive_step [1..<MAXULTHREADS] (ts, None)"

definition priority_at :: "int \<Rightarrow> ulthread list \<Rightarrow> nat option \<Rightarrow> int" where
  "priority_at junk ts np = (case np of None \<Rightarrow> junk | Some i \<Rightarrow> priority (ts ! i))"

definition highest_priority :: "int \<Rightarrow> ulthread list \<Rightarrow> nat option \<Rightarrow> nat option" where
  "highest_priority junk ts np =
     fold (\<lambda>i np. if priority (ts ! i) > priority_at junk ts np \<and> state (ts ! i) = RUNNABLE
                   then Some i else np) [1..<MAXULTHREADS] np"

definition earliest_created :: "ulthread list \<Rightarrow> nat \<Rightarrow> nat" where
  "earliest_created ts np =
     fold (\<lambda>i np. if time_created (ts ! i) < time_created (ts ! np) \<and> state (ts ! i) = RUNNABLE
                   then i else np) [1..<MAXULTHREADS] np"

text \<open>The part the priority and the first-come-first-served branches share.\<close>

definition candidate :: "int \<Rightarrow> ulthread list \<Rightarrow> ulthread list \<times> nat option" where
  "candidate junk ts =
     (case first_runnable ts of
        Some i \<Rightarrow> (ts, Some i)
      | None \<Rightarrow> let (ts', np) = revive ts in (ts', highest_priority junk ts' np))"

text \<open>A previous thread that yielded becomes runnable again, and the scheduler's context (slot 0) is
  exchanged for that of the chosen thread.\<close>

definition dispatch :: "nat \<Rightarrow> ulstate \<Rightarrow> ulstate" where
  "dispatch next_t s =
     (let s1 = s\<lparr>prev_tid := current_tid s, current_tid := next_t\<rparr>;
          s2 = (if prev_tid s1 \<noteq> 0 \<and> state (ul_thread s1 ! prev_tid s1) = YIELD
                then set_thread (prev_tid s1) (\<lambda>t. t\<lparr>state := RUNNABLE\<rparr>) s1 else s1) in
      ulthread_context_switch 0 (current_tid s2) s2)"

definition MAX_INT :: int where "MAX_INT = 2147483647"

definition fcfs_iteration :: "int \<Rightarrow> ulstate \<Rightarrow> sched_out" where
  "fcfs_iteration junk s =
     (let (ts, np) = candidate junk (ul_thread s); s1 = s\<lparr>ul_thread := ts\<rparr> in
      case np of None \<Rightarrow> Returned s1
      | Some i \<Rightarrow> Switched (dispatch (earliest_created ts i) (emit (EvSchedule MAX_INT) s1)))"

definition rr_find :: "nat \<Rightarrow> ulthread list \<Rightarrow> nat option" where
  "rr_find cur ts =
     find (\<lambda>e. e \<noteq> 0 \<and> state (ts ! e) = RUNNABLE) (map (\<lambda>i. (cur + i) mod MAXULTHREADS) [0..<MAXULTHREADS])"

definition rr_iteration :: "ulstate \<Rightarrow> sched_out" where
  "rr_iteration s =
     (case rr_find (current_tid s) (ul_thread s) of
        None \<Rightarrow> Returned s
      | Some e \<Rightarrow>
          let s1 = emit (EvSchedule (int e)) s in
          if e = current_tid s1 then Returned (s1\<lparr>prev_tid := current_tid s1\<rparr>)
          else Switched (dispatch e s1))"

definition priority_iteration :: "int \<Rightarrow> ulstate \<Rightarrow> sched_out" where
  "priority_iteration junk s =
     (let (ts, np) = candidate junk (ul_thread s); s1 = s\<lparr>ul_thread := ts\<rparr> in
      case np of None \<Rightarrow> Returned s1
      | Some i \<Rightarrow>
          let n = (case highest_priority junk ts (Some i) of None \<Rightarrow> i | Some n \<Rightarrow> n) in
          Switched (dispatch n (emit (EvSchedule (tid (ts ! n))) s1)))"

definition schedule_iteration :: "int \<Rightarrow> ulstate \<Rightarrow> sched_out" where
  "schedule_iteration junk s =
     (case algorithm s of FCFS \<Rightarrow> fcfs_iteration junk s
      | ROUNDROBIN \<Rightarrow> rr_iteration s
      | PRIORITY \<Rightarrow> priority_iteration junk s)"

subsection \<open>Interleaving\<close>

text \<open>Who runs: the main program outside the scheduler, the scheduler at the head of its loop, or the
  current thread. A thread may change the registers in any way, create threads (while a slot is free),
  yield or end.\<close>

datatype control = Main_Program | Scheduler | Thread

inductive ul_step :: "int \<Rightarrow> control \<times> ulstate \<Rightarrow> control \<times> ulstate \<Rightarrow> bool" for junk where
  compute: "c \<noteq> Scheduler \<Longrightarrow> ul_step junk (c, s) (c, s\<lparr>regs := r, arg_regs := as\<rparr>)"
| create: "c \<noteq> Scheduler \<Longrightarrow> create_slot (ul_thread s) \<noteq> 0 \<Longrightarrow>
    ul_step junk (c, s) (c, ulthread_create start stk args prio s)"
| call: "ul_step junk (Main_Program, s) (Scheduler, s)"
| switch: "schedule_iteration junk s = Switched s' \<Longrightarrow> ul_step junk (Scheduler, s) (Thread, s')"
| return: "schedule_iteration junk s = Returned s' \<Longrightarrow> ul_step junk (Scheduler, s) (Main_Program, s')"
| yield: "ul_step junk (Thread, s) (Scheduler, ulthread_yield s)"
| destroy: "ul_step junk (Thread, s) (Scheduler, ulthread_destroy s)"

inductive_cases ul_step_switch: "ul_step junk (Scheduler, s) (Thread, s')"
inductive_cases ul_step_cases: "ul_step junk (c, s) (c', s')"

subsection \<open>Selection loops\<close>

lemma find_Some_iff_first:
  "find P xs = Some x \<Longrightarrow> x \<in> set xs \<and> P x"
  by (auto simp: find_Some_iff)

text \<open>A loop that keeps the best index seen so far.\<close>

lemma fold_argmax:
  fixes f :: "'a \<Rightarrow> int"
  assumes "r = fold (\<lambda>i b. if f b < f i \<and> P i then i else b) xs b"
  shows "(r = b \<or> r \<in> set xs \<and> P r) \<and> f b \<le> f r \<and> (\<forall>i \<in> set xs. P i \<longrightarrow> f i \<le> f r)"
  using assms
proof (induction xs arbitrary: b)
  case (Cons x xs)
  then have "r = fold (\<lambda>i b. if f b < f i \<and> P i then i else b) xs (if f b < f x \<and> P x then x else b)" by simp
  from Cons.IH [OF this] show ?case by (auto split: if_splits)
qed simp

lemma highest_priority_Some:
  "highest_priority junk ts (Some b) =
     Some (fold (\<lambda>i b. if priority (ts ! b) < priority (ts ! i) \<and> state (ts ! i) = RUNNABLE then i else b)
       [1..<MAXULTHREADS] b)"
proof -
  have "fold (\<lambda>i np. if priority (ts ! i) > priority_at junk ts np \<and> state (ts ! i) = RUNNABLE then Some i else np)
      xs (Some b) = Some (fold (\<lambda>i b. if priority (ts ! b) < priority (ts ! i) \<and> state (ts ! i) = RUNNABLE
        then i else b) xs b)" for xs
    by (induction xs arbitrary: b) (simp_all add: priority_at_def)
  then show ?thesis by (simp add: highest_priority_def)
qed

definition slots :: "nat set" where
  "slots = {1..<MAXULTHREADS}"

lemma slots_iff: "i \<in> slots \<longleftrightarrow> i \<noteq> 0 \<and> i < 100"
  by (auto simp: slots_def MAXULTHREADS_def)

lemma set_upt_slots: "set [1..<MAXULTHREADS] = slots"
  by (simp add: slots_def)

definition best :: "ulthread list \<Rightarrow> nat \<Rightarrow> bool" where
  "best ts n \<longleftrightarrow> n \<in> slots \<and> state (ts ! n) = RUNNABLE \<and>
     (\<forall>i \<in> slots. state (ts ! i) = RUNNABLE \<longrightarrow> priority (ts ! i) \<le> priority (ts ! n))"

definition earliest :: "ulthread list \<Rightarrow> nat \<Rightarrow> bool" where
  "earliest ts n \<longleftrightarrow> n \<in> slots \<and> state (ts ! n) = RUNNABLE \<and>
     (\<forall>i \<in> slots. state (ts ! i) = RUNNABLE \<longrightarrow> time_created (ts ! n) \<le> time_created (ts ! i))"

lemma highest_priority_best:
  assumes "b \<in> slots" "state (ts ! b) = RUNNABLE"
  shows "\<exists>n. highest_priority junk ts (Some b) = Some n \<and> best ts n"
  using fold_argmax [of _ "\<lambda>i. priority (ts ! i)" "\<lambda>i. state (ts ! i) = RUNNABLE" "[1..<MAXULTHREADS]" b, OF refl] assms
  unfolding highest_priority_Some best_def set_upt_slots by auto

lemma highest_priority_None:
  assumes "\<forall>i \<in> slots. state (ts ! i) \<noteq> RUNNABLE"
  shows "highest_priority junk ts None = None"
proof -
  have "set xs \<subseteq> slots \<Longrightarrow> fold (\<lambda>i np. if priority (ts ! i) > priority_at junk ts np \<and> state (ts ! i) = RUNNABLE
      then Some i else np) xs None = None" for xs
    using assms by (induction xs) auto
  then show ?thesis unfolding highest_priority_def using set_upt_slots by blast
qed

lemma earliest_created_earliest:
  assumes "b \<in> slots" "state (ts ! b) = RUNNABLE"
  shows "earliest ts (earliest_created ts b)"
  using fold_argmax [of _ "\<lambda>i. - uint (time_created (ts ! i))" "\<lambda>i. state (ts ! i) = RUNNABLE" "[1..<MAXULTHREADS]" b, OF refl] assms
  unfolding earliest_created_def earliest_def set_upt_slots
  by (auto simp: word_less_def word_le_def)

subsection \<open>Reviving\<close>

definition wake :: "ulthread \<Rightarrow> ulthread" where
  "wake t = (if state t = YIELD then t\<lparr>state := RUNNABLE\<rparr> else t)"

lemma fold_revive_step:
  assumes "distinct xs" "\<forall>i \<in> set xs. i < length ts"
  shows "length (fst (fold revive_step xs (ts, np))) = length ts \<and>
     (\<forall>j < length ts. fst (fold revive_step xs (ts, np)) ! j = (if j \<in> set xs then wake (ts ! j) else ts ! j)) \<and>
     (if \<exists>i \<in> set xs. state (ts ! i) = YIELD
      then \<exists>i \<in> set xs. state (ts ! i) = YIELD \<and> snd (fold revive_step xs (ts, np)) = Some i
      else snd (fold revive_step xs (ts, np)) = np)"
  using assms
proof (induction xs arbitrary: ts np)
  case (Cons x xs)
  let ?ts = "ts[x := wake (ts ! x)]"
  have step: "revive_step x (ts, np) = (?ts, if state (ts ! x) = YIELD then Some x else np)"
    using Cons.prems by (auto simp: revive_step_def wake_def)
  have eq: "state (?ts ! i) = YIELD \<longleftrightarrow> state (ts ! i) = YIELD" if "i \<in> set xs" for i
    using that Cons.prems by (auto simp: nth_list_update)
  show ?case
    using Cons.IH [of ?ts "if state (ts ! x) = YIELD then Some x else np"] Cons.prems eq
    by (auto simp: step nth_list_update split: if_splits)
qed simp

lemma revive_spec:
  assumes "length ts = MAXULTHREADS"
  shows "length (fst (revive ts)) = length ts"
    and "j < MAXULTHREADS \<Longrightarrow> fst (revive ts) ! j = (if j \<in> slots then wake (ts ! j) else ts ! j)"
    and "if \<exists>i \<in> slots. state (ts ! i) = YIELD
         then \<exists>i \<in> slots. state (ts ! i) = YIELD \<and> snd (revive ts) = Some i else snd (revive ts) = None"
proof -
  have "distinct [1..<MAXULTHREADS]" "\<forall>i \<in> set [1..<MAXULTHREADS]. i < length ts" using assms by auto
  note f = fold_revive_step [OF this, of None, folded revive_def, unfolded set_upt_slots]
  show "length (fst (revive ts)) = length ts" using f by blast
  show "if \<exists>i \<in> slots. state (ts ! i) = YIELD
    then \<exists>i \<in> slots. state (ts ! i) = YIELD \<and> snd (revive ts) = Some i else snd (revive ts) = None"
    using f by blast
  show "fst (revive ts) ! j = (if j \<in> slots then wake (ts ! j) else ts ! j)" if "j < MAXULTHREADS"
    using f that assms by simp
qed

text \<open>What the shared part of the two schedulers hands on.\<close>

definition woken :: "ulthread list \<Rightarrow> ulthread list" where
  "woken ts = (if \<exists>i \<in> slots. state (ts ! i) = RUNNABLE then ts
     else map (\<lambda>j. if j \<in> slots then wake (ts ! j) else ts ! j) [0..<length ts])"

lemma revive_woken:
  assumes "length ts = MAXULTHREADS" "\<forall>i \<in> slots. state (ts ! i) \<noteq> RUNNABLE"
  shows "fst (revive ts) = woken ts"
  using revive_spec(1,2) [OF assms(1)] assms by (intro nth_equalityI) (auto simp: woken_def)

lemma candidate_spec:
  assumes "length ts = MAXULTHREADS"
  shows "fst (candidate junk ts) = woken ts"
    and "if \<exists>i \<in> slots. state (ts ! i) \<noteq> FREE
         then \<exists>i \<in> slots. state (woken ts ! i) = RUNNABLE \<and> snd (candidate junk ts) = Some i
         else snd (candidate junk ts) = None"
proof -
  have "fst (candidate junk ts) = woken ts \<and>
    (if \<exists>i \<in> slots. state (ts ! i) \<noteq> FREE
     then \<exists>i \<in> slots. state (woken ts ! i) = RUNNABLE \<and> snd (candidate junk ts) = Some i
     else snd (candidate junk ts) = None)"
  proof (cases "first_runnable ts")
    case (Some i)
    then have "i \<in> slots" "state (ts ! i) = RUNNABLE"
      unfolding first_runnable_def set_upt_slots [symmetric] by (auto dest: find_Some_iff_first)
    moreover from this have "\<exists>i \<in> slots. state (ts ! i) \<noteq> FREE" by (intro bexI [of _ i]) auto
    ultimately show ?thesis using Some by (auto simp: candidate_def woken_def)
  next
    case None
    then have none: "\<forall>i \<in> slots. state (ts ! i) \<noteq> RUNNABLE"
      unfolding first_runnable_def set_upt_slots [symmetric] by (auto simp: find_None_iff)
    note rw = revive_woken [OF assms none]
    have c: "candidate junk ts = (woken ts, highest_priority junk (woken ts) (snd (revive ts)))"
      using None rw by (simp add: candidate_def split_beta)
    show ?thesis
    proof (cases "\<exists>i \<in> slots. state (ts ! i) = YIELD")
      case True
      then obtain b where b: "b \<in> slots" "state (ts ! b) = YIELD" "snd (revive ts) = Some b"
        using revive_spec(3) [OF assms] by auto
      have "state (woken ts ! b) = RUNNABLE"
        using revive_spec(2) [OF assms, of b] b rw by (simp add: slots_def wake_def)
      from highest_priority_best [OF b(1) this, of junk] show ?thesis
        using c b(3) True by (auto simp: best_def)
    next
      case False
      then have free: "\<forall>i \<in> slots. state (ts ! i) = FREE" using none by (metis ulthread_state.exhaust)
      have "\<forall>i \<in> slots. state (woken ts ! i) \<noteq> RUNNABLE"
        using revive_spec(2) [OF assms] free rw by (auto simp: slots_def wake_def)
      then show ?thesis using c free revive_spec(3) [OF assms] highest_priority_None by auto
    qed
  qed
  then show "fst (candidate junk ts) = woken ts"
    and "if \<exists>i \<in> slots. state (ts ! i) \<noteq> FREE
         then \<exists>i \<in> slots. state (woken ts ! i) = RUNNABLE \<and> snd (candidate junk ts) = Some i
         else snd (candidate junk ts) = None" by blast+
qed

subsection \<open>Round robin\<close>

text \<open>How far \<open>t\<close> is ahead of \<open>cur\<close> in the cyclic order.\<close>

definition ahead :: "nat \<Rightarrow> nat \<Rightarrow> nat" where
  "ahead cur t = (t + MAXULTHREADS - cur) mod MAXULTHREADS"

lemma ahead_less: "ahead cur t < MAXULTHREADS"
  by (simp add: ahead_def MAXULTHREADS_def)

lemma ahead_reaches: "cur < MAXULTHREADS \<Longrightarrow> t < MAXULTHREADS \<Longrightarrow> (cur + ahead cur t) mod MAXULTHREADS = t"
  by (cases "cur \<le> t") (auto simp: ahead_def MAXULTHREADS_def mod_if)

lemma ahead_offset:
  "cur < MAXULTHREADS \<Longrightarrow> k < MAXULTHREADS \<Longrightarrow> ahead cur ((cur + k) mod MAXULTHREADS) = k"
  by (auto simp: ahead_def MAXULTHREADS_def mod_if)

lemma rr_find_Some:
  assumes "rr_find cur ts = Some e" "cur < MAXULTHREADS"
  shows "e \<in> slots \<and> state (ts ! e) = RUNNABLE \<and>
     (\<forall>t \<in> slots. state (ts ! t) = RUNNABLE \<longrightarrow> ahead cur e \<le> ahead cur t)"
proof -
  let ?xs = "map (\<lambda>i. (cur + i) mod MAXULTHREADS) [0..<MAXULTHREADS]"
  obtain k where k: "k < MAXULTHREADS" "e = (cur + k) mod MAXULTHREADS" "e \<noteq> 0" "state (ts ! e) = RUNNABLE"
    and first: "\<forall>j < k. \<not> ((cur + j) mod MAXULTHREADS \<noteq> 0 \<and> state (ts ! ((cur + j) mod MAXULTHREADS)) = RUNNABLE)"
    using assms(1) by (auto simp: rr_find_def find_Some_iff)
  have "e < MAXULTHREADS" using k(2) by (simp add: MAXULTHREADS_def)
  moreover have "ahead cur e \<le> ahead cur t" if t: "t \<in> slots" "state (ts ! t) = RUNNABLE" for t
  proof (rule ccontr)
    assume "\<not> ahead cur e \<le> ahead cur t"
    then have "ahead cur t < k" using ahead_offset [OF assms(2) k(1)] k(2) by simp
    moreover have "(cur + ahead cur t) mod MAXULTHREADS = t"
      using t(1) assms(2) by (intro ahead_reaches) (auto simp: slots_def)
    ultimately show False using first t by (auto simp: slots_def)
  qed
  ultimately show ?thesis using k by (auto simp: slots_def)
qed

lemma rr_find_None:
  assumes "cur < MAXULTHREADS"
  shows "rr_find cur ts = None \<longleftrightarrow> (\<forall>t \<in> slots. state (ts ! t) \<noteq> RUNNABLE)"
proof
  assume n: "rr_find cur ts = None"
  show "\<forall>t \<in> slots. state (ts ! t) \<noteq> RUNNABLE"
  proof
    fix t assume t: "t \<in> slots"
    then have "t \<in> set (map (\<lambda>i. (cur + i) mod MAXULTHREADS) [0..<MAXULTHREADS])"
      using ahead_reaches [OF assms, of t] ahead_less [of cur t]
      by (auto simp: slots_def intro!: image_eqI [of _ _ "ahead cur t"])
    then show "state (ts ! t) \<noteq> RUNNABLE" using n t by (auto simp: rr_find_def find_None_iff slots_def)
  qed
next
  assume "\<forall>t \<in> slots. state (ts ! t) \<noteq> RUNNABLE"
  then show "rr_find cur ts = None"
    by (auto simp: rr_find_def find_None_iff slots_def MAXULTHREADS_def)
qed

subsection \<open>Dispatching\<close>

lemma dispatch_simps:
  assumes "length (ul_thread s) = MAXULTHREADS" "current_tid s < MAXULTHREADS" "n \<in> slots"
  shows "current_tid (dispatch n s) = n" "length (ul_thread (dispatch n s)) = MAXULTHREADS"
    and "prev_tid (dispatch n s) = current_tid s"
    and "regs (dispatch n s) = ctx (ul_thread s ! n)"
    and "j \<in> slots \<Longrightarrow> ul_thread (dispatch n s) ! j =
       (if j = current_tid s then wake (ul_thread s ! j) else ul_thread s ! j)"
    and "ul_thread (dispatch n s) ! 0 = (ul_thread s ! 0)\<lparr>ctx := regs s\<rparr>"
    and "algorithm (dispatch n s) = algorithm s" "trace (dispatch n s) = trace s"
    and "arg_regs (dispatch n s) = (let c = ctx (ul_thread s ! n) in [c_s0 c, c_s1 c, c_s2 c, c_s3 c, c_s4 c, c_s5 c])"
  using assms
  by (auto simp: dispatch_def ulthread_context_switch_def set_thread_def Let_def nth_list_update slots_def
      wake_def MAXULTHREADS_def)

subsection \<open>Invariant\<close>

definition slot_ok :: "nat \<Rightarrow> ulthread \<Rightarrow> bool" where
  "slot_ok i t \<longleftrightarrow> (tid t = - 1 \<and> state t = FREE) \<or> (tid t = int i \<and> state t \<noteq> FREE)"

definition ul_wf :: "ulstate \<Rightarrow> bool" where
  "ul_wf s \<longleftrightarrow> length (ul_thread s) = MAXULTHREADS \<and> current_tid s < MAXULTHREADS \<and>
     tid (ul_thread s ! 0) = 0 \<and> (\<forall>i \<in> slots. slot_ok i (ul_thread s ! i))"

definition ul_inv :: "control \<times> ulstate \<Rightarrow> bool" where
  "ul_inv = (\<lambda>(c, s). ul_wf s \<and>
     (c = Thread \<longrightarrow> current_tid s \<in> slots \<and> state (ul_thread s ! current_tid s) = RUNNABLE))"

lemma wake_fields [simp]:
  "tid (wake t) = tid t" "ctx (wake t) = ctx t" "priority (wake t) = priority t"
  "state (wake t) = FREE \<longleftrightarrow> state t = FREE" "slot_ok i (wake t) \<longleftrightarrow> slot_ok i t"
  "state t = RUNNABLE \<Longrightarrow> state (wake t) = RUNNABLE"
  by (auto simp: wake_def slot_ok_def)

lemma woken_nth:
  assumes "length ts = MAXULTHREADS" "j < MAXULTHREADS"
  shows "woken ts ! j = ts ! j \<or> j \<in> slots \<and> woken ts ! j = wake (ts ! j)"
  using assms by (auto simp: woken_def)

lemma length_woken [simp]: "length (woken ts) = length ts"
  by (simp add: woken_def)

lemma woken_fields:
  assumes "length ts = MAXULTHREADS" "j < MAXULTHREADS"
  shows "tid (woken ts ! j) = tid (ts ! j)" "ctx (woken ts ! j) = ctx (ts ! j)"
    "slot_ok i (woken ts ! j) \<longleftrightarrow> slot_ok i (ts ! j)" "state (woken ts ! j) = FREE \<longleftrightarrow> state (ts ! j) = FREE"
    "priority (woken ts ! j) = priority (ts ! j)"
  using woken_nth [OF assms] by auto

lemma MAXULTHREADS_pos [simp]: "0 < MAXULTHREADS"
  by (simp add: MAXULTHREADS_def)

lemma slots_less: "i \<in> slots \<Longrightarrow> i < MAXULTHREADS"
  by (simp add: slots_def)

lemma ul_wf_dispatch:
  assumes "ul_wf s" "n \<in> slots" "state (ul_thread s ! n) = RUNNABLE"
  shows "ul_inv (Thread, dispatch n s)"
  using assms dispatch_simps [of s n] by (auto simp: ul_wf_def ul_inv_def slots_less)

text \<open>What one iteration does, whatever the algorithm: it returns the table with no thread lost, or it
  dispatches a runnable thread from a table in which at most threads that yielded were woken.\<close>

lemma iteration_cases:
  assumes "ul_wf s"
  obtains (ret) s' where "schedule_iteration junk s = Returned s'" "ul_wf s'"
      "ul_thread s' = ul_thread s \<or> ul_thread s' = woken (ul_thread s)"
  | (go) n s1 where "schedule_iteration junk s = Switched (dispatch n s1)" "n \<in> slots"
      "state (ul_thread s1 ! n) = RUNNABLE" "ul_wf s1" "regs s1 = regs s" "current_tid s1 = current_tid s"
      "ul_thread s1 = ul_thread s \<or> ul_thread s1 = woken (ul_thread s)"
proof -
  have len: "length (ul_thread s) = MAXULTHREADS" and cur: "current_tid s < MAXULTHREADS"
    using assms by (auto simp: ul_wf_def)
  note c = candidate_spec [OF len, of junk]
  have wf: "ul_wf (s\<lparr>ul_thread := woken (ul_thread s)\<rparr>)"
    using assms woken_fields [OF len] by (auto simp: ul_wf_def slots_less)
  have emit: "ul_wf (emit e x) = ul_wf x" "ul_thread (emit e x) = ul_thread x" "regs (emit e x) = regs x"
    "current_tid (emit e x) = current_tid x" for e x by (auto simp: emit_def ul_wf_def)
  show thesis
  proof (cases "algorithm s")
    case ROUNDROBIN
    show thesis
    proof (cases "rr_find (current_tid s) (ul_thread s)")
      case None
      then show thesis using ROUNDROBIN assms by (intro ret [of s]) (auto simp: schedule_iteration_def rr_iteration_def)
    next
      case (Some e)
      note rr = rr_find_Some [OF Some cur]
      show thesis
      proof (cases "e = current_tid s")
        case True
        then show thesis using ROUNDROBIN assms Some
          by (intro ret [of "(emit (EvSchedule (int e)) s)\<lparr>prev_tid := current_tid s\<rparr>"])
            (auto simp: schedule_iteration_def rr_iteration_def emit_def ul_wf_def)
      next
        case False
        then show thesis using ROUNDROBIN assms Some rr
          by (intro go [of e "emit (EvSchedule (int e)) s"])
            (auto simp: schedule_iteration_def rr_iteration_def emit Let_def)
      qed
    qed
  next
    case PRIORITY
    show thesis
    proof (cases "snd (candidate junk (ul_thread s))")
      case None
      then show thesis using PRIORITY wf c(1)
        by (intro ret [of "s\<lparr>ul_thread := woken (ul_thread s)\<rparr>"])
          (auto simp: schedule_iteration_def priority_iteration_def split_beta Let_def)
    next
      case (Some i)
      then have "i \<in> slots" "state (woken (ul_thread s) ! i) = RUNNABLE" using c(2) by (auto split: if_splits)
      from highest_priority_best [OF this, of junk] obtain n where
        n: "highest_priority junk (woken (ul_thread s)) (Some i) = Some n" "best (woken (ul_thread s)) n" by auto
      then show thesis using PRIORITY wf c(1) Some
        by (intro go [of n "emit (EvSchedule (tid (woken (ul_thread s) ! n))) (s\<lparr>ul_thread := woken (ul_thread s)\<rparr>)"])
          (auto simp: schedule_iteration_def priority_iteration_def split_beta Let_def emit best_def)
    qed
  next
    case FCFS
    show thesis
    proof (cases "snd (candidate junk (ul_thread s))")
      case None
      then show thesis using FCFS wf c(1)
        by (intro ret [of "s\<lparr>ul_thread := woken (ul_thread s)\<rparr>"])
          (auto simp: schedule_iteration_def fcfs_iteration_def split_beta Let_def)
    next
      case (Some i)
      then have "i \<in> slots" "state (woken (ul_thread s) ! i) = RUNNABLE" using c(2) by (auto split: if_splits)
      from earliest_created_earliest [OF this]
      show thesis using FCFS wf c(1) Some
        by (intro go [of "earliest_created (woken (ul_thread s)) i"
              "emit (EvSchedule MAX_INT) (s\<lparr>ul_thread := woken (ul_thread s)\<rparr>)"])
          (auto simp: schedule_iteration_def fcfs_iteration_def split_beta Let_def emit earliest_def)
    qed
  qed
qed

lemma create_slot_free:
  assumes "create_slot ts \<noteq> 0"
  shows "create_slot ts \<in> slots" "tid (ts ! create_slot ts) = - 1"
  using assms find_Some_iff_first [of "\<lambda>i. tid (ts ! i) = - 1" "[1..<MAXULTHREADS]"]
  by (auto simp: create_slot_def slots_def split: option.splits)

lemma ul_wf_create:
  assumes "ul_wf s" "create_slot (ul_thread s) \<noteq> 0"
  shows "ul_wf (ulthread_create start stk args prio s)"
  using assms create_slot_free [OF assms(2)]
  by (auto simp: ul_wf_def ulthread_create_def emit_def set_thread_def Let_def nth_list_update slot_ok_def slots_less)

lemma ul_wf_yield_destroy:
  assumes "ul_inv (Thread, s)"
  shows "ul_wf (ulthread_yield s)" "ul_wf (ulthread_destroy s)"
proof -
  have cur: "current_tid s \<in> slots" "current_tid s \<noteq> 0" "slot_ok (current_tid s) (ul_thread s ! current_tid s)"
      "state (ul_thread s ! current_tid s) = RUNNABLE"
    using assms by (auto simp: ul_inv_def ul_wf_def slots_iff)
  then show "ul_wf (ulthread_yield s)" "ul_wf (ulthread_destroy s)"
    using assms by (auto simp: ul_inv_def ul_wf_def ulthread_yield_def ulthread_destroy_def emit_def
        set_thread_def Let_def ulthread_context_switch_def nth_list_update slot_ok_def)
qed

lemma ul_step_inv:
  assumes "ul_step junk x y" "ul_inv x"
  shows "ul_inv y"
  using assms
proof (cases rule: ul_step.cases)
  case (compute c s r as)
  then show ?thesis using assms(2) by (auto simp: ul_inv_def ul_wf_def)
next
  case (create c s start stk args prio)
  then have "ul_wf (ulthread_create start stk args prio s)" using assms(2) by (auto simp: ul_inv_def ul_wf_create)
  moreover have "state (ul_thread (ulthread_create start stk args prio s) ! i) = RUNNABLE"
    if "state (ul_thread s ! i) = RUNNABLE" for i
    using that create create_slot_free [of "ul_thread s"] assms(2)
    by (auto simp: ulthread_create_def emit_def set_thread_def Let_def nth_list_update ul_inv_def ul_wf_def slots_less)
  moreover have "current_tid (ulthread_create start stk args prio s) = current_tid s"
    by (simp add: ulthread_create_def emit_def set_thread_def Let_def)
  ultimately show ?thesis using create assms(2) by (auto simp: ul_inv_def)
next
  case (switch s s')
  then have "ul_wf s" using assms(2) by (simp add: ul_inv_def)
  then show ?thesis by (cases rule: iteration_cases [of s junk]) (use switch ul_wf_dispatch in auto)
next
  case (return s s')
  then have "ul_wf s" using assms(2) by (simp add: ul_inv_def)
  then show ?thesis by (cases rule: iteration_cases [of s junk]) (use return in \<open>auto simp: ul_inv_def\<close>)
qed (use assms ul_wf_yield_destroy in \<open>auto simp: ul_inv_def\<close>)

subsection \<open>A thread that is not running keeps its registers\<close>

lemma step_keeps_ctx:
  assumes "ul_step junk x y" "ul_inv x" "t \<in> slots" "state (ul_thread (snd x) ! t) \<noteq> FREE"
    and "\<not> (fst x = Thread \<and> current_tid (snd x) = t)"
  shows "ctx (ul_thread (snd y) ! t) = ctx (ul_thread (snd x) ! t) \<and> state (ul_thread (snd y) ! t) \<noteq> FREE"
  using assms
proof (cases rule: ul_step.cases)
  case (create c s start stk args prio)
  have "slot_ok t (ul_thread s ! t)" "length (ul_thread s) = MAXULTHREADS"
    using assms(2,3) create by (auto simp: ul_inv_def ul_wf_def)
  then have "create_slot (ul_thread s) \<noteq> t"
    using create_slot_free(2) [OF create(4)] assms(4) create by (auto simp: slot_ok_def)
  then show ?thesis using create assms(4) by (simp add: ulthread_create_def emit_def set_thread_def Let_def)
next
  case (switch s s')
  then have wf: "ul_wf s" using assms(2) by (simp add: ul_inv_def)
  then have len: "length (ul_thread s) = MAXULTHREADS" by (simp add: ul_wf_def)
  note w = woken_fields [OF len slots_less [OF assms(3)]]
  from wf show ?thesis
  proof (cases rule: iteration_cases [of s junk])
    case (go n s1)
    then have s': "s' = dispatch n s1" using switch by simp
    have "ctx (ul_thread s' ! t) = ctx (ul_thread s1 ! t)" "state (ul_thread s' ! t) = FREE \<longleftrightarrow> state (ul_thread s1 ! t) = FREE"
      unfolding s' using dispatch_simps(5) [of s1 n t] go(2,4) assms(3) by (auto simp: ul_wf_def)
    then show ?thesis using go(7) w switch assms(4) by auto
  qed (use switch in auto)
next
  case (return s s')
  then have wf: "ul_wf s" using assms(2) by (simp add: ul_inv_def)
  then have len: "length (ul_thread s) = MAXULTHREADS" by (simp add: ul_wf_def)
  note w = woken_fields [OF len slots_less [OF assms(3)]]
  from wf show ?thesis
    by (cases rule: iteration_cases [of s junk]) (use return w assms(4) in auto)
qed (auto simp: ulthread_yield_def ulthread_destroy_def emit_def set_thread_def Let_def
    ulthread_context_switch_def nth_list_update slots_iff ul_inv_def ul_wf_def MAXULTHREADS_def)

text \<open>Runs in which thread \<open>t\<close> does not run.\<close>

definition away :: "int \<Rightarrow> nat \<Rightarrow> control \<times> ulstate \<Rightarrow> control \<times> ulstate \<Rightarrow> bool" where
  "away junk t = (\<lambda>x y. ul_step junk x y \<and> \<not> (fst y = Thread \<and> current_tid (snd y) = t))\<^sup>*\<^sup>*"

lemma away_keeps_ctx:
  assumes "away junk t x y" "ul_inv x" "t \<in> slots" "state (ul_thread (snd x) ! t) \<noteq> FREE"
    and "\<not> (fst x = Thread \<and> current_tid (snd x) = t)"
  shows "ul_inv y \<and> ctx (ul_thread (snd y) ! t) = ctx (ul_thread (snd x) ! t) \<and>
     state (ul_thread (snd y) ! t) \<noteq> FREE \<and> \<not> (fst y = Thread \<and> current_tid (snd y) = t)"
  using assms(1) unfolding away_def
proof (induction rule: rtranclp_induct)
  case base
  then show ?case using assms by blast
next
  case (step y z)
  then show ?case using ul_step_inv step_keeps_ctx [of junk y z t] assms(3) by metis
qed

lemma switch_regs:
  assumes "ul_wf s" "schedule_iteration junk s = Switched s'"
  shows "current_tid s' \<in> slots" "regs s' = ctx (ul_thread s ! current_tid s')"
    "arg_regs s' = (let c = ctx (ul_thread s ! current_tid s') in [c_s0 c, c_s1 c, c_s2 c, c_s3 c, c_s4 c, c_s5 c])"
proof -
  have len: "length (ul_thread s) = MAXULTHREADS" using assms(1) by (simp add: ul_wf_def)
  obtain n s1 where n: "s' = dispatch n s1" "n \<in> slots" "ul_wf s1"
      "ul_thread s1 = ul_thread s \<or> ul_thread s1 = woken (ul_thread s)"
    using assms by (cases rule: iteration_cases [of s junk]) auto
  have l1: "length (ul_thread s1) = MAXULTHREADS" "current_tid s1 < MAXULTHREADS"
    using n(3) by (auto simp: ul_wf_def)
  note d = dispatch_simps [OF l1 n(2), folded n(1)]
  have "ctx (ul_thread s1 ! n) = ctx (ul_thread s ! n)"
    using n(4) woken_fields(2) [OF len slots_less [OF n(2)]] by auto
  then show "current_tid s' \<in> slots" "regs s' = ctx (ul_thread s ! current_tid s')"
    "arg_regs s' = (let c = ctx (ul_thread s ! current_tid s') in [c_s0 c, c_s1 c, c_s2 c, c_s3 c, c_s4 c, c_s5 c])"
    using d n(2) by auto
qed

lemma ulthread_init_inv:
  assumes "length (ul_thread s0) = MAXULTHREADS" "\<forall>t \<in> set (ul_thread s0). state t = FREE" "current_tid s0 = 0"
  shows "ul_inv (Main_Program, ulthread_init schedalgo s0)"
proof -
  have "state (ul_thread s0 ! i) = FREE" if "i < MAXULTHREADS" for i
    using that assms(1,2) by (metis nth_mem)
  then show ?thesis using assms(1,3)
    by (auto simp: ul_inv_def ul_wf_def ulthread_init_def Let_def slot_ok_def nth_list_update slots_def)
qed

lemma priority_iteration_best:
  assumes "ul_wf s" "algorithm s = PRIORITY"
  shows "if \<exists>i \<in> slots. state (ul_thread s ! i) \<noteq> FREE
    then \<exists>s'. schedule_iteration junk s = Switched s' \<and> best (woken (ul_thread s)) (current_tid s')
    else \<exists>s'. schedule_iteration junk s = Returned s'"
proof -
  have len: "length (ul_thread s) = MAXULTHREADS" and cur: "current_tid s < MAXULTHREADS"
    using assms by (auto simp: ul_wf_def)
  note c = candidate_spec [OF len, of junk]
  show ?thesis
  proof (cases "\<exists>i \<in> slots. state (ul_thread s ! i) \<noteq> FREE")
    case True
    then obtain i where i: "i \<in> slots" "state (woken (ul_thread s) ! i) = RUNNABLE"
      "snd (candidate junk (ul_thread s)) = Some i" using c(2) by auto
    from highest_priority_best [OF i(1,2), of junk] obtain n where
      n: "highest_priority junk (woken (ul_thread s)) (Some i) = Some n" "best (woken (ul_thread s)) n" by auto
    let ?s1 = "emit (EvSchedule (tid (woken (ul_thread s) ! n))) (s\<lparr>ul_thread := woken (ul_thread s)\<rparr>)"
    have "schedule_iteration junk s = Switched (dispatch n ?s1)"
      using assms(2) i(3) n(1) c(1) by (simp add: schedule_iteration_def priority_iteration_def split_beta)
    moreover have "current_tid (dispatch n ?s1) = n"
      using n(2) len cur by (intro dispatch_simps(1)) (auto simp: emit_def best_def)
    ultimately show ?thesis using True n(2) by auto
  next
    case False
    then have "snd (candidate junk (ul_thread s)) = None" using c(2) by auto
    then show ?thesis using False assms(2)
      by (auto simp: schedule_iteration_def priority_iteration_def split_beta)
  qed
qed

text \<open>A small program for the witnesses: one thread, alone in the table.\<close>

definition zero_state :: ulstate where
  "zero_state = \<lparr>ul_thread = replicate 100 \<lparr>tid = 0, state = FREE, priority = 0, stack = 0, ctx = zero_context,
      time_created = 0\<rparr>, algorithm = ROUNDROBIN, current_tid = 0, prev_tid = 0, regs = zero_context,
      arg_regs = replicate 6 0, trace = []\<rparr>"

definition lone :: "nat \<Rightarrow> ulstate \<Rightarrow> bool" where
  "lone t s \<longleftrightarrow> ul_wf s \<and> t \<in> slots \<and> state (ul_thread s ! t) \<noteq> FREE \<and>
     (\<forall>i \<in> slots. i \<noteq> t \<longrightarrow> state (ul_thread s ! i) = FREE)"

definition demo :: "ulthread_scheduling_algorithm \<Rightarrow> ulstate" where
  "demo a = ulthread_create 256 8192 [1, 2, 3, 4, 5, 6] 7 (ulthread_init a zero_state)"

lemma zero_state_ok: "length (ul_thread zero_state) = MAXULTHREADS" "\<forall>t \<in> set (ul_thread zero_state). state t = FREE"
  "current_tid zero_state = 0"
  by (simp_all add: zero_state_def MAXULTHREADS_def)

lemma demo_slot: "create_slot (ul_thread (ulthread_init a zero_state)) = 1"
proof -
  have "[1..<MAXULTHREADS] = 1 # [2..<MAXULTHREADS]" by (simp add: upt_conv_Cons MAXULTHREADS_def)
  then show ?thesis by (simp add: create_slot_def ulthread_init_def zero_state_def Let_def)
qed

lemma demo_lone: "lone 1 (demo a)" "current_tid (demo a) = 0" "state (ul_thread (demo a) ! 1) = RUNNABLE"
    "algorithm (demo a) = a"
proof -
  have wf: "ul_wf (ulthread_init a zero_state)" using ulthread_init_inv [OF zero_state_ok] by (simp add: ul_inv_def)
  have "ul_wf (demo a)" unfolding demo_def by (rule ul_wf_create [OF wf]) (simp add: demo_slot)
  moreover have "ul_thread (demo a) ! i = ul_thread (ulthread_init a zero_state) ! i" if "i \<noteq> 1" for i
    using that by (simp add: demo_def ulthread_create_def demo_slot emit_def set_thread_def Let_def)
  moreover have "1 < length (ul_thread (ulthread_init a zero_state))" using wf by (simp add: ul_wf_def MAXULTHREADS_def)
  then show "state (ul_thread (demo a) ! 1) = RUNNABLE"
    by (simp add: demo_def ulthread_create_def demo_slot emit_def set_thread_def Let_def)
  show "current_tid (demo a) = 0" "algorithm (demo a) = a"
    by (simp_all add: demo_def ulthread_create_def emit_def set_thread_def Let_def ulthread_init_def zero_state_def)
  note calculation \<open>state (ul_thread (demo a) ! 1) = RUNNABLE\<close>
  then show "lone 1 (demo a)"
    by (auto simp: lone_def slots_iff ulthread_init_def Let_def zero_state_def)
qed

lemma lone_switch:
  assumes "lone t s" "algorithm s = PRIORITY"
  shows "\<exists>s'. schedule_iteration junk s = Switched s' \<and> current_tid s' = t \<and> lone t s' \<and> ul_inv (Thread, s')
     \<and> algorithm s' = PRIORITY"
proof -
  have wf: "ul_wf s" and len: "length (ul_thread s) = MAXULTHREADS" using assms by (auto simp: lone_def ul_wf_def)
  obtain s' where s': "schedule_iteration junk s = Switched s'" "best (woken (ul_thread s)) (current_tid s')"
    using priority_iteration_best [OF wf assms(2), of junk] assms(1) unfolding lone_def by metis
  have "state (woken (ul_thread s) ! i) = FREE" if "i \<in> slots" "i \<noteq> t" for i
    using woken_fields(4) [OF len slots_less [OF that(1)]] that assms(1) by (auto simp: lone_def)
  then have t: "current_tid s' = t" using s'(2) by (force simp: best_def)
  have inv: "ul_inv (Thread, s')"
    using ul_step_inv [OF ul_step.switch [OF s'(1)]] wf by (auto simp: ul_inv_def)
  moreover have "state (ul_thread s' ! i) = FREE" if "i \<in> slots" "i \<noteq> t" for i
    using wf
  proof (cases rule: iteration_cases [of s junk])
    case (go n s1)
    then have "ul_thread s' ! i = (if i = current_tid s1 then wake (ul_thread s1 ! i) else ul_thread s1 ! i)"
      using s'(1) dispatch_simps(5) [of s1 n i] that by (auto simp: ul_wf_def)
    moreover have "state (ul_thread s1 ! i) = FREE"
      using go(7) woken_fields(4) [OF len slots_less [OF that(1)]] that assms(1) by (auto simp: lone_def)
    ultimately show ?thesis by auto
  qed (use s' in auto)
  moreover have "algorithm s' = PRIORITY"
    using s'(1) assms(2) by (auto simp: schedule_iteration_def priority_iteration_def split_beta Let_def dispatch_def
        ulthread_context_switch_def set_thread_def emit_def split: option.splits)
  ultimately show ?thesis using s'(1) t by (auto simp: lone_def ul_inv_def)
qed

lemma lone_yield:
  assumes "lone t s" "ul_inv (Thread, s)" "current_tid s = t"
  shows "lone t (ulthread_yield s)" "algorithm (ulthread_yield s) = algorithm s"
    "current_tid (ulthread_yield s) = t" "state (ul_thread (ulthread_yield s) ! t) = YIELD"
proof -
  have t: "t \<in> slots" "length (ul_thread s) = MAXULTHREADS" using assms by (auto simp: lone_def ul_wf_def)
  have nth: "ul_thread (ulthread_yield s) ! i = ul_thread s ! i" if "i \<in> slots" "i \<noteq> t" for i
    using that assms(3) by (simp add: ulthread_yield_def emit_def set_thread_def Let_def ulthread_context_switch_def)
  show y: "state (ul_thread (ulthread_yield s) ! t) = YIELD" "algorithm (ulthread_yield s) = algorithm s"
    "current_tid (ulthread_yield s) = t"
    using t assms(3) by (auto simp: ulthread_yield_def emit_def set_thread_def Let_def ulthread_context_switch_def slots_less)
  then show "lone t (ulthread_yield s)"
    using ul_wf_yield_destroy(1) [OF assms(2)] nth assms(1) by (auto simp: lone_def)
qed

subsection \<open>Properties\<close>

text \<open>C12: from the library's zero-initialised globals, through \<open>ulthread_init\<close> and any interleaving of
  the main program, the scheduler and the threads, every slot's \<open>tid\<close> agrees with its state, and the
  thread that runs is a live thread that the scheduler marked runnable.\<close>

theorem ulthread_invariant:
  assumes "length (ul_thread s0) = MAXULTHREADS" "\<forall>t \<in> set (ul_thread s0). state t = FREE" "current_tid s0 = 0"
    and "(ul_step junk)\<^sup>*\<^sup>* (Main_Program, ulthread_init schedalgo s0) y"
  shows "ul_inv y"
  using assms(4)
proof (induction rule: rtranclp_induct)
  case base
  then show ?case using ulthread_init_inv [OF assms(1-3)] .
next
  case (step y z)
  then show ?case by (blast intro: ul_step_inv)
qed

theorem ulthread_invariant_witness:
  "ul_inv (Scheduler, ulthread_init PRIORITY zero_state)"
proof (rule ulthread_invariant)
  show "(ul_step 0)\<^sup>*\<^sup>* (Main_Program, ulthread_init PRIORITY zero_state) (Scheduler, ulthread_init PRIORITY zero_state)"
    by (intro r_into_rtranclp ul_step.call)
qed (rule zero_state_ok)+

text \<open>C32: a thread that yields finds its stack pointer, return address and callee-saved registers
  unchanged when the scheduler next switches to it, whatever the other threads and the main program did
  in between.\<close>

theorem yield_resume_registers:
  assumes "ul_inv (Thread, s)" "t = current_tid s"
    and "away junk t (Scheduler, ulthread_yield s) (Scheduler, s1)"
    and "schedule_iteration junk s1 = Switched s2" "current_tid s2 = t"
  shows "regs s2 = regs s"
proof -
  let ?y = "ulthread_yield s"
  have t: "t \<in> slots" "length (ul_thread s) = MAXULTHREADS" using assms(1,2) by (auto simp: ul_inv_def ul_wf_def)
  have inv: "ul_inv (Scheduler, ?y)" using ul_wf_yield_destroy(1) [OF assms(1)] by (simp add: ul_inv_def)
  have y: "ctx (ul_thread ?y ! t) = regs s" "state (ul_thread ?y ! t) \<noteq> FREE"
    using t assms(2) by (auto simp: ulthread_yield_def emit_def set_thread_def Let_def ulthread_context_switch_def slots_less)
  from away_keeps_ctx [OF assms(3) inv t(1)] y have "ctx (ul_thread s1 ! t) = regs s" "ul_wf s1"
    by (auto simp: ul_inv_def)
  then show ?thesis using switch_regs(2) [OF _ assms(4)] assms(5) by simp
qed

theorem yield_resume_registers_witness:
  "\<exists>s s2. schedule_iteration 0 (demo PRIORITY) = Switched s
     \<and> schedule_iteration 0 (ulthread_yield s) = Switched s2 \<and> regs s2 = regs s"
proof -
  obtain s where s: "schedule_iteration 0 (demo PRIORITY) = Switched s" "current_tid s = 1" "lone 1 s"
    "ul_inv (Thread, s)" "algorithm s = PRIORITY" using lone_switch [OF demo_lone(1,4)] by blast
  note y = lone_yield [OF s(3,4,2)]
  obtain s2 where s2: "schedule_iteration 0 (ulthread_yield s) = Switched s2" "current_tid s2 = 1"
    using lone_switch [OF y(1)] y(2) s(5) by auto
  have "away 0 1 (Scheduler, ulthread_yield s) (Scheduler, ulthread_yield s)" by (simp add: away_def)
  from yield_resume_registers [OF s(4) s(2) [symmetric] this s2] show ?thesis using s(1) s2(1) by blast
qed

text \<open>A created thread starts at its start function with its stack pointer and its six arguments in
  the argument registers when the scheduler first switches to it.\<close>

theorem create_first_switch:
  assumes "ul_inv (c, s)" "i = create_slot (ul_thread s)" "i \<noteq> 0" "length args = 6"
    and "away junk i (c, ulthread_create start stk args prio s) (Scheduler, s1)"
    and "schedule_iteration junk s1 = Switched s2" "current_tid s2 = i"
  shows "c_ra (regs s2) = start \<and> c_sp (regs s2) = stk \<and> arg_regs s2 = args"
proof -
  let ?s = "ulthread_create start stk args prio s"
  have i: "i \<in> slots" "tid (ul_thread s ! i) = - 1" using create_slot_free [of "ul_thread s"] assms(2,3) by auto
  have wf: "ul_wf s" using assms(1) by (simp add: ul_inv_def)
  have len: "i < length (ul_thread s)" using wf i(1) by (simp add: ul_wf_def slots_less)
  have new: "ctx (ul_thread ?s ! i) = zero_context\<lparr>c_ra := start, c_sp := stk, c_s0 := args ! 0, c_s1 := args ! 1,
      c_s2 := args ! 2, c_s3 := args ! 3, c_s4 := args ! 4, c_s5 := args ! 5\<rparr>" "state (ul_thread ?s ! i) \<noteq> FREE"
    and cur: "current_tid ?s = current_tid s"
    using len assms(2) by (auto simp: ulthread_create_def emit_def set_thread_def Let_def)
  have run: "\<not> (c = Thread \<and> current_tid s = i)"
  proof
    assume "c = Thread \<and> current_tid s = i"
    then have "state (ul_thread s ! i) = RUNNABLE" "slot_ok i (ul_thread s ! i)"
      using assms(1) i(1) by (auto simp: ul_inv_def ul_wf_def)
    then show False using i(2) by (auto simp: slot_ok_def)
  qed
  have keep: "state (ul_thread ?s ! j) = RUNNABLE" if "state (ul_thread s ! j) = RUNNABLE" for j
    using that len assms(2) by (auto simp: ulthread_create_def emit_def set_thread_def Let_def nth_list_update)
  have "ul_inv (c, ?s)" using ul_wf_create [OF wf] assms(1-3) cur keep by (auto simp: ul_inv_def)
  from away_keeps_ctx [OF assms(5) this i(1)] new run cur
  have k: "ctx (ul_thread s1 ! i) = ctx (ul_thread ?s ! i)" "ul_wf s1" by (auto simp: ul_inv_def)
  have "args = [args ! 0, args ! 1, args ! 2, args ! 3, args ! 4, args ! 5]"
    using assms(4) by (intro nth_equalityI) (auto simp: less_Suc_eq numeral_eq_Suc)
  then show ?thesis using switch_regs [OF k(2) assms(6)] k(1) new(1) assms(7) by (simp add: Let_def)
qed

theorem create_first_switch_witness:
  "\<exists>s2. schedule_iteration 0 (ulthread_create 256 8192 [1, 2, 3, 4, 5, 6] 7 (ulthread_init PRIORITY zero_state)) = Switched s2
     \<and> c_ra (regs s2) = 256 \<and> c_sp (regs s2) = 8192 \<and> arg_regs s2 = [1, 2, 3, 4, 5, 6]"
proof -
  obtain s2 where s2: "schedule_iteration 0 (demo PRIORITY) = Switched s2" "current_tid s2 = 1"
    using lone_switch [OF demo_lone(1,4)] by blast
  have run: "away 0 1 (Main_Program, demo PRIORITY) (Scheduler, demo PRIORITY)"
    unfolding away_def by (rule r_into_rtranclp) (simp add: ul_step.call)
  show ?thesis
    using create_first_switch [OF ulthread_init_inv [OF zero_state_ok] demo_slot [symmetric] _ _ run [unfolded demo_def],
        OF _ _ s2 [unfolded demo_def]] s2(1)
    by (auto simp: demo_def)
qed

text \<open>C36: as long as any thread is alive, the priority scheduler switches to a thread of the highest
  priority among the runnable ones (among those that yielded, if none is runnable), and it returns to the
  main program only when no thread is left. The value read before the start of the table has no effect.\<close>

theorem priority_scheduler_picks_best:
  assumes "ul_wf s" "algorithm s = PRIORITY"
  shows "if \<exists>i \<in> slots. state (ul_thread s ! i) \<noteq> FREE
    then \<exists>s'. schedule_iteration junk s = Switched s' \<and> best (woken (ul_thread s)) (current_tid s')
    else \<exists>s'. schedule_iteration junk s = Returned s'"
  by (rule priority_iteration_best [OF assms])

theorem priority_scheduler_picks_best_witness:
  "\<exists>s'. schedule_iteration 42 (demo PRIORITY) = Switched s' \<and> best (woken (ul_thread (demo PRIORITY))) (current_tid s')"
proof -
  have "\<exists>i \<in> slots. state (ul_thread (demo PRIORITY) ! i) \<noteq> FREE"
    using demo_lone(1) [of PRIORITY] unfolding lone_def by blast
  moreover have "ul_wf (demo PRIORITY)" using demo_lone(1) [of PRIORITY] by (simp add: lone_def)
  ultimately show ?thesis using priority_scheduler_picks_best [of "demo PRIORITY" 42] demo_lone(4) [of PRIORITY]
    by simp
qed

text \<open>The round-robin scheduler starves nobody: at each switch a waiting runnable thread either is
  chosen or comes strictly closer to the front of the cyclic order.\<close>

theorem round_robin_progress:
  assumes "ul_wf s" "algorithm s = ROUNDROBIN" "t \<in> slots" "state (ul_thread s ! t) = RUNNABLE"
    and "state (ul_thread s ! current_tid s) \<noteq> RUNNABLE \<or> current_tid s = 0"
  shows "\<exists>s'. schedule_iteration junk s = Switched s' \<and>
    (current_tid s' = t \<or> ahead (current_tid s') t < ahead (current_tid s) t)"
proof -
  have len: "length (ul_thread s) = MAXULTHREADS" and cur: "current_tid s < MAXULTHREADS"
    using assms by (auto simp: ul_wf_def)
  obtain e where e: "rr_find (current_tid s) (ul_thread s) = Some e"
    using rr_find_None [OF cur, of "ul_thread s"] assms(3,4) by fastforce
  note rr = rr_find_Some [OF e cur]
  have ne: "e \<noteq> current_tid s" using rr assms(5) by (auto simp: slots_def)
  let ?s1 = "emit (EvSchedule (int e)) s"
  have "schedule_iteration junk s = Switched (dispatch e ?s1)"
    using assms(2) e ne by (simp add: schedule_iteration_def rr_iteration_def Let_def emit_def)
  moreover have "current_tid (dispatch e ?s1) = e"
    using rr len cur by (intro dispatch_simps(1)) (auto simp: emit_def)
  moreover have "e = t \<or> ahead e t < ahead (current_tid s) t"
  proof -
    have "ahead (current_tid s) e \<le> ahead (current_tid s) t" using rr assms(3,4) by blast
    moreover have "e < 100" "t < 100" "current_tid s < 100"
      using rr assms(3) cur by (auto simp: slots_iff MAXULTHREADS_def)
    ultimately show ?thesis using ne unfolding ahead_def MAXULTHREADS_def by (auto simp: mod_if split: if_splits)
  qed
  ultimately show ?thesis by auto
qed

theorem round_robin_progress_witness:
  "\<exists>s'. schedule_iteration 0 (demo ROUNDROBIN) = Switched s' \<and> (current_tid s' = 1 \<or> ahead (current_tid s') 1 < ahead 0 1)"
  using round_robin_progress [of "demo ROUNDROBIN" 1 0] demo_lone [of ROUNDROBIN] by (auto simp: lone_def)

text \<open>C40: when the only live thread yields, the round-robin scheduler does not resume it: it returns to
  the main program and the thread is left unfinished.\<close>

theorem round_robin_drops_lone_yielder:
  assumes "ul_wf s" "algorithm s = ROUNDROBIN" "current_tid s \<in> slots" "state (ul_thread s ! current_tid s) = YIELD"
    and "\<forall>i \<in> slots. i \<noteq> current_tid s \<longrightarrow> state (ul_thread s ! i) = FREE"
  shows "schedule_iteration junk s = Returned s"
proof -
  have "\<forall>t \<in> slots. state (ul_thread s ! t) \<noteq> RUNNABLE" using assms(4,5) by (metis ulthread_state.distinct(1,5))
  then have "rr_find (current_tid s) (ul_thread s) = None"
    using rr_find_None assms(1) by (auto simp: ul_wf_def)
  then show ?thesis using assms(2) by (simp add: schedule_iteration_def rr_iteration_def)
qed

theorem round_robin_drops_lone_yielder_witness:
  "\<exists>s. ul_wf s \<and> state (ul_thread s ! 1) = YIELD \<and> schedule_iteration 0 s = Returned s"
proof -
  obtain s where s: "current_tid s = 1" "lone 1 s" "ul_inv (Thread, s)" using lone_switch [OF demo_lone(1,4)] by blast
  let ?y = "(ulthread_yield s)\<lparr>algorithm := ROUNDROBIN\<rparr>"
  note y = lone_yield [OF s(2,3,1)]
  have "ul_wf ?y" "current_tid ?y = 1" "state (ul_thread ?y ! 1) = YIELD" "1 \<in> slots"
    "\<forall>i \<in> slots. i \<noteq> 1 \<longrightarrow> state (ul_thread ?y ! i) = FREE"
    using y by (auto simp: lone_def ul_wf_def)
  with round_robin_drops_lone_yielder [of ?y 0] show ?thesis by (intro exI [of _ ?y]) simp
qed

end
