(* ===== verification/Riscv.thy ===== *)
theory Riscv
  imports Prelude
begin

text \<open>
  The macros of \<open>kernel/riscv.h\<close> and \<open>kernel/memlayout.h\<close>: page rounding, the Sv39 page-table
  entry format, the virtual-address split, and the memory map. The lemmas give their meaning as
  natural-number arithmetic, and the round trips between a physical address with flags and its
  page-table entry.
\<close>

unbundle bit_operations_syntax

subsection \<open>Pages\<close>

definition PGSIZE :: u64 where "PGSIZE = 4096"

definition PGROUNDUP :: "u64 \<Rightarrow> u64" where
  "PGROUNDUP sz = (sz + PGSIZE - 1) AND NOT (PGSIZE - 1)"

definition PGROUNDDOWN :: "u64 \<Rightarrow> u64" where
  "PGROUNDDOWN a = a AND NOT (PGSIZE - 1)"

subsection \<open>Page-table entries\<close>

definition PTE_V :: u64 where "PTE_V = push_bit 0 1"
definition PTE_R :: u64 where "PTE_R = push_bit 1 1"
definition PTE_W :: u64 where "PTE_W = push_bit 2 1"
definition PTE_X :: u64 where "PTE_X = push_bit 3 1"
definition PTE_U :: u64 where "PTE_U = push_bit 4 1"

definition PA2PTE :: "u64 \<Rightarrow> u64" where
  "PA2PTE pa = push_bit 10 (drop_bit 12 pa)"

definition PTE2PA :: "u64 \<Rightarrow> u64" where
  "PTE2PA pte = push_bit 12 (drop_bit 10 pte)"

definition PTE_FLAGS :: "u64 \<Rightarrow> u64" where
  "PTE_FLAGS pte = pte AND 0x3FF"

definition PXSHIFT :: "nat \<Rightarrow> nat" where
  "PXSHIFT level = 12 + 9 * level"

definition PX :: "nat \<Rightarrow> u64 \<Rightarrow> u64" where
  "PX level va = drop_bit (PXSHIFT level) va AND 0x1FF"

definition MAXVA :: u64 where "MAXVA = push_bit (9 + 9 + 9 + 12 - 1) 1"

subsection \<open>Memory map\<close>

definition KERNBASE :: u64 where "KERNBASE = 0x80000000"
definition PHYSTOP :: u64 where "PHYSTOP = KERNBASE + 128 * 1024 * 1024"
definition TRAMPOLINE :: u64 where "TRAMPOLINE = MAXVA - PGSIZE"
definition TRAPFRAME :: u64 where "TRAPFRAME = TRAMPOLINE - PGSIZE"

definition KSTACK :: "u64 \<Rightarrow> u64" where
  "KSTACK p = TRAMPOLINE - (p + 1) * 2 * PGSIZE"

subsection \<open>Numeric readings\<close>

lemma pg_consts [simp]:
  "unat PGSIZE = 4096" "unat MAXVA = 274877906944" "unat PHYSTOP = 2281701376"
  "unat KERNBASE = 2147483648" "unat TRAMPOLINE = 274877902848" "unat TRAPFRAME = 274877898752"
  by (simp_all add: PGSIZE_def MAXVA_def PHYSTOP_def KERNBASE_def TRAMPOLINE_def TRAPFRAME_def)

lemma pte_flag_bits [simp]:
  "PTE_V = 1" "PTE_R = 2" "PTE_W = 4" "PTE_X = 8" "PTE_U = 16"
  by (simp_all add: PTE_V_def PTE_R_def PTE_W_def PTE_X_def PTE_U_def)

lemma unat_PGROUNDDOWN [page_simps]: "unat (PGROUNDDOWN a) = unat a - unat a mod 4096"
proof -
  have "PGROUNDDOWN a = a - (a AND mask 12)"
  proof -
    have "(a AND NOT (mask 12)) + (a AND mask 12) = a"
      by (subst disjunctive_add) (auto simp: bit_simps intro!: bit_word_eqI)
    then show ?thesis by (simp add: PGROUNDDOWN_def PGSIZE_def mask_eq_exp_minus_1 algebra_simps)
  qed
  then show ?thesis
    by (simp add: unat_sub64 unat_and_mask64)
qed

lemma PGROUNDDOWN_aligned [simp]: "aligned 4096 (PGROUNDDOWN a)"
  by (simp add: aligned_def unat_PGROUNDDOWN)

lemma PGROUNDDOWN_div [page_simps]: "unat (PGROUNDDOWN a) div 4096 = unat a div 4096"
  by (simp add: unat_PGROUNDDOWN) (metis div_mult_self1_is_m minus_mod_eq_mult_div zero_less_numeral)

lemma PGROUNDDOWN_id [simp]: "aligned 4096 a \<Longrightarrow> PGROUNDDOWN a = a"
  by (simp add: unat_eq_iff64 unat_PGROUNDDOWN aligned_def)

lemma PGROUNDUP_conv: "PGROUNDUP a = PGROUNDDOWN (a + 4095)"
  by (simp add: PGROUNDUP_def PGROUNDDOWN_def PGSIZE_def add.commute)

lemma PGROUNDUP_aligned [simp]: "aligned 4096 (PGROUNDUP a)"
  by (simp add: PGROUNDUP_conv)

lemma unat_PGROUNDUP [page_simps]:
  "unat a + 4095 < 18446744073709551616 \<Longrightarrow> unat (PGROUNDUP a) = (unat a + 4095) div 4096 * 4096"
  by (simp add: PGROUNDUP_conv unat_PGROUNDDOWN unat_add64 minus_mod_eq_div_mult)

lemma unat_PX [page_simps]: "unat (PX l va) = unat va div 2 ^ (12 + 9 * l) mod 512"
proof -
  have "PX l va = drop_bit (12 + 9 * l) va AND mask 9"
    by (simp add: PX_def PXSHIFT_def mask_eq_exp_minus_1)
  then show ?thesis by (simp only: unat_and_mask64 unat_drop64) simp
qed

lemma PX_less [simp]: "unat (PX l va) < 512"
  by (simp add: unat_PX)

lemma nat_split_512:
  "(n :: nat) = n div 512 div 512 * 262144 + n div 512 mod 512 * 512 + n mod 512"
proof -
  have "n = n div 512 * 512 + n mod 512" by (rule div_mult_mod_eq [symmetric])
  also have "n div 512 * 512 = (n div 512 div 512 * 512 + n div 512 mod 512) * 512"
    by (simp only: div_mult_mod_eq)
  also have "\<dots> = n div 512 div 512 * 262144 + n div 512 mod 512 * 512"
    unfolding distrib_right mult.assoc by simp
  finally show ?thesis .
qed

lemma va_page_split:
  assumes "unat va < 274877906944"
  shows "unat va div 4096 = unat (PX 2 va) * 262144 + unat (PX 1 va) * 512 + unat (PX 0 va)"
proof -
  let ?n = "unat va div 4096"
  have px2: "unat (PX 2 va) = ?n div 512 div 512"
    using assms by (simp add: unat_PX flip: div_mult2_eq)
  have px1: "unat (PX 1 va) = ?n div 512 mod 512"
    by (simp add: unat_PX flip: div_mult2_eq)
  have px0: "unat (PX 0 va) = ?n mod 512"
    by (simp add: unat_PX)
  show ?thesis unfolding px2 px1 px0 by (rule nat_split_512)
qed

text \<open>The three indices determine the page of a user virtual address.\<close>

lemma PX_eq_imp_same_page:
  assumes "unat va < 274877906944" "unat vb < 274877906944"
    and "PX 2 va = PX 2 vb" "PX 1 va = PX 1 vb" "PX 0 va = PX 0 vb"
  shows "unat va div 4096 = unat vb div 4096"
  using va_page_split [of va] va_page_split [of vb] assms by simp

subsection \<open>Page-table entries carry an address and flags\<close>

lemma PTE2PA_PA2PTE:
  assumes "aligned 4096 pa" "unat pa < 2 ^ 56" "unat perm < 1024"
  shows "PTE2PA (PA2PTE pa OR perm) = pa"
proof (rule bit_word_eqI)
  fix n assume "n < LENGTH(64)"
  then have n: "n < 64" by simp
  have p: "bit perm i \<Longrightarrow> i < 10" for i
    using assms(3) by (auto intro: bit_less_exp)
  have q: "bit pa i \<Longrightarrow> i < 56" for i
    using assms(2) by (rule bit_less_exp)
  have "take_bit 12 pa = 0"
    using assms(1) by (simp only: take_bit_eq_0_iff64) (simp add: aligned_def)
  then have r: "bit pa i \<Longrightarrow> 12 \<le> i" for i
    by (metis bit_take_bit_iff bit_0_eq bot_apply bot_bool_def leI)
  show "bit (PTE2PA (PA2PTE pa OR perm)) n \<longleftrightarrow> bit pa n"
    using n q [of n] r [of n] by (auto simp: PTE2PA_def PA2PTE_def bit_simps dest: p)
qed

lemma PTE_FLAGS_PA2PTE:
  assumes "unat perm < 1024"
  shows "PTE_FLAGS (PA2PTE pa OR perm) = perm"
proof -
  have t: "take_bit 10 perm = perm"
    using assms by (intro take_bit_less_exp) simp
  have "PTE_FLAGS x = take_bit 10 x" for x
    by (simp add: PTE_FLAGS_def take_bit_eq_mask mask_eq_exp_minus_1)
  moreover have "take_bit 10 (PA2PTE pa) = 0"
    by (simp add: PA2PTE_def take_bit_push_bit)
  ultimately show ?thesis by (simp add: t)
qed

lemma PTE2PA_aligned [simp]: "aligned 4096 (PTE2PA pte)"
proof -
  have "take_bit 12 (PTE2PA pte) = 0" by (simp add: PTE2PA_def take_bit_push_bit)
  then have "unat (PTE2PA pte) mod 2 ^ 12 = 0"
    by (metis take_bit_eq_mod unsigned_take_bit_eq unsigned_0)
  then show ?thesis by (simp add: aligned_def)
qed

end
