(* ===== verification/KString.thy ===== *)
theory KString
  imports Prelude
begin

text \<open>
  The memory and string routines of \<open>kernel/string.c\<close> (the four projects ship the same file), over
  the byte-addressed memory. A routine that writes returns the new memory; the C routines return
  their destination pointer unchanged. Pointer arithmetic wraps at 64 bits as on the machine.

  The lemmas state what each routine computes: \<open>memset\<close> and \<open>memmove\<close> as one update of a range
  (\<open>memmove\<close> also when source and destination overlap), the comparisons as equality of byte lists.
\<close>

subsection \<open>Definitions\<close>

definition memset :: "mem \<Rightarrow> u64 \<Rightarrow> u8 \<Rightarrow> nat \<Rightarrow> mem" where
  "memset m dst c n = fold (\<lambda>i m. m(dst + of_nat i := c)) [0..<n] m"

fun memcmp :: "mem \<Rightarrow> u64 \<Rightarrow> u64 \<Rightarrow> nat \<Rightarrow> int" where
  "memcmp m s1 s2 0 = 0"
| "memcmp m s1 s2 (Suc n) =
     (if m s1 \<noteq> m s2 then uint (m s1) - uint (m s2) else memcmp m (s1 + 1) (s2 + 1) n)"

fun memmove_up :: "mem \<Rightarrow> u64 \<Rightarrow> u64 \<Rightarrow> nat \<Rightarrow> mem" where
  "memmove_up m d s 0 = m"
| "memmove_up m d s (Suc n) = memmove_up (m(d := m s)) (d + 1) (s + 1) n"

fun memmove_down :: "mem \<Rightarrow> u64 \<Rightarrow> u64 \<Rightarrow> nat \<Rightarrow> mem" where
  "memmove_down m d s 0 = m"
| "memmove_down m d s (Suc n) = memmove_down (m(d - 1 := m (s - 1))) (d - 1) (s - 1) n"

definition memmove :: "mem \<Rightarrow> u64 \<Rightarrow> u64 \<Rightarrow> nat \<Rightarrow> mem" where
  "memmove m dst src n =
     (if n = 0 then m
      else if src < dst \<and> dst < src + of_nat n
      then memmove_down m (dst + of_nat n) (src + of_nat n) n
      else memmove_up m dst src n)"

fun strncmp :: "mem \<Rightarrow> u64 \<Rightarrow> u64 \<Rightarrow> nat \<Rightarrow> int" where
  "strncmp m p q 0 = 0"
| "strncmp m p q (Suc n) =
     (if m p \<noteq> 0 \<and> m p = m q then strncmp m (p + 1) (q + 1) n else uint (m p) - uint (m q))"

text \<open>The second loop of \<open>strncpy\<close> pads with zeros what the first left over.\<close>

fun strncpy_pad :: "mem \<Rightarrow> u64 \<Rightarrow> nat \<Rightarrow> mem" where
  "strncpy_pad m s 0 = m"
| "strncpy_pad m s (Suc n) = strncpy_pad (m(s := 0)) (s + 1) n"

fun strncpy_loop :: "mem \<Rightarrow> u64 \<Rightarrow> u64 \<Rightarrow> nat \<Rightarrow> mem" where
  "strncpy_loop m s t 0 = m"
| "strncpy_loop m s t (Suc n) =
     (let m' = m(s := m t) in
      if m' s \<noteq> 0 then strncpy_loop m' (s + 1) (t + 1) n else strncpy_pad m' (s + 1) n)"

definition strncpy :: "mem \<Rightarrow> u64 \<Rightarrow> u64 \<Rightarrow> int \<Rightarrow> mem" where
  "strncpy m s t n = strncpy_loop m s t (nat n)"

fun safestrcpy_loop :: "mem \<Rightarrow> u64 \<Rightarrow> u64 \<Rightarrow> nat \<Rightarrow> mem" where
  "safestrcpy_loop m s t 0 = m(s := 0)"
| "safestrcpy_loop m s t (Suc n) =
     (let m' = m(s := m t) in
      if m' s \<noteq> 0 then safestrcpy_loop m' (s + 1) (t + 1) n else m'(s + 1 := 0))"

definition safestrcpy :: "mem \<Rightarrow> u64 \<Rightarrow> u64 \<Rightarrow> int \<Rightarrow> mem" where
  "safestrcpy m s t n = (if n \<le> 0 then m else safestrcpy_loop m s t (nat (n - 1)))"

partial_function (option) strlen_from :: "mem \<Rightarrow> u64 \<Rightarrow> u64 \<Rightarrow> u64 option" where
  "strlen_from m s n = (if m (s + n) \<noteq> 0 then strlen_from m s (n + 1) else Some n)"

definition strlen :: "mem \<Rightarrow> u64 \<Rightarrow> u64 option" where
  "strlen m s = strlen_from m s 0"

text \<open>Storing a list of bytes, a \<open>memmove\<close> whose source is not in this memory.\<close>

definition put_bytes :: "mem \<Rightarrow> u64 \<Rightarrow> u8 list \<Rightarrow> mem" where
  "put_bytes m a bs = fold (\<lambda>i m. m(a + of_nat i := bs ! i)) [0..<length bs] m"

text \<open>Reference notions: the bytes at an address, and the C string among the first \<open>n\<close> of them.\<close>

definition bytes_at :: "mem \<Rightarrow> u64 \<Rightarrow> nat \<Rightarrow> u8 list" where
  "bytes_at m p n = map (\<lambda>i. m (p + of_nat i)) [0..<n]"

definition cstr :: "mem \<Rightarrow> u64 \<Rightarrow> nat \<Rightarrow> u8 list" where
  "cstr m p n = takeWhile (\<lambda>b. b \<noteq> 0) (bytes_at m p n)"

subsection \<open>What the routines compute\<close>

lemma put_bytes_append:
  "put_bytes (put_bytes m a xs) (a + of_nat (length xs)) ys = put_bytes m a (xs @ ys)"
proof (induction ys rule: rev_induct)
  case (snoc y ys)
  have step: "put_bytes m a (xs @ [y]) = (put_bytes m a xs)(a + of_nat (length xs) := y)" for m a y and xs :: "u8 list"
    by (simp add: put_bytes_def, subst fold_cong [OF refl refl, of _ _ "\<lambda>i m. m(a + of_nat i := xs ! i)"]) (auto simp: nth_append)
  show ?case using snoc step [of m a "xs @ ys" y] step [of "put_bytes m a xs" "a + of_nat (length xs)" ys y]
    by (simp add: add.assoc del: append_assoc add: append_assoc [symmetric])
qed (simp add: put_bytes_def)

lemma put_bytes_apply:
  assumes "length bs \<le> 18446744073709551616"
  shows "put_bytes m a bs x = (if in_range x a (length bs) then bs ! unat (x - a) else m x)"
proof -
  have "n \<le> length bs \<Longrightarrow> fold (\<lambda>i m. m(a + of_nat i := bs ! i)) [0..<n] m x
     = (if in_range x a n then bs ! unat (x - a) else m x)" for n
  proof (induction n)
    case (Suc n)
    then have n: "n < 18446744073709551616" using assms by simp
    then show ?case using Suc by (auto simp: in_range_Suc_right unat_of_nat)
  qed simp
  then show ?thesis by (simp add: put_bytes_def)
qed

lemma memset_apply [simp]:
  "n \<le> 18446744073709551616 \<Longrightarrow> memset m dst c n a = (if in_range a dst n then c else m a)"
proof (induction n)
  case (Suc n)
  then show ?case by (auto simp: memset_def in_range_Suc_right)
qed (simp add: memset_def)

lemma memmove_up_apply:
  assumes "n \<le> 18446744073709551616"
    and "\<And>j. 0 < j \<Longrightarrow> j < n \<Longrightarrow> (\<forall>i<j. d + of_nat i \<noteq> s + of_nat j)"
  shows "memmove_up m d s n a = (if in_range a d n then m (s + (a - d)) else m a)"
  using assms
proof (induction n arbitrary: m d s)
  case (Suc n)
  have IH: "memmove_up (m(d := m s)) (d + 1) (s + 1) n a =
      (if in_range a (d + 1) n then (m(d := m s)) (s + 1 + (a - (d + 1))) else (m(d := m s)) a)"
  proof (rule Suc.IH)
    fix j assume "0 < j" "j < n"
    with Suc.prems(2) [of "Suc j"] have "\<forall>i<Suc j. d + of_nat i \<noteq> s + of_nat (Suc j)" by simp
    then show "\<forall>i<j. d + 1 + of_nat i \<noteq> s + 1 + of_nat j"
      by (metis (no_types, lifting) Suc_less_eq add.assoc of_nat_Suc)
  qed (use Suc.prems in simp)
  show ?case
  proof (cases "a = d")
    case True
    then show ?thesis using Suc.prems IH by (simp add: in_range_def)
  next
    case False
    have ne: "in_range a (d + 1) n \<Longrightarrow> s + (a - d) \<noteq> d"
    proof -
      assume r: "in_range a (d + 1) n"
      have "0 < unat (a - d)" using False by (simp add: unat_gt_0)
      moreover have "unat (a - d) < Suc n"
        using r Suc.prems by (metis in_range_Suc_left in_range_def less_eq_Suc_le)
      ultimately show "s + (a - d) \<noteq> d"
        using Suc.prems(2) [of "unat (a - d)"] by (auto dest: spec [of _ 0])
    qed
    show ?thesis using False Suc.prems IH ne by (auto simp: in_range_Suc_left algebra_simps)
  qed
qed simp

lemma memmove_down_apply:
  assumes "n \<le> 18446744073709551616"
    and "\<And>j. 0 < j \<Longrightarrow> j < n \<Longrightarrow> (\<forall>i<j. d - 1 - of_nat i \<noteq> s - 1 - of_nat j)"
  shows "memmove_down m d s n a = (if in_range a (d - of_nat n) n then m (s + (a - d)) else m a)"
  using assms
proof (induction n arbitrary: m d s)
  case (Suc n)
  have IH: "memmove_down (m(d - 1 := m (s - 1))) (d - 1) (s - 1) n a =
      (if in_range a (d - 1 - of_nat n) n then (m(d - 1 := m (s - 1))) (s - 1 + (a - (d - 1)))
       else (m(d - 1 := m (s - 1))) a)"
  proof (rule Suc.IH)
    fix j assume "0 < j" "j < n"
    with Suc.prems(2) [of "Suc j"] have "\<forall>i<Suc j. d - 1 - of_nat i \<noteq> s - 1 - of_nat (Suc j)" by simp
    then show "\<forall>i<j. d - 1 - 1 - of_nat i \<noteq> s - 1 - 1 - of_nat j"
      by (metis (no_types, lifting) Suc_less_eq diff_diff_add of_nat_Suc)
  qed (use Suc.prems in simp)
  show ?case
  proof (cases "a = d - 1")
    case True
    have "\<not> in_range (d - 1) (d - 1 - of_nat n) n"
      using Suc.prems by (simp add: in_range_def unat_of_nat)
    then have "memmove_down m d s (Suc n) a = m (s - 1)" using True IH by simp
    moreover have "in_range a (d - of_nat (Suc n)) (Suc n)"
      using in_range_Suc_down [of n a d] True Suc.prems(1) by simp
    moreover have "s + (a - d) = s - 1" using True by simp
    ultimately show ?thesis by metis
  next
    case False
    have ne: "in_range a (d - 1 - of_nat n) n \<Longrightarrow> s + (a - d) \<noteq> d - 1"
    proof
      assume r: "in_range a (d - 1 - of_nat n) n" and eq: "s + (a - d) = d - 1"
      let ?j = "unat (d - 1 - a)"
      have "d - 1 - a = of_nat n - (a - (d - 1 - of_nat n))" by simp
      moreover have "unat (a - (d - 1 - of_nat n)) < n" using r by (simp add: in_range_def)
      ultimately have "?j \<le> n"
        using unat_sub64 [of "a - (d - 1 - of_nat n)" "of_nat n"] Suc.prems(1) by (simp add: unat_of_nat)
      moreover have "0 < ?j" using False by (simp add: unat_gt_0)
      ultimately have "\<forall>i<?j. d - 1 - of_nat i \<noteq> s - 1 - of_nat ?j"
        using Suc.prems(2) [of ?j] by (metis le_imp_less_Suc)
      then have "d - 1 - of_nat 0 \<noteq> s - 1 - of_nat ?j" using \<open>0 < ?j\<close> by blast
      then show False using eq by (simp add: algebra_simps)
    qed
    have r: "in_range a (d - of_nat (Suc n)) (Suc n) \<longleftrightarrow> in_range a (d - 1 - of_nat n) n"
      using in_range_Suc_down [of n a d] False Suc.prems(1) by simp
    have e: "s - 1 + (a - (d - 1)) = s + (a - d)" by simp
    show ?thesis unfolding memmove_down.simps IH r e using False ne by auto
  qed
qed simp

lemma memmove_apply:
  assumes src: "unat s + n \<le> 18446744073709551616" and dst: "unat d + n \<le> 18446744073709551616"
  shows "memmove m d s n a = (if in_range a d n then m (s + (a - d)) else m a)"
proof -
  have n: "n \<le> 18446744073709551616" using src by simp
  have of: "unat (x + of_nat i) = unat x + i" if "unat x + n \<le> 18446744073709551616" "i < n" for x :: u64 and i
    using that by (intro unat_add64_numeral) simp
  show ?thesis
  proof (cases "s < d \<and> d < s + of_nat n")
    case True
    have "d + of_nat n - 1 - of_nat i \<noteq> s + of_nat n - 1 - of_nat j" if "i < j" "j < n" for i j
    proof
      assume "d + of_nat n - 1 - of_nat i = s + of_nat n - 1 - of_nat j"
      then have "d + of_nat j = s + of_nat i" by (simp add: algebra_simps)
      then have "unat d + j = unat s + i"
        using of [OF src, of i] of [OF dst, of j] that by (metis less_trans)
      then show False using True that by (simp add: word_less_nat_alt)
    qed
    then show ?thesis
      using memmove_down_apply [OF n, of "d + of_nat n" "s + of_nat n" m a] True
      by (auto simp: memmove_def)
  next
    case False
    have "d + of_nat i \<noteq> s + of_nat j" if "i < j" "j < n" for i j
    proof
      assume "d + of_nat i = s + of_nat j"
      then have eq: "unat d + i = unat s + j"
        using of [OF src, of j] of [OF dst, of i] that by (metis less_trans)
      then have sd: "s < d" using that by (simp add: word_less_nat_alt)
      then have "s + of_nat n \<le> d" using False by simp
      moreover have "unat (s + of_nat n) = unat s + n"
        using eq that dst src by (intro unat_add64_numeral) (use unat_lt64 [of d] in linarith)
      ultimately show False using eq that by (simp add: word_le_nat_alt)
    qed
    then show ?thesis
      using memmove_up_apply [OF n, of d s m a] False by (auto simp: memmove_def)
  qed
qed

lemma bytes_at_simps [simp]:
  "bytes_at m p 0 = []"
  "bytes_at m p (Suc n) = m p # bytes_at m (p + 1) n"
proof -
  show "bytes_at m p (Suc n) = m p # bytes_at m (p + 1) n"
    unfolding bytes_at_def by (rule nth_equalityI) (auto simp: nth_Cons' add.assoc simp del: upt_Suc)
qed (simp add: bytes_at_def)

lemma length_bytes_at [simp]: "length (bytes_at m p n) = n"
  by (simp add: bytes_at_def)

lemma memcmp_eq_0_iff: "memcmp m p q n = 0 \<longleftrightarrow> bytes_at m p n = bytes_at m q n"
  by (induction n arbitrary: p q) (auto simp: word_uint_eq_iff)

lemma strncmp_eq_0_iff: "strncmp m p q n = 0 \<longleftrightarrow> cstr m p n = cstr m q n"
  by (induction n arbitrary: p q) (auto simp: cstr_def word_uint_eq_iff)

lemma strlen_from_return:
  assumes "\<And>i. i < k \<Longrightarrow> m (s + n + of_nat i) \<noteq> 0" "m (s + n + of_nat k) = 0"
  shows "strlen_from m s n = Some (n + of_nat k)"
  using assms
proof (induction k arbitrary: n)
  case 0
  then show ?case by (simp add: strlen_from.simps)
next
  case (Suc k)
  have "strlen_from m s (n + 1) = Some (n + 1 + of_nat k)"
  proof (rule Suc.IH)
    show "m (s + (n + 1) + of_nat i) \<noteq> 0" if "i < k" for i
      using Suc.prems(1) [of "Suc i"] that by (simp add: algebra_simps)
    show "m (s + (n + 1) + of_nat k) = 0" using Suc.prems(2) by (simp add: algebra_simps)
  qed
  moreover have "m (s + n) \<noteq> 0" using Suc.prems(1) [of 0] by simp
  ultimately show ?case by (subst strlen_from.simps) (simp add: algebra_simps)
qed

lemma bytes_at_cong: "(\<And>i. i < n \<Longrightarrow> m (p + of_nat i) = m' (p + of_nat i)) \<Longrightarrow> bytes_at m p n = bytes_at m' p n"
  by (simp add: bytes_at_def)

lemma safestrcpy_loop_frame:
  "Suc n < 18446744073709551616 \<Longrightarrow> \<not> in_range a s (Suc n) \<Longrightarrow> safestrcpy_loop m s t n a = m a"
proof (induction n arbitrary: m s t)
  case (Suc n)
  then have "\<not> in_range a (s + 1) (Suc n)" and "a \<noteq> s"
    using in_range_Suc_left [of "Suc n" a s] by auto
  moreover from this have "a \<noteq> s + 1" by auto
  ultimately show ?case using Suc by (simp add: Let_def)
qed (auto simp: in_range_def)

lemma safestrcpy_loop_cstr:
  assumes "Suc n < 18446744073709551616"
    and "\<And>i j. i \<le> n \<Longrightarrow> j < n \<Longrightarrow> s + of_nat i \<noteq> t + of_nat j"
  shows "cstr (safestrcpy_loop m s t n) s (Suc n) = cstr m t n"
  using assms
proof (induction n arbitrary: m s t)
  case 0
  then show ?case by (simp add: cstr_def)
next
  case (Suc n)
  let ?m = "m(s := m t)" and ?r = "safestrcpy_loop (m(s := m t)) (s + 1) (t + 1) n"
  show ?case
  proof (cases "m t = 0")
    case True
    then show ?thesis by (simp add: cstr_def Let_def)
  next
    case False
    have "\<not> in_range s (s + 1) (Suc n)"
      using Suc.prems(1) by (simp add: in_range_def unsigned_minus_1_eq_mask mask_eq_exp_minus_1)
    then have s: "?r s = m t"
      using safestrcpy_loop_frame [of n s "s + 1" ?m "t + 1"] Suc.prems(1) by simp
    have "cstr ?r (s + 1) (Suc n) = cstr ?m (t + 1) n"
    proof (rule Suc.IH)
      show "s + 1 + of_nat i \<noteq> t + 1 + of_nat j" if "i \<le> n" "j < n" for i j
        using Suc.prems(2) [of "Suc i" "Suc j"] that by (simp add: algebra_simps)
    qed (use Suc.prems(1) in simp)
    also have "bytes_at ?m (t + 1) n = bytes_at m (t + 1) n"
    proof (rule bytes_at_cong)
      show "?m (t + 1 + of_nat i) = m (t + 1 + of_nat i)" if "i < n" for i
        using Suc.prems(2) [of 0 "Suc i"] that by (auto simp: algebra_simps)
    qed
    then have "cstr ?m (t + 1) n = cstr m (t + 1) n" by (simp add: cstr_def)
    finally show ?thesis using False s by (simp add: cstr_def Let_def)
  qed
qed

subsection \<open>Properties\<close>

text \<open>\<open>memmove\<close> moves the \<open>n\<close> source bytes to the destination and changes no other byte,
  whichever way the two ranges overlap, as long as neither wraps around the address space.\<close>

theorem memmove_moves:
  assumes "unat src + n \<le> 18446744073709551616" "unat dst + n \<le> 18446744073709551616"
  shows "bytes_at (memmove m dst src n) dst n = bytes_at m src n
     \<and> (\<forall>a. \<not> in_range a dst n \<longrightarrow> memmove m dst src n a = m a)"
proof -
  have "unat (of_nat i :: u64) < n" if "i < n" for i
    using that assms(1) by (simp add: unat_of_nat less_le_trans)
  then show ?thesis using memmove_apply [OF assms] by (auto simp: bytes_at_def)
qed

text \<open>The ranges of \<open>memmove_moves\<close> may overlap: three bytes moved up by one.\<close>

theorem memmove_moves_witness:
  "bytes_at (memmove (\<lambda>a. ucast a) 4097 4096 3) 4097 3 = [0, 1, 2]
   \<and> memmove (\<lambda>a. ucast a) 4097 4096 3 4096 = 0"
proof -
  have "bytes_at (memmove (\<lambda>a. ucast a) 4097 4096 3) 4097 3 = bytes_at (\<lambda>a. ucast a) 4096 3"
    and f: "\<forall>a. \<not> in_range a 4097 3 \<longrightarrow> memmove (\<lambda>a. ucast a) 4097 4096 3 a = ucast a"
    using memmove_moves [of 4096 3 4097 "\<lambda>a. ucast a"] by simp_all
  moreover have "memmove (\<lambda>a. ucast a) 4097 4096 3 4096 = (0 :: u8)"
    using f [rule_format, of 4096] by (simp add: in_range_def unsigned_minus_1_eq_mask mask_eq_exp_minus_1)
  ultimately show ?thesis by (simp add: numeral_3_eq_3 del: One_nat_def)
qed

text \<open>\<open>safestrcpy\<close> with a buffer of \<open>n > 0\<close> bytes that the source does not overlap leaves in
  it the C string of the source, cut at \<open>n - 1\<close> bytes and NUL-terminated, and writes nothing else.\<close>

theorem safestrcpy_copies:
  assumes "0 < n" "n < 9223372036854775808"
    and "\<And>i j. i < nat n \<Longrightarrow> j < nat n \<Longrightarrow> s + of_nat i \<noteq> t + of_nat j"
  shows "cstr (safestrcpy m s t n) s (nat n) = cstr m t (nat n - 1)
     \<and> 0 \<in> set (bytes_at (safestrcpy m s t n) s (nat n))
     \<and> (\<forall>a. \<not> in_range a s (nat n) \<longrightarrow> safestrcpy m s t n a = m a)"
proof -
  have n: "nat n = Suc (nat (n - 1))" "\<not> n \<le> 0" "Suc (nat (n - 1)) < 18446744073709551616"
    using assms(1,2) by auto
  have c: "cstr (safestrcpy m s t n) s (nat n) = cstr m t (nat n - 1)"
    using safestrcpy_loop_cstr [OF n(3), of s t m] assms(3) n(1,2) by (auto simp: safestrcpy_def)
  have "length (cstr m t (nat n - 1)) < nat n"
    using length_takeWhile_le [of "\<lambda>b. b \<noteq> 0" "bytes_at m t (nat n - 1)"] n(1) by (simp add: cstr_def)
  then have "cstr (safestrcpy m s t n) s (nat n) \<noteq> bytes_at (safestrcpy m s t n) s (nat n)"
    unfolding c by (metis length_bytes_at less_irrefl)
  then have "0 \<in> set (bytes_at (safestrcpy m s t n) s (nat n))"
    unfolding cstr_def by (auto simp: takeWhile_eq_all_conv)
  moreover have "safestrcpy m s t n a = m a" if "\<not> in_range a s (nat n)" for a
    using safestrcpy_loop_frame [OF n(3), of a s m t] that n(1,2) by (simp add: safestrcpy_def)
  ultimately show ?thesis using c by blast
qed

theorem safestrcpy_copies_witness:
  "cstr (safestrcpy (\<lambda>a. if 100 \<le> a \<and> a < 105 then 65 else 0) 200 100 4) 200 4 = [65, 65, 65]"
proof -
  let ?m = "\<lambda>a :: u64. if 100 \<le> a \<and> a < 105 then 65 else 0 :: u8"
  have "(200 :: u64) + of_nat i \<noteq> 100 + of_nat j" if "i < nat 4" "j < nat 4" for i j
    using that by (simp add: unat_eq_iff64 unat_add64_numeral)
  from safestrcpy_copies [where m = ?m and n = 4 and s = 200 and t = 100, OF _ _ this]
  have "cstr (safestrcpy ?m 200 100 4) 200 4 = cstr ?m 100 3" by simp
  also have "\<dots> = [65, 65, 65]" by (simp add: cstr_def numeral_3_eq_3 del: One_nat_def)
  finally show ?thesis .
qed

text \<open>\<open>memcmp\<close> and \<open>strncmp\<close> return zero exactly for equal byte sequences and for equal C
  strings of the first \<open>n\<close> bytes.\<close>

theorem compare_zero_iff_equal:
  "(memcmp m p q n = 0 \<longleftrightarrow> bytes_at m p n = bytes_at m q n) \<and>
   (strncmp m p q n = 0 \<longleftrightarrow> cstr m p n = cstr m q n)"
  by (simp add: memcmp_eq_0_iff strncmp_eq_0_iff)

end
