(* ===== verification/Kalloc.thy ===== *)
theory Kalloc
  imports Riscv KString
begin

text \<open>
  The physical page allocator \<open>kernel/kalloc.c\<close>. The free list is threaded through the free pages
  themselves: the first eight bytes of a free page hold the address of the next one. The state keeps
  the physical memory and \<open>kmem.freelist\<close>; \<open>kend\<close> is the linker symbol \<open>end\<close>, the first address
  after the kernel. The lock \<open>kmem.lock\<close> makes each operation one atomic step.

  \<open>kmem_repr\<close> relates a state to the list of free pages. The locale \<open>page_allocator\<close> is the
  contract the virtual-memory code relies on (a page handed out is free, nonzero and no longer free
  afterwards; freeing gives it back; memory outside the page is untouched); \<open>kmem\<close> interprets it on
  the code's \<open>kalloc\<close> and \<open>kfree\<close>.
\<close>

subsection \<open>State and operations\<close>

record machine =
  pmem :: mem
  freelist :: u64

definition kfree :: "u64 \<Rightarrow> u64 \<Rightarrow> 'a machine_scheme \<Rightarrow> kerror + 'a machine_scheme" where
  "kfree kend pa s =
     (if unat pa mod 4096 \<noteq> 0 \<or> pa < kend \<or> PHYSTOP \<le> pa then Inl (Panic ''kfree'')
      else let m = memset (pmem s) pa 1 4096 in
        Inr (s\<lparr>pmem := store64 m pa (freelist s), freelist := pa\<rparr>))"

definition kalloc :: "'a machine_scheme \<Rightarrow> u64 \<times> 'a machine_scheme" where
  "kalloc s =
     (let r = freelist s in
      if r \<noteq> 0 then (r, s\<lparr>freelist := load64 (pmem s) r, pmem := memset (pmem s) r 5 4096\<rparr>)
      else (0, s))"

lemma kfree_below_PHYSTOP: "kfree kend pa s = Inr s' \<Longrightarrow> unat pa < 2281701376"
  by (auto simp: kfree_def word_le_nat_alt not_le split: if_splits)

function freerange_from :: "u64 \<Rightarrow> u64 \<Rightarrow> u64 \<Rightarrow> 'a machine_scheme \<Rightarrow> kerror + 'a machine_scheme" where
  "freerange_from kend p pa_end s =
     (if p + PGSIZE \<le> pa_end
      then bindE (kfree kend p s) (\<lambda>s'. freerange_from kend (p + PGSIZE) pa_end s')
      else Inr s)"
  by pat_completeness auto
termination
proof (relation "measure (\<lambda>(kend, p, pa_end, s). 2281705472 - unat p)", goal_cases)
  case (2 kend p pa_end s s')
  then have "unat p < 2281701376" by (auto dest: kfree_below_PHYSTOP)
  then show ?case by (simp add: unat_add64)
qed simp

declare freerange_from.simps [simp del]

definition freerange :: "u64 \<Rightarrow> u64 \<Rightarrow> u64 \<Rightarrow> 'a machine_scheme \<Rightarrow> kerror + 'a machine_scheme" where
  "freerange kend pa_start pa_end s = freerange_from kend (PGROUNDUP pa_start) pa_end s"

definition kinit :: "u64 \<Rightarrow> 'a machine_scheme \<Rightarrow> kerror + 'a machine_scheme" where
  "kinit kend s = freerange kend kend PHYSTOP s"

subsection \<open>The free list as an abstract list of pages\<close>

definition kpage :: "u64 \<Rightarrow> u64 \<Rightarrow> bool" where
  "kpage kend p \<longleftrightarrow> aligned 4096 p \<and> kend \<le> p \<and> p < PHYSTOP \<and> p \<noteq> 0"

fun free_chain :: "mem \<Rightarrow> u64 \<Rightarrow> u64 list \<Rightarrow> bool" where
  "free_chain m r [] \<longleftrightarrow> r = 0"
| "free_chain m r (p # ps) \<longleftrightarrow> r = p \<and> p \<noteq> 0 \<and> free_chain m (load64 m p) ps"

definition kmem_repr :: "u64 \<Rightarrow> 'a machine_scheme \<Rightarrow> u64 list \<Rightarrow> bool" where
  "kmem_repr kend s ps \<longleftrightarrow>
     free_chain (pmem s) (freelist s) ps \<and> distinct ps \<and> (\<forall>p \<in> set ps. kpage kend p)"

text \<open>Distinct aligned pages share no byte.\<close>

lemma page_disjoint:
  assumes "aligned 4096 p" "aligned 4096 q" "p \<noteq> q" "in_range x p 4096"
  shows "\<not> in_range x q 4096"
  using assms by (auto simp: in_range_aligned aligned_def unat_eq_iff64)

lemma in_range_mono: "in_range x p n \<Longrightarrow> n \<le> k \<Longrightarrow> in_range x p k"
  by (simp add: in_range_def)

lemma free_chain_cong:
  assumes "\<And>p x. p \<in> set ps \<Longrightarrow> in_range x p 4096 \<Longrightarrow> m x = m' x"
  shows "free_chain m r ps = free_chain m' r ps"
  using assms
proof (induction ps arbitrary: r)
  case (Cons p ps)
  have "load64 m p = load64 m' p"
    by (rule load64_cong, rule Cons.prems) (auto intro: in_range_mono)
  then show ?case using Cons by auto
qed simp

lemma free_chain_Cons_iff: "r \<noteq> 0 \<Longrightarrow> free_chain m r ps \<longleftrightarrow> (\<exists>qs. ps = r # qs \<and> free_chain m (load64 m r) qs)"
  by (cases ps) auto

subsection \<open>The contract\<close>

locale page_allocator =
  fixes alloc :: "'s \<Rightarrow> u64 \<times> 's"
    and free :: "u64 \<Rightarrow> 's \<Rightarrow> kerror + 's"
    and repr :: "'s \<Rightarrow> u64 list \<Rightarrow> bool"
    and page :: "u64 \<Rightarrow> bool"
    and memory :: "'s \<Rightarrow> mem"
  assumes alloc_Nil: "repr s [] \<Longrightarrow> alloc s = (0, s)"
    and alloc_Cons: "repr s (p # ps) \<Longrightarrow> fst (alloc s) = p \<and> repr (snd (alloc s)) ps"
    and repr_distinct: "repr s ps \<Longrightarrow> distinct ps"
    and repr_page: "repr s ps \<Longrightarrow> p \<in> set ps \<Longrightarrow> page p"
    and page_nonzero: "page p \<Longrightarrow> p \<noteq> 0 \<and> aligned 4096 p"
    and free_page: "repr s ps \<Longrightarrow> page p \<Longrightarrow> p \<notin> set ps \<Longrightarrow> \<exists>s'. free p s = Inr s' \<and> repr s' (p # ps)"
    and alloc_frame: "\<not> in_range x (fst (alloc s)) 4096 \<Longrightarrow> memory (snd (alloc s)) x = memory s x"
    and free_frame: "free p s = Inr s' \<Longrightarrow> \<not> in_range x p 4096 \<Longrightarrow> memory s' x = memory s x"
begin

primrec alloc_many :: "nat \<Rightarrow> 's \<Rightarrow> u64 list \<times> 's" where
  "alloc_many 0 s = ([], s)"
| "alloc_many (Suc n) s =
     (fst (alloc s) # fst (alloc_many n (snd (alloc s))), snd (alloc_many n (snd (alloc s))))"

lemma alloc_zero_iff: "repr s ps \<Longrightarrow> fst (alloc s) = 0 \<longleftrightarrow> ps = []"
  using alloc_Cons alloc_Nil repr_page page_nonzero
  by (cases ps) (fastforce, metis list.set_intros(1) list.distinct(1))

text \<open>A run of allocations hands out the free pages in order, and leaves the rest free.\<close>

lemma alloc_many_take:
  "repr s ps \<Longrightarrow> n \<le> length ps \<Longrightarrow>
     fst (alloc_many n s) = take n ps \<and> repr (snd (alloc_many n s)) (drop n ps)"
proof (induction n arbitrary: s ps)
  case (Suc n)
  then obtain p qs where ps: "ps = p # qs" by (cases ps) auto
  with Suc.prems have "fst (alloc s) = p" "repr (snd (alloc s)) qs" by (auto dest: alloc_Cons)
  with Suc ps show ?case by auto
qed simp

lemma alloc_many_distinct:
  assumes "repr s ps" "n \<le> length ps"
  shows "distinct (fst (alloc_many n s)) \<and> 0 \<notin> set (fst (alloc_many n s))"
proof -
  have "0 \<notin> set ps" using assms(1) repr_page page_nonzero by blast
  then show ?thesis
    using alloc_many_take [OF assms] repr_distinct [OF assms(1)] by (auto dest: in_set_takeD)
qed

lemma alloc_many_frame:
  "repr s ps \<Longrightarrow> n \<le> length ps \<Longrightarrow> (\<forall>p \<in> set (take n ps). \<not> in_range x p 4096) \<Longrightarrow>
     memory (snd (alloc_many n s)) x = memory s x"
proof (induction n arbitrary: s ps)
  case (Suc n)
  then obtain p qs where ps: "ps = p # qs" by (cases ps) auto
  with Suc.prems have a: "fst (alloc s) = p" "repr (snd (alloc s)) qs" by (auto dest: alloc_Cons)
  then have "memory (snd (alloc s)) x = memory s x"
    using Suc.prems ps alloc_frame [of x s] by auto
  with Suc ps a show ?case by auto
qed simp

text \<open>Giving a page back and asking again returns the same page, and the list is as before.\<close>

lemma free_then_alloc:
  assumes "repr s ps" "page p" "p \<notin> set ps" "free p s = Inr s'"
  shows "fst (alloc s') = p \<and> repr (snd (alloc s')) ps"
  using free_page [OF assms(1-3)] assms(4) alloc_Cons by auto

end

subsection \<open>The kernel's allocator meets the contract\<close>

lemma kalloc_repr_Nil: "kmem_repr kend s [] \<Longrightarrow> kalloc s = (0, s)"
  by (simp add: kmem_repr_def kalloc_def)

lemma kalloc_repr_Cons:
  assumes "kmem_repr kend s (p # ps)"
  shows "fst (kalloc s) = p \<and> kmem_repr kend (snd (kalloc s)) ps"
proof -
  from assms have r: "freelist s = p" "p \<noteq> 0" "free_chain (pmem s) (load64 (pmem s) p) ps"
    and d: "distinct (p # ps)" and k: "\<forall>q \<in> set (p # ps). kpage kend q"
    by (auto simp: kmem_repr_def)
  have "free_chain (memset (pmem s) p 5 4096) (load64 (pmem s) p) ps
      = free_chain (pmem s) (load64 (pmem s) p) ps"
  proof (rule free_chain_cong)
    fix q x assume q: "q \<in> set ps" "in_range x q 4096"
    then have "\<not> in_range x p 4096"
      using d k by (metis distinct.simps(2) kpage_def list.set_intros page_disjoint)
    then show "memset (pmem s) p 5 4096 x = pmem s x" by simp
  qed
  with r d k show ?thesis by (simp add: kalloc_def kmem_repr_def)
qed

lemma kfree_ok: "kpage kend p \<Longrightarrow> kfree kend p s =
    Inr (s\<lparr>pmem := store64 (memset (pmem s) p 1 4096) p (freelist s), freelist := p\<rparr>)"
  by (auto simp: kfree_def kpage_def aligned_def)

lemma kfree_repr:
  assumes "kmem_repr kend s ps" "kpage kend p" "p \<notin> set ps"
  shows "\<exists>s'. kfree kend p s = Inr s' \<and> kmem_repr kend s' (p # ps)"
proof -
  let ?m = "store64 (memset (pmem s) p 1 4096) p (freelist s)"
  have "free_chain ?m (freelist s) ps = free_chain (pmem s) (freelist s) ps"
  proof (rule free_chain_cong)
    fix q x assume q: "q \<in> set ps" "in_range x q 4096"
    then have "\<not> in_range x p 4096"
      using assms by (metis kmem_repr_def kpage_def page_disjoint)
    then show "?m x = pmem s x"
      by (simp add: store64_other in_range_mono [of x p 8 4096] in_range_def)
  qed
  then have "kmem_repr kend (s\<lparr>pmem := ?m, freelist := p\<rparr>) (p # ps)"
    using assms by (simp add: kmem_repr_def kpage_def)
  then show ?thesis using kfree_ok [OF assms(2)] by blast
qed

lemma kalloc_frame: "\<not> in_range x (fst (kalloc s)) 4096 \<Longrightarrow> pmem (snd (kalloc s)) x = pmem s x"
  by (auto simp: kalloc_def Let_def)

lemma kfree_frame: "kfree kend p s = Inr s' \<Longrightarrow> \<not> in_range x p 4096 \<Longrightarrow> pmem s' x = pmem s x"
  by (auto simp: kfree_def Let_def store64_other in_range_def split: if_splits)

interpretation kmem: page_allocator kalloc "kfree kend" "kmem_repr kend" "kpage kend" pmem
  for kend
proof (unfold_locales, goal_cases)
  case (1 s) then show ?case by (rule kalloc_repr_Nil)
next
  case (2 s p ps) then show ?case by (rule kalloc_repr_Cons)
next
  case (6 s ps p) then show ?case by (rule kfree_repr)
next
  case (7 x s) then show ?case by (rule kalloc_frame)
next
  case (8 p s s' x) then show ?case by (rule kfree_frame)
qed (auto simp: kmem_repr_def kpage_def)

subsection \<open>Initialisation\<close>

text \<open>\<open>pages_from lo n\<close>: the \<open>n\<close> pages at \<open>lo\<close>, the last one first, as \<open>freerange\<close> pushes them.\<close>

primrec pages_from :: "u64 \<Rightarrow> nat \<Rightarrow> u64 list" where
  "pages_from lo 0 = []"
| "pages_from lo (Suc n) = (lo + of_nat n * PGSIZE) # pages_from lo n"

lemma set_pages_from: "set (pages_from lo n) = (\<lambda>i. lo + of_nat i * PGSIZE) ` {..<n}"
  by (induction n) (auto simp: lessThan_Suc)

lemma pages_from_shift: "pages_from lo (Suc n) = pages_from (lo + PGSIZE) n @ [lo]"
  by (induction n) (auto simp: algebra_simps)

lemma length_pages_from [simp]: "length (pages_from lo n) = n"
  by (induction n) auto

lemma unat_page_offset:
  assumes "unat lo + i * 4096 < 18446744073709551616"
  shows "unat (lo + of_nat i * PGSIZE) = unat lo + i * 4096"
proof -
  have "unat (of_nat i * PGSIZE :: u64) = i * 4096"
    using assms by (simp add: unat_word_ariths unat_of_nat)
  then show ?thesis using assms by (simp add: unat_add64)
qed

lemma freerange_from_repr:
  assumes "kmem_repr kend s ps" "aligned 4096 p" "kend \<le> p" "p \<noteq> 0"
    and "unat p + n * 4096 \<le> unat pa_end" "unat pa_end < unat p + Suc n * 4096"
    and "unat pa_end \<le> 2281701376"
    and "\<forall>q \<in> set ps. q < p"
  shows "\<exists>s'. freerange_from kend p pa_end s = Inr s' \<and> kmem_repr kend s' (pages_from p n @ ps)"
  using assms
proof (induction n arbitrary: s ps p)
  case 0
  then have "\<not> p + PGSIZE \<le> pa_end"
    by (simp add: word_le_nat_alt unat_add64)
  then show ?case using 0 by (simp add: freerange_from.simps)
next
  case (Suc n)
  have le: "p + PGSIZE \<le> pa_end" using Suc.prems by (simp add: word_le_nat_alt unat_add64)
  have u: "unat (p + PGSIZE) = unat p + 4096" using Suc.prems by (simp add: unat_add64)
  have kp: "kpage kend p" using Suc.prems by (simp add: kpage_def word_less_nat_alt)
  then obtain s1 where s1: "kfree kend p s = Inr s1" "kmem_repr kend s1 (p # ps)"
    using kfree_repr [OF Suc.prems(1) kp] Suc.prems(8) by auto
  have "\<exists>s'. freerange_from kend (p + PGSIZE) pa_end s1 = Inr s'
      \<and> kmem_repr kend s' (pages_from (p + PGSIZE) n @ p # ps)"
  proof (rule Suc.IH [OF s1(2)])
    show "aligned 4096 (p + PGSIZE)" using Suc.prems(2) u by (simp add: aligned_def)
    show "kend \<le> p + PGSIZE" "\<forall>q\<in>set (p # ps). q < p + PGSIZE"
      using Suc.prems u by (auto simp: word_le_nat_alt word_less_nat_alt)
    show "p + PGSIZE \<noteq> 0" using u by (metis add_is_0 unat_0 zero_neq_numeral)
  qed (use Suc.prems u in simp_all)
  then show ?case using le s1
    by (auto simp: freerange_from.simps [of kend p] pages_from_shift simp del: pages_from.simps)
qed

lemma set_pages_from_kpage:
  assumes "0 < unat kend" "unat kend \<le> 2281701376" "unat lo = (unat kend + 4095) div 4096 * 4096"
  shows "set (pages_from lo ((2281701376 - unat lo) div 4096)) = {p. kpage kend p}"
proof -
  let ?n = "(2281701376 - unat lo) div 4096"
  have u: "unat (lo + of_nat i * PGSIZE) = unat lo + i * 4096" if "i < ?n" for i
    using that by (intro unat_page_offset) simp
  have "kpage kend (lo + of_nat i * PGSIZE)" if "i < ?n" for i
  proof -
    have "unat kend \<le> unat lo" "0 < unat lo" "unat lo + i * 4096 < 2281701376" using assms that by auto
    then show ?thesis using u [OF that] assms
      by (simp add: kpage_def aligned_def word_le_nat_alt word_less_nat_alt unat_eq_iff64)
  qed
  moreover have "\<exists>i < ?n. p = lo + of_nat i * PGSIZE" if p: "kpage kend p" for p
  proof -
    obtain q where q: "unat p = 4096 * q" using p by (auto simp: kpage_def aligned_def)
    have b: "unat kend \<le> unat p" "unat p < 2281701376" using p by (auto simp: kpage_def word_le_nat_alt word_less_nat_alt)
    let ?i = "q - (unat kend + 4095) div 4096"
    have "(unat kend + 4095) div 4096 \<le> q" "?i < ?n" "unat lo + ?i * 4096 = unat p" using b q assms by auto
    then show ?thesis using u [of ?i] by (intro exI [of _ ?i]) (simp add: unat_eq_iff64)
  qed
  ultimately show ?thesis by (auto simp: set_pages_from)
qed

lemma kinit_repr:
  assumes "0 < unat kend" "unat (PGROUNDUP kend) \<le> 2281701376" "kend \<le> PHYSTOP" "freelist s = 0"
  shows "\<exists>s'. kinit kend s = Inr s' \<and>
     kmem_repr kend s' (pages_from (PGROUNDUP kend) ((2281701376 - unat (PGROUNDUP kend)) div 4096))"
proof -
  let ?p = "PGROUNDUP kend" and ?n = "(2281701376 - unat (PGROUNDUP kend)) div 4096"
  have u: "unat ?p = (unat kend + 4095) div 4096 * 4096" using assms(3)
    by (subst unat_PGROUNDUP) (simp_all add: word_le_nat_alt)
  have "\<exists>s'. freerange_from kend ?p PHYSTOP s = Inr s' \<and> kmem_repr kend s' (pages_from ?p ?n @ [])"
  proof (rule freerange_from_repr)
    show "kmem_repr kend s []" using assms by (simp add: kmem_repr_def)
    show "aligned 4096 ?p" using u by (simp add: aligned_def)
    show "kend \<le> ?p" using u by (simp add: word_le_nat_alt)
    show "?p \<noteq> 0" using u assms(1) by (simp add: unat_eq_iff64)
  qed (use assms u in auto)
  then show ?thesis by (simp add: kinit_def freerange_def)
qed

subsection \<open>Properties\<close>

text \<open>C31: \<open>kinit\<close> puts every whole page between the end of the kernel and \<open>PHYSTOP\<close> on the free
  list, once, and does not panic.\<close>

theorem kinit_frees_all_pages:
  assumes "kend \<noteq> 0" "kend \<le> PHYSTOP" "freelist s = 0"
  shows "\<exists>s' ps. kinit kend s = Inr s' \<and> kmem_repr kend s' ps \<and> set ps = {p. kpage kend p}"
proof -
  let ?p = "PGROUNDUP kend" and ?n = "(2281701376 - unat (PGROUNDUP kend)) div 4096"
  have k: "0 < unat kend" "unat kend \<le> 2281701376" using assms by (auto simp: word_le_nat_alt unat_gt_0)
  have u: "unat ?p = (unat kend + 4095) div 4096 * 4096" using k(2) by (subst unat_PGROUNDUP) simp_all
  then have le: "unat ?p \<le> 2281701376" using k(2) by auto
  have "set (pages_from ?p ?n) = {p. kpage kend p}" by (rule set_pages_from_kpage [OF k u])
  then show ?thesis using kinit_repr [OF k(1) le assms(2,3)] by blast
qed

theorem kinit_frees_all_pages_witness:
  "\<exists>s' ps. kinit 0x87FFE123 \<lparr>pmem = (\<lambda>_. 0), freelist = 0\<rparr> = Inr s' \<and> kmem_repr 0x87FFE123 s' ps
     \<and> set ps = {p. kpage 0x87FFE123 p}"
  by (rule kinit_frees_all_pages) (simp_all add: word_le_nat_alt)

text \<open>\<open>n\<close> calls of \<open>kalloc\<close>, \<open>n\<close> at most the number of free pages, return \<open>n\<close> distinct nonzero
  pages and leave the others free; no memory outside the pages returned is touched.\<close>

theorem kalloc_run_distinct:
  assumes "kmem_repr kend s ps" "n \<le> length ps"
  shows "distinct (fst (kmem.alloc_many n s)) \<and> 0 \<notin> set (fst (kmem.alloc_many n s))
     \<and> set (fst (kmem.alloc_many n s)) \<subseteq> {p. kpage kend p}
     \<and> kmem_repr kend (snd (kmem.alloc_many n s)) (drop n ps)
     \<and> (\<forall>x. (\<forall>p \<in> set (fst (kmem.alloc_many n s)). \<not> in_range x p 4096)
           \<longrightarrow> pmem (snd (kmem.alloc_many n s)) x = pmem s x)"
  using kmem.alloc_many_take [OF assms] kmem.alloc_many_distinct [OF assms]
    kmem.alloc_many_frame [OF assms] kmem.repr_page [OF assms(1)]
  by (auto dest: in_set_takeD)

text \<open>A page given back by \<open>kfree\<close> is the next one \<open>kalloc\<close> returns, the free list is then as
  before, and the page comes back filled with the byte 5.\<close>

theorem kfree_kalloc_roundtrip:
  assumes "kmem_repr kend s ps" "kpage kend p" "p \<notin> set ps"
  shows "\<exists>s' s''. kfree kend p s = Inr s' \<and> kalloc s' = (p, s'') \<and> kmem_repr kend s'' ps
     \<and> (\<forall>x. in_range x p 4096 \<longrightarrow> pmem s'' x = 5) \<and> (\<forall>x. \<not> in_range x p 4096 \<longrightarrow> pmem s'' x = pmem s x)"
proof -
  obtain s' where s': "kfree kend p s = Inr s'" "kmem_repr kend s' (p # ps)"
    using kfree_repr [OF assms] by blast
  have "fst (kalloc s') = p" "kmem_repr kend (snd (kalloc s')) ps"
    using kmem.free_then_alloc [OF assms s'(1)] by auto
  moreover have "pmem (snd (kalloc s')) x = 5" if "in_range x p 4096" for x
    using that s'(2) by (simp add: kalloc_def kmem_repr_def)
  moreover have "pmem (snd (kalloc s')) x = pmem s x" if "\<not> in_range x p 4096" for x
    using that kalloc_frame [of x s'] kfree_frame [OF s'(1)] calculation(1) by simp
  ultimately show ?thesis using s'(1) by (cases "kalloc s'") auto
qed

text \<open>An allocator with two free pages, for the witnesses.\<close>

definition two_pages :: machine where
  "two_pages = \<lparr>pmem = store64 (\<lambda>_. 0) 0x87FFF000 0x87FFE000, freelist = 0x87FFF000\<rparr>"

lemma two_pages_repr: "kmem_repr 0x87FFE000 two_pages [0x87FFF000, 0x87FFE000]"
proof -
  have "load64 (store64 (\<lambda>_. 0) 0x87FFF000 0x87FFE000) 0x87FFE000 = load64 (\<lambda>_. 0) 0x87FFE000"
  proof (rule load64_cong, rule store64_other)
    fix x :: u64 assume "in_range x 0x87FFE000 8"
    then have "in_range x 0x87FFE000 4096" by (rule in_range_mono) simp
    then have "\<not> in_range x 0x87FFF000 4096" using page_disjoint [of "0x87FFE000" "0x87FFF000" x] by (simp add: aligned_def)
    then show "\<not> in_range x 0x87FFF000 8" using in_range_mono [of x "0x87FFF000" 8 4096] by auto
  qed
  also have "\<dots> = 0" by (simp add: load64_def)
  finally show ?thesis
    by (simp add: kmem_repr_def two_pages_def kpage_def aligned_def word_less_nat_alt word_le_nat_alt)
qed

theorem kalloc_run_distinct_witness:
  "distinct (fst (kmem.alloc_many 2 two_pages)) \<and> kmem_repr 0x87FFE000 (snd (kmem.alloc_many 2 two_pages)) []"
  using kalloc_run_distinct [OF two_pages_repr, of 2] by simp

theorem kfree_kalloc_roundtrip_witness:
  "\<exists>s' s''. kfree 0x87FFD000 0x87FFD000 two_pages = Inr s' \<and> kalloc s' = (0x87FFD000, s'')
     \<and> pmem s'' 0x87FFD123 = 5"
proof -
  have "kmem_repr 0x87FFD000 two_pages [0x87FFF000, 0x87FFE000]"
    using two_pages_repr by (simp add: kmem_repr_def kpage_def)
  moreover have "kpage 0x87FFD000 0x87FFD000" by (simp add: kpage_def aligned_def word_less_nat_alt)
  moreover have "in_range 0x87FFD123 0x87FFD000 4096" by (simp add: in_range_def)
  ultimately show ?thesis
    using kfree_kalloc_roundtrip [of "0x87FFD000" two_pages "[0x87FFF000, 0x87FFE000]" "0x87FFD000"]
    by (simp, blast)
qed

end
