(* ===== verification/CowGroup.thy ===== *)
theory CowGroup
  imports Kalloc
begin

text \<open>
  The copy-on-write group table of \<open>kernel/cow.c\<close>: which processes share which physical pages.
  \<open>vmstate\<close> extends the machine by the table and by the copy-on-write fields of the current process,
  which \<open>uvmunmap\<close> consults. A group pointer is the index of its slot; where the code dereferences
  the result of \<open>get_cow_group\<close> without a check, the missing group is \<open>NullDeref\<close>, and the store
  past the end of \<open>shmem\<close> is \<open>OutOfBounds\<close>.

  \<open>shared_pages\<close> is the set a group's \<open>shmem\<close> array stands for; the lemmas show that \<open>add_shmem\<close>
  and \<open>is_shmem\<close> are insertion into and membership in that set.
\<close>

definition NPROC :: nat where "NPROC = 64"
definition SHMEM_MAX :: nat where "SHMEM_MAX = 100"

record cow_group =
  group :: int
  shmem :: "u64 list"
  count :: int

record vmstate = machine +
  cow_groups :: "cow_group list"
  p_cow_enabled :: int
  p_cow_group :: int

subsection \<open>Operations\<close>

fun find_group :: "cow_group list \<Rightarrow> int \<Rightarrow> nat \<Rightarrow> nat option" where
  "find_group [] g i = None"
| "find_group (c # cs) g i = (if group c = g then Some i else find_group cs g (Suc i))"

definition get_cow_group :: "int \<Rightarrow> cow_group list \<Rightarrow> nat option" where
  "get_cow_group g gs = (if g = - 1 then None else find_group gs g 0)"

definition cow_group_init :: "int \<Rightarrow> cow_group list \<Rightarrow> cow_group list" where
  "cow_group_init g gs =
     (case find_group gs (- 1) 0 of None \<Rightarrow> gs | Some i \<Rightarrow> gs[i := (gs ! i)\<lparr>group := g\<rparr>])"

definition get_cow_group_count :: "int \<Rightarrow> cow_group list \<Rightarrow> kerror + int" where
  "get_cow_group_count g gs =
     (case get_cow_group g gs of None \<Rightarrow> Inl NullDeref | Some i \<Rightarrow> Inr (count (gs ! i)))"

definition incr_cow_group_count :: "int \<Rightarrow> cow_group list \<Rightarrow> kerror + cow_group list" where
  "incr_cow_group_count g gs =
     (case get_cow_group g gs of None \<Rightarrow> Inl NullDeref
      | Some i \<Rightarrow> bindE (get_cow_group_count g gs) (\<lambda>c. Inr (gs[i := (gs ! i)\<lparr>count := c + 1\<rparr>])))"

definition decr_cow_group_count :: "int \<Rightarrow> cow_group list \<Rightarrow> kerror + cow_group list" where
  "decr_cow_group_count g gs =
     (case get_cow_group g gs of None \<Rightarrow> Inl NullDeref
      | Some i \<Rightarrow> bindE (get_cow_group_count g gs) (\<lambda>c. Inr (gs[i := (gs ! i)\<lparr>count := c - 1\<rparr>])))"

text \<open>The search loop of \<open>add_shmem\<close>: \<open>None\<close> when the page is already listed, otherwise the index
  where it stops, which is \<open>SHMEM_MAX\<close> when no slot is free.\<close>

fun shmem_slot :: "u64 list \<Rightarrow> u64 \<Rightarrow> nat \<Rightarrow> nat option" where
  "shmem_slot [] pa i = Some i"
| "shmem_slot (x # xs) pa i =
     (if x = pa then None else if x = 0 then Some i else shmem_slot xs pa (Suc i))"

definition add_shmem :: "int \<Rightarrow> u64 \<Rightarrow> cow_group list \<Rightarrow> kerror + cow_group list" where
  "add_shmem g pa gs =
     (if g = - 1 then Inr gs
      else case get_cow_group g gs of
        None \<Rightarrow> Inl NullDeref
      | Some i \<Rightarrow>
          (case shmem_slot (shmem (gs ! i)) pa 0 of
             None \<Rightarrow> Inr gs
           | Some k \<Rightarrow>
               if k < SHMEM_MAX then Inr (gs[i := (gs ! i)\<lparr>shmem := (shmem (gs ! i))[k := pa]\<rparr>])
               else Inl OutOfBounds))"

fun shmem_member :: "u64 list \<Rightarrow> u64 \<Rightarrow> bool" where
  "shmem_member [] pa = False"
| "shmem_member (x # xs) pa = (if x = 0 then False else if x = pa then True else shmem_member xs pa)"

definition is_shmem :: "int \<Rightarrow> u64 \<Rightarrow> cow_group list \<Rightarrow> kerror + bool" where
  "is_shmem g pa gs =
     (if g = - 1 then Inr False
      else case get_cow_group g gs of
        None \<Rightarrow> Inl NullDeref
      | Some i \<Rightarrow> Inr (shmem_member (shmem (gs ! i)) pa))"

definition cow_init :: "cow_group list \<Rightarrow> cow_group list" where
  "cow_init gs = map (\<lambda>c. c\<lparr>count := 0, group := - 1, shmem := replicate SHMEM_MAX 0\<rparr>) gs"

subsection \<open>Well-formed tables\<close>

text \<open>An \<open>shmem\<close> array is a zero-terminated list of distinct nonzero pages.\<close>

definition shmem_ok :: "u64 list \<Rightarrow> bool" where
  "shmem_ok xs \<longleftrightarrow> length xs = SHMEM_MAX \<and> distinct (takeWhile (\<lambda>x. x \<noteq> 0) xs)
     \<and> (\<forall>x \<in> set (dropWhile (\<lambda>x. x \<noteq> 0) xs). x = 0)"

definition cow_table_ok :: "cow_group list \<Rightarrow> bool" where
  "cow_table_ok gs \<longleftrightarrow> length gs = NPROC \<and> (\<forall>c \<in> set gs. shmem_ok (shmem c))"

definition shared_pages :: "u64 list \<Rightarrow> u64 set" where
  "shared_pages xs = set (takeWhile (\<lambda>x. x \<noteq> 0) xs)"

lemma find_group_Some:
  "find_group gs g i = Some k \<Longrightarrow> i \<le> k \<and> k < i + length gs \<and> group (gs ! (k - i)) = g"
proof (induction gs arbitrary: i)
  case (Cons c cs)
  show ?case
  proof (cases "group c = g")
    case False
    with Cons.prems have "find_group cs g (Suc i) = Some k" by simp
    then have "Suc i \<le> k \<and> k < Suc i + length cs \<and> group (cs ! (k - Suc i)) = g" by (rule Cons.IH)
    then show ?thesis by (auto simp: nth_Cons')
  qed (use Cons in simp)
qed simp

lemma get_cow_group_Some:
  "get_cow_group g gs = Some i \<Longrightarrow> i < length gs \<and> group (gs ! i) = g \<and> g \<noteq> - 1"
  by (auto simp: get_cow_group_def dest!: find_group_Some split: if_splits)

lemma shmem_member_iff: "pa \<noteq> 0 \<Longrightarrow> shmem_member xs pa \<longleftrightarrow> pa \<in> shared_pages xs"
  by (induction xs) (auto simp: shared_pages_def)

lemma shmem_slot_None: "pa \<noteq> 0 \<Longrightarrow> shmem_slot xs pa i = None \<longleftrightarrow> pa \<in> shared_pages xs"
  by (induction xs arbitrary: i) (auto simp: shared_pages_def)

lemma shmem_slot_Some:
  "pa \<noteq> 0 \<Longrightarrow> shmem_slot xs pa i = Some k \<Longrightarrow> k = i + length (takeWhile (\<lambda>x. x \<noteq> 0) xs)"
  by (induction xs arbitrary: i) (fastforce split: if_splits)+

lemma find_group_cong: "map group gs = map group gs' \<Longrightarrow> find_group gs g i = find_group gs' g i"
proof (induction gs arbitrary: gs' i)
  case (Cons c cs)
  then obtain c' cs' where "gs' = c' # cs'" by (cases gs') auto
  with Cons show ?case by auto
qed simp

lemma get_cow_group_cong: "map group gs = map group gs' \<Longrightarrow> get_cow_group g gs = get_cow_group g gs'"
  by (simp add: get_cow_group_def find_group_cong [of gs gs'])

lemma shmem_update:
  assumes "length (takeWhile (\<lambda>x. x \<noteq> 0) xs) < length xs" "pa \<noteq> 0"
    and "\<forall>x \<in> set (dropWhile (\<lambda>x. x \<noteq> 0) xs). x = 0"
  shows "takeWhile (\<lambda>x. x \<noteq> 0) (xs[length (takeWhile (\<lambda>x. x \<noteq> 0) xs) := pa])
           = takeWhile (\<lambda>x. x \<noteq> 0) xs @ [pa]
       \<and> (\<forall>x \<in> set (dropWhile (\<lambda>x. x \<noteq> 0) (xs[length (takeWhile (\<lambda>x. x \<noteq> 0) xs) := pa])). x = 0)"
proof -
  let ?t = "takeWhile (\<lambda>x. x \<noteq> 0) xs"
  have "dropWhile (\<lambda>x. x \<noteq> 0) xs \<noteq> []"
    using assms(1) by (metis append.right_neutral less_irrefl takeWhile_dropWhile_id)
  then obtain z zs where d: "dropWhile (\<lambda>x. x \<noteq> 0) xs = z # zs" by (cases "dropWhile (\<lambda>x. x \<noteq> 0) xs") auto
  have xs: "xs = ?t @ z # zs" using d takeWhile_dropWhile_id [of "\<lambda>x. x \<noteq> 0" xs] by simp
  have zs: "\<forall>x \<in> set zs. x = 0" using assms(3) d by simp
  then have "takeWhile (\<lambda>x. x \<noteq> 0) zs = []" by (cases zs) auto
  moreover have "xs[length ?t := pa] = ?t @ pa # zs"
    by (subst (1) xs) (simp add: list_update_append)
  ultimately show ?thesis
    using assms(2) zs by (auto simp: takeWhile_append dest: set_takeWhileD set_dropWhileD)
qed

text \<open>Recording a page: the set grows by that page, unless the array is full.\<close>

lemma add_shmem_spec:
  assumes ok: "cow_table_ok gs" and i: "get_cow_group g gs = Some i" and pa: "pa \<noteq> 0"
  shows "if pa \<in> shared_pages (shmem (gs ! i)) then add_shmem g pa gs = Inr gs
         else if card (shared_pages (shmem (gs ! i))) = SHMEM_MAX then add_shmem g pa gs = Inl OutOfBounds
         else \<exists>gs'. add_shmem g pa gs = Inr gs' \<and> cow_table_ok gs' \<and> get_cow_group g gs' = Some i
            \<and> shared_pages (shmem (gs' ! i)) = insert pa (shared_pages (shmem (gs ! i)))
            \<and> (\<forall>j. j \<noteq> i \<longrightarrow> gs' ! j = gs ! j) \<and> map group gs' = map group gs \<and> map count gs' = map count gs"
proof -
  let ?xs = "shmem (gs ! i)" and ?t = "takeWhile (\<lambda>x. x \<noteq> 0) (shmem (gs ! i))"
  have il: "i < length gs" and g: "g \<noteq> - 1" using get_cow_group_Some [OF i] by auto
  then have xs: "shmem_ok ?xs" using ok by (simp add: cow_table_ok_def)
  have "distinct ?t" using xs unfolding shmem_ok_def by blast
  then have card: "card (shared_pages ?xs) = length ?t"
    unfolding shared_pages_def by (rule distinct_card)
  have le: "length ?t \<le> SHMEM_MAX" using xs by (metis length_takeWhile_le shmem_ok_def)
  consider "pa \<in> shared_pages ?xs" | "pa \<notin> shared_pages ?xs" "length ?t = SHMEM_MAX"
    | "pa \<notin> shared_pages ?xs" "length ?t < SHMEM_MAX" using le by linarith
  then show ?thesis
  proof cases
    case 1
    then have "shmem_slot ?xs pa 0 = None" using shmem_slot_None [OF pa] by blast
    with 1 show ?thesis using g i by (simp add: add_shmem_def)
  next
    case 2
    then obtain k where k: "shmem_slot ?xs pa 0 = Some k"
      using shmem_slot_None [OF pa] by (meson not_None_eq)
    then have "k = SHMEM_MAX" using shmem_slot_Some [OF pa k] 2 by simp
    then show ?thesis using 2 card g i k by (simp add: add_shmem_def)
  next
    case 3
    then obtain k where k: "shmem_slot ?xs pa 0 = Some k"
      using shmem_slot_None [OF pa] by (meson not_None_eq)
    then have kt: "k = length ?t" using shmem_slot_Some [OF pa k] by simp
    define gs' where "gs' = gs[i := (gs ! i)\<lparr>shmem := ?xs[k := pa]\<rparr>]"
    have add: "add_shmem g pa gs = Inr gs'" using k kt 3 g i by (simp add: add_shmem_def gs'_def)
    have grp: "map group gs' = map group gs" and cnt: "map count gs' = map count gs"
      using il by (simp_all add: gs'_def map_update list_update_same_conv)
    have zeros: "\<forall>x \<in> set (dropWhile (\<lambda>x. x \<noteq> 0) ?xs). x = 0" and len: "length ?xs = SHMEM_MAX"
      using xs unfolding shmem_ok_def by blast+
    have u: "takeWhile (\<lambda>x. x \<noteq> 0) (?xs[k := pa]) = ?t @ [pa]"
        "\<forall>x \<in> set (dropWhile (\<lambda>x. x \<noteq> 0) (?xs[k := pa])). x = 0"
      using shmem_update [OF _ pa zeros] 3(2) unfolding kt len by blast+
    have d: "distinct (?t @ [pa])" using 3(1) \<open>distinct ?t\<close> unfolding shared_pages_def by simp
    have "shmem_ok (?xs[k := pa])"
      unfolding shmem_ok_def u(1) by (intro conjI d u(2)) (simp add: len)
    then have "cow_table_ok gs'"
      using ok by (auto simp: gs'_def cow_table_ok_def dest!: set_update_subset_insert [THEN subsetD])
    moreover have "shared_pages (shmem (gs' ! i)) = insert pa (shared_pages ?xs)"
      using il u(1) by (simp add: gs'_def shared_pages_def)
    moreover have "\<forall>j. j \<noteq> i \<longrightarrow> gs' ! j = gs ! j" by (simp add: gs'_def)
    moreover have "get_cow_group g gs' = Some i" using get_cow_group_cong [OF grp] i by simp
    ultimately show ?thesis using 3 card add grp cnt by auto
  qed
qed

subsection \<open>Properties\<close>

text \<open>As long as a group records fewer than 100 pages, \<open>add_shmem\<close> adds the page to the group's
  set and to no other group, so that \<open>is_shmem\<close> answers yes exactly for the pages added; the table
  stays well formed.\<close>

theorem add_shmem_is_shmem:
  assumes "cow_table_ok gs" "get_cow_group g gs = Some i" "pa \<noteq> 0"
    and "pa \<in> shared_pages (shmem (gs ! i)) \<or> card (shared_pages (shmem (gs ! i))) < SHMEM_MAX"
  shows "\<exists>gs'. add_shmem g pa gs = Inr gs' \<and> cow_table_ok gs'
     \<and> (\<forall>q. q \<noteq> 0 \<longrightarrow> is_shmem g q gs' = Inr (q = pa \<or> q \<in> shared_pages (shmem (gs ! i))))
     \<and> (\<forall>h q. h \<noteq> g \<longrightarrow> is_shmem h q gs' = is_shmem h q gs)"
proof -
  have g: "g \<noteq> - 1" using get_cow_group_Some [OF assms(2)] by simp
  obtain gs' where gs': "add_shmem g pa gs = Inr gs'" "cow_table_ok gs'" "get_cow_group g gs' = Some i"
    "shared_pages (shmem (gs' ! i)) = insert pa (shared_pages (shmem (gs ! i)))"
    "\<forall>j. j \<noteq> i \<longrightarrow> gs' ! j = gs ! j" "map group gs' = map group gs"
    using add_shmem_spec [OF assms(1-3)] assms by (auto simp: insert_absorb split: if_splits)
  have "is_shmem h q gs' = is_shmem h q gs" if "h \<noteq> g" for h q
  proof (cases "get_cow_group h gs")
    case (Some j)
    then have "j \<noteq> i" using get_cow_group_Some [OF Some] get_cow_group_Some [OF assms(2)] that by auto
    then show ?thesis using Some gs'(5) get_cow_group_cong [OF gs'(6), of h] by (simp add: is_shmem_def)
  qed (use get_cow_group_cong [OF gs'(6), of h] in \<open>simp add: is_shmem_def\<close>)
  then show ?thesis using gs' g by (auto simp: is_shmem_def shmem_member_iff)
qed

definition one_group :: "cow_group list" where
  "one_group = \<lparr>group = 3, shmem = replicate SHMEM_MAX 0, count = 1\<rparr>
     # replicate 63 \<lparr>group = - 1, shmem = replicate SHMEM_MAX 0, count = 0\<rparr>"

lemma one_group_ok: "cow_table_ok one_group" "get_cow_group 3 one_group = Some 0" "shared_pages (shmem (one_group ! 0)) = {}"
proof -
  have "takeWhile (\<lambda>x. x \<noteq> 0) (replicate SHMEM_MAX 0) = ([] :: u64 list)" by (cases SHMEM_MAX) auto
  moreover have "set (dropWhile (\<lambda>x. x \<noteq> 0) (replicate SHMEM_MAX 0)) \<subseteq> {0 :: u64}"
    using set_dropWhileD by fastforce
  ultimately have z: "shmem_ok (replicate SHMEM_MAX 0)" and s: "shared_pages (replicate SHMEM_MAX 0) = {}"
    by (auto simp: shmem_ok_def shared_pages_def)
  show "cow_table_ok one_group" using z by (auto simp: cow_table_ok_def one_group_def NPROC_def)
  show "get_cow_group 3 one_group = Some 0" by (simp add: get_cow_group_def one_group_def)
  show "shared_pages (shmem (one_group ! 0)) = {}" using s by (simp add: one_group_def)
qed

theorem add_shmem_is_shmem_witness:
  "\<exists>gs'. add_shmem 3 0x80001000 one_group = Inr gs' \<and> is_shmem 3 0x80001000 gs' = Inr True
     \<and> is_shmem 3 0x80002000 gs' = Inr False"
  using add_shmem_is_shmem [OF one_group_ok(1,2), of "0x80001000"] one_group_ok(3)
  by (fastforce simp: SHMEM_MAX_def)

end
