(* ===== verification/Vm.thy ===== *)
theory Vm
  imports CowGroup
begin

text \<open>
  The page-table code \<open>kernel/vm.c\<close>. A page table is the physical address of its root page; entries
  are read and written in physical memory, and missing table pages come from \<open>kalloc\<close>, so the model
  has the aliasing of the machine. A pointer to an entry is its address, \<open>0\<close> the null pointer.
  \<open>kend\<close> is the end of the kernel (needed by \<open>kfree\<close>). \<open>sfence_vma\<close> and TLB state are not modelled.

  Every loop over virtual addresses calls \<open>walk\<close>, which panics at \<open>MAXVA\<close>; this bounds them all, and
  is what their termination proofs use.
\<close>

unbundle bit_operations_syntax

subsection \<open>Walking the tree\<close>

fun walk_levels :: "nat \<Rightarrow> u64 \<Rightarrow> u64 \<Rightarrow> bool \<Rightarrow> 'a machine_scheme \<Rightarrow> u64 \<times> 'a machine_scheme" where
  "walk_levels 0 pagetable va alloc s = (pagetable + PX 0 va * 8, s)"
| "walk_levels (Suc l) pagetable va alloc s =
     (let pte = pagetable + PX (Suc l) va * 8; e = load64 (pmem s) pte in
      if e AND PTE_V \<noteq> 0 then walk_levels l (PTE2PA e) va alloc s
      else if \<not> alloc then (0, s)
      else let (q, s1) = kalloc s in
        if q = 0 then (0, s1)
        else let m = memset (pmem s1) q 0 4096 in
          walk_levels l q va alloc (s1\<lparr>pmem := store64 m pte (PA2PTE q OR PTE_V)\<rparr>))"

definition walk :: "u64 \<Rightarrow> u64 \<Rightarrow> bool \<Rightarrow> 'a machine_scheme \<Rightarrow> kerror + u64 \<times> 'a machine_scheme" where
  "walk pagetable va alloc s =
     (if MAXVA \<le> va then Inl (Panic ''walk'') else Inr (walk_levels 2 pagetable va alloc s))"

definition walkaddr :: "u64 \<Rightarrow> u64 \<Rightarrow> 'a machine_scheme \<Rightarrow> kerror + u64" where
  "walkaddr pagetable va s =
     (if MAXVA \<le> va then Inr 0
      else bindE (walk pagetable va False s) (\<lambda>(pte, s).
        if pte = 0 then Inr 0
        else let e = load64 (pmem s) pte in
          if e AND PTE_V = 0 then Inr 0
          else if e AND PTE_U = 0 then Inr 0
          else Inr (PTE2PA e)))"

lemma walk_Inr_less: "walk pt a al s = Inr r \<Longrightarrow> unat a < 274877906944"
  by (auto simp: walk_def word_le_nat_alt split: if_splits)

subsection \<open>Adding and removing mappings\<close>

function mappages_from :: "u64 \<Rightarrow> u64 \<Rightarrow> u64 \<Rightarrow> u64 \<Rightarrow> u64 \<Rightarrow> 'a machine_scheme
    \<Rightarrow> kerror + int \<times> 'a machine_scheme" where
  "mappages_from pagetable a last_a pa perm s =
     bindE (walk pagetable a True s) (\<lambda>(pte, s1).
       if pte = 0 then Inr (- 1, s1)
       else if load64 (pmem s1) pte AND PTE_V \<noteq> 0 then Inl (Panic ''mappages: remap'')
       else let s2 = s1\<lparr>pmem := store64 (pmem s1) pte (PA2PTE pa OR perm OR PTE_V)\<rparr> in
         if a = last_a then Inr (0, s2)
         else mappages_from pagetable (a + PGSIZE) last_a (pa + PGSIZE) perm s2)"
  by pat_completeness auto
termination
proof (relation "measure (\<lambda>(pt, a, last_a, pa, perm, s). 274877911040 - unat a)", goal_cases)
  case (2 pt a last_a pa perm s x pte s1 s2)
  then have "unat a < 274877906944" by (auto dest: walk_Inr_less)
  then show ?case by (simp add: unat_add64)
qed simp

declare mappages_from.simps [simp del]

definition mappages :: "u64 \<Rightarrow> u64 \<Rightarrow> u64 \<Rightarrow> u64 \<Rightarrow> u64 \<Rightarrow> 'a machine_scheme
    \<Rightarrow> kerror + int \<times> 'a machine_scheme" where
  "mappages pagetable va sz pa perm s =
     (if sz = 0 then Inl (Panic ''mappages: size'')
      else mappages_from pagetable (PGROUNDDOWN va) (PGROUNDDOWN (va + sz - 1)) pa perm s)"

definition kvmmap :: "u64 \<Rightarrow> u64 \<Rightarrow> u64 \<Rightarrow> u64 \<Rightarrow> u64 \<Rightarrow> 'a machine_scheme \<Rightarrow> kerror + 'a machine_scheme" where
  "kvmmap kpgtbl va pa sz perm s =
     bindE (mappages kpgtbl va sz pa perm s) (\<lambda>(r, s'). if r \<noteq> 0 then Inl (Panic ''kvmmap'') else Inr s')"

text \<open>A page shared within a live copy-on-write group is not handed to \<open>kfree\<close>.\<close>

definition cow_keeps :: "u64 \<Rightarrow> 'a vmstate_scheme \<Rightarrow> kerror + bool" where
  "cow_keeps pa s =
     (if p_cow_enabled s = 1
      then bindE (get_cow_group_count (p_cow_group s) (cow_groups s)) (\<lambda>c.
        if c > 1 then is_shmem (p_cow_group s) pa (cow_groups s) else Inr False)
      else Inr False)"

function uvmunmap_from :: "u64 \<Rightarrow> u64 \<Rightarrow> u64 \<Rightarrow> u64 \<Rightarrow> bool \<Rightarrow> 'a vmstate_scheme
    \<Rightarrow> kerror + 'a vmstate_scheme" where
  "uvmunmap_from kend pagetable a last_a do_free s =
     (if a < last_a
      then bindE (walk pagetable a False s) (\<lambda>(pte, s).
        if pte = 0 then Inl (Panic ''uvmunmap: walk'')
        else let e = load64 (pmem s) pte in
          if e AND PTE_V = 0 then uvmunmap_from kend pagetable (a + PGSIZE) last_a do_free s
          else if PTE_FLAGS e = PTE_V then Inl (Panic ''uvmunmap: not a leaf'')
          else if do_free
          then bindE (cow_keeps (PTE2PA e) s) (\<lambda>keep.
            if keep
            then uvmunmap_from kend pagetable (a + PGSIZE) last_a do_free
                   (s\<lparr>pmem := store64 (pmem s) pte 0\<rparr>)
            else bindE (kfree kend (PTE2PA e) s) (\<lambda>s.
              uvmunmap_from kend pagetable (a + PGSIZE) last_a do_free
                (s\<lparr>pmem := store64 (pmem s) pte 0\<rparr>)))
          else uvmunmap_from kend pagetable (a + PGSIZE) last_a do_free
                 (s\<lparr>pmem := store64 (pmem s) pte 0\<rparr>))
      else Inr s)"
  by pat_completeness auto
termination
proof (relation "measure (\<lambda>(kend, pt, a, last_a, f, s). 274877911040 - unat a)", goal_cases)
  case 1 show ?case by simp
qed (simp_all add: unat_add64, (drule walk_Inr_less, simp add: unat_add64)+)

declare uvmunmap_from.simps [simp del]

definition uvmunmap :: "u64 \<Rightarrow> u64 \<Rightarrow> u64 \<Rightarrow> u64 \<Rightarrow> bool \<Rightarrow> 'a vmstate_scheme
    \<Rightarrow> kerror + 'a vmstate_scheme" where
  "uvmunmap kend pagetable va npages do_free s =
     (if unat va mod 4096 \<noteq> 0 then Inl (Panic ''uvmunmap: not aligned'')
      else uvmunmap_from kend pagetable va (va + npages * PGSIZE) do_free s)"

subsection \<open>User address spaces\<close>

definition uvmcreate :: "'a machine_scheme \<Rightarrow> u64 \<times> 'a machine_scheme" where
  "uvmcreate s =
     (let (pagetable, s1) = kalloc s in
      if pagetable = 0 then (0, s1)
      else (pagetable, s1\<lparr>pmem := memset (pmem s1) pagetable 0 4096\<rparr>))"

text \<open>\<open>uvmfirst\<close> does not check the results of \<open>kalloc\<close> and \<open>mappages\<close>, nor does the model.\<close>

definition uvmfirst :: "u64 \<Rightarrow> u64 \<Rightarrow> nat \<Rightarrow> 'a machine_scheme \<Rightarrow> kerror + 'a machine_scheme" where
  "uvmfirst pagetable src sz s =
     (if 4096 \<le> sz then Inl (Panic ''uvmfirst: more than a page'')
      else let (m, s1) = kalloc s; s2 = s1\<lparr>pmem := memset (pmem s1) m 0 4096\<rparr> in
        bindE (mappages pagetable 0 PGSIZE m (PTE_W OR PTE_R OR PTE_X OR PTE_U) s2) (\<lambda>(r, s3).
          Inr (s3\<lparr>pmem := memmove (pmem s3) m src sz\<rparr>)))"

definition uvmdealloc :: "u64 \<Rightarrow> u64 \<Rightarrow> u64 \<Rightarrow> u64 \<Rightarrow> 'a vmstate_scheme \<Rightarrow> kerror + u64 \<times> 'a vmstate_scheme" where
  "uvmdealloc kend pagetable oldsz newsz s =
     (if oldsz \<le> newsz then Inr (oldsz, s)
      else if PGROUNDUP newsz < PGROUNDUP oldsz
      then let npages = scast (ucast ((PGROUNDUP oldsz - PGROUNDUP newsz) div PGSIZE) :: u32) in
        bindE (uvmunmap kend pagetable (PGROUNDUP newsz) npages True s) (\<lambda>s1. Inr (newsz, s1))
      else Inr (newsz, s))"

lemma mappages_Inr_less: "mappages pt a n pa perm s = Inr r \<Longrightarrow> unat a < 274877911040"
proof -
  assume "mappages pt a n pa perm s = Inr r"
  then have "unat (PGROUNDDOWN a) < 274877906944"
    by (auto simp: mappages_def mappages_from.simps [of pt "PGROUNDDOWN a"] dest: walk_Inr_less split: if_splits)
  then show ?thesis by (simp add: unat_PGROUNDDOWN)
qed

function uvmalloc_from :: "u64 \<Rightarrow> u64 \<Rightarrow> u64 \<Rightarrow> u64 \<Rightarrow> u64 \<Rightarrow> u64 \<Rightarrow> 'a vmstate_scheme
    \<Rightarrow> kerror + u64 \<times> 'a vmstate_scheme" where
  "uvmalloc_from kend pagetable oldsz newsz xperm a s =
     (if a < newsz
      then let (m, s1) = kalloc s in
        if m = 0 then bindE (uvmdealloc kend pagetable a oldsz s1) (\<lambda>(_, s2). Inr (0, s2))
        else let s2 = s1\<lparr>pmem := memset (pmem s1) m 0 4096\<rparr> in
          bindE (mappages pagetable a PGSIZE m (PTE_R OR PTE_U OR xperm) s2) (\<lambda>(r, s3).
            if r \<noteq> 0
            then bindE (kfree kend m s3) (\<lambda>s4.
              bindE (uvmdealloc kend pagetable a oldsz s4) (\<lambda>(_, s5). Inr (0, s5)))
            else uvmalloc_from kend pagetable oldsz newsz xperm (a + PGSIZE) s3)
      else Inr (newsz, s))"
  by pat_completeness auto
termination
proof (relation "measure (\<lambda>(kend, pt, old, new, x, a, s). 274877915136 - unat a)", goal_cases)
  case 1 show ?case by simp
qed (drule mappages_Inr_less, simp add: unat_add64)

declare uvmalloc_from.simps [simp del]

definition uvmalloc :: "u64 \<Rightarrow> u64 \<Rightarrow> u64 \<Rightarrow> u64 \<Rightarrow> u64 \<Rightarrow> 'a vmstate_scheme
    \<Rightarrow> kerror + u64 \<times> 'a vmstate_scheme" where
  "uvmalloc kend pagetable oldsz newsz xperm s =
     (if newsz < oldsz then Inr (oldsz, s)
      else uvmalloc_from kend pagetable (PGROUNDUP oldsz) newsz xperm (PGROUNDUP oldsz) s)"

text \<open>\<open>freewalk\<close> recurses into every valid non-leaf entry. The first argument bounds the depth of the
  recursion, which the C code does not; a table of depth three never exhausts \<open>3\<close>.\<close>

fun freewalk :: "nat \<Rightarrow> u64 \<Rightarrow> u64 \<Rightarrow> 'a machine_scheme \<Rightarrow> kerror + 'a machine_scheme" where
  "freewalk 0 kend pagetable s = Inl Diverges"
| "freewalk (Suc d) kend pagetable s =
     bindE (foldE (\<lambda>i s.
         let a = pagetable + of_nat i * 8; pte = load64 (pmem s) a in
         if pte AND PTE_V \<noteq> 0 \<and> pte AND (PTE_R OR PTE_W OR PTE_X) = 0
         then bindE (freewalk d kend (PTE2PA pte) s) (\<lambda>s. Inr (s\<lparr>pmem := store64 (pmem s) a 0\<rparr>))
         else if pte AND PTE_V \<noteq> 0 then Inl (Panic ''freewalk: leaf'')
         else Inr s) [0..<512] s)
       (kfree kend pagetable)"

definition uvmfree :: "u64 \<Rightarrow> u64 \<Rightarrow> u64 \<Rightarrow> 'a vmstate_scheme \<Rightarrow> kerror + 'a vmstate_scheme" where
  "uvmfree kend pagetable sz s =
     bindE (if 0 < sz then uvmunmap kend pagetable 0 (PGROUNDUP sz div PGSIZE) True s else Inr s)
       (freewalk 3 kend pagetable)"

text \<open>\<open>uvmcopy\<close>; its error exit unmaps and frees what was copied so far.\<close>

definition uvmcopy_err :: "u64 \<Rightarrow> u64 \<Rightarrow> u64 \<Rightarrow> 'a vmstate_scheme \<Rightarrow> kerror + int \<times> 'a vmstate_scheme" where
  "uvmcopy_err kend new i s = bindE (uvmunmap kend new 0 (i div PGSIZE) True s) (\<lambda>s. Inr (- 1, s))"

function uvmcopy_from :: "u64 \<Rightarrow> u64 \<Rightarrow> u64 \<Rightarrow> u64 \<Rightarrow> u64 \<Rightarrow> 'a vmstate_scheme
    \<Rightarrow> kerror + int \<times> 'a vmstate_scheme" where
  "uvmcopy_from kend old new sz i s =
     (if i < sz
      then bindE (walk old i False s) (\<lambda>(pte, s).
        if pte = 0 then Inl (Panic ''uvmcopy: pte should exist'')
        else let e = load64 (pmem s) pte in
          if e AND PTE_V = 0 then Inl (Panic ''uvmcopy: page not present'')
          else let (m, s1) = kalloc s in
            if m = 0 then uvmcopy_err kend new i s1
            else let s2 = s1\<lparr>pmem := memmove (pmem s1) m (PTE2PA e) 4096\<rparr> in
              bindE (mappages new i PGSIZE m (PTE_FLAGS e) s2) (\<lambda>(r, s3).
                if r \<noteq> 0 then bindE (kfree kend m s3) (uvmcopy_err kend new i)
                else uvmcopy_from kend old new sz (i + PGSIZE) s3))
      else Inr (0, s))"
  by pat_completeness auto
termination
proof (relation "measure (\<lambda>(kend, old, new, sz, i, s). 274877911040 - unat i)", goal_cases)
  case 1 show ?case by simp
qed (drule walk_Inr_less, simp add: unat_add64)

declare uvmcopy_from.simps [simp del]

definition uvmcopy :: "u64 \<Rightarrow> u64 \<Rightarrow> u64 \<Rightarrow> u64 \<Rightarrow> 'a vmstate_scheme \<Rightarrow> kerror + int \<times> 'a vmstate_scheme" where
  "uvmcopy kend old new sz s = uvmcopy_from kend old new sz 0 s"

definition uvmclear :: "u64 \<Rightarrow> u64 \<Rightarrow> 'a machine_scheme \<Rightarrow> kerror + 'a machine_scheme" where
  "uvmclear pagetable va s =
     bindE (walk pagetable va False s) (\<lambda>(pte, s).
       if pte = 0 then Inl (Panic ''uvmclear'')
       else Inr (s\<lparr>pmem := store64 (pmem s) pte (load64 (pmem s) pte AND NOT PTE_U)\<rparr>))"

definition uvminvalid :: "u64 \<Rightarrow> u64 \<Rightarrow> 'a machine_scheme \<Rightarrow> kerror + 'a machine_scheme" where
  "uvminvalid pagetable va s =
     bindE (walk pagetable va False s) (\<lambda>(pte, s).
       if pte = 0 then Inl (Panic ''uvminvalid'')
       else Inr (s\<lparr>pmem := store64 (pmem s) pte (load64 (pmem s) pte AND NOT PTE_V)\<rparr>))"

subsection \<open>Copying between user and kernel\<close>

text \<open>How many bytes of a request of \<open>len\<close> bytes at \<open>va\<close> lie in its first page.\<close>

definition chunk :: "u64 \<Rightarrow> u64 \<Rightarrow> u64" where
  "chunk va len = (let n = PGSIZE - (va - PGROUNDDOWN va) in if len < n then len else n)"

lemma unat_page_offset_of [page_simps]: "unat (va - PGROUNDDOWN va) = unat va mod 4096"
  by (simp add: unat_sub64 unat_PGROUNDDOWN)

lemma unat_chunk: "unat (chunk va len) = min (unat len) (4096 - unat va mod 4096)"
proof -
  have "unat (PGSIZE - (va - PGROUNDDOWN va)) = 4096 - unat va mod 4096"
    by (simp add: unat_sub64 unat_page_offset_of less_imp_le)
  then show ?thesis by (auto simp: chunk_def Let_def word_less_nat_alt min_def)
qed

lemma chunk_positive: "0 < len \<Longrightarrow> 0 < unat (chunk va len) \<and> unat (chunk va len) \<le> unat len"
  by (simp add: unat_chunk) (simp add: word_less_nat_alt)

function copyout :: "u64 \<Rightarrow> u64 \<Rightarrow> u64 \<Rightarrow> u64 \<Rightarrow> 'a machine_scheme \<Rightarrow> kerror + int \<times> 'a machine_scheme" where
  "copyout pagetable dstva src len s =
     (if 0 < len
      then let va0 = PGROUNDDOWN dstva in
        bindE (walkaddr pagetable va0 s) (\<lambda>pa0.
          if pa0 = 0 then Inr (- 1, s)
          else let n = chunk dstva len in
            copyout pagetable (va0 + PGSIZE) (src + n) (len - n)
              (s\<lparr>pmem := memmove (pmem s) (pa0 + (dstva - va0)) src (unat n)\<rparr>))
      else Inr (0, s))"
  by pat_completeness auto
termination
proof (relation "measure (\<lambda>(pt, d, src, len, s). unat len)", goal_cases)
  case (2 pt d src len s va0 pa0 n)
  then show ?case using chunk_positive [of len d] by (simp add: unat_sub64)
qed simp

declare copyout.simps [simp del]

function copyin :: "u64 \<Rightarrow> u64 \<Rightarrow> u64 \<Rightarrow> u64 \<Rightarrow> 'a machine_scheme \<Rightarrow> kerror + int \<times> 'a machine_scheme" where
  "copyin pagetable dst srcva len s =
     (if 0 < len
      then let va0 = PGROUNDDOWN srcva in
        bindE (walkaddr pagetable va0 s) (\<lambda>pa0.
          if pa0 = 0 then Inr (- 1, s)
          else let n = chunk srcva len in
            copyin pagetable (dst + n) (va0 + PGSIZE) (len - n)
              (s\<lparr>pmem := memmove (pmem s) dst (pa0 + (srcva - va0)) (unat n)\<rparr>))
      else Inr (0, s))"
  by pat_completeness auto
termination
proof (relation "measure (\<lambda>(pt, d, src, len, s). unat len)", goal_cases)
  case (2 pt d srcva len s va0 pa0 n)
  then show ?case using chunk_positive [of len srcva] by (simp add: unat_sub64)
qed simp

declare copyin.simps [simp del]

text \<open>The inner loop of \<open>copyinstr\<close>: at most \<open>n\<close> bytes of one page, up to the first NUL.\<close>

fun copyinstr_page :: "mem \<Rightarrow> u64 \<Rightarrow> u64 \<Rightarrow> nat \<Rightarrow> bool \<times> mem \<times> u64" where
  "copyinstr_page m dst p 0 = (False, m, dst)"
| "copyinstr_page m dst p (Suc n) =
     (if m p = 0 then (True, m(dst := 0), dst)
      else copyinstr_page (m(dst := m p)) (dst + 1) (p + 1) n)"

function copyinstr :: "u64 \<Rightarrow> u64 \<Rightarrow> u64 \<Rightarrow> u64 \<Rightarrow> 'a machine_scheme \<Rightarrow> kerror + int \<times> 'a machine_scheme" where
  "copyinstr pagetable dst srcva mx s =
     (if 0 < mx
      then let va0 = PGROUNDDOWN srcva in
        bindE (walkaddr pagetable va0 s) (\<lambda>pa0.
          if pa0 = 0 then Inr (- 1, s)
          else let n = chunk srcva mx;
                   (got_null, m, dst') = copyinstr_page (pmem s) dst (pa0 + (srcva - va0)) (unat n) in
            if got_null then Inr (0, s\<lparr>pmem := m\<rparr>)
            else copyinstr pagetable dst' (va0 + PGSIZE) (mx - n) (s\<lparr>pmem := m\<rparr>))
      else Inr (- 1, s))"
  by pat_completeness auto
termination
proof (relation "measure (\<lambda>(pt, d, src, mx, s). unat mx)", goal_cases)
  case (2 pt dst srcva mx s va0 pa0 n x got_null y m dst')
  then show ?case using chunk_positive [of mx srcva] by (simp add: unat_sub64)
qed simp

declare copyinstr.simps [simp del]

end
