(* ===== verification/PageTable.thy ===== *)
theory PageTable
  imports Vm
begin

text \<open>
  What a page table means, and that \<open>walk\<close>, \<open>mappages\<close> and \<open>uvmunmap\<close> implement it.

  \<open>tbl m pt va d\<close> is the table page at depth \<open>d\<close> (\<open>0\<close> the root) on the path of \<open>va\<close>; \<open>leaf m pt va\<close> is
  the valid leaf entry of \<open>va\<close>, the abstract address-space map. The invariant \<open>vm_inv\<close> says that the
  table pages form a tree without sharing, that they are pages of the allocator, and that none of them
  is on the free list. Under it a store to one entry changes the map at that page only, and a page that
  \<open>walk\<close> allocates for a new table changes it nowhere.
\<close>

unbundle bit_operations_syntax

subsection \<open>The map a page table stands for\<close>

fun tbl :: "mem \<Rightarrow> u64 \<Rightarrow> u64 \<Rightarrow> nat \<Rightarrow> u64 option" where
  "tbl m pt va 0 = Some pt"
| "tbl m pt va (Suc d) =
     (case tbl m pt va d of None \<Rightarrow> None
      | Some t \<Rightarrow> (let e = load64 m (t + PX (2 - d) va * 8) in
          if e AND PTE_V \<noteq> 0 then Some (PTE2PA e) else None))"

definition leaf :: "mem \<Rightarrow> u64 \<Rightarrow> u64 \<Rightarrow> u64 option" where
  "leaf m pt va =
     (case tbl m pt va 2 of None \<Rightarrow> None
      | Some t \<Rightarrow> (let e = load64 m (t + PX 0 va * 8) in if e AND PTE_V \<noteq> 0 then Some e else None))"

definition same_upto :: "nat \<Rightarrow> u64 \<Rightarrow> u64 \<Rightarrow> bool" where
  "same_upto d va vb \<longleftrightarrow> (\<forall>i<d. PX (2 - i) va = PX (2 - i) vb)"

definition tables :: "mem \<Rightarrow> u64 \<Rightarrow> u64 set" where
  "tables m pt = {t. \<exists>va d. d \<le> 2 \<and> tbl m pt va d = Some t}"

definition pt_wf :: "u64 \<Rightarrow> mem \<Rightarrow> u64 \<Rightarrow> bool" where
  "pt_wf kend m pt \<longleftrightarrow> (\<forall>t \<in> tables m pt. kpage kend t) \<and>
     (\<forall>va vb d d' t. d \<le> 2 \<and> d' \<le> 2 \<and> tbl m pt va d = Some t \<and> tbl m pt vb d' = Some t
        \<longrightarrow> d = d' \<and> same_upto d va vb)"

definition vm_inv :: "u64 \<Rightarrow> 'a machine_scheme \<Rightarrow> u64 \<Rightarrow> u64 list \<Rightarrow> bool" where
  "vm_inv kend s pt ps \<longleftrightarrow>
     kmem_repr kend s ps \<and> pt_wf kend (pmem s) pt \<and> tables (pmem s) pt \<inter> set ps = {}"

subsection \<open>Entries of distinct tables\<close>

lemma unat_entry:
  assumes "kpage kend t"
  shows "unat (t + PX l va * 8) = unat t + unat (PX l va) * 8"
proof -
  have "unat (PX l va * 8) = unat (PX l va) * 8"
    using PX_less [of l va] by (simp add: unat_word_ariths del: PX_less)
  moreover have "unat t < 2281701376" using assms by (simp add: kpage_def word_less_nat_alt)
  ultimately show ?thesis using PX_less [of l va] by (simp add: unat_add64 del: PX_less)
qed

lemma entry_aligned [simp]: "kpage kend t \<Longrightarrow> aligned 8 (t + PX l va * 8)"
proof -
  assume k: "kpage kend t"
  then obtain q where "unat t = 4096 * q" by (auto simp: kpage_def aligned_def)
  then have "unat (t + PX l va * 8) = 8 * (512 * q + unat (PX l va))"
    using unat_entry [OF k] by simp
  then show ?thesis by (simp add: aligned_def)
qed

lemma entry_in_page:
  assumes "kpage kend t" "in_range x (t + PX l va * 8) 8"
  shows "in_range x t 4096"
proof -
  let ?a = "t + PX l va * 8"
  have a: "aligned 4096 t" "aligned 8 ?a" using assms(1) entry_aligned by (auto simp: kpage_def)
  obtain q where q: "unat t = 4096 * q" using a(1) by (auto simp: aligned_def)
  have "unat x div 8 = unat ?a div 8" using assms(2) a(2) by (simp add: in_range_aligned)
  then have "unat x div 8 = 512 * q + unat (PX l va)"
    using unat_entry [OF assms(1), of l va] q by simp
  then have "unat x div 8 div 512 = q" using PX_less [of l va] by simp
  then show ?thesis using a(1) q by (simp add: in_range_aligned flip: div_mult2_eq)
qed

lemma entry_inj:
  assumes "kpage kend t" "kpage kend t'" "t + PX l va * 8 = t' + PX l' vb * 8"
  shows "t = t' \<and> PX l va = PX l' vb"
proof -
  have "in_range (t + PX l va * 8) t 4096" "in_range (t + PX l va * 8) t' 4096"
    using entry_in_page [OF assms(1), of "t + PX l va * 8" l va]
      entry_in_page [OF assms(2), of "t + PX l va * 8" l' vb] assms(3) by (metis in_range_self zero_less_numeral)+
  then have t: "t = t'" using page_disjoint assms(1,2) by (metis kpage_def)
  then have "unat (PX l va) * 8 = unat (PX l' vb) * 8"
    using assms unat_entry by (metis add_left_cancel)
  then show ?thesis using t by (simp add: unat_eq_iff64)
qed

lemma load_entry_store:
  assumes "kpage kend t" "kpage kend t'"
  shows "load64 (store64 m (t + PX l va * 8) v) (t' + PX l' vb * 8) =
     (if t' = t \<and> PX l' vb = PX l va then v else load64 m (t' + PX l' vb * 8))"
proof (cases "t' = t \<and> PX l' vb = PX l va")
  case False
  then have "t + PX l va * 8 \<noteq> t' + PX l' vb * 8" using entry_inj [OF assms] by metis
  then show ?thesis using False assms by (auto simp: load64_store64_other)
qed simp

lemma load_entry_cong:
  assumes "kpage kend t" "\<And>x. in_range x t 4096 \<Longrightarrow> m x = m' x"
  shows "load64 m (t + PX l va * 8) = load64 m' (t + PX l va * 8)"
  by (rule load64_cong) (use assms entry_in_page in blast)

lemma PTE2PA_kpage: "kpage kend q \<Longrightarrow> PTE2PA (PA2PTE q OR PTE_V) = q"
  by (rule PTE2PA_PA2PTE) (auto simp: kpage_def word_less_nat_alt)

subsection \<open>Paths\<close>

lemma tbl_same_upto: "same_upto d va vb \<Longrightarrow> tbl m pt va d = tbl m pt vb d"
  by (induction d) (auto simp: same_upto_def split: option.splits)

lemma same_upto_Suc: "same_upto (Suc d) va vb \<longleftrightarrow> same_upto d va vb \<and> PX (2 - d) va = PX (2 - d) vb"
  by (auto simp: same_upto_def less_Suc_eq)

lemma same_upto_sym: "same_upto d va vb \<longleftrightarrow> same_upto d vb va"
  by (auto simp: same_upto_def)

lemma same_upto_trans: "same_upto d va vb \<Longrightarrow> same_upto d va vc \<Longrightarrow> same_upto d vb vc"
  by (auto simp: same_upto_def)

lemma same_upto_refl [simp]: "same_upto d va va"
  by (simp add: same_upto_def)

lemma tbl_None_mono: "tbl m pt va d = None \<Longrightarrow> d \<le> d' \<Longrightarrow> tbl m pt va d' = None"
  by (induction d' arbitrary: d) (auto simp: le_Suc_eq)

lemma tablesI: "tbl m pt va d = Some t \<Longrightarrow> d \<le> 2 \<Longrightarrow> t \<in> tables m pt"
  by (auto simp: tables_def)

lemma pt_wfD:
  assumes "pt_wf kend m pt" "tbl m pt va d = Some t" "d \<le> 2"
  shows "kpage kend t"
    and "tbl m pt vb d' = Some t \<Longrightarrow> d' \<le> 2 \<Longrightarrow> d' = d \<and> same_upto d va vb"
  using assms tablesI [OF assms(2,3)] unfolding pt_wf_def by blast+

lemma walk_read_only:
  "walk_levels 2 pt va False s =
     (case tbl (pmem s) pt va 2 of None \<Rightarrow> 0 | Some t \<Rightarrow> t + PX 0 va * 8, s)"
  by (simp add: numeral_2_eq_2 Let_def)

text \<open>Memory that agrees on the table pages has the same paths and leaves.\<close>

definition agree_on :: "u64 set \<Rightarrow> mem \<Rightarrow> mem \<Rightarrow> bool" where
  "agree_on T m m' \<longleftrightarrow> (\<forall>t \<in> T. \<forall>x. in_range x t 4096 \<longrightarrow> m' x = m x)"

lemma tbl_frame:
  assumes "pt_wf kend m pt" "agree_on (tables m pt) m m'" "d \<le> 2"
  shows "tbl m' pt va d = tbl m pt va d"
  using assms(3)
proof (induction d)
  case (Suc d)
  then have IH: "tbl m' pt va d = tbl m pt va d" by simp
  show ?case
  proof (cases "tbl m pt va d")
    case (Some t)
    then have "t \<in> tables m pt" "kpage kend t"
      using Suc.prems tablesI pt_wfD(1) [OF assms(1) Some] by (auto intro: tablesI)
    then have "load64 m' (t + PX (2 - d) va * 8) = load64 m (t + PX (2 - d) va * 8)"
      using assms(2) by (intro load_entry_cong) (auto simp: agree_on_def)
    then show ?thesis using IH Some by simp
  qed (use IH in simp)
qed simp

lemma leaf_frame:
  assumes "pt_wf kend m pt" "agree_on (tables m pt) m m'"
  shows "leaf m' pt va = leaf m pt va" and "tables m' pt = tables m pt" and "pt_wf kend m' pt"
proof -
  have t: "d \<le> 2 \<Longrightarrow> tbl m' pt vb d = tbl m pt vb d" for vb d using tbl_frame [OF assms] .
  then show "tables m' pt = tables m pt" unfolding tables_def by (metis (mono_tags, lifting))
  with t show "pt_wf kend m' pt" using assms(1) unfolding pt_wf_def by (metis (no_types, lifting))
  show "leaf m' pt va = leaf m pt va"
  proof (cases "tbl m pt va 2")
    case (Some u)
    then have "u \<in> tables m pt" "kpage kend u" using tablesI pt_wfD(1) [OF assms(1) Some] by auto
    then have "load64 m' (u + PX 0 va * 8) = load64 m (u + PX 0 va * 8)"
      using assms(2) by (intro load_entry_cong) (auto simp: agree_on_def)
    then show ?thesis using Some t by (simp add: leaf_def)
  qed (use t in \<open>simp add: leaf_def\<close>)
qed

subsection \<open>Storing a leaf entry\<close>

lemma tbl_store_leaf:
  assumes wf: "pt_wf kend m pt" and t: "tbl m pt va 2 = Some t" and d: "d \<le> 2"
  shows "tbl (store64 m (t + PX 0 va * 8) v) pt vb d = tbl m pt vb d"
  using d
proof (induction d)
  case (Suc d)
  then have IH: "tbl (store64 m (t + PX 0 va * 8) v) pt vb d = tbl m pt vb d" by simp
  show ?case
  proof (cases "tbl m pt vb d")
    case (Some u)
    then have "u \<noteq> t" using pt_wfD(2) [OF wf t, of vb d] Suc.prems by auto
    moreover have "kpage kend u" "kpage kend t"
      using pt_wfD(1) [OF wf Some] pt_wfD(1) [OF wf t] Suc.prems by auto
    ultimately show ?thesis using IH Some by (simp add: load_entry_store)
  qed (use IH in simp)
qed simp

lemma vm_inv_store_leaf:
  assumes inv: "vm_inv kend s pt ps" and t: "tbl (pmem s) pt va 2 = Some t"
  shows "vm_inv kend (s\<lparr>pmem := store64 (pmem s) (t + PX 0 va * 8) v\<rparr>) pt ps"
    and "tables (store64 (pmem s) (t + PX 0 va * 8) v) pt = tables (pmem s) pt"
    and "leaf (store64 (pmem s) (t + PX 0 va * 8) v) pt vb =
       (if same_upto 3 va vb then (if v AND PTE_V \<noteq> 0 then Some v else None) else leaf (pmem s) pt vb)"
proof -
  let ?m = "pmem s" and ?m' = "store64 (pmem s) (t + PX 0 va * 8) v"
  have wf: "pt_wf kend ?m pt" and km: "kmem_repr kend s ps" and dj: "tables ?m pt \<inter> set ps = {}"
    using inv by (auto simp: vm_inv_def)
  have kt: "kpage kend t" and tt: "t \<in> tables ?m pt" using pt_wfD(1) [OF wf t] tablesI [OF t] by auto
  note path = tbl_store_leaf [OF wf t]
  show tb: "tables ?m' pt = tables ?m pt" unfolding tables_def by (metis (mono_tags, lifting) path)
  have wf': "pt_wf kend ?m' pt" using wf path tb unfolding pt_wf_def by (metis (no_types, lifting))
  have "free_chain ?m' (freelist s) ps = free_chain ?m (freelist s) ps"
  proof (rule free_chain_cong)
    fix p x assume px: "p \<in> set ps" "in_range x p 4096"
    then have "kpage kend p" "p \<noteq> t" using km dj tt by (auto simp: kmem_repr_def)
    then have "\<not> in_range x t 4096" using kt px page_disjoint by (metis kpage_def)
    then show "?m' x = ?m x" using entry_in_page [OF kt] by (auto intro: store64_other)
  qed
  then show "vm_inv kend (s\<lparr>pmem := ?m'\<rparr>) pt ps" using wf' tb dj km by (simp add: vm_inv_def kmem_repr_def)
  have s3: "same_upto 3 va vb \<longleftrightarrow> same_upto 2 va vb \<and> PX 0 va = PX 0 vb"
    using same_upto_Suc [of 2 va vb] by simp
  show "leaf ?m' pt vb =
     (if same_upto 3 va vb then (if v AND PTE_V \<noteq> 0 then Some v else None) else leaf ?m pt vb)"
  proof (cases "tbl ?m pt vb 2")
    case None
    then have "\<not> same_upto 2 va vb" using tbl_same_upto [of 2 va vb ?m pt] t by auto
    then show ?thesis using None path [where d = 2] s3 by (simp add: leaf_def)
  next
    case (Some u)
    have ku: "kpage kend u" using pt_wfD(1) [OF wf Some] by simp
    have "u = t \<longleftrightarrow> same_upto 2 va vb"
      using pt_wfD(2) [OF wf t, of vb 2] Some t tbl_same_upto [of 2 va vb ?m pt] by auto
    then show ?thesis using Some path [where d = 2] s3 load_entry_store [OF kt ku] by (auto simp: leaf_def)
  qed
qed

subsection \<open>Allocating a table page\<close>

definition new_table :: "u64 \<Rightarrow> u64 \<Rightarrow> 'a machine_scheme \<Rightarrow> 'a machine_scheme" where
  "new_table pte q s =
     s\<lparr>pmem := store64 (memset (pmem s) q 0 4096) pte (PA2PTE q OR PTE_V)\<rparr>"

lemma load_entry_new_table:
  assumes "kpage kend t" "kpage kend q" "kpage kend u" "u \<noteq> q" "t \<noteq> q"
  shows "load64 (pmem (new_table (t + PX k va * 8) q s)) (u + PX l vb * 8) =
      (if u = t \<and> PX l vb = PX k va then PA2PTE q OR PTE_V else load64 (pmem s) (u + PX l vb * 8))"
    and "load64 (pmem (new_table (t + PX k va * 8) q s)) (q + PX l vb * 8) = 0"
proof -
  have "load64 (memset (pmem s) q 0 4096) (u + PX l vb * 8) = load64 (pmem s) (u + PX l vb * 8)"
    using assms by (intro load_entry_cong) (auto dest: page_disjoint simp: kpage_def)
  then show "load64 (pmem (new_table (t + PX k va * 8) q s)) (u + PX l vb * 8) =
      (if u = t \<and> PX l vb = PX k va then PA2PTE q OR PTE_V else load64 (pmem s) (u + PX l vb * 8))"
    using load_entry_store [OF assms(1,3)] by (simp add: new_table_def)
  have "load64 (memset (pmem s) q 0 4096) (q + PX l vb * 8) = load64 (\<lambda>_. 0) (q + PX l vb * 8)"
    using assms by (intro load_entry_cong) auto
  then show "load64 (pmem (new_table (t + PX k va * 8) q s)) (q + PX l vb * 8) = 0"
    using load_entry_store [OF assms(1,2)] assms(5) by (simp add: new_table_def load64_def)
qed

text \<open>The situation in which \<open>walk\<close> allocates: a path that ends at depth \<open>d\<close> in the table \<open>t\<close>, and a
  page \<open>q\<close> that is not a table.\<close>

lemma tbl_new_table:
  assumes wf: "pt_wf kend (pmem s) pt" and t: "tbl (pmem s) pt va d = Some t" and d: "d < 2"
    and invalid: "load64 (pmem s) (t + PX (2 - d) va * 8) AND PTE_V = 0"
    and q: "kpage kend q" "q \<notin> tables (pmem s) pt" and d': "d' \<le> 2"
  shows "tbl (pmem (new_table (t + PX (2 - d) va * 8) q s)) pt vb d' =
     (if d < d' \<and> same_upto (Suc d) va vb then (if d' = Suc d then Some q else None)
      else tbl (pmem s) pt vb d')"
  using d'
proof (induction d')
  case (Suc d')
  let ?m = "pmem s" and ?m' = "pmem (new_table (t + PX (2 - d) va * 8) q s)"
  have kt: "kpage kend t" using pt_wfD(1) [OF wf t] d by simp
  have tq: "t \<noteq> q" using tablesI [OF t] d q(2) by auto
  note IH = Suc.IH [OF Suc_leD [OF Suc.prems]]
  have entry: "load64 ?m' (u + PX l vb * 8) =
      (if u = t \<and> PX l vb = PX (2 - d) va then PA2PTE q OR PTE_V else load64 ?m (u + PX l vb * 8))"
    if "tbl ?m pt vb e = Some u" "e \<le> 2" for u l e
  proof (rule load_entry_new_table(1) [OF kt q(1) _ _ tq])
    show "kpage kend u" using pt_wfD(1) [OF wf that] .
    show "u \<noteq> q" using tablesI [OF that] q(2) by auto
  qed
  have at_d: "tbl ?m pt vb e = Some t \<Longrightarrow> e \<le> 2 \<Longrightarrow> e = d \<and> same_upto d va vb" for e
    using pt_wfD(2) [OF wf t, of vb e] d by auto
  consider (below) "d < d'" "same_upto (Suc d) va vb" | (here) "d' = d" "same_upto (Suc d) va vb"
    | (above) "d' < d" | (off) "d \<le> d'" "\<not> same_upto (Suc d) va vb" by linarith
  then show ?case
  proof cases
    case below
    have "load64 ?m' (q + PX (2 - d') vb * 8) = 0"
      by (rule load_entry_new_table(2) [OF kt q(1) kt tq tq])
    with below show ?thesis using IH by (auto split: if_splits)
  next
    case here
    then have "tbl ?m pt vb d = Some t" using t tbl_same_upto [of d va vb] by (simp add: same_upto_Suc)
    then show ?thesis
      using here IH entry [of d t "2 - d"] d PTE2PA_kpage [OF q(1)] by (auto simp: same_upto_Suc)
  next
    case above
    then show ?thesis using IH entry [of d' _ "2 - d'"] at_d [of d'] Suc.prems
      by (auto split: option.splits)
  next
    case off
    then show ?thesis using IH entry [of d' _ "2 - d'"] at_d [of d'] Suc.prems
      by (fastforce simp: same_upto_Suc split: option.splits)
  qed
qed simp

lemma vm_inv_new_table:
  assumes wf: "pt_wf kend (pmem s) pt" and t: "tbl (pmem s) pt va d = Some t" and d: "d < 2"
    and invalid: "load64 (pmem s) (t + PX (2 - d) va * 8) AND PTE_V = 0"
    and q: "kpage kend q" "q \<notin> tables (pmem s) pt"
  defines "m' \<equiv> pmem (new_table (t + PX (2 - d) va * 8) q s)"
  shows "tbl m' pt va (Suc d) = Some q"
    and "tables m' pt \<subseteq> insert q (tables (pmem s) pt)"
    and "pt_wf kend m' pt"
    and "leaf m' pt vb = leaf (pmem s) pt vb"
    and "\<not> in_range x t 4096 \<Longrightarrow> \<not> in_range x q 4096 \<Longrightarrow> m' x = pmem s x"
proof -
  let ?m = "pmem s"
  have kt: "kpage kend t" using pt_wfD(1) [OF wf t] d by simp
  have tq: "t \<noteq> q" using tablesI [OF t] d q(2) by auto
  have path: "tbl m' pt vb d' = (if d < d' \<and> same_upto (Suc d) va vb
      then (if d' = Suc d then Some q else None) else tbl ?m pt vb d')" if "d' \<le> 2" for vb d'
    unfolding m'_def by (rule tbl_new_table [OF wf t d invalid q that])
  show "tbl m' pt va (Suc d) = Some q" using path [of "Suc d" va] d by simp
  have cases: "u = q \<and> d' = Suc d \<and> same_upto (Suc d) va vb
      \<or> u \<noteq> q \<and> tbl ?m pt vb d' = Some u" if "tbl m' pt vb d' = Some u" "d' \<le> 2" for vb d' u
    using that path [of d' vb] q(2) tablesI [of ?m pt vb d'] by (auto split: if_splits)
  show tb: "tables m' pt \<subseteq> insert q (tables ?m pt)"
  proof
    fix u assume "u \<in> tables m' pt"
    then obtain vb d' where "d' \<le> 2" "tbl m' pt vb d' = Some u" by (auto simp: tables_def)
    then show "u \<in> insert q (tables ?m pt)" using cases [of vb d' u] tablesI [of ?m pt vb d' u] by auto
  qed
  have "d1 = d2 \<and> same_upto d1 va1 va2"
    if "d1 \<le> 2" "d2 \<le> 2" "tbl m' pt va1 d1 = Some u" "tbl m' pt va2 d2 = Some u" for va1 va2 d1 d2 u
    using cases [OF that(3,1)] cases [OF that(4,2)] pt_wfD(2) [OF wf _ that(1), of va1 u va2 d2] that(2)
    by (auto intro: same_upto_trans)
  then show "pt_wf kend m' pt" using tb wf q(1) unfolding pt_wf_def by blast
  show "m' x = ?m x" if "\<not> in_range x t 4096" "\<not> in_range x q 4096"
  proof -
    have "\<not> in_range x (t + PX (2 - d) va * 8) 8" using entry_in_page [OF kt] that(1) by blast
    then show ?thesis using that(2) by (simp add: m'_def new_table_def store64_other)
  qed
  show "leaf m' pt vb = leaf ?m pt vb"
  proof (cases "same_upto (Suc d) va vb")
    case True
    then have "tbl ?m pt vb d = Some t" using t tbl_same_upto [of d va vb] by (simp add: same_upto_Suc)
    then have "tbl ?m pt vb (Suc d) = None" using invalid True by (simp add: same_upto_Suc)
    then have "tbl ?m pt vb 2 = None" using tbl_None_mono [of ?m pt vb "Suc d" 2] d by simp
    moreover have "load64 m' (q + PX 0 vb * 8) = 0"
      unfolding m'_def by (rule load_entry_new_table(2) [OF kt q(1) kt tq tq])
    ultimately show ?thesis using path [of 2 vb] True d by (auto simp: leaf_def)
  next
    case False
    then have p2: "tbl m' pt vb 2 = tbl ?m pt vb 2" using path [of 2 vb] by simp
    show ?thesis
    proof (cases "tbl ?m pt vb 2")
      case (Some u)
      then have "u \<noteq> t" using pt_wfD(2) [OF wf t, of vb 2] d by auto
      moreover have "u \<noteq> q" "kpage kend u" using tablesI [OF Some] q(2) pt_wfD(1) [OF wf Some] by auto
      ultimately have "load64 m' (u + PX 0 vb * 8) = load64 ?m (u + PX 0 vb * 8)"
        unfolding m'_def using load_entry_new_table(1) [OF kt q(1) _ _ tq, of u] by simp
      then show ?thesis using p2 Some by (simp add: leaf_def)
    qed (use p2 in \<open>simp add: leaf_def\<close>)
  qed
qed

subsection \<open>\<open>walk\<close> with allocation\<close>

text \<open>What a walk with allocation keeps: the invariant, with some free pages used up, the map, and all
  memory outside the tables and the free pages.\<close>

definition vm_keeps :: "u64 \<Rightarrow> u64 \<Rightarrow> 'a machine_scheme \<Rightarrow> u64 list \<Rightarrow> 'a machine_scheme \<Rightarrow> u64 list \<Rightarrow> bool" where
  "vm_keeps kend pt s ps s' ps' \<longleftrightarrow>
     vm_inv kend s' pt ps' \<and> (\<exists>k. ps' = drop k ps) \<and>
     tables (pmem s) pt \<subseteq> tables (pmem s') pt \<and>
     tables (pmem s') pt \<subseteq> tables (pmem s) pt \<union> set ps \<and>
     (\<forall>x. (\<forall>p \<in> tables (pmem s) pt \<union> set ps. \<not> in_range x p 4096) \<longrightarrow> pmem s' x = pmem s x)"

lemma vm_keeps_refl: "vm_inv kend s pt ps \<Longrightarrow> vm_keeps kend pt s ps s ps"
  by (auto simp: vm_keeps_def intro: exI [of _ 0])

lemma vm_keeps_trans:
  assumes "vm_keeps kend pt s ps s1 ps1" "vm_keeps kend pt s1 ps1 s2 ps2"
  shows "vm_keeps kend pt s ps s2 ps2"
proof -
  have sub: "set ps1 \<subseteq> set ps" using assms(1) by (auto simp: vm_keeps_def dest: in_set_dropD)
  have "\<exists>k. ps2 = drop k ps" using assms by (auto simp: vm_keeps_def)
  moreover have "pmem s2 x = pmem s x"
    if x: "\<forall>p \<in> tables (pmem s) pt \<union> set ps. \<not> in_range x p 4096" for x
  proof -
    have "\<forall>p \<in> tables (pmem s1) pt \<union> set ps1. \<not> in_range x p 4096"
      using x sub assms(1) unfolding vm_keeps_def by blast
    then have "pmem s2 x = pmem s1 x" using assms(2) unfolding vm_keeps_def by blast
    also have "\<dots> = pmem s x" using x assms(1) unfolding vm_keeps_def by blast
    finally show ?thesis .
  qed
  moreover have "tables (pmem s2) pt \<subseteq> tables (pmem s) pt \<union> set ps"
    using assms sub unfolding vm_keeps_def by blast
  ultimately show ?thesis using assms unfolding vm_keeps_def by blast
qed

lemma kalloc_new_table:
  assumes inv: "vm_inv kend s pt (q # ps)" and t: "tbl (pmem s) pt va d = Some t" and d: "d < 2"
    and invalid: "load64 (pmem s) (t + PX (2 - d) va * 8) AND PTE_V = 0"
  defines "s' \<equiv> new_table (t + PX (2 - d) va * 8) q (snd (kalloc s))"
  shows "fst (kalloc s) = q" "q \<noteq> 0" "vm_keeps kend pt s (q # ps) s' ps"
    "tbl (pmem s') pt va (Suc d) = Some q" "leaf (pmem s') pt vb = leaf (pmem s) pt vb"
proof -
  let ?s = "snd (kalloc s)"
  have km: "kmem_repr kend s (q # ps)" and wf: "pt_wf kend (pmem s) pt"
    and dj: "tables (pmem s) pt \<inter> set (q # ps) = {}" using inv by (auto simp: vm_inv_def)
  have kq: "kpage kend q" and dq: "q \<notin> set ps" using km by (auto simp: kmem_repr_def)
  show f: "fst (kalloc s) = q" and "q \<noteq> 0"
    using kmem.alloc_Cons [OF km] kq by (auto simp: kpage_def)
  have km1: "kmem_repr kend ?s ps" using kmem.alloc_Cons [OF km] by simp
  have fr: "pmem ?s x = pmem s x" if "u \<in> tables (pmem s) pt" "in_range x u 4096" for u x
  proof (rule kmem.alloc_frame)
    have "kpage kend u" "u \<noteq> q" using that wf dj by (auto simp: pt_wf_def)
    then show "\<not> in_range x (fst (kalloc s)) 4096"
      using that kq f page_disjoint by (metis kpage_def)
  qed
  then have ag: "agree_on (tables (pmem s) pt) (pmem s) (pmem ?s)" by (auto simp: agree_on_def)
  have tb1: "tables (pmem ?s) pt = tables (pmem s) pt" and wf1: "pt_wf kend (pmem ?s) pt"
    and lf1: "leaf (pmem ?s) pt vb = leaf (pmem s) pt vb"
    using leaf_frame [OF wf ag] by blast+
  have t1: "tbl (pmem ?s) pt va d = Some t" using tbl_frame [OF wf ag] t d by simp
  have kt: "kpage kend t" and tt: "t \<in> tables (pmem s) pt"
    using pt_wfD(1) [OF wf t] tablesI [OF t] d by auto
  have inv1: "load64 (pmem ?s) (t + PX (2 - d) va * 8) AND PTE_V = 0"
    using invalid load_entry_cong [OF kt, of "pmem ?s" "pmem s"] fr [OF tt] by simp
  have q1: "q \<notin> tables (pmem ?s) pt" using dj tb1 by auto
  note new = vm_inv_new_table [OF wf1 t1 d inv1 kq q1, folded s'_def]
  show "tbl (pmem s') pt va (Suc d) = Some q" by (rule new(1))
  show "leaf (pmem s') pt vb = leaf (pmem s) pt vb" using new(4) lf1 by simp
  have frame: "pmem s' x = pmem ?s x" if "\<not> in_range x t 4096" "\<not> in_range x q 4096" for x
    using new(5) that by blast
  have "free_chain (pmem s') (freelist ?s) ps = free_chain (pmem ?s) (freelist ?s) ps"
  proof (rule free_chain_cong)
    fix p x assume p: "p \<in> set ps" "in_range x p 4096"
    have "kpage kend p" "p \<noteq> q" "p \<noteq> t" using p km dq dj tt by (auto simp: kmem_repr_def)
    then show "pmem s' x = pmem ?s x" using p kt kq by (intro frame) (auto dest: page_disjoint simp: kpage_def)
  qed
  then have km': "kmem_repr kend s' ps" using km1 by (simp add: kmem_repr_def s'_def new_table_def)
  have tb2: "tables (pmem s) pt \<subseteq> tables (pmem s') pt"
  proof
    fix u assume "u \<in> tables (pmem s) pt"
    then have "u \<in> tables (pmem ?s) pt" using tb1 by simp
    then obtain vb d' where u: "d' \<le> 2" "tbl (pmem ?s) pt vb d' = Some u"
      by (auto simp: tables_def)
    have "tbl (pmem s') pt vb d' = Some u"
    proof (cases "d < d' \<and> same_upto (Suc d) va vb")
      case True
      then have "tbl (pmem ?s) pt vb d = Some t" using t1 tbl_same_upto [of d va vb] by (simp add: same_upto_Suc)
      then have "tbl (pmem ?s) pt vb (Suc d) = None" using inv1 True by (simp add: same_upto_Suc)
      then show ?thesis using tbl_None_mono [of "pmem ?s" pt vb "Suc d" d'] True u by simp
    next
      case False
      then show ?thesis using tbl_new_table [OF wf1 t1 d inv1 kq q1 u(1), of vb] u(2) by (simp add: s'_def)
    qed
    then show "u \<in> tables (pmem s') pt" using u(1) by (rule tablesI)
  qed
  have "pmem s' x = pmem s x" if "\<forall>p \<in> tables (pmem s) pt \<union> set (q # ps). \<not> in_range x p 4096" for x
    using that tt frame [of x] kmem.alloc_frame [of x s] f by auto
  moreover have "vm_inv kend s' pt ps"
    using km' new(2,3) dj dq tb1 unfolding vm_inv_def by auto
  ultimately show "vm_keeps kend pt s (q # ps) s' ps"
    using new(2) tb1 tb2 unfolding vm_keeps_def by (auto intro: exI [of _ 1])
qed

lemma entry_nonzero: "kpage kend t \<Longrightarrow> t + PX l va * 8 \<noteq> 0"
  using unat_entry [of kend t l va] by (auto simp: kpage_def unat_eq_iff64)

lemma walk_levels_alloc:
  assumes "vm_inv kend s pt ps" "l \<le> 2" "tbl (pmem s) pt va (2 - l) = Some t"
    and "walk_levels l t va True s = (a, s')"
  shows "\<exists>ps'. vm_keeps kend pt s ps s' ps' \<and> (\<forall>vb. leaf (pmem s') pt vb = leaf (pmem s) pt vb)
     \<and> length ps \<le> length ps' + l
     \<and> (if a = 0 then length ps < l else \<exists>u. tbl (pmem s') pt va 2 = Some u \<and> a = u + PX 0 va * 8)"
  using assms
proof (induction l arbitrary: s ps t)
  case 0
  then have "kpage kend t" using pt_wfD(1) [of kend "pmem s" pt va 2 t] by (simp add: vm_inv_def)
  then have "a \<noteq> 0" using 0 entry_nonzero by fastforce
  then show ?case using 0 vm_keeps_refl by fastforce
next
  case (Suc l)
  let ?e = "load64 (pmem s) (t + PX (Suc l) va * 8)"
  have d: "2 - Suc l < 2" "Suc (2 - Suc l) = 2 - l" "2 - (2 - Suc l) = Suc l" using Suc.prems(2) by auto
  show ?case
  proof (cases "?e AND PTE_V = 0")
    case False
    then have "tbl (pmem s) pt va (2 - l) = Some (PTE2PA ?e)"
      using Suc.prems(3) tbl.simps(2) [of "pmem s" pt va "2 - Suc l"] unfolding d by simp
    moreover have "walk_levels l (PTE2PA ?e) va True s = (a, s')"
      using False Suc.prems(4) by simp
    ultimately show ?thesis
      using Suc.IH [OF Suc.prems(1), of "PTE2PA ?e"] Suc.prems(2) by fastforce
  next
    case True
    show ?thesis
    proof (cases ps)
      case Nil
      then have "kalloc s = (0, s)" using Suc.prems(1) kmem.alloc_Nil by (auto simp: vm_inv_def)
      then have "a = 0 \<and> s' = s" using True Suc.prems(4) by simp
      then show ?thesis using Nil vm_keeps_refl [OF Suc.prems(1)] by auto
    next
      case (Cons q qs)
      have inv: "vm_inv kend s pt (q # qs)" using Suc.prems(1) Cons by simp
      let ?s = "new_table (t + PX (Suc l) va * 8) q (snd (kalloc s))"
      note new = kalloc_new_table [OF inv Suc.prems(3) d(1), unfolded d, OF True]
      have w: "walk_levels l q va True ?s = (a, s')"
        using True Suc.prems(4) new(1,2) by (cases "kalloc s") (simp add: new_table_def)
      have inv': "vm_inv kend ?s pt qs" using new(3) by (simp add: vm_keeps_def)
      from Suc.IH [OF inv' _ new(4) w] Suc.prems(2) obtain ps' where
        ps': "vm_keeps kend pt ?s qs s' ps'" "\<forall>vb. leaf (pmem s') pt vb = leaf (pmem ?s) pt vb"
          "length qs \<le> length ps' + l"
          "if a = 0 then length qs < l else \<exists>u. tbl (pmem s') pt va 2 = Some u \<and> a = u + PX 0 va * 8"
        by auto
      then show ?thesis using vm_keeps_trans [OF new(3) ps'(1)] new(5) Cons
        by (intro exI [of _ ps']) auto
    qed
  qed
qed

subsection \<open>\<open>mappages\<close>\<close>

lemma same_upto_3_iff:
  assumes "va < MAXVA" "vb < MAXVA"
  shows "same_upto 3 va vb \<longleftrightarrow> unat va div 4096 = unat vb div 4096"
proof
  have b: "unat va < 274877906944" "unat vb < 274877906944" using assms by (auto simp: word_less_nat_alt)
  show "unat va div 4096 = unat vb div 4096" if "same_upto 3 va vb"
    using b that [unfolded same_upto_def, rule_format, of 0] that [unfolded same_upto_def, rule_format, of 1]
      that [unfolded same_upto_def, rule_format, of 2] by (intro PX_eq_imp_same_page) auto
  show "same_upto 3 va vb" if eq: "unat va div 4096 = unat vb div 4096"
  proof -
    have "PX l va = PX l vb" for l
    proof -
      have "unat va div 2 ^ (12 + 9 * l) = unat vb div 2 ^ (12 + 9 * l)"
        using eq by (simp add: power_add div_mult2_eq)
      then show ?thesis by (simp add: unat_eq_iff64 unat_PX)
    qed
    then show ?thesis by (simp add: same_upto_def)
  qed
qed

lemma PTE_V_or: "(x OR PTE_V) AND PTE_V \<noteq> 0"
proof -
  have "bit ((x OR PTE_V) AND PTE_V) 0" by (simp add: bit_simps)
  then show ?thesis by (metis bit_0_eq bot_apply bot_bool_def)
qed

lemma vm_keeps_store_leaf:
  assumes inv: "vm_inv kend s pt ps" and t: "tbl (pmem s) pt va 2 = Some t"
  shows "vm_keeps kend pt s ps (s\<lparr>pmem := store64 (pmem s) (t + PX 0 va * 8) v\<rparr>) ps"
proof -
  have kt: "kpage kend t" "t \<in> tables (pmem s) pt"
    using inv pt_wfD(1) [OF _ t] tablesI [OF t] by (auto simp: vm_inv_def)
  have "store64 (pmem s) (t + PX 0 va * 8) v x = pmem s x"
    if "\<forall>p \<in> tables (pmem s) pt \<union> set ps. \<not> in_range x p 4096" for x
    using that kt entry_in_page [OF kt(1)] by (intro store64_other) blast
  then show ?thesis
    using vm_inv_store_leaf [OF inv t, of v] by (auto simp: vm_keeps_def intro: exI [of _ 0])
qed

text \<open>One iteration of the loop of \<open>mappages\<close>.\<close>

lemma map_one_page:
  assumes inv: "vm_inv kend s pt ps" and a: "a < MAXVA" and free: "leaf (pmem s) pt a = None"
    and w: "walk pt a True s = Inr (pte, s1)"
  shows "\<exists>ps1. vm_keeps kend pt s ps s1 ps1 \<and> (\<forall>vb. leaf (pmem s1) pt vb = leaf (pmem s) pt vb)
     \<and> length ps \<le> length ps1 + 2
     \<and> (if pte = 0 then length ps < 2
        else load64 (pmem s1) pte AND PTE_V = 0 \<and>
          vm_keeps kend pt s ps (s1\<lparr>pmem := store64 (pmem s1) pte (v OR PTE_V)\<rparr>) ps1 \<and>
          (\<forall>vb < MAXVA. leaf (store64 (pmem s1) pte (v OR PTE_V)) pt vb =
             (if unat vb div 4096 = unat a div 4096 then Some (v OR PTE_V) else leaf (pmem s) pt vb)))"
proof -
  have "walk_levels 2 pt a True s = (pte, s1)" using w a by (auto simp: walk_def split: if_splits)
  from walk_levels_alloc [OF inv _ _ this] obtain ps1 where
    k: "vm_keeps kend pt s ps s1 ps1" "\<forall>vb. leaf (pmem s1) pt vb = leaf (pmem s) pt vb"
      "length ps \<le> length ps1 + 2"
    and p: "if pte = 0 then length ps < 2 else \<exists>u. tbl (pmem s1) pt a 2 = Some u \<and> pte = u + PX 0 a * 8"
    by auto
  show ?thesis
  proof (cases "pte = 0")
    case False
    then obtain u where u: "tbl (pmem s1) pt a 2 = Some u" "pte = u + PX 0 a * 8" using p by auto
    have inv1: "vm_inv kend s1 pt ps1" using k(1) by (simp add: vm_keeps_def)
    have "leaf (pmem s1) pt a = None" using k(2) free by simp
    then have "load64 (pmem s1) pte AND PTE_V = 0"
      using u by (auto simp: leaf_def Let_def split: if_splits)
    moreover have "vm_keeps kend pt s ps (s1\<lparr>pmem := store64 (pmem s1) pte (v OR PTE_V)\<rparr>) ps1"
      using vm_keeps_trans [OF k(1) vm_keeps_store_leaf [OF inv1 u(1)]] u(2) by simp
    moreover have "\<forall>vb < MAXVA. leaf (store64 (pmem s1) pte (v OR PTE_V)) pt vb =
        (if unat vb div 4096 = unat a div 4096 then Some (v OR PTE_V) else leaf (pmem s) pt vb)"
      using vm_inv_store_leaf(3) [OF inv1 u(1)] u(2) k(2) same_upto_3_iff [OF a] PTE_V_or [of v] by auto
    ultimately show ?thesis using False k by auto
  qed (use k p in auto)
qed

text \<open>The entry \<open>mappages\<close> installs for the page of \<open>vb\<close>.\<close>

definition range_entry :: "u64 \<Rightarrow> u64 \<Rightarrow> u64 \<Rightarrow> u64 \<Rightarrow> u64" where
  "range_entry a pa perm vb =
     PA2PTE (pa + of_nat (unat vb div 4096 - unat a div 4096) * PGSIZE) OR perm OR PTE_V"

definition in_pages :: "u64 \<Rightarrow> u64 \<Rightarrow> u64 \<Rightarrow> bool" where
  "in_pages a last_a vb \<longleftrightarrow> unat a div 4096 \<le> unat vb div 4096 \<and> unat vb div 4096 \<le> unat last_a div 4096"

lemma walk_Inr: "a < MAXVA \<Longrightarrow> walk pt a al s = Inr (walk_levels 2 pt a al s)"
  by (simp add: walk_def leD)

lemma range_entry_step:
  assumes "unat (a + PGSIZE) = unat a + 4096" "unat a div 4096 < unat vb div 4096"
  shows "range_entry (a + PGSIZE) (pa + PGSIZE) perm vb = range_entry a pa perm vb"
proof -
  have "unat vb div 4096 - unat a div 4096 = Suc (unat vb div 4096 - unat (a + PGSIZE) div 4096)"
    using assms by simp
  then show ?thesis by (simp add: range_entry_def algebra_simps)
qed

lemma mappages_from_spec:
  assumes "vm_inv kend s pt ps" "unat last_a = unat a + n * 4096" "last_a < MAXVA"
    and "\<forall>vb < MAXVA. in_pages a last_a vb \<longrightarrow> leaf (pmem s) pt vb = None"
  shows "\<exists>r s' ps'. mappages_from pt a last_a pa perm s = Inr (r, s') \<and> vm_keeps kend pt s ps s' ps'
     \<and> (if r = 0 then \<forall>vb < MAXVA. leaf (pmem s') pt vb =
            (if in_pages a last_a vb then Some (range_entry a pa perm vb) else leaf (pmem s) pt vb)
        else r = - 1 \<and> length ps < 2 * Suc n)"
  using assms
proof (induction n arbitrary: s ps a pa)
  case 0
  then have la: "last_a = a" by (simp add: unat_eq_iff64)
  then have a: "a < MAXVA" and free: "leaf (pmem s) pt a = None" using 0 by (auto simp: in_pages_def)
  obtain pte s1 where w: "walk pt a True s = Inr (pte, s1)"
    using walk_Inr [OF a] by (metis surj_pair)
  from map_one_page [OF 0(1) a free w, of "PA2PTE pa OR perm"] la a show ?case
    by (subst mappages_from.simps)
      (auto simp: w in_pages_def range_entry_def or.assoc Let_def split: if_splits intro!: exI)
next
  case (Suc n)
  have a: "a < MAXVA" using Suc.prems by (simp add: word_less_nat_alt)
  have ne: "a \<noteq> last_a" using Suc.prems(2) by auto
  have u: "unat (a + PGSIZE) = unat a + 4096"
    using Suc.prems(2,3) by (simp add: unat_add64 word_less_nat_alt)
  have ip: "in_pages a last_a vb \<longleftrightarrow> unat vb div 4096 = unat a div 4096 \<or> in_pages (a + PGSIZE) last_a vb" for vb
    using Suc.prems(2) u by (auto simp: in_pages_def)
  have free: "leaf (pmem s) pt a = None" using Suc.prems(4) a ip by blast
  obtain pte s1 where w: "walk pt a True s = Inr (pte, s1)"
    using walk_Inr [OF a] by (metis surj_pair)
  obtain ps1 where k1: "vm_keeps kend pt s ps s1 ps1" and len: "length ps \<le> length ps1 + 2"
    and one: "if pte = 0 then length ps < 2
        else load64 (pmem s1) pte AND PTE_V = 0 \<and>
          vm_keeps kend pt s ps (s1\<lparr>pmem := store64 (pmem s1) pte (PA2PTE pa OR perm OR PTE_V)\<rparr>) ps1 \<and>
          (\<forall>vb < MAXVA. leaf (store64 (pmem s1) pte (PA2PTE pa OR perm OR PTE_V)) pt vb =
             (if unat vb div 4096 = unat a div 4096 then Some (PA2PTE pa OR perm OR PTE_V)
              else leaf (pmem s) pt vb))"
    using map_one_page [OF Suc.prems(1) a free w, of "PA2PTE pa OR perm", unfolded or.assoc]
    by blast
  show ?case
  proof (cases "pte = 0")
    case True
    then show ?thesis using k1 one by (subst mappages_from.simps) (auto simp: w)
  next
    case False
    let ?s = "s1\<lparr>pmem := store64 (pmem s1) pte (PA2PTE pa OR perm OR PTE_V)\<rparr>"
    have k2: "vm_keeps kend pt s ps ?s ps1" and v: "load64 (pmem s1) pte AND PTE_V = 0"
      and lf: "\<forall>vb < MAXVA. leaf (pmem ?s) pt vb = (if unat vb div 4096 = unat a div 4096
          then Some (PA2PTE pa OR perm OR PTE_V) else leaf (pmem s) pt vb)" using one False by auto
    have "\<forall>vb < MAXVA. in_pages (a + PGSIZE) last_a vb \<longrightarrow> leaf (pmem ?s) pt vb = None"
      using Suc.prems(4) lf ip u by (auto simp: in_pages_def)
    then obtain r s' ps' where
      m: "mappages_from pt (a + PGSIZE) last_a (pa + PGSIZE) perm ?s = Inr (r, s')"
        "vm_keeps kend pt ?s ps1 s' ps'" and
      r: "if r = 0 then \<forall>vb < MAXVA. leaf (pmem s') pt vb = (if in_pages (a + PGSIZE) last_a vb
            then Some (range_entry (a + PGSIZE) (pa + PGSIZE) perm vb) else leaf (pmem ?s) pt vb)
          else r = - 1 \<and> length ps1 < 2 * Suc n"
      using Suc.IH [of ?s ps1 "a + PGSIZE" "pa + PGSIZE"] k2 Suc.prems(2,3) u
      by (auto simp: vm_keeps_def)
    have "mappages_from pt a last_a pa perm s = Inr (r, s')"
      using m(1) w v False ne by (subst mappages_from.simps) simp
    moreover have "leaf (pmem s') pt vb = (if in_pages a last_a vb
        then Some (range_entry a pa perm vb) else leaf (pmem s) pt vb)" if "r = 0" "vb < MAXVA" for vb
    proof (cases "unat vb div 4096 = unat a div 4096")
      case True
      then have "\<not> in_pages (a + PGSIZE) last_a vb" using u by (simp add: in_pages_def)
      then show ?thesis using r lf that True ip [of vb] by (simp add: range_entry_def)
    next
      case False
      then show ?thesis using r lf that ip [of vb] range_entry_step [OF u, of vb] u
        by (auto simp: in_pages_def)
    qed
    ultimately show ?thesis using vm_keeps_trans [OF k2 m(2)] r len
      by (intro exI [of _ r] exI [of _ s'] exI [of _ ps']) (auto split: if_splits)
  qed
qed
subsection \<open>A new page table is empty\<close>

lemma zero_page_entry:
  assumes "kpage kend p" "\<And>x. in_range x p 4096 \<Longrightarrow> m x = 0"
  shows "load64 m (p + PX l va * 8) = 0"
proof -
  have "load64 m (p + PX l va * 8) = load64 (\<lambda>_. 0) (p + PX l va * 8)"
    using assms by (intro load_entry_cong) auto
  then show ?thesis by (simp add: load64_def)
qed

lemma zero_page_table:
  assumes "kpage kend p" "\<And>x. in_range x p 4096 \<Longrightarrow> m x = 0"
  shows "leaf m p va = None" "tables m p = {p}"
    "pt_wf kend m p"
proof -
  have t: "tbl m p va d = (if d = 0 then Some p else None)" for va d
    using zero_page_entry [OF assms] by (induction d) (auto split: option.splits)
  then show "leaf m p va = None" "tables m p = {p}"
    by (auto simp: leaf_def tables_def)
  then show "pt_wf kend m p" using assms(1) t by (auto simp: pt_wf_def same_upto_def)
qed

lemma uvmcreate_spec:
  assumes "kmem_repr kend s (p # ps)"
  shows "\<exists>s'. uvmcreate s = (p, s') \<and> vm_inv kend s' p ps \<and> (\<forall>va. leaf (pmem s') p va = None)"
proof -
  have kp: "kpage kend p" and d: "p \<notin> set ps" and ks: "\<forall>q \<in> set ps. kpage kend q"
    using assms by (auto simp: kmem_repr_def)
  obtain s1 where s1: "kalloc s = (p, s1)" "kmem_repr kend s1 ps"
    using kmem.alloc_Cons [OF assms] by (cases "kalloc s") auto
  let ?s = "s1\<lparr>pmem := memset (pmem s1) p 0 4096\<rparr>"
  have "free_chain (pmem ?s) (freelist s1) ps = free_chain (pmem s1) (freelist s1) ps"
  proof (rule free_chain_cong)
    fix q x assume "q \<in> set ps" "in_range x q 4096"
    then have "\<not> in_range x p 4096" using kp ks d page_disjoint by (metis kpage_def)
    then show "pmem ?s x = pmem s1 x" by simp
  qed
  then have "kmem_repr kend ?s ps" using s1(2) by (simp add: kmem_repr_def)
  moreover have "leaf (memset (pmem s1) p 0 4096) p va = None" "tables (memset (pmem s1) p 0 4096) p = {p}"
    "pt_wf kend (memset (pmem s1) p 0 4096) p" for va
    by (rule zero_page_table [OF kp]; simp)+
  moreover have "p \<noteq> 0" using kp by (simp add: kpage_def)
  ultimately show ?thesis using s1(1) d by (auto simp: uvmcreate_def vm_inv_def)
qed


end
