(* ===== verification/UserMem.thy ===== *)
theory UserMem
  imports PageTable
begin

text \<open>
  User memory as the kernel sees it through \<open>walkaddr\<close>: \<open>upage\<close> is the physical page behind a user
  address, \<open>xlate\<close> the physical address of one byte. \<open>copyin\<close> and \<open>copyout\<close> are shown to transfer
  exactly the bytes of the virtual range, across pages, or to report failure; \<open>uvmunmap\<close> to
  remove exactly the mappings of its range.
\<close>

unbundle bit_operations_syntax

definition upage :: "mem \<Rightarrow> u64 \<Rightarrow> u64 \<Rightarrow> u64 option" where
  "upage m pt va = (if MAXVA \<le> va then None else
     case leaf m pt va of None \<Rightarrow> None
     | Some e \<Rightarrow> if e AND PTE_U = 0 \<or> PTE2PA e = 0 then None else Some (PTE2PA e))"

definition xlate :: "mem \<Rightarrow> u64 \<Rightarrow> u64 \<Rightarrow> u64 option" where
  "xlate m pt va = map_option (\<lambda>p. p + (va - PGROUNDDOWN va)) (upage m pt va)"

lemma walkaddr_upage:
  assumes "pt_wf kend (pmem s) pt"
  shows "walkaddr pt va s = Inr (case upage (pmem s) pt va of None \<Rightarrow> 0 | Some p \<Rightarrow> p)"
proof (cases "tbl (pmem s) pt va 2")
  case (Some t)
  then have "t + PX 0 va * 8 \<noteq> 0" using pt_wfD(1) [OF assms Some] entry_nonzero by auto
  then show ?thesis using Some
    by (auto simp: walkaddr_def walk_def upage_def leaf_def walk_read_only Let_def split: if_splits)
qed (auto simp: walkaddr_def walk_def upage_def leaf_def walk_read_only)

lemma upage_nonzero: "upage m pt va \<noteq> Some 0"
  by (auto simp: upage_def split: option.splits if_splits)

lemma leaf_same_page: "unat va div 4096 = unat vb div 4096 \<Longrightarrow> leaf m pt va = leaf m pt vb"
proof -
  assume eq: "unat va div 4096 = unat vb div 4096"
  have px: "PX l va = PX l vb" for l
  proof -
    have "unat va div 2 ^ (12 + 9 * l) = unat vb div 2 ^ (12 + 9 * l)"
      using eq by (simp add: power_add div_mult2_eq)
    then show ?thesis by (simp add: unat_eq_iff64 unat_PX)
  qed
  then have "tbl m pt va 2 = tbl m pt vb 2" by (intro tbl_same_upto) (simp add: same_upto_def)
  with px [of 0] show ?thesis by (simp add: leaf_def split: option.split)
qed

lemma upage_same_page:
  assumes eq: "unat va div 4096 = unat vb div 4096"
  shows "upage m pt va = upage m pt vb"
proof -
  have "MAXVA \<le> va \<longleftrightarrow> MAXVA \<le> vb"
    using eq div_le_mono [of 274877906944 "unat va" 4096] div_le_mono [of 274877906944 "unat vb" 4096]
    by (auto simp: word_le_nat_alt)
  then show ?thesis using leaf_same_page [OF eq] by (simp add: upage_def)
qed

lemma upage_aligned: "upage m pt va = Some p \<Longrightarrow> aligned 4096 p"
  using PTE2PA_aligned by (auto simp: upage_def split: option.splits if_splits)

lemma in_chunk:
  assumes "i < chunk va len"
  shows "unat (va + i) = unat va + unat i" "unat va mod 4096 + unat i < 4096"
    "unat (va + i) div 4096 = unat va div 4096" "unat (va + i) mod 4096 = unat va mod 4096 + unat i"
    "i < len"
proof -
  have i: "unat i < 4096 - unat va mod 4096" and "i < len"
    using assms by (auto simp: word_less_nat_alt unat_chunk)
  then show "i < len" by simp
  have q: "unat va div 4096 < 4503599627370496" using unat_lt64 [of va] by (simp add: less_mult_imp_div_less)
  have s: "unat va = 4096 * (unat va div 4096) + unat va mod 4096" by simp
  show u: "unat (va + i) = unat va + unat i"
    using i q s by (intro unat_add64) linarith
  show lt: "unat va mod 4096 + unat i < 4096" using i by simp
  have split: "(4096 * a + b) div 4096 = a \<and> (4096 * a + b) mod 4096 = b" if "b < 4096" for a b :: nat
    using that by simp
  have "unat (va + i) = 4096 * (unat va div 4096) + (unat va mod 4096 + unat i)" using u s by linarith
  then show "unat (va + i) div 4096 = unat va div 4096" "unat (va + i) mod 4096 = unat va mod 4096 + unat i"
    using split [OF lt] by metis+
qed

lemma xlate_chunk:
  assumes "upage m pt (PGROUNDDOWN va) = Some p" "i < chunk va len"
  shows "xlate m pt (va + i) = Some (p + (va - PGROUNDDOWN va) + i)"
proof -
  note c = in_chunk [OF assms(2)]
  have "unat (PGROUNDDOWN va) div 4096 = unat va div 4096" by (simp add: unat_PGROUNDDOWN minus_mod_eq_div_mult)
  then have "upage m pt (va + i) = Some p" using assms(1) upage_same_page c(3) by metis
  moreover have "va + i - PGROUNDDOWN (va + i) = va - PGROUNDDOWN va + i"
    using c by (simp add: unat_eq_iff64 page_simps unat_add64)
  ultimately show ?thesis by (simp add: xlate_def add.assoc)
qed

lemma chunk_fits:
  assumes "aligned 4096 p"
  shows "unat (p + (va - PGROUNDDOWN va)) + unat (chunk va len) \<le> 18446744073709551616"
proof -
  obtain q where q: "unat p = 4096 * q" using assms by (auto simp: aligned_def)
  have "q < 4503599627370496" using q unat_lt64 [of p] by simp
  then have "unat (p + (va - PGROUNDDOWN va)) = 4096 * q + unat va mod 4096"
    using q mod_less_divisor [of 4096 "unat va"] by (subst unat_add64) (simp_all add: page_simps del: mod_less_divisor)
  moreover have "unat (chunk va len) \<le> 4096 - unat va mod 4096" by (simp add: unat_chunk)
  ultimately show ?thesis using \<open>q < 4503599627370496\<close> by (simp add: less_imp_le)
qed

lemma next_chunk:
  assumes "unat (chunk va len) < unat len"
  shows "PGROUNDDOWN va + PGSIZE = va + chunk va len"
proof -
  have "unat (va - PGROUNDDOWN va) + unat (chunk va len) = unat PGSIZE"
    using assms mod_less_divisor [of 4096 "unat va"]
    by (simp add: page_simps unat_chunk min_def del: mod_less_divisor split: if_splits)
  then have "va - PGROUNDDOWN va + chunk va len = PGSIZE"
    by (simp add: unat_eq_iff64 unat_add64)
  then show ?thesis by (simp add: algebra_simps)
qed

lemma word_range_split:
  assumes "unat n \<le> unat (len :: u64)"
  shows "(\<forall>i < len. P i) \<longleftrightarrow> (\<forall>i < n. P i) \<and> (\<forall>i < len - n. P (n + i))"
proof -
  have l: "unat (len - n) = unat len - unat n" using assms by (rule unat_sub64)
  have "n + i < len" if "i < len - n" for i
  proof -
    have "unat n + unat i < unat len" using that l by (simp add: word_less_nat_alt)
    moreover from this have "unat (n + i) = unat n + unat i"
      by (intro unat_add64) (rule less_trans, assumption, rule unat_lt64)
    ultimately show ?thesis by (simp add: word_less_nat_alt)
  qed
  moreover have "i < n \<or> (\<exists>j < len - n. i = n + j)" if "i < len" for i
  proof (cases "i < n")
    case False
    then have "unat (i - n) = unat i - unat n" by (intro unat_sub64) (simp add: word_less_nat_alt)
    then have "i - n < len - n" using l that False by (simp add: word_less_nat_alt)
    then show ?thesis by (intro disjI2 exI [of _ "i - n"]) simp
  qed simp
  moreover have "i < len" if "i < n" for i using that assms by (simp add: word_less_nat_alt)
  ultimately show ?thesis by metis
qed

text \<open>Consecutive ranges.\<close>

lemma in_range_split:
  assumes "unat n \<le> len" "len < 18446744073709551616"
  shows "in_range x d len \<longleftrightarrow> in_range x d (unat n) \<or> in_range x (d + n) (len - unat n)"
proof (cases "unat n \<le> unat (x - d)")
  case True
  have "unat (x - (d + n)) = unat (x - d) - unat n"
    using unat_sub64 [of n "x - d"] True by (simp add: algebra_simps word_le_nat_alt)
  then show ?thesis using True assms by (auto simp: in_range_def)
next
  case False
  have "\<not> unat (x - (d + n)) < len - unat n"
  proof
    assume lt: "unat (x - (d + n)) < len - unat n"
    have "unat (x - (d + n) + n) = unat (x - (d + n)) + unat n" using lt assms by (intro unat_add64) simp
    then show False using False by (simp add: algebra_simps)
  qed
  then show ?thesis using False assms by (auto simp: in_range_def)
qed

subsection \<open>\<open>copyin\<close>\<close>

definition copied_in :: "mem \<Rightarrow> u64 \<Rightarrow> u64 \<Rightarrow> u64 \<Rightarrow> u64 \<Rightarrow> int \<Rightarrow> mem \<Rightarrow> bool" where
  "copied_in m pt dst srcva len r m' \<longleftrightarrow>
     (if \<forall>i < len. xlate m pt (srcva + i) \<noteq> None
      then r = 0 \<and> (\<forall>x. m' x = (if in_range x dst (unat len)
             then m (the (xlate m pt (srcva + (x - dst)))) else m x))
      else r = - 1)"

lemma copied_in_step:
  assumes n: "unat n \<le> unat len"
    and here: "\<And>i. i < n \<Longrightarrow> xlate m pt (srcva + i) = Some (src + i)"
    and m1: "\<And>x. m1 x = (if in_range x dst (unat n) then m (src + (x - dst)) else m x)"
    and xl: "\<And>va. xlate m1 pt va = xlate m pt va"
    and src: "\<forall>i < len. \<forall>q. xlate m pt (srcva + i) = Some q \<longrightarrow> \<not> in_range q dst (unat len)"
    and rest: "copied_in m1 pt (dst + n) (srcva + n) (len - n) r m2"
  shows "copied_in m pt dst srcva len r m2"
proof -
  have l: "unat (len - n) = unat len - unat n" using n by (rule unat_sub64)
  have rng: "in_range x dst (unat len) \<longleftrightarrow> in_range x dst (unat n) \<or> in_range x (dst + n) (unat len - unat n)" for x
    by (rule in_range_split [OF n]) simp
  have off: "srcva + n + (x - (dst + n)) = srcva + (x - dst)" for x by simp
  have all: "(\<forall>i < len. xlate m pt (srcva + i) \<noteq> None) \<longleftrightarrow>
      (\<forall>i < len - n. xlate m1 pt (srcva + n + i) \<noteq> None)"
    using word_range_split [OF n, of "\<lambda>i. xlate m pt (srcva + i) \<noteq> None"] here xl by (simp add: add.assoc)
  show ?thesis
  proof (cases "\<forall>i < len. xlate m pt (srcva + i) \<noteq> None")
    case True
    then have r: "r = 0" and m2: "\<And>x. m2 x = (if in_range x (dst + n) (unat len - unat n)
        then m1 (the (xlate m pt (srcva + (x - dst)))) else m1 x)"
      using rest all by (simp_all add: copied_in_def l off xl)
    have "m2 x = m (the (xlate m pt (srcva + (x - dst))))" if x: "in_range x dst (unat len)" for x
    proof (cases "in_range x (dst + n) (unat len - unat n)")
      case inr: True
      have "x - dst < len" using x by (simp add: in_range_def word_less_nat_alt)
      then obtain q where q: "xlate m pt (srcva + (x - dst)) = Some q" "\<not> in_range q dst (unat len)"
        using True src by fastforce
      then show ?thesis using m2 [of x] m1 [of q] rng [of q] inr by simp
    next
      case False
      then have inn: "in_range x dst (unat n)" using rng x by blast
      then have "x - dst < n" by (simp add: in_range_def word_less_nat_alt)
      then show ?thesis using here m2 [of x] m1 [of x] False inn by simp
    qed
    moreover have "m2 x = m x" if "\<not> in_range x dst (unat len)" for x
      using that m2 [of x] m1 [of x] rng [of x] by simp
    ultimately show ?thesis using True r by (simp add: copied_in_def)
  next
    case False
    then show ?thesis using rest all by (auto simp: copied_in_def)
  qed
qed

lemma copyin_copied_in:
  assumes "pt_wf kend (pmem s) pt" "unat dst + unat len \<le> 18446744073709551616"
    and "\<forall>t \<in> tables (pmem s) pt. \<forall>x. in_range x dst (unat len) \<longrightarrow> \<not> in_range x t 4096"
    and "\<forall>i < len. \<forall>p. xlate (pmem s) pt (srcva + i) = Some p \<longrightarrow> \<not> in_range p dst (unat len)"
  shows "\<exists>r s'. copyin pt dst srcva len s = Inr (r, s') \<and>
     copied_in (pmem s) pt dst srcva len r (pmem s')"
  using assms
proof (induction pt dst srcva len s rule: copyin.induct)
  case (1 pt dst srcva len s)
  let ?va0 = "PGROUNDDOWN srcva" and ?n = "chunk srcva len"
  have w: "walkaddr pt ?va0 s = Inr (case upage (pmem s) pt ?va0 of None \<Rightarrow> 0 | Some p \<Rightarrow> p)"
    by (rule walkaddr_upage [OF 1(2)])
  consider "len = 0" | "0 < len" "upage (pmem s) pt ?va0 = None"
    | p where "0 < len" "upage (pmem s) pt ?va0 = Some p" by (cases "len = 0") (auto simp: word_gt_0)
  then show ?case
  proof cases
    case 1
    then show ?thesis by (subst copyin.simps) (simp add: copied_in_def)
  next
    case 2
    have "unat ?va0 div 4096 = unat srcva div 4096" by (simp add: unat_PGROUNDDOWN minus_mod_eq_div_mult)
    from upage_same_page [OF this] have "xlate (pmem s) pt (srcva + 0) = None" using 2 by (simp add: xlate_def)
    then have "\<not> (\<forall>i < len. xlate (pmem s) pt (srcva + i) \<noteq> None)" using 2(1) by blast
    then show ?thesis using w 2 by (subst copyin.simps) (auto simp: copied_in_def)
  next
    case (3 p)
    let ?src = "p + (srcva - ?va0)"
    let ?s' = "s\<lparr>pmem := memmove (pmem s) dst ?src (unat ?n)\<rparr>"
    have p0: "p \<noteq> 0" using 3(2) upage_nonzero by blast
    have n: "unat ?n \<le> unat len" using chunk_positive [OF 3(1)] by simp
    have l: "unat (len - ?n) = unat len - unat ?n" using n by (rule unat_sub64)
    have rng: "in_range x dst (unat len) \<longleftrightarrow> in_range x dst (unat ?n) \<or> in_range x (dst + ?n) (unat len - unat ?n)" for x
      by (rule in_range_split [OF n]) simp
    have m': "pmem ?s' x = (if in_range x dst (unat ?n) then pmem s (?src + (x - dst)) else pmem s x)" for x
      using chunk_fits [OF upage_aligned [OF 3(2)], of srcva len] 1(3) n by (simp add: memmove_apply)
    have ag: "agree_on (tables (pmem s) pt) (pmem s) (pmem ?s')"
      using 1(4) rng m' by (auto simp: agree_on_def)
    have xl: "xlate (pmem ?s') pt va = xlate (pmem s) pt va" for va
      using leaf_frame(1) [OF 1(2) ag] by (simp add: xlate_def upage_def)
    have step: "copyin pt dst srcva len s = copyin pt (dst + ?n) (?va0 + PGSIZE) (len - ?n) ?s'"
      using w 3 p0 by (subst copyin.simps) (simp add: Let_def)
    have "\<exists>r s2. copyin pt (dst + ?n) (?va0 + PGSIZE) (len - ?n) ?s' = Inr (r, s2) \<and>
        copied_in (pmem ?s') pt (dst + ?n) (srcva + ?n) (len - ?n) r (pmem s2)"
    proof (cases "?n = len")
      case True
      then show ?thesis by (subst copyin.simps) (simp add: copied_in_def)
    next
      case False
      then have lt: "unat ?n < unat len" using n by (simp add: unat_eq_iff64)
      have dn: "unat (dst + ?n) = unat dst + unat ?n" using 1(3) lt by (intro unat_add64) linarith
      note va = next_chunk [OF lt]
      show ?thesis unfolding va [symmetric]
      proof (rule 1(1) [OF 3(1) refl _ p0 refl])
        show "walkaddr pt ?va0 s = Inr p" using w 3(2) by simp
        show "pt_wf kend (pmem ?s') pt" by (rule leaf_frame(3) [OF 1(2) ag])
        show "unat (dst + ?n) + unat (len - ?n) \<le> 18446744073709551616" using 1(3) l dn lt by simp
        show "\<forall>t\<in>tables (pmem ?s') pt. \<forall>x. in_range x (dst + ?n) (unat (len - ?n)) \<longrightarrow> \<not> in_range x t 4096"
          unfolding leaf_frame(2) [OF 1(2) ag] using 1(4) rng l by auto
        show "\<forall>i<len - ?n. \<forall>q. xlate (pmem ?s') pt (?va0 + PGSIZE + i) = Some q \<longrightarrow>
           \<not> in_range q (dst + ?n) (unat (len - ?n))"
          unfolding xl va l using 1(5) rng word_range_split [OF n, of "\<lambda>i. \<forall>q.
            xlate (pmem s) pt (srcva + i) = Some q \<longrightarrow> \<not> in_range q dst (unat len)"]
          by (auto simp: add.assoc)
      qed
    qed
    then show ?thesis unfolding step
      using copied_in_step [OF n xlate_chunk [OF 3(2)] m' xl 1(5)] by metis
  qed
qed

subsection \<open>\<open>uvmunmap\<close>\<close>

text \<open>\<open>in_span a n vb\<close>: the page of \<open>vb\<close> is one of the \<open>n\<close> pages from \<open>a\<close>.\<close>

definition in_span :: "u64 \<Rightarrow> nat \<Rightarrow> u64 \<Rightarrow> bool" where
  "in_span a n vb \<longleftrightarrow> unat a div 4096 \<le> unat vb div 4096 \<and> unat vb div 4096 < unat a div 4096 + n"

lemma walk_leaf:
  assumes "vm_inv kend s pt ps" "a < MAXVA" "leaf (pmem s) pt a = Some e"
  shows "\<exists>t. tbl (pmem s) pt a 2 = Some t \<and> walk pt a False s = Inr (t + PX 0 a * 8, s) \<and>
     t + PX 0 a * 8 \<noteq> 0 \<and> load64 (pmem s) (t + PX 0 a * 8) = e \<and> e AND PTE_V \<noteq> 0"
proof -
  obtain t where t: "tbl (pmem s) pt a 2 = Some t"
    using assms(3) by (auto simp: leaf_def split: option.splits)
  have "pt_wf kend (pmem s) pt" using assms(1) by (simp add: vm_inv_def)
  then have "t + PX 0 a * 8 \<noteq> 0" by (intro entry_nonzero [of kend] pt_wfD(1) [OF _ t]) simp_all
  moreover have "load64 (pmem s) (t + PX 0 a * 8) = e" "e AND PTE_V \<noteq> 0"
    using assms(3) t by (auto simp: leaf_def Let_def split: if_splits)
  ultimately show ?thesis using t assms(2) by (simp add: walk_Inr walk_read_only)
qed

lemma clear_leaf:
  assumes inv: "vm_inv kend s pt ps" and a: "a < MAXVA" and t: "tbl (pmem s) pt a 2 = Some t"
  defines "s' \<equiv> s\<lparr>pmem := store64 (pmem s) (t + PX 0 a * 8) 0\<rparr>"
  shows "vm_keeps kend pt s ps s' ps"
    and "vb < MAXVA \<Longrightarrow> leaf (pmem s') pt vb =
       (if unat vb div 4096 = unat a div 4096 then None else leaf (pmem s) pt vb)"
  using vm_keeps_store_leaf [OF inv t] vm_inv_store_leaf(3) [OF inv t, of 0 vb] same_upto_3_iff [OF a, of vb]
  by (auto simp: s'_def)

lemma uvmunmap_from_spec:
  assumes "vm_inv kend s pt ps" "unat last_a = unat a + n * 4096" "last_a \<le> MAXVA"
    and "\<forall>vb < MAXVA. in_span a n vb \<longrightarrow> (\<exists>e. leaf (pmem s) pt vb = Some e \<and> PTE_FLAGS e \<noteq> PTE_V)"
  shows "\<exists>s'. uvmunmap_from kend pt a last_a False s = Inr s' \<and> vm_keeps kend pt s ps s' ps \<and>
     (\<forall>vb < MAXVA. leaf (pmem s') pt vb = (if in_span a n vb then None else leaf (pmem s) pt vb))"
  using assms
proof (induction n arbitrary: s a)
  case 0
  then have "\<not> a < last_a" by (simp add: word_less_nat_alt)
  then show ?case using vm_keeps_refl [OF 0(1)] by (subst uvmunmap_from.simps) (auto simp: in_span_def)
next
  case (Suc n)
  have lt: "a < last_a" and a: "a < MAXVA"
    using Suc.prems(2,3) by (auto simp: word_less_nat_alt word_le_nat_alt)
  have u: "unat (a + PGSIZE) = unat a + 4096"
    using Suc.prems(2,3) by (simp add: unat_add64 word_le_nat_alt)
  have span: "in_span a (Suc n) vb \<longleftrightarrow> unat vb div 4096 = unat a div 4096 \<or> in_span (a + PGSIZE) n vb" for vb
    using u by (auto simp: in_span_def)
  obtain e where e: "leaf (pmem s) pt a = Some e" "PTE_FLAGS e \<noteq> PTE_V"
    using Suc.prems(4) a span by blast
  from walk_leaf [OF Suc.prems(1) a e(1)] obtain t where
    t: "tbl (pmem s) pt a 2 = Some t" "walk pt a False s = Inr (t + PX 0 a * 8, s)"
      "t + PX 0 a * 8 \<noteq> 0" "load64 (pmem s) (t + PX 0 a * 8) = e" "e AND PTE_V \<noteq> 0" by blast
  let ?s = "s\<lparr>pmem := store64 (pmem s) (t + PX 0 a * 8) 0\<rparr>"
  note c = clear_leaf [OF Suc.prems(1) a t(1)]
  have "uvmunmap_from kend pt a last_a False s = uvmunmap_from kend pt (a + PGSIZE) last_a False ?s"
    using lt t e(2) by (subst uvmunmap_from.simps) (simp add: Let_def)
  moreover have "\<exists>s'. uvmunmap_from kend pt (a + PGSIZE) last_a False ?s = Inr s' \<and> vm_keeps kend pt ?s ps s' ps \<and>
     (\<forall>vb < MAXVA. leaf (pmem s') pt vb = (if in_span (a + PGSIZE) n vb then None else leaf (pmem ?s) pt vb))"
  proof (rule Suc.IH)
    show "vm_inv kend ?s pt ps" using c(1) by (simp add: vm_keeps_def)
    show "\<forall>vb < MAXVA. in_span (a + PGSIZE) n vb \<longrightarrow> (\<exists>e. leaf (pmem ?s) pt vb = Some e \<and> PTE_FLAGS e \<noteq> PTE_V)"
      using c(2) Suc.prems(4) span u by (auto simp: in_span_def)
  qed (use Suc.prems u in simp_all)
  ultimately show ?case using vm_keeps_trans [OF c(1)] c(2) span by fastforce
qed
subsection \<open>\<open>mappages\<close> on a byte range\<close>

lemma mappages_spec:
  assumes "vm_inv kend s pt ps" "0 < sz" "unat va + unat sz \<le> 274877906944"
    and "\<forall>vb < MAXVA. in_pages va (va + sz - 1) vb \<longrightarrow> leaf (pmem s) pt vb = None"
  shows "\<exists>r s' ps'. mappages pt va sz pa perm s = Inr (r, s') \<and> vm_keeps kend pt s ps s' ps'
     \<and> (if r = 0 then \<forall>vb < MAXVA. leaf (pmem s') pt vb =
            (if in_pages va (va + sz - 1) vb then Some (range_entry va pa perm vb) else leaf (pmem s) pt vb)
        else r = - 1 \<and> length ps < 2 * Suc (unat (va + sz - 1) div 4096 - unat va div 4096))"
proof -
  let ?a = "PGROUNDDOWN va" and ?l = "PGROUNDDOWN (va + sz - 1)"
  have sz: "0 < unat sz" using assms(2) by (simp add: word_less_nat_alt)
  have u: "unat (va + sz - 1) = unat va + unat sz - 1"
    using assms(3) sz by (simp add: unat_sub64 unat_add64)
  have d: "unat ?a div 4096 = unat va div 4096" "unat ?l div 4096 = unat (va + sz - 1) div 4096"
    by (simp_all add: unat_PGROUNDDOWN minus_mod_eq_div_mult)
  have ip: "in_pages ?a ?l = in_pages va (va + sz - 1)" "range_entry ?a pa perm = range_entry va pa perm"
    by (simp_all add: in_pages_def range_entry_def d fun_eq_iff)
  have le: "unat va div 4096 \<le> unat (va + sz - 1) div 4096" using u sz by (intro div_le_mono) simp
  have "unat ?l = unat ?a + (unat (va + sz - 1) div 4096 - unat va div 4096) * 4096"
    using le by (simp add: unat_PGROUNDDOWN minus_mod_eq_div_mult algebra_simps)
  moreover have "?l < MAXVA" using u assms(3) sz by (simp add: word_less_nat_alt unat_PGROUNDDOWN)
  moreover have "mappages pt va sz pa perm s = mappages_from pt ?a ?l pa perm s"
    using assms(2) by (simp add: mappages_def word_gt_0)
  ultimately show ?thesis
    using mappages_from_spec [OF assms(1), of ?l ?a _ pa perm] assms(4) unfolding ip by presburger
qed

lemma perm_or_V: "unat perm < 1024 \<Longrightarrow> unat (perm OR PTE_V) < 1024"
proof -
  assume "unat perm < 1024"
  then have "take_bit 10 perm = perm" by (intro take_bit_less_exp) simp
  then have "take_bit 10 (perm OR PTE_V) = perm OR PTE_V" by simp
  then have "unat (perm OR PTE_V) = take_bit 10 (unat (perm OR PTE_V))" by (metis unsigned_take_bit_eq)
  also have "\<dots> < 2 ^ 10" by (rule take_bit_nat_less_exp)
  finally show ?thesis by simp
qed

lemma range_entry_flags:
  assumes "unat perm < 1024"
  shows "PTE_FLAGS (range_entry a pa perm vb) = perm OR PTE_V"
    and "range_entry a pa perm vb AND PTE_U = perm AND PTE_U"
proof -
  show f: "PTE_FLAGS (range_entry a pa perm vb) = perm OR PTE_V"
    unfolding range_entry_def by (rule PTE_FLAGS_PA2PTE [OF perm_or_V [OF assms]])
  have "x AND PTE_U = PTE_FLAGS x AND PTE_U" for x by (simp add: PTE_FLAGS_def and.assoc)
  then have "range_entry a pa perm vb AND PTE_U = (perm OR PTE_V) AND PTE_U" using f by metis
  then show "range_entry a pa perm vb AND PTE_U = perm AND PTE_U" by (simp add: bit.conj_disj_distrib2)
qed

text \<open>The address of the page that \<open>mappages\<close> puts behind \<open>vb\<close>.\<close>

lemma range_entry_PTE2PA:
  assumes "unat perm < 1024" "aligned 4096 pa" "unat pa < 2 ^ 55" "vb < MAXVA"
  shows "PTE2PA (range_entry va pa perm vb) = pa + of_nat (unat vb div 4096 - unat va div 4096) * PGSIZE"
proof -
  let ?k = "unat vb div 4096 - unat va div 4096"
  have k: "?k * 4096 \<le> 274877906944" using assms(4) by (simp add: word_less_nat_alt)
  then have u: "unat (pa + of_nat ?k * PGSIZE) = unat pa + ?k * 4096"
    using assms(3) by (intro unat_page_offset) simp
  show ?thesis unfolding range_entry_def
  proof (rule PTE2PA_PA2PTE [OF _ _ perm_or_V [OF assms(1)]])
    show "aligned 4096 (pa + of_nat ?k * PGSIZE)" using assms(2) u by (simp add: aligned_def)
    show "unat (pa + of_nat ?k * PGSIZE) < 2 ^ 56" using assms(3) u k by simp
  qed
qed

subsection \<open>What page-table operations leave alone\<close>

lemma kalloc_more [simp]: "machine.more (snd (kalloc s)) = machine.more s"
  by (simp add: kalloc_def Let_def)

lemma walk_levels_more [simp]: "machine.more (snd (walk_levels l pt va al s)) = machine.more s"
proof (induction l pt va al s rule: walk_levels.induct)
  case (2 l pt va al s)
  then show ?case using kalloc_more [of s] by (simp add: Let_def split_beta)
qed simp

lemma walk_more: "walk pt va al s = Inr (pte, s') \<Longrightarrow> machine.more s' = machine.more s"
  by (auto simp: walk_def split: if_splits) (metis walk_levels_more snd_conv)

subsection \<open>Properties\<close>

text \<open>C6: under the page-table invariant, with the range unmapped and two free pages per page of the
  range, \<open>mappages\<close> succeeds; the address-space map then changes exactly on the pages of the range,
  which get their physical page and permissions, the invariant holds again, and memory outside the
  tables and the pages taken from the free list is untouched.\<close>

theorem mappages_installs_range:
  assumes "vm_inv kend s pt ps" "0 < sz" "unat va + unat sz \<le> 274877906944"
    and "\<forall>vb < MAXVA. in_pages va (va + sz - 1) vb \<longrightarrow> leaf (pmem s) pt vb = None"
    and "2 * Suc (unat (va + sz - 1) div 4096 - unat va div 4096) \<le> length ps"
  shows "\<exists>s' ps'. mappages pt va sz pa perm s = Inr (0, s') \<and> vm_inv kend s' pt ps'
     \<and> (\<forall>vb < MAXVA. leaf (pmem s') pt vb = (if in_pages va (va + sz - 1) vb
           then Some (range_entry va pa perm vb) else leaf (pmem s) pt vb))
     \<and> (\<forall>x. (\<forall>p \<in> tables (pmem s) pt \<union> set ps. \<not> in_range x p 4096) \<longrightarrow> pmem s' x = pmem s x)"
  using mappages_spec [OF assms(1-4), of pa perm] assms(5) unfolding vm_keeps_def
  by (fastforce split: if_splits)

text \<open>An address space made from four free pages, for the witnesses.\<close>

definition four_pages :: "u64 list" where
  "four_pages = [0x87FFF000, 0x87FFE000, 0x87FFD000, 0x87FFC000]"

lemma demo_space:
  assumes "freelist s = 0"
  shows "\<exists>s0 s1. kinit 0x87FFC000 s = Inr s0 \<and> uvmcreate s0 = (0x87FFF000, s1)
     \<and> vm_inv 0x87FFC000 s1 0x87FFF000 (tl four_pages) \<and> (\<forall>va. leaf (pmem s1) 0x87FFF000 va = None)"
proof -
  have u: "unat (PGROUNDUP 0x87FFC000) = 2281684992" by (subst unat_PGROUNDUP) simp_all
  then have p: "PGROUNDUP 0x87FFC000 = 0x87FFC000" by (simp add: unat_eq_iff64)
  have four: "(4 :: nat) = Suc (Suc (Suc (Suc 0)))" by simp
  have "pages_from 0x87FFC000 4 = four_pages" by (simp add: four_pages_def four PGSIZE_def)
  then obtain s0 where "kinit 0x87FFC000 s = Inr s0" "kmem_repr 0x87FFC000 s0 four_pages"
    using kinit_repr [of "0x87FFC000" s] assms by (auto simp: p word_le_nat_alt)
  then show ?thesis
    using uvmcreate_spec [of "0x87FFC000" s0 "0x87FFF000" "tl four_pages"] by (simp add: four_pages_def)
qed

lemma demo_mapped:
  assumes "vm_inv 0x87FFC000 s1 0x87FFF000 (tl four_pages)" "\<forall>va. leaf (pmem s1) 0x87FFF000 va = None"
  shows "\<exists>s2 ps. mappages 0x87FFF000 0x1000 0x1000 0x80000000 (PTE_R OR PTE_U) s1 = Inr (0, s2)
     \<and> vm_inv 0x87FFC000 s2 0x87FFF000 ps
     \<and> (\<forall>vb < MAXVA. leaf (pmem s2) 0x87FFF000 vb = (if unat vb div 4096 = 1
          then Some (range_entry 0x1000 0x80000000 (PTE_R OR PTE_U) vb) else None))"
proof -
  obtain r s2 ps' where m: "mappages 0x87FFF000 0x1000 0x1000 0x80000000 (PTE_R OR PTE_U) s1 = Inr (r, s2)"
    "vm_keeps 0x87FFC000 0x87FFF000 s1 (tl four_pages) s2 ps'"
    "if r = 0 then \<forall>vb < MAXVA. leaf (pmem s2) 0x87FFF000 vb = (if in_pages 0x1000 0x1FFF vb
        then Some (range_entry 0x1000 0x80000000 (PTE_R OR PTE_U) vb) else None) else False"
    using mappages_spec [OF assms(1), of "0x1000" "0x1000" "0x80000000" "PTE_R OR PTE_U"] assms(2)
    by (auto simp: four_pages_def split: if_splits)
  then have "r = 0" by (simp split: if_splits)
  then show ?thesis using m by (fastforce simp: in_pages_def vm_keeps_def four_pages_def)
qed

theorem mappages_installs_range_witness:
  "\<exists>s0 s s'. kinit 0x87FFC000 \<lparr>pmem = (\<lambda>_. 0), freelist = 0\<rparr> = Inr s0 \<and> uvmcreate s0 = (0x87FFF000, s)
     \<and> mappages 0x87FFF000 0x1000 0x1000 0x80000000 PTE_R s = Inr (0, s')
     \<and> leaf (pmem s') 0x87FFF000 0x1234 = Some (PA2PTE 0x80000000 OR PTE_R OR PTE_V)
     \<and> leaf (pmem s') 0x87FFF000 0x2000 = None"
proof -
  obtain s0 s where s0: "kinit 0x87FFC000 \<lparr>pmem = (\<lambda>_. 0), freelist = 0\<rparr> = Inr s0"
    and s: "uvmcreate s0 = (0x87FFF000, s)" "vm_inv 0x87FFC000 s 0x87FFF000 (tl four_pages)"
      "\<forall>va. leaf (pmem s) 0x87FFF000 va = None"
    using demo_space [of "\<lparr>pmem = (\<lambda>_. 0), freelist = 0\<rparr>"] by auto
  from mappages_installs_range [OF s(2), of "0x1000" "0x1000" "0x80000000" PTE_R] s(3) obtain s' where
    s': "mappages 0x87FFF000 0x1000 0x1000 0x80000000 PTE_R s = Inr (0, s')"
      "\<forall>vb < MAXVA. leaf (pmem s') 0x87FFF000 vb = (if in_pages 0x1000 0x1FFF vb
           then Some (range_entry 0x1000 0x80000000 PTE_R vb) else None)"
    by (auto simp: four_pages_def)
  have "leaf (pmem s') 0x87FFF000 0x1234 = Some (PA2PTE 0x80000000 OR PTE_R OR PTE_V)"
    using s'(2) [rule_format, of "0x1234"] by (simp add: in_pages_def range_entry_def word_less_nat_alt del: pte_flag_bits)
  moreover have "leaf (pmem s') 0x87FFF000 0x2000 = None"
    using s'(2) [rule_format, of "0x2000"] by (simp add: in_pages_def word_less_nat_alt)
  ultimately show ?thesis using s0 s(1) s'(1) by blast
qed

text \<open>After a successful \<open>mappages\<close> of user pages, \<open>walkaddr\<close> translates every address of the range
  to the physical page it was mapped to.\<close>

theorem walkaddr_after_mappages:
  assumes "vm_inv kend s pt ps" "0 < sz" "unat va + unat sz \<le> 274877906944"
    and "\<forall>vb < MAXVA. in_pages va (va + sz - 1) vb \<longrightarrow> leaf (pmem s) pt vb = None"
    and "mappages pt va sz pa perm s = Inr (0, s')"
    and "unat perm < 1024" "perm AND PTE_U \<noteq> 0" "aligned 4096 pa" "pa \<noteq> 0" "unat pa < 2 ^ 55"
    and "vb < MAXVA" "in_pages va (va + sz - 1) vb"
  shows "walkaddr pt vb s' = Inr (pa + of_nat (unat vb div 4096 - unat va div 4096) * PGSIZE)"
proof -
  let ?k = "unat vb div 4096 - unat va div 4096"
  obtain ps' where k: "vm_keeps kend pt s ps s' ps'" and lf: "leaf (pmem s') pt vb = Some (range_entry va pa perm vb)"
    using mappages_spec [OF assms(1-4), of pa perm] assms(5,11,12) by auto
  have "?k * 4096 \<le> 274877906944" using assms(11) by (simp add: word_less_nat_alt)
  then have "unat (pa + of_nat ?k * PGSIZE) = unat pa + ?k * 4096"
    using assms(10) by (intro unat_page_offset) simp
  then have "pa + of_nat ?k * PGSIZE \<noteq> 0" using assms(9) by (auto simp: unat_eq_iff64)
  then have "upage (pmem s') pt vb = Some (pa + of_nat ?k * PGSIZE)"
    using lf range_entry_flags(2) [OF assms(6)] range_entry_PTE2PA [OF assms(6,8,10,11)] assms(7,11)
    by (simp add: upage_def leD)
  moreover have "pt_wf kend (pmem s') pt" using k by (simp add: vm_keeps_def vm_inv_def)
  ultimately show ?thesis by (simp add: walkaddr_upage)
qed

theorem walkaddr_after_mappages_witness:
  "\<exists>s1 s2. mappages 0x87FFF000 0x1000 0x1000 0x80000000 (PTE_R OR PTE_U) s1 = Inr (0, s2 :: machine)
     \<and> walkaddr 0x87FFF000 0x1234 s2 = Inr 0x80000000"
proof -
  obtain s1 :: machine where s1: "vm_inv 0x87FFC000 s1 0x87FFF000 (tl four_pages)"
    "\<forall>va. leaf (pmem s1) 0x87FFF000 va = None"
    using demo_space [of "\<lparr>pmem = (\<lambda>_. 0), freelist = 0\<rparr>"] by auto
  obtain s2 where s2: "mappages 0x87FFF000 0x1000 0x1000 0x80000000 (PTE_R OR PTE_U) s1 = Inr (0, s2)"
    using demo_mapped [OF s1] by auto
  have "walkaddr 0x87FFF000 0x1234 s2 = Inr 0x80000000"
    using walkaddr_after_mappages [OF s1(1) _ _ _ s2, of "0x1234"] s1(2)
    by (simp add: in_pages_def aligned_def word_less_nat_alt)
  then show ?thesis using s2 by blast
qed

text \<open>Mapping \<open>n\<close> fresh pages with some permission and unmapping them again (without freeing them)
  gives back the address space as it was.\<close>

theorem mappages_uvmunmap_roundtrip:
  fixes s :: "'a vmstate_scheme"
  assumes "vm_inv kend s pt ps" "aligned 4096 va" "0 < n" "unat va + unat n * 4096 \<le> 274877906944"
    and "\<forall>vb < MAXVA. in_span va (unat n) vb \<longrightarrow> leaf (pmem s) pt vb = None"
    and "mappages pt va (n * PGSIZE) pa perm s = Inr (0, s')"
    and "unat perm < 1024" "perm OR PTE_V \<noteq> PTE_V"
  shows "\<exists>s'' ps''. uvmunmap kend pt va n False s' = Inr s'' \<and> vm_inv kend s'' pt ps''
     \<and> (\<forall>vb < MAXVA. leaf (pmem s'') pt vb = leaf (pmem s) pt vb)"
proof -
  have n: "0 < unat n" "unat n * 4096 \<le> 274877906944" using assms(3,4) by (auto simp: word_less_nat_alt)
  have sz: "unat (n * PGSIZE) = unat n * 4096" using n(2) by (simp add: unat_word_ariths)
  have la: "unat (va + n * PGSIZE) = unat va + unat n * 4096" using assms(4) sz by (simp add: unat_add64)
  have l1: "unat (va + n * PGSIZE - 1) = unat va + unat n * 4096 - 1"
    using la n by (simp add: unat_sub64)
  obtain q where q: "unat va = 4096 * q" using assms(2) by (auto simp: aligned_def)
  have "unat (va + n * PGSIZE - 1) div 4096 = q + unat n - 1"
  proof -
    have "unat (va + n * PGSIZE - 1) = 4096 * (q + unat n - 1) + 4095" using l1 q n(1) by (cases "unat n") auto
    then show ?thesis by simp
  qed
  then have ip: "in_pages va (va + n * PGSIZE - 1) vb \<longleftrightarrow> in_span va (unat n) vb" for vb
    using q n(1) by (auto simp: in_pages_def in_span_def)
  have pos: "0 < n * PGSIZE" using sz n(1) by (simp add: word_less_nat_alt)
  obtain ps' where k: "vm_inv kend s' pt ps'" and lf: "\<forall>vb < MAXVA. leaf (pmem s') pt vb =
      (if in_span va (unat n) vb then Some (range_entry va pa perm vb) else leaf (pmem s) pt vb)"
    using mappages_spec [OF assms(1) pos, of va pa perm] assms(4-6) sz by (auto simp: ip vm_keeps_def)
  have "\<exists>s''. uvmunmap_from kend pt va (va + n * PGSIZE) False s' = Inr s'' \<and> vm_keeps kend pt s' ps' s'' ps' \<and>
     (\<forall>vb < MAXVA. leaf (pmem s'') pt vb = (if in_span va (unat n) vb then None else leaf (pmem s') pt vb))"
    by (rule uvmunmap_from_spec [OF k la])
      (use lf assms(4,8) la range_entry_flags(1) [OF assms(7)] in \<open>auto simp: word_le_nat_alt\<close>)
  then show ?thesis using assms(2,5) lf by (fastforce simp: uvmunmap_def aligned_def vm_keeps_def)
qed

theorem mappages_uvmunmap_roundtrip_witness:
  "\<exists>s1 s2 s3. mappages 0x87FFF000 0x1000 0x1000 0x80000000 (PTE_R OR PTE_U) s1 = Inr (0, s2 :: vmstate)
     \<and> uvmunmap 0x87FFC000 0x87FFF000 0x1000 1 False s2 = Inr s3
     \<and> (\<forall>vb < MAXVA. leaf (pmem s3) 0x87FFF000 vb = leaf (pmem s1) 0x87FFF000 vb)"
proof -
  obtain s1 :: vmstate where s1: "vm_inv 0x87FFC000 s1 0x87FFF000 (tl four_pages)"
    "\<forall>va. leaf (pmem s1) 0x87FFF000 va = None"
    using demo_space [of "\<lparr>pmem = (\<lambda>_. 0), freelist = 0, cow_groups = [], p_cow_enabled = 0, p_cow_group = 0\<rparr>"]
    by auto
  obtain s2 where s2: "mappages 0x87FFF000 0x1000 0x1000 0x80000000 (PTE_R OR PTE_U) s1 = Inr (0, s2)"
    using demo_mapped [OF s1] by auto
  then have "\<exists>s3. uvmunmap 0x87FFC000 0x87FFF000 0x1000 1 False s2 = Inr s3
     \<and> (\<forall>vb < MAXVA. leaf (pmem s3) 0x87FFF000 vb = leaf (pmem s1) 0x87FFF000 vb)"
    using mappages_uvmunmap_roundtrip [OF s1(1), of "0x1000" 1 "0x80000000" "PTE_R OR PTE_U" s2] s1(2)
    by (auto simp: aligned_def PGSIZE_def)
  then show ?thesis using s2 by blast
qed

text \<open>C21: \<open>copyin\<close> never panics. If every byte of the user range is mapped for the user it returns 0
  and the kernel buffer holds exactly those bytes, page crossings included, and no other memory
  changes; otherwise it returns -1. The buffer must not overlap the page tables or the user pages.\<close>

theorem copyin_copies:
  assumes "pt_wf kend (pmem s) pt" "unat dst + unat len \<le> 18446744073709551616"
    and "\<forall>t \<in> tables (pmem s) pt. \<forall>x. in_range x dst (unat len) \<longrightarrow> \<not> in_range x t 4096"
    and "\<forall>i < len. \<forall>p. xlate (pmem s) pt (srcva + i) = Some p \<longrightarrow> \<not> in_range p dst (unat len)"
  shows "\<exists>r s'. copyin pt dst srcva len s = Inr (r, s') \<and>
     (if \<forall>i < len. xlate (pmem s) pt (srcva + i) \<noteq> None
      then r = 0 \<and> (\<forall>x. pmem s' x = (if in_range x dst (unat len)
             then pmem s (the (xlate (pmem s) pt (srcva + (x - dst)))) else pmem s x))
      else r = - 1)"
  using copyin_copied_in [OF assms] unfolding copied_in_def .

lemma low_not_kpage:
  assumes "kpage 0x87FFC000 t" "in_range x 0x80100000 4"
  shows "\<not> in_range x t 4096"
proof -
  have "in_range x 0x80100000 4096" using assms(2) by (rule in_range_mono) simp
  moreover have "aligned 4096 t" "t \<noteq> 0x80100000" using assms(1) by (auto simp: kpage_def word_le_nat_alt)
  ultimately show ?thesis using page_disjoint [of "0x80100000" t x] by (auto simp: aligned_def)
qed

theorem copyin_copies_witness:
  "\<exists>pt (s :: machine) s'. (\<forall>i < 4. xlate (pmem s) pt (0x1FF8 + i) = Some (0x80000FF8 + i))
     \<and> copyin pt 0x80100000 0x1FF8 4 s = Inr (0, s')
     \<and> pmem s' 0x80100003 = pmem s 0x80000FFB"
proof -
  obtain s1 :: machine where s1: "vm_inv 0x87FFC000 s1 0x87FFF000 (tl four_pages)"
    "\<forall>va. leaf (pmem s1) 0x87FFF000 va = None"
    using demo_space [of "\<lparr>pmem = (\<lambda>_. 0), freelist = 0\<rparr>"] by auto
  obtain s :: machine and ps where inv: "vm_inv 0x87FFC000 s 0x87FFF000 ps" and lf: "\<forall>vb < MAXVA. leaf (pmem s) 0x87FFF000 vb =
     (if unat vb div 4096 = 1 then Some (range_entry 0x1000 0x80000000 (PTE_R OR PTE_U) vb) else None)"
    using demo_mapped [OF s1] by blast
  have wf: "pt_wf 0x87FFC000 (pmem s) 0x87FFF000" using inv by (simp add: vm_inv_def)
  have up: "upage (pmem s) 0x87FFF000 (PGROUNDDOWN 0x1FF8) = Some 0x80000000"
    using lf [rule_format, of "0x1000"]
      range_entry_PTE2PA [of "PTE_R OR PTE_U" "0x80000000" "0x1000" "0x1000"]
      range_entry_flags(2) [of "PTE_R OR PTE_U" "0x1000" "0x80000000" "0x1000"]
    by (simp add: upage_def PGROUNDDOWN_def PGSIZE_def aligned_def word_less_nat_alt word_le_nat_alt)
  have off: "0x1FF8 - PGROUNDDOWN (0x1FF8 :: u64) = 0xFF8" by (simp add: PGROUNDDOWN_def PGSIZE_def)
  have ch: "chunk 0x1FF8 4 = 4" by (simp add: chunk_def off PGSIZE_def)
  have xl: "xlate (pmem s) 0x87FFF000 (0x1FF8 + i) = Some (0x80000FF8 + i)" if "i < 4" for i
    using xlate_chunk [OF up, of i 4] that ch off by simp
  have far: "\<not> in_range (0x80000FF8 + i) 0x80100000 4" if "i < 4" for i :: u64
  proof
    assume "in_range (0x80000FF8 + i) 0x80100000 4"
    then have "in_range (0x80000FF8 + i) 0x80100000 4096" by (rule in_range_mono) simp
    moreover have "unat (0x80000FF8 + i) = 2147487736 + unat i"
      using that by (subst unat_add64) (simp_all add: word_less_nat_alt)
    ultimately show False using that by (simp add: in_range_aligned aligned_def word_less_nat_alt)
  qed
  from copyin_copies [OF wf, of "0x80100000" 4 "0x1FF8"] xl far
  obtain s' where "copyin 0x87FFF000 0x80100000 0x1FF8 4 s = Inr (0, s')"
    "\<forall>x. pmem s' x = (if in_range x 0x80100000 4
       then pmem s (the (xlate (pmem s) 0x87FFF000 (0x1FF8 + (x - 0x80100000)))) else pmem s x)"
    using wf low_not_kpage by (auto simp: pt_wf_def)
  moreover from this(2) [rule_format, of "0x80100003"] have "pmem s' 0x80100003 = pmem s 0x80000FFB"
    using xl [of 3] by (simp add: in_range_def)
  ultimately show ?thesis using xl by blast
qed

end
