(* ===== verification/TrapEmulate.thy ===== *)
theory TrapEmulate
  imports UserMem
begin

text \<open>
  The trap-and-emulate virtual machine monitor \<open>kernel/trap-and-emulate.c\<close> (Project 4). A guest kernel
  runs in user mode; each privileged instruction traps, \<open>trap_and_emulate\<close> fetches it from guest memory
  with \<open>copyin\<close>, decodes it and updates the virtual privileged state \<open>vmm\<close> or the trap frame.

  The registers of \<open>struct vm_virtual_state\<close> are a function of the register's name. The structure lives
  in a page from \<open>kalloc\<close>, whose address \<open>vmm_addr\<close> is kept because \<open>pmp_pagetable_configuration\<close>
  clears three pages where it allocated one, which may wipe it. \<open>buf\<close> is the address of the local
  variable the instruction is read into. C's \<open>int\<close> parameters are 32-bit words: a register value
  passed through them is truncated, and sign-extended when stored. \<open>kill(p->pid)\<close> on the running
  process sets its \<open>killed\<close> flag. Lines printed on the console are not modelled.
\<close>

unbundle bit_operations_syntax

subsection \<open>State\<close>

datatype vreg =
    Mtvec | Mstatus | Mepc | Medeleg | Mideleg | Mie | Mip | Mtval2 | Mcounteren | Mstatush | Mvendorid
  | Marchid | Mimpid | Mhartid | Mconfigptr | Mcause | Mscratch | Misa | Mtval | Mtinst
  | Sstatus | Sie | Sepc | Stvec | Satp | Sedeleg | Scounteren
  | Uepc | Utvec | Uscratch | Ustatus | Ucause | Ubadaddr | Uip | Uie
  | Pmpaddr nat | Pmpcfg nat

definition U_MODE :: nat where "U_MODE = 0"
definition S_MODE :: nat where "S_MODE = 1"
definition M_MODE :: nat where "M_MODE = 2"

lemmas mode_defs = U_MODE_def S_MODE_def M_MODE_def

record vm_reg =
  reg_code :: nat
  reg_mode :: nat
  val :: u64

record vm_virtual_state =
  vregs :: "vreg \<Rightarrow> vm_reg"
  exec_mode :: nat
  page_table :: u64
  vmm_pagetable :: u64

datatype gpr =
    RA | SP | GP | TP | T0 | T1 | T2 | S0 | S1 | A0 | A1 | A2 | A3 | A4 | A5 | A6 | A7
  | S2 | S3 | S4 | S5 | S6 | S7 | S8 | S9 | S10 | S11 | T3 | T4 | T5 | T6

record guest = machine +
  vmm :: vm_virtual_state
  vmm_addr :: u64
  pmp_config :: bool
  tf :: "gpr \<Rightarrow> u64"
  tf_epc :: u64
  p_pagetable :: u64
  p_sz :: u64
  p_killed :: bool

definition kill_self :: "guest \<Rightarrow> guest" where
  "kill_self s = s\<lparr>p_killed := True\<rparr>"

definition set_val :: "vreg \<Rightarrow> u64 \<Rightarrow> guest \<Rightarrow> guest" where
  "set_val r v s = s\<lparr>vmm := (vmm s)\<lparr>vregs := (vregs (vmm s))(r := (vregs (vmm s) r)\<lparr>val := v\<rparr>)\<rparr>\<rparr>"

definition get_val :: "vreg \<Rightarrow> guest \<Rightarrow> u64" where
  "get_val r s = val (vregs (vmm s) r)"

definition set_mode :: "nat \<Rightarrow> guest \<Rightarrow> guest" where
  "set_mode m s = s\<lparr>vmm := (vmm s)\<lparr>exec_mode := m\<rparr>\<rparr>"

abbreviation emode :: "guest \<Rightarrow> nat" where
  "emode s \<equiv> exec_mode (vmm s)"

subsection \<open>The map from CSR codes to registers\<close>

definition csr_register_map_values :: "(nat \<times> vreg option) list" where
  "csr_register_map_values =
     [(0x305, Some Mtvec), (0xf14, Some Mhartid), (0x300, Some Mstatus), (0x341, Some Mepc),
      (0x302, Some Medeleg), (0x303, Some Mideleg), (0xf11, Some Mvendorid), (0x140, Some Mscratch),
      (0x342, Some Mcause), (0x343, Some Mtval), (0x344, Some Mip), (0x34A, Some Mtinst),
      (0x301, Some Misa), (0x304, Some Mie), (0x306, Some Mcounteren), (0xf12, Some Marchid),
      (0xf13, Some Mimpid), (0xf15, Some Mconfigptr), (0x180, Some Satp), (0x104, Some Sie),
      (0x105, Some Stvec), (0x100, Some Sstatus), (0x102, Some Sedeleg), (0x106, Some Scounteren),
      (0x041, Some Uepc), (0x042, Some Ucause), (0x043, Some Ubadaddr), (0x044, Some Uip),
      (0x004, Some Uie), (0x005, Some Utvec), (0x040, Some Uscratch), (0x34B, Some Mtval2),
      (0x141, Some Sepc), (0x34C, None), (0x000, None)]
     @ concat (map (\<lambda>i. [(0x3a0 + i, Some (Pmpcfg i)), (0x3b0 + i, Some (Pmpaddr i))]) [0..<16])"

fun csr_lookup_1 :: "(nat \<times> vreg option) list \<Rightarrow> (vreg \<Rightarrow> vm_reg) \<Rightarrow> nat \<Rightarrow> nat \<Rightarrow> vreg option" where
  "csr_lookup_1 [] R code curr_mode = None"
| "csr_lookup_1 ((c, r) # es) R code curr_mode =
     (if c = code
      then (case r of None \<Rightarrow> None
        | Some x \<Rightarrow> if reg_mode (R x) \<le> curr_mode then Some x else csr_lookup_1 es R code curr_mode)
      else csr_lookup_1 es R code curr_mode)"

definition csr_register_1 :: "nat \<Rightarrow> nat \<Rightarrow> guest \<Rightarrow> vreg option" where
  "csr_register_1 code curr_mode s = csr_lookup_1 csr_register_map_values (vregs (vmm s)) code curr_mode"

definition csr_register :: "nat \<Rightarrow> vreg option" where
  "csr_register code = (case map_of csr_register_map_values code of None \<Rightarrow> None | Some r \<Rightarrow> r)"

subsection \<open>Reading and writing the trap frame\<close>

definition gpr_numbers :: "(nat \<times> gpr) list" where
  "gpr_numbers = [(1, RA), (2, SP), (3, GP), (4, TP), (5, T0), (6, T1), (7, T2), (8, S0), (9, S1),
     (10, A0), (11, A1), (12, A2), (13, A3), (14, A4), (15, A5), (16, A6), (17, A7),
     (18, S2), (19, S3), (20, S4), (21, S5), (22, S6), (23, S7), (24, S8), (25, S9), (26, S10), (27, S11),
     (28, T3), (29, T4), (30, T5), (31, T6)]"

definition get_trapframe :: "guest \<Rightarrow> nat \<Rightarrow> 32 word" where
  "get_trapframe s rs1 =
     (if rs1 = 0 then 0
      else case map_of gpr_numbers rs1 of None \<Rightarrow> 0 | Some g \<Rightarrow> ucast (tf s g))"

definition csrr_numbers :: "(nat \<times> gpr) list" where
  "csrr_numbers = [(0xa, A0), (0xb, A1), (0xc, A2), (0xd, A3), (0xe, A4), (0xf, A5), (0x10, A6), (0x11, A7),
     (0x12, T0), (0x13, T1), (0x14, T2), (0x15, T3), (0x16, T4), (0x17, T5), (0x18, T6),
     (0x19, S0), (0x1a, S1), (0x1b, S2), (0x1c, S3), (0x1d, S4), (0x1e, S5), (0x1f, S6), (0x20, S7),
     (0x21, S8), (0x22, S9), (0x23, S10), (0x24, S11)]"

definition csrr_write_trapframe :: "nat \<Rightarrow> 32 word \<Rightarrow> guest \<Rightarrow> guest" where
  "csrr_write_trapframe reg_val value s =
     (case map_of csrr_numbers reg_val of None \<Rightarrow> s | Some g \<Rightarrow> s\<lparr>tf := (tf s)(g := scast value)\<rparr>)"

subsection \<open>Writing a CSR\<close>

text \<open>The registers \<open>csrw_write\<close> knows outside the PMP range, with the modes it accepts. A wrong mode
  kills the process, but the register is written all the same.\<close>

definition csrw_table :: "(nat \<times> vreg \<times> nat list) list" where
  "csrw_table =
     [(0x300, Mstatus, [M_MODE]), (0x301, Misa, [M_MODE]), (0x302, Medeleg, [M_MODE]),
      (0x303, Mideleg, [M_MODE]), (0x304, Mie, [M_MODE]), (0x305, Mtvec, [M_MODE]),
      (0x344, Mip, [M_MODE]), (0x341, Mepc, [M_MODE]),
      (0x100, Sstatus, [S_MODE, M_MODE]), (0x104, Sie, [S_MODE, M_MODE]), (0x105, Stvec, [S_MODE, M_MODE]),
      (0x180, Satp, [S_MODE, M_MODE]), (0x102, Sedeleg, [S_MODE, M_MODE]),
      (0x041, Uepc, [U_MODE]), (0x042, Ucause, [U_MODE]), (0x044, Uip, [U_MODE]), (0x043, Ubadaddr, [U_MODE]),
      (0x004, Uie, [U_MODE]), (0x005, Utvec, [U_MODE]), (0x040, Uscratch, [U_MODE]),
      (0x141, Sepc, [S_MODE, M_MODE])]"

definition csrw_pmp :: "nat \<Rightarrow> 32 word \<Rightarrow> guest \<Rightarrow> guest" where
  "csrw_pmp code value s =
     (if 0x3a0 \<le> code \<and> code \<le> 0x3af then set_val (Pmpcfg (code - 0x3a0)) (scast value) s
      else if 0x3b0 \<le> code \<and> code \<le> 0x3bf then set_val (Pmpaddr (code - 0x3b0)) (scast value) s
      else s)"

definition csrw_write :: "nat \<Rightarrow> 32 word \<Rightarrow> guest \<Rightarrow> guest" where
  "csrw_write code value s =
     (if 0x3A0 \<le> code \<and> code \<le> 0x3BF
      then if emode s \<noteq> M_MODE then kill_self s else csrw_pmp code value s
      else case map_of csrw_table code of
          None \<Rightarrow> kill_self s
        | Some (r, ms) \<Rightarrow> set_val r (scast value) (if emode s \<in> set ms then s else kill_self s))"

subsection \<open>Physical memory protection\<close>

definition zero_vmm :: vm_virtual_state where
  "zero_vmm = \<lparr>vregs = (\<lambda>_. \<lparr>reg_code = 0, reg_mode = 0, val = 0\<rparr>), exec_mode = 0, page_table = 0, vmm_pagetable = 0\<rparr>"

text \<open>The clearing of the new table: \<open>sizeof(pte_t) * PTE_ENTRIES * PAGE_LEVELS\<close> is three pages.\<close>

definition pmp_clear :: "u64 \<Rightarrow> guest \<Rightarrow> guest" where
  "pmp_clear pt s =
     (let s1 = s\<lparr>pmem := memset (pmem s) pt 0 12288\<rparr> in
      if in_range (vmm_addr s) pt 12288 then s1\<lparr>vmm := zero_vmm\<rparr> else s1)"

function pmp_share_from :: "u64 \<Rightarrow> u64 \<Rightarrow> u64 \<Rightarrow> u64 \<Rightarrow> guest \<Rightarrow> kerror + guest" where
  "pmp_share_from old new i final_addr s =
     (if i < final_addr
      then bindE (walk old i False s) (\<lambda>(pte, s1).
        if pte = 0 then Inl (Panic ''pmp_pagetable_configuration: pte doesnot exist'')
        else let e = load64 (pmem s1) pte in
          if e AND PTE_V = 0 then Inl (Panic ''pmp_pagetable_configuration: page was not present'')
          else bindE (mappages new i PGSIZE (PTE2PA e) (PTE_FLAGS e) s1) (\<lambda>(r, s2).
            if r \<noteq> 0 then Inl (Panic ''mappages failed, have a look'')
            else pmp_share_from old new (i + PGSIZE) final_addr s2))
      else Inr s)"
  by pat_completeness auto
termination
proof (relation "measure (\<lambda>(old, new, i, final_addr, s). 274877911040 - unat i)", goal_cases)
  case (2 old new i final_addr s a b s1 e r s2)
  then have "unat i < 274877906944" by (auto dest: walk_Inr_less)
  then show ?case by (simp add: unat_add64)
qed simp

declare pmp_share_from.simps [simp del]

definition pmp_pagetable_configuration :: "u64 \<Rightarrow> u64 \<Rightarrow> nat \<Rightarrow> guest \<Rightarrow> kerror + guest" where
  "pmp_pagetable_configuration base_addr final_addr execution_mode s =
     (let (pt, s1) = kalloc s; s2 = s1\<lparr>vmm := (vmm s1)\<lparr>vmm_pagetable := pt\<rparr>\<rparr> in
      if pt = 0 then Inl (Panic ''Could not allocate memory to pmp page table'')
      else let s3 = pmp_clear pt s2; old = p_pagetable s3; new = vmm_pagetable (vmm s3) in
        if execution_mode = M_MODE
        then bindE (pmp_share_from old new base_addr final_addr s3) (\<lambda>s4.
          pmp_share_from old new 0 (p_sz s4) s4)
        else if execution_mode = S_MODE \<or> execution_mode = U_MODE
        then Inr (s3\<lparr>p_pagetable := vmm_pagetable (vmm s3)\<rparr>)
        else Inr s3)"

definition pmp_entry :: "u64 \<Rightarrow> u64 \<Rightarrow> u64" where
  "pmp_entry cfg e =
     (let n0 = PA2PTE (PTE2PA e) OR PTE_V;
          n1 = (if cfg AND PTE_R \<noteq> 0 then n0 OR PTE_R else n0);
          n2 = (if cfg AND PTE_W \<noteq> 0 then n1 OR PTE_W else n1) in
      if cfg AND PTE_X \<noteq> 0 then n2 OR PTE_X else n2)"

function pmp_restrict_from :: "u64 \<Rightarrow> u64 \<Rightarrow> u64 \<Rightarrow> guest \<Rightarrow> kerror + guest" where
  "pmp_restrict_from i final_addr cfg s =
     (if i < final_addr
      then bindE (walk (vmm_pagetable (vmm s)) i False s) (\<lambda>(pte, s1).
        pmp_restrict_from (i + PGSIZE) final_addr cfg
          (if pte \<noteq> 0 \<and> load64 (pmem s1) pte AND PTE_V \<noteq> 0
           then s1\<lparr>pmem := store64 (pmem s1) pte (pmp_entry cfg (load64 (pmem s1) pte))\<rparr> else s1))
      else Inr s)"
  by pat_completeness auto
termination
proof (relation "measure (\<lambda>(i, final_addr, cfg, s). 274877911040 - unat i)", goal_cases)
  case (2 i final_addr cfg s a pte s1)
  then have "unat i < 274877906944" by (auto dest: walk_Inr_less)
  then show ?case by (simp add: unat_add64)
qed simp

declare pmp_restrict_from.simps [simp del]

definition pmp_set_permissions :: "u64 \<Rightarrow> u64 \<Rightarrow> u64 \<Rightarrow> guest \<Rightarrow> kerror + guest" where
  "pmp_set_permissions pmp_final_addr cfg pmp_base_addr s =
     bindE (pmp_restrict_from pmp_base_addr pmp_final_addr cfg s) (\<lambda>s1. Inr (s1\<lparr>pmp_config := True\<rparr>))"

definition pmp_configuration :: "nat \<Rightarrow> guest \<Rightarrow> kerror + guest" where
  "pmp_configuration current_mode s =
     (let base_addr = 0x80000000; final_addr = 0x80400000 in
      bindE (pmp_pagetable_configuration base_addr final_addr current_mode s) (\<lambda>s1.
        if get_val (Pmpaddr 0) s1 \<noteq> 0
        then let start_addr = push_bit 2 (get_val (Pmpaddr 0) s1);
                 final_addr_1 = (if get_val (Pmpaddr 1) s1 \<noteq> 0 then push_bit 2 (get_val (Pmpaddr 1) s1) else base_addr);
                 cfg = drop_bit 8 (get_val (Pmpcfg 0) s1 AND 0xFF0) in
          pmp_set_permissions final_addr_1 cfg start_addr s1
        else Inr s1))"

subsection \<open>Emulating one instruction\<close>

definition emulate_ecall :: "guest \<Rightarrow> guest" where
  "emulate_ecall s =
     (if emode s = 0
      then let s1 = set_val Sepc (tf_epc s) (set_mode 1 s) in s1\<lparr>tf_epc := get_val Stvec s1\<rparr>
      else s)"

definition emulate_sret :: "guest \<Rightarrow> guest" where
  "emulate_sret s =
     (let spp = drop_bit 8 (get_val Sstatus s) AND 1 in
      if emode s \<noteq> 1 then kill_self s
      else if spp = 1 then set_mode S_MODE s
      else if emode s = S_MODE then (set_mode U_MODE s)\<lparr>tf_epc := get_val Sepc s\<rparr>
      else kill_self s)"

definition emulate_mret :: "guest \<Rightarrow> kerror + guest" where
  "emulate_mret s =
     (let mpp = drop_bit 11 (get_val Mstatus s) AND 3;
          s1 = (if mpp = 3 then (set_mode M_MODE s)\<lparr>tf_epc := get_val Mepc s\<rparr>
                else if mpp = 2 then kill_self s
                else if mpp = 1 then (set_mode S_MODE s)\<lparr>tf_epc := get_val Mepc s\<rparr>
                else if mpp = 0 then (set_mode U_MODE s)\<lparr>tf_epc := get_val Mepc s\<rparr>
                else s) in
      bindE (pmp_configuration M_MODE s1) (\<lambda>s2. Inr (if pmp_config s2 then kill_self s2 else s2)))"

definition emulate_csrr :: "nat \<Rightarrow> nat \<Rightarrow> guest \<Rightarrow> guest" where
  "emulate_csrr rd uimm s =
     (let s1 = (case csr_register_1 uimm (emode s) s of
                  None \<Rightarrow> kill_self s
                | Some r \<Rightarrow> csrr_write_trapframe rd (ucast (get_val r s)) s) in
      s1\<lparr>tf_epc := tf_epc s1 + 4\<rparr>)"

definition emulate_csrw :: "nat \<Rightarrow> nat \<Rightarrow> guest \<Rightarrow> guest" where
  "emulate_csrw rs1 uimm s =
     (let s1 = (case csr_register uimm of
                  None \<Rightarrow> kill_self s
                | Some r \<Rightarrow> csrw_write uimm (get_trapframe s rs1) s) in
      s1\<lparr>tf_epc := tf_epc s1 + 4\<rparr>)"

definition emulate :: "u64 \<Rightarrow> guest \<Rightarrow> kerror + guest" where
  "emulate ins s =
     (let rd = unat (drop_bit 7 ins AND 0x1F); funct3 = unat (drop_bit 12 ins AND 0x7);
          rs1 = unat (drop_bit 15 ins AND 0x1F); uimm = unat (drop_bit 20 ins AND 0xFFF) in
      if funct3 = 0 \<and> uimm = 0 then Inr (emulate_ecall s)
      else if funct3 = 0 \<and> uimm = 0x102 then Inr (emulate_sret s)
      else if funct3 = 0 \<and> uimm = 0x302 then emulate_mret s
      else if funct3 = 2 then Inr (emulate_csrr rd uimm s)
      else if funct3 = 1 then Inr (emulate_csrw rs1 uimm s)
      else Inr (kill_self s))"

definition trap_and_emulate :: "u64 \<Rightarrow> guest \<Rightarrow> kerror + guest" where
  "trap_and_emulate buf s =
     (let s0 = s\<lparr>pmem := store64 (pmem s) buf 0\<rparr> in
      bindE (copyin (p_pagetable s0) buf (tf_epc s0) 8 s0) (\<lambda>(r, s1).
        if r < 0 then Inr (kill_self s1) else emulate (load64 (pmem s1) buf) s1))"

subsection \<open>Initialisation\<close>

definition init_m_regs :: "(vreg \<times> nat \<times> u64) list" where
  "init_m_regs =
     [(Mtval2, 0x34B, 0), (Mcause, 0x342, 0), (Mstatush, 0x310, 0), (Mvendorid, 0xf11, 0x637365353336),
      (Marchid, 0xf12, 0), (Mimpid, 0xf13, 0), (Mhartid, 0xf14, 0), (Mconfigptr, 0xf15, 0), (Mtvec, 0x305, 0),
      (Mstatus, 0x300, 0), (Mepc, 0x341, 0), (Medeleg, 0x302, 0), (Mideleg, 0x303, 0), (Mie, 0x304, 0),
      (Mip, 0x344, 0), (Mcounteren, 0x306, 0), (Mscratch, 0x140, 0), (Misa, 0x301, 0), (Mtval, 0x343, 0),
      (Mtinst, 0x34A, 0)]"

definition init_su_regs :: "(vreg \<times> nat \<times> nat) list" where
  "init_su_regs =
     [(Sstatus, 0x100, S_MODE), (Sedeleg, 0x102, S_MODE), (Sie, 0x104, S_MODE), (Stvec, 0x105, S_MODE),
      (Scounteren, 0x106, S_MODE), (Sepc, 0x141, S_MODE), (Satp, 0x180, S_MODE),
      (Uepc, 0x041, U_MODE), (Ucause, 0x042, U_MODE), (Ubadaddr, 0x043, U_MODE), (Uip, 0x044, U_MODE),
      (Ustatus, 0x000, U_MODE), (Uie, 0x004, U_MODE), (Utvec, 0x005, U_MODE), (Uscratch, 0x040, U_MODE)]"

definition init_pmp_regs :: "(vreg \<times> nat) list" where
  "init_pmp_regs = concat (map (\<lambda>i. [(Pmpcfg i, 0x3a0 + i), (Pmpaddr i, 0x3b0 + i)]) [0..<16])"

definition initial_regs :: "vreg \<Rightarrow> vm_reg" where
  "initial_regs =
     fold (\<lambda>(r, c) R. R(r := \<lparr>reg_code = c, reg_mode = M_MODE, val = 0\<rparr>)) init_pmp_regs
       (fold (\<lambda>(r, c, m) R. R(r := \<lparr>reg_code = c, reg_mode = m, val = 0\<rparr>)) init_su_regs
         (fold (\<lambda>(r, c, v) R. R(r := \<lparr>reg_code = c, reg_mode = M_MODE, val = v\<rparr>)) init_m_regs (vregs zero_vmm)))"

definition trap_and_emulate_init :: "guest \<Rightarrow> kerror + guest" where
  "trap_and_emulate_init s =
     (let (a, s1) = kalloc s in
      if a = 0 then Inl (Panic ''Could not allocate memory'')
      else Inr (s1\<lparr>vmm := zero_vmm\<lparr>vregs := initial_regs, exec_mode := M_MODE\<rparr>, vmm_addr := a\<rparr>))"

subsection \<open>The CSR map\<close>

lemma upt16: "[0..<16] = [0, 1, 2, 3, 4, 5, 6, 7, 8, 9, 10, 11, 12, 13, 14, 15 :: nat]"
  by (simp add: upt_conv_Cons)

lemma csr_map_distinct: "distinct (map fst csr_register_map_values)"
  by (simp add: csr_register_map_values_def upt16)

lemma csr_lookup_1_spec:
  "distinct (map fst es) \<Longrightarrow> csr_lookup_1 es R code m =
     (case map_of es code of Some (Some r) \<Rightarrow> if reg_mode (R r) \<le> m then Some r else None | _ \<Rightarrow> None)"
proof (induction es)
  case (Cons e es)
  show ?case
  proof (cases "fst e = code")
    case True
    then have "map_of es code = None" using Cons.prems by (auto simp: map_of_eq_None_iff)
    then have "csr_lookup_1 es R code m = None" using Cons by simp
    then show ?thesis using True by (cases e) (auto split: option.splits)
  next
    case False
    then show ?thesis using Cons by (cases e) auto
  qed
qed simp

lemma csr_register_1_spec:
  "csr_register_1 code m s =
     (case csr_register code of None \<Rightarrow> None
      | Some r \<Rightarrow> if reg_mode (vregs (vmm s) r) \<le> m then Some r else None)"
  using csr_lookup_1_spec [OF csr_map_distinct, of "vregs (vmm s)" code m]
  by (auto simp: csr_register_1_def csr_register_def split: option.splits)

text \<open>The two tables of the code agree.\<close>

lemma csrw_table_agrees: "list_all (\<lambda>(c, r, ms). csr_register c = Some r) csrw_table"
  by (simp add: csrw_table_def csr_register_def csr_register_map_values_def upt16)

lemma csrw_table_register: "map_of csrw_table code = Some (r, ms) \<Longrightarrow> csr_register code = Some r"
  using csrw_table_agrees by (auto simp: list_all_iff dest!: map_of_SomeD)

lemma pmp_registers: "list_all (\<lambda>i. csr_register (0x3a0 + i) = Some (Pmpcfg i) \<and> csr_register (0x3b0 + i) = Some (Pmpaddr i)) [0..<16]"
  by (simp add: csr_register_def csr_register_map_values_def upt16)

lemma csr_register_pmp:
  assumes "0x3a0 \<le> code" "code \<le> 0x3bf"
  shows "csr_register code = Some (if code \<le> 0x3af then Pmpcfg (code - 0x3a0) else Pmpaddr (code - 0x3b0))"
proof (cases "code \<le> 0x3af")
  case True
  then have "code - 0x3a0 \<in> set [0..<16]" using assms by auto
  then show ?thesis using pmp_registers True assms by (auto simp: list_all_iff dest!: bspec)
next
  case False
  then have "code - 0x3b0 \<in> set [0..<16]" using assms by auto
  then show ?thesis using pmp_registers False assms by (auto simp: list_all_iff dest!: bspec)
qed

lemma get_set_val [simp]: "get_val r (set_val q v s) = (if r = q then v else get_val r s)"
  by (simp add: get_val_def set_val_def)

lemma set_val_fields [simp]:
  "emode (set_val r v s) = emode s" "tf (set_val r v s) = tf s" "tf_epc (set_val r v s) = tf_epc s"
  "p_killed (set_val r v s) = p_killed s" "pmem (set_val r v s) = pmem s" "freelist (set_val r v s) = freelist s"
  "reg_mode (vregs (vmm (set_val r v s)) q) = reg_mode (vregs (vmm s) q)"
  "reg_code (vregs (vmm (set_val r v s)) q) = reg_code (vregs (vmm s) q)"
  "vmm_addr (set_val r v s) = vmm_addr s"
  by (simp_all add: set_val_def)

lemma set_mode_fields [simp]:
  "emode (set_mode m s) = m" "tf (set_mode m s) = tf s" "tf_epc (set_mode m s) = tf_epc s"
  "p_killed (set_mode m s) = p_killed s" "pmem (set_mode m s) = pmem s" "freelist (set_mode m s) = freelist s"
  "vregs (vmm (set_mode m s)) = vregs (vmm s)" "get_val r (set_mode m s) = get_val r s" "vmm_addr (set_mode m s) = vmm_addr s"
  by (simp_all add: set_mode_def get_val_def)

lemma kill_self_fields [simp]:
  "vmm (kill_self s) = vmm s" "tf (kill_self s) = tf s" "tf_epc (kill_self s) = tf_epc s"
  "p_killed (kill_self s)" "pmem (kill_self s) = pmem s" "freelist (kill_self s) = freelist s" "vmm_addr (kill_self s) = vmm_addr s"
  "get_val r (kill_self s) = get_val r s"
  by (simp_all add: kill_self_def get_val_def)

lemma fold_fun_upd:
  assumes "\<And>p R. p \<in> set xs \<Longrightarrow> step p R = R(key p := g p)" "distinct (map key xs)"
  shows "fold step xs R r = (case find (\<lambda>p. key p = r) xs of None \<Rightarrow> R r | Some p \<Rightarrow> g p)"
  using assms
proof (induction xs arbitrary: R)
  case (Cons p xs)
  have "find (\<lambda>q. key q = key p) xs = None" using Cons.prems(2) by (simp add: find_None_iff) (metis image_eqI)
  then show ?case using Cons by (auto split: option.splits)
qed simp

lemma initial_regs_lookup:
  "initial_regs r =
     (case find (\<lambda>p. fst p = r) init_pmp_regs of Some p \<Rightarrow> \<lparr>reg_code = snd p, reg_mode = M_MODE, val = 0\<rparr>
      | None \<Rightarrow> (case find (\<lambda>p. fst p = r) init_su_regs of
          Some p \<Rightarrow> \<lparr>reg_code = fst (snd p), reg_mode = snd (snd p), val = 0\<rparr>
        | None \<Rightarrow> (case find (\<lambda>p. fst p = r) init_m_regs of
            Some p \<Rightarrow> \<lparr>reg_code = fst (snd p), reg_mode = M_MODE, val = snd (snd p)\<rparr>
          | None \<Rightarrow> \<lparr>reg_code = 0, reg_mode = 0, val = 0\<rparr>)))"
proof -
  have d: "distinct (map fst init_pmp_regs)" "distinct (map fst init_su_regs)" "distinct (map fst init_m_regs)"
    by (simp_all add: init_pmp_regs_def init_su_regs_def init_m_regs_def upt16)
  have z: "vregs zero_vmm r = \<lparr>reg_code = 0, reg_mode = 0, val = 0\<rparr>" for r by (simp add: zero_vmm_def)
  have f1: "fold (\<lambda>(r, c) R. R(r := \<lparr>reg_code = c, reg_mode = M_MODE, val = 0\<rparr>)) init_pmp_regs R r =
      (case find (\<lambda>p. fst p = r) init_pmp_regs of None \<Rightarrow> R r | Some p \<Rightarrow> \<lparr>reg_code = snd p, reg_mode = M_MODE, val = 0\<rparr>)" for R r
    by (rule fold_fun_upd [OF _ d(1)]) auto
  have f2: "fold (\<lambda>(r, c, m) R. R(r := \<lparr>reg_code = c, reg_mode = m, val = 0\<rparr>)) init_su_regs R r =
      (case find (\<lambda>p. fst p = r) init_su_regs of None \<Rightarrow> R r
       | Some p \<Rightarrow> \<lparr>reg_code = fst (snd p), reg_mode = snd (snd p), val = 0\<rparr>)" for R r
    by (rule fold_fun_upd [OF _ d(2)]) auto
  have f3: "fold (\<lambda>(r, c, v) R. R(r := \<lparr>reg_code = c, reg_mode = M_MODE, val = v\<rparr>)) init_m_regs R r =
      (case find (\<lambda>p. fst p = r) init_m_regs of None \<Rightarrow> R r
       | Some p \<Rightarrow> \<lparr>reg_code = fst (snd p), reg_mode = M_MODE, val = snd (snd p)\<rparr>)" for R r
    by (rule fold_fun_upd [OF _ d(3)]) auto
  show ?thesis unfolding initial_regs_def f1 f2 f3 z ..
qed

lemma initial_vendor: "initial_regs Mvendorid = \<lparr>reg_code = 0xf11, reg_mode = M_MODE, val = 0x637365353336\<rparr>"
  and initial_mstatus: "initial_regs Mstatus = \<lparr>reg_code = 0x300, reg_mode = M_MODE, val = 0\<rparr>"
  by (simp_all add: initial_regs_lookup init_pmp_regs_def init_su_regs_def init_m_regs_def upt16)

definition m_regs :: "vreg list" where "m_regs = map fst init_m_regs"

lemma initial_m_modes: "r \<in> set m_regs \<Longrightarrow> reg_mode (initial_regs r) = M_MODE"
  by (auto simp: m_regs_def initial_regs_lookup init_pmp_regs_def init_su_regs_def init_m_regs_def upt16)

subsection \<open>What the memory operations leave alone\<close>

lemma mappages_from_more: "mappages_from pt a last_a pa perm s = Inr (r, s') \<Longrightarrow> machine.more s' = machine.more s"
proof (induction pt a last_a pa perm s rule: mappages_from.induct)
  case (1 pt a last_a pa perm s)
  from 1(2) obtain pte s1 where w: "walk pt a True s = Inr (pte, s1)"
    by (subst (asm) mappages_from.simps) (auto simp: bindE_eq_Inr)
  have m: "machine.more s1 = machine.more s" by (rule walk_more [OF w])
  let ?s2 = "s1\<lparr>pmem := store64 (pmem s1) pte (PA2PTE pa OR perm OR PTE_V)\<rparr>"
  have m2: "machine.more ?s2 = machine.more s" using m by simp
  show ?case using 1(2) w m m2 1(1) [OF w refl]
    by (subst (asm) mappages_from.simps) (auto simp: Let_def split: if_splits)
qed

lemma mappages_more: "mappages pt va sz pa perm s = Inr (r, s') \<Longrightarrow> machine.more s' = machine.more s"
  by (auto simp: mappages_def dest: mappages_from_more split: if_splits)

lemma copyin_more: "copyin pt dst srcva len s = Inr (r, s') \<Longrightarrow> machine.more s' = machine.more s \<and> freelist s' = freelist s"
proof (induction pt dst srcva len s rule: copyin.induct)
  case (1 pt dst srcva len s)
  show ?case using 1(2)
    by (subst (asm) copyin.simps) (auto simp: Let_def bindE_eq_Inr split: if_splits dest!: 1(1) [rotated -1])
qed

lemma more_guest:
  assumes "machine.more s' = machine.more (s :: guest)"
  shows "vmm s' = vmm s" "vmm_addr s' = vmm_addr s" "tf s' = tf s" "tf_epc s' = tf_epc s" "p_killed s' = p_killed s"
    "p_pagetable s' = p_pagetable s" "pmp_config s' = pmp_config s" "p_sz s' = p_sz s"
  using assms by (cases s; cases s'; simp)+


lemma pmp_share_from_more:
  "pmp_share_from old new i final_addr s = Inr s' \<Longrightarrow> machine.more s' = machine.more s"
proof (induction old new i final_addr s rule: pmp_share_from.induct)
  case (1 old new i final_addr s)
  show ?case
  proof (cases "i < final_addr")
    case True
    with 1(2) obtain pte s1 r s2 where w: "walk old i False s = Inr (pte, s1)" "pte \<noteq> 0" "load64 (pmem s1) pte AND PTE_V \<noteq> 0"
      and m: "mappages new i PGSIZE (PTE2PA (load64 (pmem s1) pte)) (PTE_FLAGS (load64 (pmem s1) pte)) s1 = Inr (r, s2)" "r = 0"
      and rest: "pmp_share_from old new (i + PGSIZE) final_addr s2 = Inr s'"
      by (subst (asm) pmp_share_from.simps) (auto simp: Let_def split: if_splits)
    have "machine.more s' = machine.more s2"
      by (rule 1(1) [OF True w(1) refl w(2) refl _ m(1) refl _ rest]) (use w(3) m(2) in auto)
    then show ?thesis using walk_more [OF w(1)] mappages_more [OF m(1)] by simp
  qed (use 1(2) in \<open>subst (asm) pmp_share_from.simps, simp\<close>)
qed

lemma pmp_restrict_from_more:
  "pmp_restrict_from i final_addr cfg s = Inr s' \<Longrightarrow> machine.more s' = machine.more s"
proof (induction i final_addr cfg s rule: pmp_restrict_from.induct)
  case (1 i final_addr cfg s)
  show ?case
  proof (cases "i < final_addr")
    case True
    with 1(2) obtain pte s1 where w: "walk (vmm_pagetable (vmm s)) i False s = Inr (pte, s1)"
      and rest: "pmp_restrict_from (i + PGSIZE) final_addr cfg
          (if pte \<noteq> 0 \<and> load64 (pmem s1) pte AND PTE_V \<noteq> 0
           then s1\<lparr>pmem := store64 (pmem s1) pte (pmp_entry cfg (load64 (pmem s1) pte))\<rparr> else s1) = Inr s'"
      by (subst (asm) pmp_restrict_from.simps) auto
    then show ?thesis using 1(1) [OF True w refl rest] walk_more [OF w] by (auto split: if_splits)
  qed (use 1(2) in \<open>subst (asm) pmp_restrict_from.simps, simp\<close>)
qed

subsection \<open>Invariant of the virtual privileged state\<close>

text \<open>The code and the privilege level of each register stay as initialised, and the mode is one of the
  three.\<close>

definition vmm_ok :: "vm_virtual_state \<Rightarrow> bool" where
  "vmm_ok v \<longleftrightarrow> (\<forall>r. reg_mode (vregs v r) = reg_mode (initial_regs r) \<and> reg_code (vregs v r) = reg_code (initial_regs r))
     \<and> exec_mode v \<le> M_MODE"

lemma vmm_ok_simps [simp]:
  "vmm_ok (vmm (set_val r v s)) = vmm_ok (vmm s)"
  "m \<le> M_MODE \<Longrightarrow> vmm_ok (vmm s) \<Longrightarrow> vmm_ok (vmm (set_mode m s))"
  "vmm_ok (w\<lparr>vmm_pagetable := p\<rparr>) = vmm_ok w"
  by (auto simp: vmm_ok_def set_val_def set_mode_def)

lemma pmp_pagetable_configuration_vmm:
  assumes "pmp_pagetable_configuration b f m s = Inr s'" "\<not> in_range (vmm_addr s) (freelist s) 12288"
  shows "\<exists>pt. vmm s' = (vmm s)\<lparr>vmm_pagetable := pt\<rparr>"
proof -
  obtain pt s1 where k: "kalloc s = (pt, s1)" by fastforce
  let ?s3 = "pmp_clear pt (s1\<lparr>vmm := (vmm s1)\<lparr>vmm_pagetable := pt\<rparr>\<rparr>)"
  have more: "machine.more s1 = machine.more s" using kalloc_more [of s] k by simp
  have "pt = freelist s" using k by (auto simp: kalloc_def Let_def split: if_splits)
  then have c: "vmm ?s3 = (vmm s)\<lparr>vmm_pagetable := pt\<rparr>"
    using assms(2) more_guest(1,2) [OF more] by (simp add: pmp_clear_def Let_def)
  show ?thesis
  proof (cases "m = M_MODE")
    case True
    then obtain s4 where "pmp_share_from (p_pagetable ?s3) (vmm_pagetable (vmm ?s3)) b f ?s3 = Inr s4"
      "pmp_share_from (p_pagetable ?s3) (vmm_pagetable (vmm ?s3)) 0 (p_sz s4) s4 = Inr s'"
      using assms(1) k by (auto simp: pmp_pagetable_configuration_def Let_def split: if_splits)
    then have "vmm s' = vmm ?s3" using more_guest(1) pmp_share_from_more by metis
    then show ?thesis using c by auto
  next
    case False
    then have "vmm s' = vmm ?s3" using assms(1) k
      by (auto simp: pmp_pagetable_configuration_def Let_def split: if_splits)
    then show ?thesis using c by auto
  qed
qed

lemma pmp_configuration_vmm:
  assumes "pmp_configuration m s = Inr s'" "\<not> in_range (vmm_addr s) (freelist s) 12288"
  shows "\<exists>pt. vmm s' = (vmm s)\<lparr>vmm_pagetable := pt\<rparr>"
proof -
  obtain s1 where s1: "pmp_pagetable_configuration 0x80000000 0x80400000 m s = Inr s1"
    using assms(1) by (auto simp: pmp_configuration_def Let_def)
  have "vmm s' = vmm s1"
  proof (cases "get_val (Pmpaddr 0) s1 = 0")
    case True
    then show ?thesis using assms(1) s1 by (simp add: pmp_configuration_def)
  next
    case False
    then obtain i f c s2 where "pmp_restrict_from i f c s1 = Inr s2" "s' = s2\<lparr>pmp_config := True\<rparr>"
      using assms(1) s1 by (auto simp: pmp_configuration_def pmp_set_permissions_def Let_def)
    then show ?thesis using more_guest(1) [OF pmp_restrict_from_more] by simp
  qed
  then show ?thesis using pmp_pagetable_configuration_vmm [OF s1 assms(2)] by simp
qed

lemma emulate_vmm_ok:
  assumes "emulate ins s = Inr s'" "vmm_ok (vmm s)" "\<not> in_range (vmm_addr s) (freelist s) 12288"
  shows "vmm_ok (vmm s')"
proof -
  have md: "(1::nat) \<le> M_MODE" "S_MODE \<le> M_MODE" "U_MODE \<le> M_MODE" by (simp_all add: mode_defs)
  have ec: "vmm_ok (vmm (emulate_ecall s))" using assms(2) md by (auto simp: emulate_ecall_def Let_def)
  have sr: "vmm_ok (vmm (emulate_sret s))" using assms(2) md by (auto simp: emulate_sret_def Let_def)
  have rd: "vmm_ok (vmm (emulate_csrr rd u s))" for rd u
    using assms(2) by (auto simp: emulate_csrr_def csrr_write_trapframe_def Let_def split: option.splits)
  have wr: "vmm_ok (vmm (emulate_csrw rs u s))" for rs u
    using assms(2) by (auto simp: emulate_csrw_def csrw_write_def csrw_pmp_def Let_def split: option.splits)
  have mr: "vmm_ok (vmm s2)" if "emulate_mret s = Inr s2" for s2
  proof -
    from that obtain s1 s3 where s1: "pmp_configuration M_MODE s1 = Inr s3" "vmm s2 = vmm s3"
      "vmm_addr s1 = vmm_addr s" "freelist s1 = freelist s" "vmm_ok (vmm s1)"
      using assms(2) md by (auto simp: emulate_mret_def Let_def split: if_splits)
    then show ?thesis using pmp_configuration_vmm [OF s1(1)] assms(3) by auto
  qed
  show ?thesis using assms(1,2) ec sr rd wr mr by (auto simp: emulate_def Let_def split: if_splits)
qed

subsection \<open>Fetching the instruction\<close>

lemma trap_and_emulate_fetch:
  assumes "pt_wf kend (pmem s) (p_pagetable s)" "unat buf + 8 \<le> 18446744073709551616"
    and "\<forall>t \<in> tables (pmem s) (p_pagetable s). \<forall>x. in_range x buf 8 \<longrightarrow> \<not> in_range x t 4096"
    and "\<forall>i < 8. \<forall>p. xlate (pmem s) (p_pagetable s) (tf_epc s + i) = Some p \<longrightarrow> \<not> in_range p buf 8"
  shows "\<exists>s1. machine.more s1 = machine.more s \<and> freelist s1 = freelist s \<and>
    (if \<forall>i < 8. xlate (pmem s) (p_pagetable s) (tf_epc s + i) \<noteq> None
     then trap_and_emulate buf s = emulate (load64 (pmem s1) buf) s1
        \<and> (\<forall>i < 8. pmem s1 (buf + i) = pmem s (the (xlate (pmem s) (p_pagetable s) (tf_epc s + i))))
        \<and> (\<forall>x. \<not> in_range x buf 8 \<longrightarrow> pmem s1 x = pmem s x)
     else trap_and_emulate buf s = Inr (kill_self s1))"
proof -
  let ?pt = "p_pagetable s" and ?s0 = "s\<lparr>pmem := store64 (pmem s) buf 0\<rparr>"
  have out: "pmem ?s0 x = pmem s x" if "\<not> in_range x buf 8" for x using that by (simp add: store64_other)
  have ag: "agree_on (tables (pmem s) ?pt) (pmem s) (pmem ?s0)"
    using assms(3) out by (auto simp: agree_on_def)
  note lf = leaf_frame [OF assms(1) ag]
  have xl: "xlate (pmem ?s0) ?pt va = xlate (pmem s) ?pt va" for va
    using lf(1) by (simp add: xlate_def upage_def)
  have "\<exists>r s1. copyin ?pt buf (tf_epc s) 8 ?s0 = Inr (r, s1) \<and> copied_in (pmem ?s0) ?pt buf (tf_epc s) 8 r (pmem s1)"
    by (rule copyin_copied_in [OF lf(3)]) (use assms xl lf(2) in auto)
  then obtain r s1 where c: "copyin ?pt buf (tf_epc s) 8 ?s0 = Inr (r, s1)"
    "copied_in (pmem ?s0) ?pt buf (tf_epc s) 8 r (pmem s1)" by blast
  have more: "machine.more s1 = machine.more s \<and> freelist s1 = freelist s" using copyin_more [OF c(1)] by simp
  show ?thesis
  proof (cases "\<forall>i < 8. xlate (pmem s) ?pt (tf_epc s + i) \<noteq> None")
    case True
    then have r: "r = 0" and m: "\<And>x. pmem s1 x = (if in_range x buf 8
        then pmem ?s0 (the (xlate (pmem s) ?pt (tf_epc s + (x - buf)))) else pmem ?s0 x)"
      using c(2) xl by (auto simp: copied_in_def)
    have "pmem s1 (buf + i) = pmem s (the (xlate (pmem s) ?pt (tf_epc s + i)))" if i: "i < 8" for i
    proof -
      obtain p where p: "xlate (pmem s) ?pt (tf_epc s + i) = Some p" using True i by auto
      have "in_range (buf + i) buf 8" using i by (simp add: word_less_nat_alt)
      then show ?thesis using m [of "buf + i"] p out [of p] assms(4) i by auto
    qed
    moreover have "pmem s1 x = pmem s x" if "\<not> in_range x buf 8" for x using m that out by auto
    moreover have "trap_and_emulate buf s = emulate (load64 (pmem s1) buf) s1"
      using c(1) r by (simp add: trap_and_emulate_def)
    ultimately show ?thesis using True more by (intro exI [of _ s1]) simp
  next
    case False
    then have "r = - 1" using c(2) xl by (auto simp: copied_in_def)
    then show ?thesis using False more c(1) by (intro exI [of _ s1]) (auto simp: trap_and_emulate_def)
  qed
qed

lemma emulate_csrr_spec:
  assumes "vmm_ok (vmm s)" "10 \<le> rd" "rd \<le> 17"
  shows "case csr_register uimm of
      Some r \<Rightarrow> if reg_mode (initial_regs r) \<le> emode s
        then emulate_csrr rd uimm s =
          s\<lparr>tf := (tf s)([A0, A1, A2, A3, A4, A5, A6, A7] ! (rd - 10) := scast (ucast (get_val r s) :: 32 word)),
            tf_epc := tf_epc s + 4\<rparr>
        else emulate_csrr rd uimm s = (kill_self s)\<lparr>tf_epc := tf_epc s + 4\<rparr>
    | None \<Rightarrow> emulate_csrr rd uimm s = (kill_self s)\<lparr>tf_epc := tf_epc s + 4\<rparr>"
proof -
  have "map_of csrr_numbers rd = Some ([A0, A1, A2, A3, A4, A5, A6, A7] ! (rd - 10))"
  proof -
    have "rd - 10 \<in> {0..7}" "rd = 10 + (rd - 10)" using assms by auto
    then have "rd \<in> {10, 11, 12, 13, 14, 15, 16, 17}" by auto
    then show ?thesis by (auto simp: csrr_numbers_def)
  qed
  then show ?thesis using assms(1)
    by (auto simp: emulate_csrr_def csr_register_1_spec csrr_write_trapframe_def vmm_ok_def Let_def split: option.splits)
qed

lemma emulate_csrw_machine:
  assumes "emode s = M_MODE"
    and "0x3a0 \<le> uimm \<and> uimm \<le> 0x3bf \<or> (\<exists>q ms. map_of csrw_table uimm = Some (q, ms) \<and> M_MODE \<in> set ms)"
  shows "\<exists>r. csr_register uimm = Some r \<and>
    emulate_csrw rs1 uimm s = (set_val r (scast (get_trapframe s rs1)) s)\<lparr>tf_epc := tf_epc s + 4\<rparr>"
proof (cases "0x3a0 \<le> uimm \<and> uimm \<le> 0x3bf")
  case True
  then show ?thesis using csr_register_pmp [of uimm] assms(1)
    by (auto simp: emulate_csrw_def csrw_write_def csrw_pmp_def Let_def)
next
  case False
  then obtain q ms where q: "map_of csrw_table uimm = Some (q, ms)" "M_MODE \<in> set ms" using assms(2) by blast
  show ?thesis using False assms(1) q csrw_table_register [OF q(1)]
    by (auto simp: emulate_csrw_def csrw_write_def Let_def)
qed

lemma initial_modes_le: "reg_mode (initial_regs r) \<le> M_MODE"
proof -
  have "list_all (\<lambda>p. snd (snd p) \<le> M_MODE) init_su_regs" by (simp add: init_su_regs_def mode_defs)
  then have "find (\<lambda>p. fst p = r) init_su_regs = Some p \<Longrightarrow> snd (snd p) \<le> M_MODE" for p
    by (auto simp: list_all_iff find_Some_iff)
  then show ?thesis by (auto simp: initial_regs_lookup split: option.splits)
qed

lemma ucast_scast32: "(ucast (scast (w :: 32 word) :: u64) :: 32 word) = w"
  by (rule bit_word_eqI) (simp add: bit_simps)

text \<open>A guest in its initial state, for the witnesses.\<close>

definition demo_guest :: guest where
  "demo_guest = \<lparr>pmem = (\<lambda>_. 0), freelist = 0, vmm = zero_vmm\<lparr>vregs := initial_regs, exec_mode := M_MODE\<rparr>,
     vmm_addr = 0x87FFF000, pmp_config = False, tf = (\<lambda>_. 0)(A0 := 5), tf_epc = 0x1000, p_pagetable = 0, p_sz = 0,
     p_killed = False\<rparr>"

lemma demo_guest_ok: "vmm_ok (vmm demo_guest)" "emode demo_guest = M_MODE" "get_val Sstatus demo_guest = 0"
  by (simp_all add: demo_guest_def vmm_ok_def get_val_def initial_regs_lookup init_pmp_regs_def init_su_regs_def upt16)

subsection \<open>Properties\<close>

text \<open>C35: a guest in user mode that executes \<open>ecall\<close> enters its supervisor at \<open>stvec\<close>, and \<open>sret\<close> from
  there (with SPP clear) brings it back to user mode at the same instruction with all its registers;
  only the saved \<open>sepc\<close> has changed.\<close>

theorem ecall_sret_roundtrip:
  assumes "emode s = U_MODE" "drop_bit 8 (get_val Sstatus s) AND 1 = 0"
  shows "emode (emulate_ecall s) = S_MODE \<and> tf_epc (emulate_ecall s) = get_val Stvec s
     \<and> get_val Sepc (emulate_ecall s) = tf_epc s \<and> emulate_sret (emulate_ecall s) = set_val Sepc (tf_epc s) s"
  using assms by (simp add: emulate_ecall_def emulate_sret_def Let_def mode_defs)
    (simp add: set_mode_def set_val_def get_val_def)

theorem ecall_sret_roundtrip_witness:
  "emulate_sret (emulate_ecall (set_mode U_MODE demo_guest)) = set_val Sepc 0x1000 (set_mode U_MODE demo_guest)"
  using ecall_sret_roundtrip [of "set_mode U_MODE demo_guest"] demo_guest_ok(3) by (simp add: demo_guest_def)

text \<open>C33: reading a CSR: the guest's register changes only if the code names a register whose privilege
  level is at most the current virtual mode; then \<open>a0\<close>--\<open>a7\<close> receives the low 32 bits of the register,
  sign-extended. Otherwise the process is killed and no register of the guest changes. In both cases the
  program counter advances by 4.\<close>

theorem csr_read_checks_privilege:
  assumes "vmm_ok (vmm s)" "10 \<le> rd" "rd \<le> 17"
  shows "case csr_register uimm of
      Some r \<Rightarrow> if reg_mode (initial_regs r) \<le> emode s
        then emulate_csrr rd uimm s =
          s\<lparr>tf := (tf s)([A0, A1, A2, A3, A4, A5, A6, A7] ! (rd - 10) := scast (ucast (get_val r s) :: 32 word)),
            tf_epc := tf_epc s + 4\<rparr>
        else emulate_csrr rd uimm s = (kill_self s)\<lparr>tf_epc := tf_epc s + 4\<rparr>
    | None \<Rightarrow> emulate_csrr rd uimm s = (kill_self s)\<lparr>tf_epc := tf_epc s + 4\<rparr>"
  by (rule emulate_csrr_spec [OF assms])

theorem csr_read_checks_privilege_witness:
  "emulate_csrr 10 0x300 (set_mode U_MODE demo_guest) = (kill_self (set_mode U_MODE demo_guest))\<lparr>tf_epc := 0x1004\<rparr>"
proof -
  have "csr_register 0x300 = Some Mstatus" by (simp add: csr_register_def csr_register_map_values_def)
  moreover have "vmm_ok (vmm (set_mode U_MODE demo_guest))" using demo_guest_ok(1) by (simp add: mode_defs)
  moreover have "tf_epc demo_guest = 0x1000" by (simp add: demo_guest_def)
  ultimately show ?thesis using csr_read_checks_privilege [of "set_mode U_MODE demo_guest" 10 "0x300"] initial_mstatus
    by (simp add: mode_defs)
qed

text \<open>In machine mode, writing a CSR that \<open>csrw_write\<close> knows for machine mode stores the source
  register (its low 32 bits, sign-extended) in exactly that register and advances the program counter.\<close>

theorem csr_write_machine_mode:
  assumes "emode s = M_MODE"
    and "0x3a0 \<le> uimm \<and> uimm \<le> 0x3bf \<or> (\<exists>q ms. map_of csrw_table uimm = Some (q, ms) \<and> M_MODE \<in> set ms)"
  shows "\<exists>r. csr_register uimm = Some r \<and>
    emulate_csrw rs1 uimm s = (set_val r (scast (get_trapframe s rs1)) s)\<lparr>tf_epc := tf_epc s + 4\<rparr>"
  by (rule emulate_csrw_machine [OF assms])

theorem csr_write_machine_mode_witness:
  "get_val (Pmpaddr 0) (emulate_csrw 10 0x3b0 demo_guest) = 5"
proof -
  have "get_trapframe demo_guest 10 = 5" by (simp add: get_trapframe_def gpr_numbers_def demo_guest_def)
  moreover have "csr_register 0x3b0 = Some (Pmpaddr 0)" using csr_register_pmp [of "0x3b0"] by simp
  ultimately show ?thesis
    using csr_write_machine_mode [OF demo_guest_ok(2), of "0x3b0" 10] by (auto simp: get_val_def set_val_def)
qed

text \<open>A value written to a CSR in machine mode is what a read of that CSR gives back, up to the
  truncation to 32 bits; the killed flag is as before.\<close>

theorem csr_write_read_roundtrip:
  assumes "vmm_ok (vmm s)" "emode s = M_MODE" "10 \<le> rd" "rd \<le> 17"
    and "0x3a0 \<le> uimm \<and> uimm \<le> 0x3bf \<or> (\<exists>q ms. map_of csrw_table uimm = Some (q, ms) \<and> M_MODE \<in> set ms)"
  shows "tf (emulate_csrr rd uimm (emulate_csrw rs1 uimm s)) ([A0, A1, A2, A3, A4, A5, A6, A7] ! (rd - 10))
      = scast (get_trapframe s rs1)
    \<and> p_killed (emulate_csrr rd uimm (emulate_csrw rs1 uimm s)) = p_killed s"
proof -
  obtain r where r: "csr_register uimm = Some r"
    "emulate_csrw rs1 uimm s = (set_val r (scast (get_trapframe s rs1)) s)\<lparr>tf_epc := tf_epc s + 4\<rparr>"
    using emulate_csrw_machine [OF assms(2,5)] by blast
  let ?s = "emulate_csrw rs1 uimm s"
  have "reg_mode (initial_regs r) \<le> M_MODE" by (rule initial_modes_le)
  moreover have "vmm_ok (vmm ?s)" "emode ?s = M_MODE" "get_val r ?s = scast (get_trapframe s rs1)"
    "p_killed ?s = p_killed s" using r(2) assms(1,2) by (auto simp: get_val_def set_val_def vmm_ok_def)
  ultimately show ?thesis
    using emulate_csrr_spec [of ?s rd uimm] assms(3,4) r(1) by (simp add: ucast_scast32)
qed

theorem csr_write_read_roundtrip_witness:
  "tf (emulate_csrr 11 0x3b0 (emulate_csrw 10 0x3b0 demo_guest)) A1 = 5"
proof -
  have "get_trapframe demo_guest 10 = 5" by (simp add: get_trapframe_def gpr_numbers_def demo_guest_def)
  then show ?thesis using csr_write_read_roundtrip [OF demo_guest_ok(1,2), of 11 "0x3b0" 10] by simp
qed

text \<open>C22: as long as the page of the virtual state is not among the three that
  \<open>pmp_pagetable_configuration\<close> clears, emulating any instruction keeps the codes and the privilege
  levels of all registers, and the virtual mode is user, supervisor or machine.\<close>

theorem trap_and_emulate_invariant:
  assumes "vmm_ok (vmm s)" "\<not> in_range (vmm_addr s) (freelist s) 12288" "trap_and_emulate buf s = Inr s'"
  shows "vmm_ok (vmm s')"
proof -
  let ?s0 = "s\<lparr>pmem := store64 (pmem s) buf 0\<rparr>"
  obtain r s1 where c: "copyin (p_pagetable s) buf (tf_epc s) 8 ?s0 = Inr (r, s1)"
    "(if r < 0 then Inr (kill_self s1) else emulate (load64 (pmem s1) buf) s1) = Inr s'"
    using assms(3) by (auto simp: trap_and_emulate_def)
  have more: "machine.more s1 = machine.more s" "freelist s1 = freelist s" using copyin_more [OF c(1)] by auto
  show ?thesis
    using c(2) emulate_vmm_ok [of "load64 (pmem s1) buf" s1 s'] more_guest(1,2) [OF more(1)] more(2) assms(1,2)
    by (auto split: if_splits)
qed

theorem trap_and_emulate_invariant_witness:
  "\<exists>s'. trap_and_emulate 0x80000000 demo_guest = Inr s' \<and> vmm_ok (vmm s')"
proof -
  have z: "store64 (\<lambda>_. 0) b 0 = (\<lambda>_. 0)" for b by (rule ext) (simp add: store64_def)
  have l: "load64 (\<lambda>_. 0) a = 0" for a by (simp add: load64_def)
  have "walkaddr 0 va (demo_guest\<lparr>pmem := \<lambda>_. 0\<rparr>) = Inr 0" for va
    by (simp add: walkaddr_def walk_def numeral_2_eq_2 l demo_guest_def)
  then have "copyin 0 0x80000000 0x1000 8 (demo_guest\<lparr>pmem := \<lambda>_. 0\<rparr>) = Inr (- 1, demo_guest\<lparr>pmem := \<lambda>_. 0\<rparr>)"
    by (subst copyin.simps) (simp add: Let_def)
  moreover have "demo_guest\<lparr>pmem := store64 (pmem demo_guest) 0x80000000 0\<rparr> = demo_guest\<lparr>pmem := \<lambda>_. 0\<rparr>"
    "p_pagetable demo_guest = 0" "tf_epc demo_guest = 0x1000" by (simp_all add: demo_guest_def z)
  ultimately have t: "trap_and_emulate 0x80000000 demo_guest = Inr (kill_self (demo_guest\<lparr>pmem := \<lambda>_. 0\<rparr>))"
    by (simp add: trap_and_emulate_def)
  moreover have "\<not> in_range (vmm_addr demo_guest) (freelist demo_guest) 12288" by (simp add: demo_guest_def in_range_def)
  ultimately show ?thesis using trap_and_emulate_invariant [OF demo_guest_ok(1) _ t] by blast
qed

text \<open>\<open>csrw_write\<close> does not protect machine registers: a guest in user or supervisor mode that writes
  \<open>mstatus\<close> is marked killed, but the register is written all the same.\<close>

theorem csr_write_unprivileged_still_writes:
  assumes "emode s \<noteq> M_MODE"
  shows "emulate_csrw rs1 0x300 s
    = (set_val Mstatus (scast (get_trapframe s rs1)) (kill_self s))\<lparr>tf_epc := tf_epc s + 4\<rparr>"
proof -
  have "map_of csrw_table 0x300 = Some (Mstatus, [M_MODE])" by (simp add: csrw_table_def)
  then show ?thesis using assms csrw_table_register [of "0x300"]
    by (simp add: emulate_csrw_def csrw_write_def Let_def)
qed

theorem csr_write_unprivileged_still_writes_witness:
  "get_val Mstatus (emulate_csrw 10 0x300 (set_mode U_MODE demo_guest)) = 5"
proof -
  have "get_trapframe (set_mode U_MODE demo_guest) 10 = 5"
    by (simp add: get_trapframe_def gpr_numbers_def demo_guest_def set_mode_def)
  then show ?thesis using csr_write_unprivileged_still_writes [of "set_mode U_MODE demo_guest" 10]
    by (simp add: mode_defs get_val_def set_val_def)
qed

text \<open>The vendor id set at initialisation, the six bytes "cse536", is read by the guest as its last
  four only: the value goes through an \<open>int\<close> parameter.\<close>

theorem vendor_id_read_truncated:
  assumes "trap_and_emulate_init s = Inr s1"
  shows "get_val Mvendorid s1 = 0x637365353336 \<and> tf (emulate_csrr 10 0xf11 s1) A0 = 0x65353336"
proof -
  have v: "vmm s1 = zero_vmm\<lparr>vregs := initial_regs, exec_mode := M_MODE\<rparr>"
    using assms by (auto simp: trap_and_emulate_init_def split: prod.splits if_splits)
  have "csr_register 0xf11 = Some Mvendorid" by (simp add: csr_register_def csr_register_map_values_def)
  moreover have "vmm_ok (vmm s1)" using v by (simp add: vmm_ok_def)
  moreover have g: "get_val Mvendorid s1 = 0x637365353336" using v initial_vendor by (simp add: get_val_def)
  ultimately show ?thesis using emulate_csrr_spec [of s1 10 "0xf11"] v initial_vendor by simp
qed

theorem vendor_id_read_truncated_witness:
  "\<exists>s1. trap_and_emulate_init (demo_guest\<lparr>freelist := 0x87FFE000\<rparr>) = Inr s1 \<and> tf (emulate_csrr 10 0xf11 s1) A0 = 0x65353336"
proof -
  obtain s1 where s1: "trap_and_emulate_init (demo_guest\<lparr>freelist := 0x87FFE000\<rparr>) = Inr s1"
    by (auto simp: trap_and_emulate_init_def kalloc_def Let_def)
  from vendor_id_read_truncated [OF this] show ?thesis using s1 by blast
qed

text \<open>The instruction the monitor decodes is the one at the guest's program counter: if the eight
  bytes there are mapped, the emulation runs on exactly these bytes and on the state of the trap;
  otherwise the process is killed. Eight bytes are fetched for a four-byte instruction, so a privileged
  instruction in the last four bytes before an unmapped page gets its process killed.\<close>

theorem trap_fetches_instruction:
  assumes "pt_wf kend (pmem s) (p_pagetable s)" "unat buf + 8 \<le> 18446744073709551616"
    and "\<forall>t \<in> tables (pmem s) (p_pagetable s). \<forall>x. in_range x buf 8 \<longrightarrow> \<not> in_range x t 4096"
    and "\<forall>i < 8. \<forall>p. xlate (pmem s) (p_pagetable s) (tf_epc s + i) = Some p \<longrightarrow> \<not> in_range p buf 8"
  shows "\<exists>s1. vmm s1 = vmm s \<and> tf s1 = tf s \<and> tf_epc s1 = tf_epc s \<and>
    (if \<forall>i < 8. xlate (pmem s) (p_pagetable s) (tf_epc s + i) \<noteq> None
     then trap_and_emulate buf s = emulate (load64 (pmem s1) buf) s1
        \<and> (\<forall>i < 8. pmem s1 (buf + i) = pmem s (the (xlate (pmem s) (p_pagetable s) (tf_epc s + i))))
     else trap_and_emulate buf s = Inr (kill_self s1))"
proof -
  obtain s1 where s1: "machine.more s1 = machine.more s" and r: "if \<forall>i < 8. xlate (pmem s) (p_pagetable s) (tf_epc s + i) \<noteq> None
     then trap_and_emulate buf s = emulate (load64 (pmem s1) buf) s1
        \<and> (\<forall>i < 8. pmem s1 (buf + i) = pmem s (the (xlate (pmem s) (p_pagetable s) (tf_epc s + i))))
        \<and> (\<forall>x. \<not> in_range x buf 8 \<longrightarrow> pmem s1 x = pmem s x)
     else trap_and_emulate buf s = Inr (kill_self s1)"
    using trap_and_emulate_fetch [OF assms] by blast
  show ?thesis using more_guest [OF s1] r by (intro exI [of _ s1]) (auto split: if_splits)
qed

text \<open>The empty page table at \<open>0x87FFF000\<close>: nothing is mapped, so the process is killed.\<close>

theorem trap_fetches_instruction_witness:
  "\<exists>s1. trap_and_emulate 0x80100000 (demo_guest\<lparr>p_pagetable := 0x87FFF000\<rparr>) = Inr (kill_self s1)"
proof -
  let ?s = "demo_guest\<lparr>p_pagetable := 0x87FFF000\<rparr>"
  have k: "kpage 0x87FFC000 0x87FFF000" by (simp add: kpage_def aligned_def word_le_nat_alt word_less_nat_alt)
  have m: "pmem ?s = (\<lambda>_. 0)" "p_pagetable ?s = 0x87FFF000" "tf_epc ?s = 0x1000" by (simp_all add: demo_guest_def)
  note z = zero_page_table [OF k, of "\<lambda>_. 0", OF refl]
  have x: "xlate (\<lambda>_. 0) 0x87FFF000 va = None" for va by (simp add: xlate_def upage_def z(1))
  have b: "in_range x 0x80100000 8 \<Longrightarrow> \<not> in_range x 0x87FFF000 4096" for x
    using page_disjoint [of "0x80100000" "0x87FFF000" x] in_range_mono [of x "0x80100000" 8 4096] by (auto simp: aligned_def)
  have "\<exists>i :: u64. i < 8" by (rule exI [of _ 0]) simp
  then show ?thesis
    using trap_fetches_instruction [of "0x87FFC000" ?s "0x80100000"] b unfolding m x z(2)
    by (auto simp: z(3) split: if_splits)
qed

end
