(* ===== verification/Sha256.thy ===== *)
theory Sha256
  imports KString
begin

text \<open>
  The hash of the boot loader, \<open>bootloader/sha256.c\<close> (Project 1), and a reference definition of
  SHA-256 written after FIPS 180-4: the message schedule as a recursive function, rotations as
  rotations, padding on the whole message. The code keeps a 64-byte buffer, the length so far and the
  eight chaining words; \<open>sha_repr\<close> relates a context to the message it has consumed.

  The loop of \<open>sha256_update\<close> counts with a 32-bit variable up to a 64-bit length, so it is a partial
  function: it does not return for lengths from \<open>2 ^ 32\<close> on.
\<close>

unbundle bit_operations_syntax

subsection \<open>Macros and tables\<close>

definition ROTRIGHT :: "u32 \<Rightarrow> nat \<Rightarrow> u32" where
  "ROTRIGHT a b = (drop_bit b a) OR (push_bit (32 - b) a)"

definition CH :: "u32 \<Rightarrow> u32 \<Rightarrow> u32 \<Rightarrow> u32" where
  "CH x y z = (x AND y) XOR (NOT x AND z)"

definition MAJ :: "u32 \<Rightarrow> u32 \<Rightarrow> u32 \<Rightarrow> u32" where
  "MAJ x y z = (x AND y) XOR (x AND z) XOR (y AND z)"

definition EP0 :: "u32 \<Rightarrow> u32" where
  "EP0 x = ROTRIGHT x 2 XOR ROTRIGHT x 13 XOR ROTRIGHT x 22"

definition EP1 :: "u32 \<Rightarrow> u32" where
  "EP1 x = ROTRIGHT x 6 XOR ROTRIGHT x 11 XOR ROTRIGHT x 25"

definition SIG0 :: "u32 \<Rightarrow> u32" where
  "SIG0 x = ROTRIGHT x 7 XOR ROTRIGHT x 18 XOR drop_bit 3 x"

definition SIG1 :: "u32 \<Rightarrow> u32" where
  "SIG1 x = ROTRIGHT x 17 XOR ROTRIGHT x 19 XOR drop_bit 10 x"

text \<open>The round constants, row by row as in the source.\<close>

definition sha_k :: "u32 list" where
  "sha_k = concat
    [[0x428a2f98, 0x71374491, 0xb5c0fbcf, 0xe9b5dba5, 0x3956c25b, 0x59f111f1, 0x923f82a4, 0xab1c5ed5],
     [0xd807aa98, 0x12835b01, 0x243185be, 0x550c7dc3, 0x72be5d74, 0x80deb1fe, 0x9bdc06a7, 0xc19bf174],
     [0xe49b69c1, 0xefbe4786, 0x0fc19dc6, 0x240ca1cc, 0x2de92c6f, 0x4a7484aa, 0x5cb0a9dc, 0x76f988da],
     [0x983e5152, 0xa831c66d, 0xb00327c8, 0xbf597fc7, 0xc6e00bf3, 0xd5a79147, 0x06ca6351, 0x14292967],
     [0x27b70a85, 0x2e1b2138, 0x4d2c6dfc, 0x53380d13, 0x650a7354, 0x766a0abb, 0x81c2c92e, 0x92722c85],
     [0xa2bfe8a1, 0xa81a664b, 0xc24b8b70, 0xc76c51a3, 0xd192e819, 0xd6990624, 0xf40e3585, 0x106aa070],
     [0x19a4c116, 0x1e376c08, 0x2748774c, 0x34b0bcb5, 0x391c0cb3, 0x4ed8aa4a, 0x5b9cca4f, 0x682e6ff3],
     [0x748f82ee, 0x78a5636f, 0x84c87814, 0x8cc70208, 0x90befffa, 0xa4506ceb, 0xbef9a3f7, 0xc67178f2]]"

record SHA256_CTX =
  sdata :: "u8 list"
  datalen :: u32
  bitlen :: u64
  hstate :: "u32 list"

subsection \<open>The code\<close>

definition sched_word :: "u8 list \<Rightarrow> nat \<Rightarrow> u32" where
  "sched_word d j = push_bit 24 (ucast (d ! j)) OR push_bit 16 (ucast (d ! (j + 1)))
     OR push_bit 8 (ucast (d ! (j + 2))) OR ucast (d ! (j + 3))"

definition sched_first :: "u8 list \<Rightarrow> u32 list" where
  "sched_first d = map (\<lambda>i. sched_word d (4 * i)) [0..<16]"

definition sched_extend :: "u32 list \<Rightarrow> u32 list" where
  "sched_extend m =
     fold (\<lambda>i m. m @ [SIG1 (m ! (i - 2)) + m ! (i - 7) + SIG0 (m ! (i - 15)) + m ! (i - 16)]) [16..<64] m"

type_synonym vars = "u32 \<times> u32 \<times> u32 \<times> u32 \<times> u32 \<times> u32 \<times> u32 \<times> u32"

definition sha_round :: "u32 list \<Rightarrow> nat \<Rightarrow> vars \<Rightarrow> vars" where
  "sha_round m i = (\<lambda>(a, b, c, d, e, f, g, h).
     let t1 = h + EP1 e + CH e f g + sha_k ! i + m ! i; t2 = EP0 a + MAJ a b c in
     (t1 + t2, a, b, c, d + t1, e, f, g))"

definition sha256_transform :: "u8 list \<Rightarrow> SHA256_CTX \<Rightarrow> SHA256_CTX" where
  "sha256_transform data ctx =
     (let m = sched_extend (sched_first data); s = hstate ctx;
          (a, b, c, d, e, f, g, h) = fold (sha_round m) [0..<64] (s!0, s!1, s!2, s!3, s!4, s!5, s!6, s!7) in
      ctx\<lparr>hstate := [s!0 + a, s!1 + b, s!2 + c, s!3 + d, s!4 + e, s!5 + f, s!6 + g, s!7 + h]\<rparr>)"

definition sha256_init :: "SHA256_CTX \<Rightarrow> SHA256_CTX" where
  "sha256_init ctx = ctx\<lparr>datalen := 0, bitlen := 0,
     hstate := [0x6a09e667, 0xbb67ae85, 0x3c6ef372, 0xa54ff53a, 0x510e527f, 0x9b05688c, 0x1f83d9ab, 0x5be0cd19]\<rparr>"

definition update_byte :: "u8 \<Rightarrow> SHA256_CTX \<Rightarrow> SHA256_CTX" where
  "update_byte b ctx =
     (let c1 = ctx\<lparr>sdata := (sdata ctx)[unat (datalen ctx) := b], datalen := datalen ctx + 1\<rparr> in
      if datalen c1 = 64
      then let c2 = sha256_transform (sdata c1) c1 in c2\<lparr>bitlen := bitlen c2 + 512, datalen := 0\<rparr>
      else c1)"

partial_function (option) sha256_update_from :: "mem \<Rightarrow> u64 \<Rightarrow> u64 \<Rightarrow> u32 \<Rightarrow> SHA256_CTX \<Rightarrow> SHA256_CTX option" where
  "sha256_update_from m p len i ctx =
     (if ucast i < len then sha256_update_from m p len (i + 1) (update_byte (m (p + ucast i)) ctx) else Some ctx)"

definition sha256_update :: "mem \<Rightarrow> u64 \<Rightarrow> u64 \<Rightarrow> SHA256_CTX \<Rightarrow> SHA256_CTX option" where
  "sha256_update m p len ctx = sha256_update_from m p len 0 ctx"

definition zero_fill :: "nat \<Rightarrow> nat \<Rightarrow> u8 list \<Rightarrow> u8 list" where
  "zero_fill i bound d = fold (\<lambda>j d. d[j := 0]) [i..<bound] d"

definition put_bitlen :: "u64 \<Rightarrow> u8 list \<Rightarrow> u8 list" where
  "put_bitlen n d = d[63 := ucast n, 62 := ucast (drop_bit 8 n), 61 := ucast (drop_bit 16 n), 60 := ucast (drop_bit 24 n),
     59 := ucast (drop_bit 32 n), 58 := ucast (drop_bit 40 n), 57 := ucast (drop_bit 48 n), 56 := ucast (drop_bit 56 n)]"

definition final_pad :: "SHA256_CTX \<Rightarrow> SHA256_CTX" where
  "final_pad ctx =
     (let i = unat (datalen ctx) in
      if datalen ctx < 56
      then ctx\<lparr>sdata := zero_fill (i + 1) 56 ((sdata ctx)[i := 0x80])\<rparr>
      else let c = ctx\<lparr>sdata := zero_fill (i + 1) 64 ((sdata ctx)[i := 0x80])\<rparr>; c = sha256_transform (sdata c) c in
        c\<lparr>sdata := zero_fill 0 56 (sdata c)\<rparr>)"

definition final_hash :: "u32 list \<Rightarrow> u8 list" where
  "final_hash s = map (\<lambda>n. ucast (drop_bit (24 - (n mod 4) * 8) (s ! (n div 4)) AND 0xff)) [0..<32]"

definition sha256_final :: "SHA256_CTX \<Rightarrow> u8 list \<times> SHA256_CTX" where
  "sha256_final ctx =
     (let c1 = final_pad ctx; n = bitlen c1 + ucast (datalen c1 * 8);
          c2 = c1\<lparr>bitlen := n, sdata := put_bitlen n (sdata c1)\<rparr>; c3 = sha256_transform (sdata c2) c2 in
      (final_hash (hstate c3), c3))"

subsection \<open>The reference\<close>

definition fips_word :: "u8 list \<Rightarrow> nat \<Rightarrow> u32" where
  "fips_word block t = horner_sum ucast 256 (rev (take 4 (drop (4 * t) block)))"

definition fips_sigma0 :: "u32 \<Rightarrow> u32" where
  "fips_sigma0 x = word_rotr 7 x XOR word_rotr 18 x XOR drop_bit 3 x"

definition fips_sigma1 :: "u32 \<Rightarrow> u32" where
  "fips_sigma1 x = word_rotr 17 x XOR word_rotr 19 x XOR drop_bit 10 x"

definition fips_Sigma0 :: "u32 \<Rightarrow> u32" where
  "fips_Sigma0 x = word_rotr 2 x XOR word_rotr 13 x XOR word_rotr 22 x"

definition fips_Sigma1 :: "u32 \<Rightarrow> u32" where
  "fips_Sigma1 x = word_rotr 6 x XOR word_rotr 11 x XOR word_rotr 25 x"

fun fips_W :: "u8 list \<Rightarrow> nat \<Rightarrow> u32" where
  "fips_W block t =
     (if t < 16 then fips_word block t
      else fips_sigma1 (fips_W block (t - 2)) + fips_W block (t - 7)
        + fips_sigma0 (fips_W block (t - 15)) + fips_W block (t - 16))"

declare fips_W.simps [simp del]

primrec fips_rounds :: "u8 list \<Rightarrow> nat \<Rightarrow> vars \<Rightarrow> vars" where
  "fips_rounds block 0 v = v"
| "fips_rounds block (Suc t) v =
     (let (a, b, c, d, e, f, g, h) = fips_rounds block t v;
          T1 = h + fips_Sigma1 e + ((e AND f) XOR (NOT e AND g)) + sha_k ! t + fips_W block t;
          T2 = fips_Sigma0 a + ((a AND b) XOR (a AND c) XOR (b AND c)) in
      (T1 + T2, a, b, c, d + T1, e, f, g))"

definition fips_compress :: "u32 list \<Rightarrow> u8 list \<Rightarrow> u32 list" where
  "fips_compress H block =
     (let (a, b, c, d, e, f, g, h) = fips_rounds block 64 (H!0, H!1, H!2, H!3, H!4, H!5, H!6, H!7) in
      map2 (+) H [a, b, c, d, e, f, g, h])"

function hash_blocks :: "u32 list \<Rightarrow> u8 list \<Rightarrow> u32 list" where
  "hash_blocks H xs = (if length xs < 64 then H else hash_blocks (fips_compress H (take 64 xs)) (drop 64 xs))"
  by auto
termination by (relation "measure (\<lambda>(H, xs). length xs)") auto

declare hash_blocks.simps [simp del]

definition be_bytes :: "nat \<Rightarrow> 'a::len word \<Rightarrow> u8 list" where
  "be_bytes n w = map (\<lambda>i. ucast (drop_bit (8 * (n - 1 - i)) w)) [0..<n]"

definition fips_pad :: "u8 list \<Rightarrow> u8 list" where
  "fips_pad msg = msg @ [0x80] @ replicate ((119 - length msg mod 64) mod 64) 0
     @ be_bytes 8 (of_nat (8 * length msg) :: u64)"

definition fips_H0 :: "u32 list" where
  "fips_H0 = [0x6a09e667, 0xbb67ae85, 0x3c6ef372, 0xa54ff53a, 0x510e527f, 0x9b05688c, 0x1f83d9ab, 0x5be0cd19]"

definition SHA256 :: "u8 list \<Rightarrow> u8 list" where
  "SHA256 msg = concat (map (be_bytes 4) (hash_blocks fips_H0 (fips_pad msg)))"

subsection \<open>The compression function\<close>

subsection \<open>One block\<close>

lemma ROTRIGHT_rotr: "0 < b \<Longrightarrow> b < 32 \<Longrightarrow> ROTRIGHT a b = word_rotr b a"
proof (rule bit_word_eqI)
  fix n assume b: "0 < b" "b < 32" "n < LENGTH(32)"
  have "(n + b) mod 32 = (if n + b < 32 then n + b else n + b - 32)" using b by (simp add: mod_if)
  then show "bit (ROTRIGHT a b) n = bit (word_rotr b a) n"
    using b by (auto simp: ROTRIGHT_def bit_simps bit_word_rotr_iff add.commute [of b n] dest: bit_imp_le_length)
qed

lemma sigma_eqs: "SIG0 = fips_sigma0" "SIG1 = fips_sigma1" "EP0 = fips_Sigma0" "EP1 = fips_Sigma1"
  by (auto simp: fun_eq_iff SIG0_def SIG1_def EP0_def EP1_def fips_sigma0_def fips_sigma1_def
      fips_Sigma0_def fips_Sigma1_def ROTRIGHT_rotr)

lemma byte_or_shift: "ucast (b :: u8) + 256 * v = ucast b OR push_bit 8 (v :: u32)"
proof -
  have "256 * v = push_bit 8 v" by (simp add: push_bit_eq_mult mult.commute)
  moreover have "ucast b AND push_bit 8 v = 0" by (rule bit_word_eqI) (auto simp: bit_simps dest: bit_imp_le_length)
  ultimately show ?thesis by (metis disjunctive_add_eq_or)
qed

lemma take4_drop: "j + 4 \<le> length d \<Longrightarrow> take 4 (drop j d) = [d ! j, d ! (j + 1), d ! (j + 2), d ! (j + 3)]"
  by (rule nth_equalityI) (auto simp: less_Suc_eq numeral_eq_Suc)

lemma sched_word_fips:
  assumes "length d = 64" "t < 16"
  shows "sched_word d (4 * t) = fips_word d t"
proof -
  have "take 4 (drop (4 * t) d) = [d ! (4 * t), d ! (4 * t + 1), d ! (4 * t + 2), d ! (4 * t + 3)]"
    using assms by (intro take4_drop) simp
  then have "fips_word d t = ucast (d ! (4 * t + 3)) + 256 * (ucast (d ! (4 * t + 2)) + 256 *
      (ucast (d ! (4 * t + 1)) + 256 * (ucast (d ! (4 * t)) :: u32)))"
    by (simp add: fips_word_def)
  also have "\<dots> = sched_word d (4 * t)"
    by (simp only: byte_or_shift push_bit_or push_bit_push_bit sched_word_def) (simp add: ac_simps)
  finally show ?thesis ..
qed

lemma sched_extend_W:
  assumes "length d = 64" "16 \<le> n" "n \<le> 64"
  shows "fold (\<lambda>i m. m @ [SIG1 (m ! (i - 2)) + m ! (i - 7) + SIG0 (m ! (i - 15)) + m ! (i - 16)]) [16..<n] (sched_first d)
     = map (fips_W d) [0..<n]"
  using assms(2,3)
proof (induction n rule: dec_induct)
  case base
  have "sched_first d = map (fips_W d) [0..<16]"
    using sched_word_fips [OF assms(1)] by (simp add: sched_first_def fips_W.simps)
  then show ?case by simp
next
  case (step n)
  then show ?case by (simp add: sigma_eqs fips_W.simps [of d n])
qed

lemma rounds_eq:
  assumes "n \<le> 64"
  shows "fold (sha_round (map (fips_W d) [0..<64])) [0..<n] v = fips_rounds d n v"
  using assms
proof (induction n)
  case (Suc n)
  obtain a b c d' e f g h where v: "fips_rounds d n v = (a, b, c, d', e, f, g, h)" by (cases "fips_rounds d n v") auto
  have w: "map (fips_W d) [0..<64] ! n = fips_W d n" using Suc.prems by simp
  have u: "[0..<Suc n] = [0..<n] @ [n]" by simp
  show ?case using Suc unfolding u
    by (simp add: v sha_round_def sigma_eqs CH_def MAJ_def w Let_def del: upt_Suc)
qed simp

lemma sha256_transform_fips:
  assumes "length d = 64" "length (hstate ctx) = 8"
  shows "sha256_transform d ctx = ctx\<lparr>hstate := fips_compress (hstate ctx) d\<rparr>"
proof -
  have m: "sched_extend (sched_first d) = map (fips_W d) [0..<64]"
    unfolding sched_extend_def by (rule sched_extend_W [OF assms(1)]) simp_all
  let ?s = "hstate ctx"
  have "?s = [?s ! 0, ?s ! 1, ?s ! 2, ?s ! 3, ?s ! 4, ?s ! 5, ?s ! 6, ?s ! 7]"
    by (rule nth_equalityI) (auto simp: assms(2) less_Suc_eq numeral_eq_Suc)
  then obtain s0 s1 s2 s3 s4 s5 s6 s7 where h: "?s = [s0, s1, s2, s3, s4, s5, s6, s7]" by blast
  obtain a b c d' e f g h' where r: "fips_rounds d 64 (s0, s1, s2, s3, s4, s5, s6, s7) = (a, b, c, d', e, f, g, h')"
    by (cases "fips_rounds d 64 (s0, s1, s2, s3, s4, s5, s6, s7)") auto
  show ?thesis
    by (simp add: sha256_transform_def m h fips_compress_def rounds_eq r del: fips_rounds.simps)
qed

lemma length_fips_compress [simp]: "length (fips_compress H d) = min (length H) 8"
  by (simp add: fips_compress_def split_beta)

lemma hash_blocks_append:
  "length xs = 64 * q \<Longrightarrow> hash_blocks H (xs @ ys) = hash_blocks (hash_blocks H xs) ys"
proof (induction q arbitrary: H xs)
  case 0
  then show ?case by (simp add: hash_blocks.simps [of H "[]"])
next
  case (Suc q)
  then show ?case using Suc.IH [of "drop 64 xs"]
    by (simp add: hash_blocks.simps [of H "xs @ ys"] hash_blocks.simps [of H xs])
qed

lemma hash_blocks_one: "length xs = 64 \<Longrightarrow> hash_blocks H xs = fips_compress H xs"
  by (subst hash_blocks.simps) (simp add: hash_blocks.simps)

lemma length_hash_blocks: "length H = 8 \<Longrightarrow> length (hash_blocks H xs) = 8"
proof (induction H xs rule: hash_blocks.induct)
  case (1 H xs)
  then show ?case by (subst hash_blocks.simps) simp
qed

subsection \<open>The buffer\<close>

definition sha_repr :: "SHA256_CTX \<Rightarrow> u8 list \<Rightarrow> bool" where
  "sha_repr ctx msg \<longleftrightarrow> (let q = length msg div 64; r = length msg mod 64 in
     length (sdata ctx) = 64 \<and> unat (datalen ctx) = r \<and> bitlen ctx = of_nat (512 * q) \<and>
     hstate ctx = hash_blocks fips_H0 (take (64 * q) msg) \<and> take r (sdata ctx) = drop (64 * q) msg)"

lemma length_H0 [simp]: "length fips_H0 = 8"
  by (simp add: fips_H0_def)

lemma sha_repr_init: "length (sdata ctx) = 64 \<Longrightarrow> sha_repr (sha256_init ctx) []"
  by (simp add: sha_repr_def sha256_init_def fips_H0_def hash_blocks.simps)

lemma update_byte_repr:
  assumes "sha_repr ctx msg"
  shows "sha_repr (update_byte b ctx) (msg @ [b])"
proof -
  define q r where qr: "q = length msg div 64" "r = length msg mod 64"
  have len: "length msg = 64 * q + r" and r: "r < 64" by (auto simp: qr)
  have repr: "length (sdata ctx) = 64" "unat (datalen ctx) = r" "bitlen ctx = of_nat (512 * q)"
      "hstate ctx = hash_blocks fips_H0 (take (64 * q) msg)" "take r (sdata ctx) = drop (64 * q) msg"
    using assms by (auto simp: sha_repr_def Let_def qr)
  let ?d = "(sdata ctx)[r := b]"
  have td: "take (Suc r) ?d = drop (64 * q) msg @ [b]"
    using r repr(1,5) by (simp add: take_Suc_conv_app_nth)
  have dl: "unat (datalen ctx + 1) = Suc r"
    using r repr(2) by (simp add: unat_word_ariths)
  show ?thesis
  proof (cases "Suc r = 64")
    case True
    then have d64: "?d = drop (64 * q) msg @ [b]" using td repr(1) by simp
    have "datalen ctx + 1 = 64" using dl True by (simp add: word_unat_eq_iff)
    moreover have "length (hstate ctx) = 8" using repr(4) by (simp add: length_hash_blocks)
    moreover have "hash_blocks fips_H0 (msg @ [b]) = fips_compress (hstate ctx) ?d"
      using hash_blocks_append [of "take (64 * q) msg" q fips_H0 "drop (64 * q) msg @ [b]"] len d64 True repr(4)
      by (simp add: hash_blocks_one flip: append_assoc)
    moreover have "length (msg @ [b]) = 64 * Suc q" using len True by simp
    ultimately show ?thesis using repr(1-3)
      by (simp add: sha_repr_def update_byte_def sha256_transform_fips Let_def algebra_simps)
  next
    case False
    then have "datalen ctx + 1 \<noteq> 64" using dl by (auto simp: word_unat_eq_iff)
    moreover have "Suc (length msg) div 64 = q" "Suc (length msg) mod 64 = Suc r"
      using len r False by (auto simp: div_Suc mod_Suc)
    ultimately show ?thesis using repr dl td len
      by (simp add: sha_repr_def update_byte_def Let_def)
  qed
qed

lemma fold_update_repr:
  "sha_repr ctx msg \<Longrightarrow> sha_repr (fold update_byte bs ctx) (msg @ bs)"
proof (induction bs arbitrary: ctx msg)
  case (Cons b bs)
  then show ?case using Cons.IH [OF update_byte_repr [OF Cons.prems]] by simp
qed simp

lemma sha256_update_from_fold:
  assumes "unat len < 4294967296" "unat i + n = unat len"
  shows "sha256_update_from m p len i ctx = Some (fold update_byte (bytes_at m (p + ucast i) n) ctx)"
  using assms(2)
proof (induction n arbitrary: i ctx)
  case 0
  then have "\<not> ucast i < len" by (simp add: word_less_nat_alt)
  then show ?case by (subst sha256_update_from.simps) simp
next
  case (Suc n)
  have lt: "ucast i < len" using Suc.prems by (simp add: word_less_nat_alt)
  have u: "unat (i + 1) = unat i + 1" using Suc.prems assms(1) by (simp add: unat_word_ariths)
  have "unat ((ucast i :: u64) + 1) = unat i + 1" using unat_lt32 [of i] by (subst unat_add64) simp_all
  then have "(ucast (i + 1) :: u64) = ucast i + 1" using u by (simp add: unat_eq_iff64)
  then have "sha256_update_from m p len (i + 1) (update_byte (m (p + ucast i)) ctx)
     = Some (fold update_byte (bytes_at m (p + ucast i + 1) n) (update_byte (m (p + ucast i)) ctx))"
    using Suc.IH [of "i + 1"] u Suc.prems by (simp add: add.assoc)
  then show ?case using lt by (subst sha256_update_from.simps) simp
qed

lemma sha256_update_fold:
  "unat len < 4294967296 \<Longrightarrow> sha256_update m p len ctx = Some (fold update_byte (bytes_at m p (unat len)) ctx)"
  using sha256_update_from_fold [of len 0 "unat len" m p ctx] by (simp add: sha256_update_def)

lemma sha256_update_returns_short:
  assumes "sha256_update m p len ctx = Some c"
  shows "unat len < 4294967296"
proof -
  have "sha256_update_from m p len i ctx = Some c \<Longrightarrow> unat len < 4294967296" for i ctx
  proof (rule sha256_update_from.raw_induct [where P = "\<lambda>m p len i ctx y. unat len < 4294967296"])
    fix f m and p len :: u64 and i :: u32 and ctx y
    assume IH: "\<And>m p len i ctx y. f m p len i ctx = Some y \<Longrightarrow> unat len < 4294967296"
      and body: "(if ucast i < len then f m p len (i + 1) (update_byte (m (p + ucast i)) ctx) else Some ctx) = Some y"
    have "unat i < 4294967296" using unsigned_less [of i] by simp
    then show "unat len < 4294967296" using body IH by (auto simp: word_less_nat_alt split: if_splits)
  qed
  then show ?thesis using assms by (simp add: sha256_update_def)
qed

subsection \<open>Padding\<close>

lemma zero_fill_spec:
  "i \<le> bound \<Longrightarrow> bound \<le> length d \<Longrightarrow> zero_fill i bound d = take i d @ replicate (bound - i) 0 @ drop bound d"
proof (induction "bound - i" arbitrary: i d)
  case 0
  then show ?case by (simp add: zero_fill_def)
next
  case (Suc k)
  have "zero_fill i bound d = zero_fill (Suc i) bound (d[i := 0])"
    using Suc by (simp add: zero_fill_def upt_conv_Cons)
  also have "\<dots> = take (Suc i) (d[i := 0]) @ replicate (bound - Suc i) 0 @ drop bound (d[i := 0])"
    using Suc by (intro Suc.hyps(1)) auto
  also have "\<dots> = take i d @ replicate (bound - i) 0 @ drop bound d"
    using Suc by (simp add: take_Suc_conv_app_nth Suc_diff_Suc flip: replicate_Suc)
  finally show ?case .
qed

lemma be_bytes_8: "be_bytes 8 n = [ucast (drop_bit 56 n), ucast (drop_bit 48 n), ucast (drop_bit 40 n), ucast (drop_bit 32 n),
   ucast (drop_bit 24 n), ucast (drop_bit 16 n), ucast (drop_bit 8 n), ucast n]"
  by (simp add: be_bytes_def upt_conv_Cons)

lemma put_bitlen_spec: "length d = 64 \<Longrightarrow> put_bitlen n d = take 56 d @ be_bytes 8 n"
  unfolding be_bytes_8 put_bitlen_def
  by (rule nth_equalityI) (auto simp: nth_list_update nth_append nth_Cons' )

lemma length_be_bytes [simp]: "length (be_bytes n w) = n"
  by (simp add: be_bytes_def)

lemma final_hash_spec:
  assumes "length s = 8"
  shows "final_hash s = concat (map (be_bytes 4) s)"
proof -
  have c: "ucast (x AND 0xff) = (ucast x :: u8)" for x :: u32
  proof -
    have "x AND 0xff = take_bit 8 x" by (simp add: take_bit_eq_mask mask_eq_exp_minus_1)
    then show ?thesis by (auto intro!: bit_word_eqI simp: bit_simps)
  qed
  have "s = [s ! 0, s ! 1, s ! 2, s ! 3, s ! 4, s ! 5, s ! 6, s ! 7]"
    by (rule nth_equalityI) (auto simp: assms less_Suc_eq numeral_eq_Suc)
  then obtain a b c' d e f g h where "s = [a, b, c', d, e, f, g, h]" by blast
  then show ?thesis by (simp add: final_hash_def be_bytes_def upt_conv_Cons c)
qed

subsection \<open>The digest\<close>

lemma final_pad_block:
  assumes repr: "sha_repr ctx msg"
  defines "q \<equiv> length msg div 64" and "r \<equiv> length msg mod 64"
  shows "length (sdata (final_pad ctx)) = 64 \<and> length (hstate (final_pad ctx)) = 8
     \<and> bitlen (final_pad ctx) = bitlen ctx \<and> datalen (final_pad ctx) = datalen ctx
     \<and> (\<forall>t. length t = 8 \<longrightarrow>
          hash_blocks (hash_blocks fips_H0 (take (64 * q) msg))
            (drop (64 * q) msg @ [0x80] @ replicate ((119 - r) mod 64) 0 @ t)
          = fips_compress (hstate (final_pad ctx)) (take 56 (sdata (final_pad ctx)) @ t))"
proof -
  have d: "length (sdata ctx) = 64" "unat (datalen ctx) = r"
      "hstate ctx = hash_blocks fips_H0 (take (64 * q) msg)" "take r (sdata ctx) = drop (64 * q) msg"
    using repr by (auto simp: sha_repr_def Let_def q_def r_def)
  have r: "r < 64" by (simp add: r_def)
  have h8: "length (hstate ctx) = 8" using d(3) by (simp add: length_hash_blocks)
  have tk: "take (Suc r) ((sdata ctx)[r := 0x80]) = drop (64 * q) msg @ [0x80]"
    using r d(1,4) by (simp add: take_Suc_conv_app_nth)
  have lb: "length (drop (64 * q) msg) = r" using d(1,4) r by (metis length_take min.absorb4)
  show ?thesis
  proof (cases "r < 56")
    case True
    then have lt: "datalen ctx < 56" using d(2) by (simp add: word_less_nat_alt)
    have f: "final_pad ctx = ctx\<lparr>sdata := drop (64 * q) msg @ [0x80] @ replicate (55 - r) 0 @ drop 56 (sdata ctx)\<rparr>"
      using lt d(1,2) True tk by (simp add: final_pad_def zero_fill_spec del: take_Suc)
    have k: "(119 - r) mod 64 = 55 - r" using True by (simp add: mod_if)
    have s: "56 - r = Suc (55 - r)" using True by simp
    show ?thesis unfolding f k using True d(1,3) h8 lb by (simp add: hash_blocks_one s)
  next
    case False
    then have lt: "\<not> datalen ctx < 56" using d(2) by (simp add: word_less_nat_alt)
    let ?b = "drop (64 * q) msg @ [0x80] @ replicate (63 - r) 0"
    have z: "zero_fill (Suc r) 64 ((sdata ctx)[r := 0x80]) = ?b"
      using d(1) r tk by (subst zero_fill_spec) (simp_all del: take_Suc)
    have lb': "length ?b = 64" using lb r by simp
    have f: "final_pad ctx = ctx\<lparr>hstate := fips_compress (hstate ctx) ?b, sdata := replicate 56 0 @ drop 56 ?b\<rparr>"
      using lt d(2) z lb' h8 by (simp add: final_pad_def Let_def sha256_transform_fips zero_fill_spec)
    have k: "(119 - r) mod 64 = (63 - r) + 56" using False r by (simp add: mod_if)
    have e: "hash_blocks (hstate ctx) (drop (64 * q) msg @ [0x80] @ replicate ((119 - r) mod 64) 0 @ t)
        = fips_compress (fips_compress (hstate ctx) ?b) (replicate 56 0 @ t)"
      if t: "length t = 8" for t
    proof -
      have "drop (64 * q) msg @ [0x80] @ replicate ((119 - r) mod 64) 0 @ t = ?b @ replicate 56 0 @ t"
        unfolding k replicate_add by simp
      moreover have "hash_blocks (hstate ctx) (?b @ replicate 56 0 @ t)
          = hash_blocks (hash_blocks (hstate ctx) ?b) (replicate 56 0 @ t)"
        using lb' by (intro hash_blocks_append [where q = 1]) simp
      moreover have "hash_blocks H (replicate 56 0 @ t) = fips_compress H (replicate 56 0 @ t)" for H
        using t by (intro hash_blocks_one) simp
      ultimately show ?thesis using lb' by (simp add: hash_blocks_one del: length_append)
    qed
    have c: "take 56 (replicate 56 0 @ drop 56 ?b) = replicate 56 0" by simp
    have l: "length (replicate 56 0 @ drop 56 ?b) = 64"
      using lb' by (simp only: length_append length_replicate length_drop)
    show ?thesis unfolding f using e l c h8 by (simp add: d(3) del: take_append drop_append length_append)
  qed
qed

lemma sha256_final_repr:
  assumes "sha_repr ctx msg"
  shows "fst (sha256_final ctx) = SHA256 msg"
proof -
  let ?q = "length msg div 64" and ?r = "length msg mod 64" and ?n = "of_nat (8 * length msg) :: u64"
  have f: "length (sdata (final_pad ctx)) = 64" "length (hstate (final_pad ctx)) = 8"
    "bitlen (final_pad ctx) = bitlen ctx" "datalen (final_pad ctx) = datalen ctx"
    "\<forall>t. length t = 8 \<longrightarrow>
          hash_blocks (hash_blocks fips_H0 (take (64 * ?q) msg))
            (drop (64 * ?q) msg @ [0x80] @ replicate ((119 - ?r) mod 64) 0 @ t)
          = fips_compress (hstate (final_pad ctx)) (take 56 (sdata (final_pad ctx)) @ t)"
    using final_pad_block [OF assms] by blast+
  have b: "bitlen ctx = of_nat (512 * ?q)" "unat (datalen ctx) = ?r" using assms by (auto simp: sha_repr_def Let_def)
  have "unat (datalen ctx * 8) = ?r * 8" using b(2) by (simp add: unat_word_ariths)
  then have "(ucast (datalen ctx * 8) :: u64) = of_nat (?r * 8)"
    by (simp add: unat_eq_iff64 unat_of_nat del: of_nat_mult)
  moreover have "512 * ?q + ?r * 8 = 8 * length msg" using div_mult_mod_eq [of "length msg" 64] by linarith
  ultimately have n: "bitlen ctx + ucast (datalen ctx * 8) = ?n"
    by (simp only: b(1) flip: of_nat_add)
  have "hstate (snd (sha256_final ctx)) = fips_compress (hstate (final_pad ctx)) (take 56 (sdata (final_pad ctx)) @ be_bytes 8 ?n)"
    using f(1-4) n by (simp add: sha256_final_def Let_def sha256_transform_fips put_bitlen_spec)
  also have "\<dots> = hash_blocks (hash_blocks fips_H0 (take (64 * ?q) msg))
      (drop (64 * ?q) msg @ [0x80] @ replicate ((119 - ?r) mod 64) 0 @ be_bytes 8 ?n)"
    using f(5) by simp
  also have "\<dots> = hash_blocks fips_H0 (fips_pad msg)"
    using hash_blocks_append [of "take (64 * ?q) msg" ?q fips_H0
        "drop (64 * ?q) msg @ [0x80] @ replicate ((119 - ?r) mod 64) 0 @ be_bytes 8 ?n"]
    by (simp add: fips_pad_def flip: append_assoc)
  finally have h: "hstate (snd (sha256_final ctx)) = hash_blocks fips_H0 (fips_pad msg)" .
  have "fst (sha256_final ctx) = final_hash (hstate (snd (sha256_final ctx)))"
    by (simp add: sha256_final_def Let_def)
  then show ?thesis using h by (simp add: final_hash_spec length_hash_blocks SHA256_def)
qed

lemma sha256_digest_fold:
  assumes "length (sdata ctx) = 64" "unat len < 4294967296"
  shows "\<exists>c. sha256_update m p len (sha256_init ctx) = Some c
     \<and> fst (sha256_final c) = SHA256 (bytes_at m p (unat len))"
  using assms fold_update_repr [OF sha_repr_init]
  by (simp add: sha256_update_fold sha256_final_repr)

text \<open>C8: hashing a memory range the way \<open>is_secure_boot\<close> does (\<open>sha256_init\<close>, one \<open>sha256_update\<close>,
  \<open>sha256_final\<close>) returns and produces the SHA-256 digest of those bytes as FIPS 180-4 defines it,
  whatever the buffer of the context held before, for every length below \<open>2 ^ 32\<close>.\<close>

theorem sha256_computes_digest:
  assumes "length (sdata ctx) = 64" "unat len < 4294967296"
  shows "\<exists>c. sha256_update m p len (sha256_init ctx) = Some c
     \<and> fst (sha256_final c) = SHA256 (bytes_at m p (unat len))"
  using assms by (rule sha256_digest_fold)

lemma bytes_at_3: "bytes_at m p 3 = [m p, m (p + 1), m (p + 1 + 1)]"
  by (simp add: numeral_3_eq_3)

theorem sha256_computes_digest_witness:
  "\<exists>c. sha256_update ((\<lambda>_. 0)(0x84000000 := 0x61, 0x84000001 := 0x62, 0x84000002 := 0x63)) 0x84000000 3
        (sha256_init \<lparr>sdata = replicate 64 7, datalen = 9, bitlen = 5, hstate = []\<rparr>) = Some c
     \<and> fst (sha256_final c) = SHA256 [0x61, 0x62, 0x63]"
proof -
  let ?m = "(\<lambda>_. 0)(0x84000000 := 0x61, 0x84000001 := 0x62, 0x84000002 := 0x63) :: mem"
  have "unat (3 :: u64) = 3" by simp
  moreover have "bytes_at ?m 0x84000000 3 = [0x61, 0x62, 0x63]"
    unfolding bytes_at_3 by simp
  ultimately show ?thesis
    using sha256_computes_digest [of "\<lparr>sdata = replicate 64 7, datalen = 9, bitlen = 5, hstate = []\<rparr>" 3
        ?m "0x84000000"] by (simp only:) simp
qed

text \<open>\<open>sha256_update\<close> returns exactly for lengths below \<open>2 ^ 32\<close>; its 32-bit index wraps around
  before it reaches a greater \<open>size_t\<close> length, and the loop never ends.\<close>

theorem sha256_update_returns_iff:
  "(\<exists>c. sha256_update m p len ctx = Some c) \<longleftrightarrow> unat len < 4294967296"
  using sha256_update_fold sha256_update_returns_short by blast

end
