(* ===== verification/Boot.thy ===== *)
theory Boot
  imports Sha256 Riscv
begin

text \<open>
  The boot loader of Project 1: the ELF readers of \<open>bootloader/elf.c\<close>, the block loader of
  \<open>bootloader/load.c\<close> and \<open>bootloader/start.c\<close>, which measures the kernel image, falls back to the
  recovery image when the digest is not the trusted one, loads the chosen image block by block,
  programs the physical memory protection and leaves for supervisor mode.

  Everything the loader reads and writes through addresses (the two images, the loaded kernel, the
  system information table at \<open>0x80080000\<close> and the block buffer on the stack) lives in one memory;
  the address of the buffer and of the symbol \<open>end\<close> are arguments. The hash context is a global with
  no other name and is a field of the state. The table of trusted hashes is generated at build time and
  is an argument. A \<open>panic\<close> of the loader spins for ever and is an error value.
\<close>

unbundle bit_operations_syntax

subsection \<open>Data\<close>

datatype kernel = NORMAL | RECOVERY

text \<open>The kernel version selected by the build with \<^verbatim>\<open>-D\<close>.\<close>

datatype version = KERNEL1 | KERNEL2 | KERNEL3 | KERNELPMP1 | KERNELPMP2

definition RAMDISK :: u64 where "RAMDISK = 0x84000000"

definition RECOVERYDISK :: u64 where "RECOVERYDISK = 0x84500000"

definition BSIZE :: u64 where "BSIZE = 1024"

definition FSSIZE :: u32 where "FSSIZE = 2000"

record buf =
  valid :: u32
  blockno :: u32
  data_at :: u64   \<comment> \<open>address of the array \<open>data\<close>\<close>

record boot =
  bmem :: mem
  sha256_ctx :: SHA256_CTX
  sys_info_ptr :: u64
  tp :: u64
  ra :: u64
  mstatus :: u64
  mepc :: u64
  satp :: u64
  sie :: u64
  medeleg :: u64
  mideleg :: u64
  pmpcfg0 :: u64
  pmpaddr :: "u64 list"
  bpc :: u64       \<comment> \<open>program counter and privilege after \<open>mret\<close>\<close>
  bprv :: u64

definition load16 :: "mem \<Rightarrow> u64 \<Rightarrow> u16" where
  "load16 m a = ucast (m a) OR push_bit 8 (ucast (m (a + 1)))"

text \<open>The fields of \<open>struct elfhdr\<close> and \<open>struct proghdr\<close> that the loader reads, at their offsets.\<close>

definition eh_entry :: "mem \<Rightarrow> u64 \<Rightarrow> u64" where "eh_entry m a = load64 m (a + 24)"
definition eh_phoff :: "mem \<Rightarrow> u64 \<Rightarrow> u64" where "eh_phoff m a = load64 m (a + 32)"
definition eh_shoff :: "mem \<Rightarrow> u64 \<Rightarrow> u64" where "eh_shoff m a = load64 m (a + 40)"
definition eh_ehsize :: "mem \<Rightarrow> u64 \<Rightarrow> u16" where "eh_ehsize m a = load16 m (a + 52)"
definition eh_shentsize :: "mem \<Rightarrow> u64 \<Rightarrow> u16" where "eh_shentsize m a = load16 m (a + 58)"
definition eh_shnum :: "mem \<Rightarrow> u64 \<Rightarrow> u16" where "eh_shnum m a = load16 m (a + 60)"
definition ph_vaddr :: "mem \<Rightarrow> u64 \<Rightarrow> u64" where "ph_vaddr m a = load64 m (a + 16)"

lemmas elf_fields = eh_entry_def eh_phoff_def eh_shoff_def eh_ehsize_def eh_shentsize_def eh_shnum_def ph_vaddr_def

subsection \<open>Reading the ELF headers\<close>

definition disk_base :: "kernel \<Rightarrow> u64" where
  "disk_base ktype = (if ktype = NORMAL then RAMDISK else RECOVERYDISK)"

definition find_kernel_load_addr :: "mem \<Rightarrow> kernel \<Rightarrow> u64" where
  "find_kernel_load_addr m ktype =
     (let a = disk_base ktype; address_phoff = eh_phoff m a; address_ehsize = ucast (eh_ehsize m a) in
      ph_vaddr m (a + address_ehsize + address_phoff))"

definition find_kernel_size :: "mem \<Rightarrow> kernel \<Rightarrow> u64" where
  "find_kernel_size m ktype =
     (let d = disk_base ktype; a = eh_shoff m d; b = ucast (eh_shentsize m d); c = b * ucast (eh_shnum m d) in a + c)"

definition find_kernel_entry_addr :: "mem \<Rightarrow> kernel \<Rightarrow> u64" where
  "find_kernel_entry_addr m ktype = eh_entry m (disk_base ktype)"

subsection \<open>Loading\<close>

definition kernel_copy :: "kernel \<Rightarrow> buf \<Rightarrow> mem \<Rightarrow> kerror + (mem \<times> buf)" where
  "kernel_copy ktype b m =
     (if FSSIZE \<le> blockno b then Inl (Panic ''ramdiskrw: blockno too big'')
      else let diskaddr = ucast (blockno b * 1024); addr = disk_base ktype + diskaddr in
        Inr (memmove m (data_at b) addr (unat BSIZE), b\<lparr>valid := 1\<rparr>))"

definition skip_memory :: u64 where "skip_memory = 4096 div BSIZE"

definition load_block :: "kernel \<Rightarrow> u64 \<Rightarrow> nat \<Rightarrow> nat \<Rightarrow> mem \<times> buf \<Rightarrow> kerror + (mem \<times> buf)" where
  "load_block ktype load_addr n p = (\<lambda>(m, b).
     bindE (kernel_copy ktype (b\<lparr>blockno := of_nat p\<rparr>) m) (\<lambda>(m, b).
       let c = (of_nat p - skip_memory) * BSIZE; kernel_value = load_addr + c in
       Inr (memmove m kernel_value (data_at b) n, b)))"

definition load_blocks :: "kernel \<Rightarrow> u64 \<Rightarrow> u64 \<Rightarrow> mem \<times> buf \<Rightarrow> kerror + (mem \<times> buf)" where
  "load_blocks ktype load_addr total_size =
     foldE (load_block ktype load_addr (unat BSIZE)) [unat skip_memory..<unat total_size]"

definition setup_recovery_kernel :: "u64 \<Rightarrow> boot \<Rightarrow> kerror + boot" where
  "setup_recovery_kernel kb s =
     (let recovery_load_addr = find_kernel_load_addr (bmem s) RECOVERY;
          recovery_binary_size = find_kernel_size (bmem s) RECOVERY;
          recovery_kernel_entry = find_kernel_entry_addr (bmem s) RECOVERY;
          recovery_total_size = recovery_binary_size div BSIZE in
      bindE (load_blocks RECOVERY recovery_load_addr recovery_total_size
               (bmem s, \<lparr>valid = 0, blockno = 0, data_at = kb\<rparr>)) (\<lambda>(m, b).
        Inr (s\<lparr>bmem := m, mepc := recovery_kernel_entry\<rparr>)))"

definition load_normal_kernel :: "u64 \<Rightarrow> boot \<Rightarrow> kerror + boot" where
  "load_normal_kernel kb s =
     (let kernel_load_addr = find_kernel_load_addr (bmem s) NORMAL;
          kernel_binary_size = find_kernel_size (bmem s) NORMAL;
          kernel_entry = find_kernel_entry_addr (bmem s) NORMAL;
          balance = kernel_binary_size mod BSIZE; total_size = kernel_binary_size div BSIZE in
      bindE (load_blocks NORMAL kernel_load_addr total_size
               (bmem s, \<lparr>valid = 0, blockno = 0, data_at = kb\<rparr>)) (\<lambda>mb.
        bindE (if balance \<noteq> 0 then load_block NORMAL kernel_load_addr (unat balance) (unat total_size) mb else Inr mb)
          (\<lambda>(m, b). Inr (s\<lparr>bmem := m, mepc := kernel_entry\<rparr>))))"

subsection \<open>Measuring\<close>

text \<open>Offsets of the fields of \<open>struct sys_info\<close>.\<close>

definition SI_bl_start :: u64 where "SI_bl_start = 0"
definition SI_bl_end :: u64 where "SI_bl_end = 8"
definition SI_dr_start :: u64 where "SI_dr_start = 16"
definition SI_dr_end :: u64 where "SI_dr_end = 24"
definition SI_expected :: u64 where "SI_expected = 32"
definition SI_observed :: u64 where "SI_observed = 64"

lemmas SI_defs = SI_bl_start_def SI_bl_end_def SI_dr_start_def SI_dr_end_def SI_expected_def SI_observed_def

definition compare_step :: "u8 list \<Rightarrow> u64 \<Rightarrow> nat \<Rightarrow> bool \<times> mem \<Rightarrow> bool \<times> mem" where
  "compare_step trusted_kernel_hash si i = (\<lambda>(verification, m).
     (verification \<and> m (si + SI_observed + of_nat i) = trusted_kernel_hash ! i,
      m(si + SI_expected + of_nat i := trusted_kernel_hash ! i)))"

definition is_secure_boot :: "u8 list \<Rightarrow> u64 \<Rightarrow> boot \<Rightarrow> kerror + (bool \<times> boot)" where
  "is_secure_boot trusted_kernel_hash kb s =
     (let si = sys_info_ptr s; ctx = sha256_init (sha256_ctx s) in
      case sha256_update (bmem s) RAMDISK (find_kernel_size (bmem s) NORMAL) ctx of
        None \<Rightarrow> Inl Diverges
      | Some ctx \<Rightarrow>
          (let (digest, ctx) = sha256_final ctx; m = put_bytes (bmem s) (si + SI_observed) digest;
               (verification, m) = fold (compare_step trusted_kernel_hash si) [0..<32] (True, m);
               s = s\<lparr>bmem := m, sha256_ctx := ctx\<rparr> in
           if \<not> verification then bindE (setup_recovery_kernel kb s) (\<lambda>s. Inr (False, s)) else Inr (True, s)))"

subsection \<open>The entry point\<close>

definition MSTATUS_MPP_MASK :: u64 where "MSTATUS_MPP_MASK = push_bit 11 3"

definition MSTATUS_MPP_S :: u64 where "MSTATUS_MPP_S = push_bit 11 1"

definition SIE_BITS :: u64 where "SIE_BITS = push_bit 9 1 OR push_bit 5 1 OR push_bit 1 1"

definition set_pmp :: "version \<Rightarrow> boot \<Rightarrow> boot" where
  "set_pmp v s =
     (let s = (if v \<noteq> KERNELPMP1 \<or> v \<noteq> KERNELPMP2
               then s\<lparr>pmpaddr := (pmpaddr s)[0 := 0x3fffffffffffff], pmpcfg0 := 0xf\<rparr> else s);
          s = (if v = KERNELPMP1
               then s\<lparr>pmpcfg0 := 0xf, pmpaddr := (pmpaddr s)[0 := drop_bit 2 (0x80000000 + 117 * 1024 * 1024)]\<rparr> else s) in
      if v = KERNELPMP2
      then s\<lparr>pmpaddr := (pmpaddr s)
               [0 := drop_bit 2 (0x80000000 + 118 * 1024 * 1024),
                1 := drop_bit 2 (0x80000000 + 120 * 1024 * 1024) OR 0x3FFFF,
                2 := drop_bit 2 (0x80000000 + 126 * 1024 * 1024) OR 0x3FFFF], pmpcfg0 := 0x1f1f0f\<rparr>
      else s)"

text \<open>The label \<open>out\<close>: publish the memory layout, delegate traps, leave by \<open>mret\<close>.\<close>

definition mret :: "boot \<Rightarrow> boot" where
  "mret s = s\<lparr>bpc := mepc s, bprv := drop_bit 11 (mstatus s) AND 3\<rparr>"

definition start_out :: "u64 \<Rightarrow> u64 \<Rightarrow> boot \<Rightarrow> boot" where
  "start_out end_at panic_at s =
     (let si = sys_info_ptr s; m = store64 (bmem s) (si + SI_dr_start) KERNBASE;
          m = store64 m (si + SI_dr_end) PHYSTOP; m = store64 m (si + SI_bl_start) KERNBASE;
          m = store64 m (si + SI_bl_end) (load64 m end_at);
          s = s\<lparr>bmem := m, medeleg := 0xffff, mideleg := 0xffff, sie := sie s OR SIE_BITS, ra := panic_at\<rparr> in
      mret s)"

definition start :: "u8 list \<Rightarrow> version \<Rightarrow> u64 \<Rightarrow> u64 \<Rightarrow> u64 \<Rightarrow> u64 \<Rightarrow> boot \<Rightarrow> kerror + boot" where
  "start trusted_kernel_hash v mhartid kb end_at panic_at s =
     (let s = s\<lparr>sys_info_ptr := 0x80080000, tp := scast (ucast mhartid :: u32),
                mstatus := (mstatus s AND NOT MSTATUS_MPP_MASK) OR MSTATUS_MPP_S, satp := 0\<rparr>;
          s = set_pmp v s in
      bindE (is_secure_boot trusted_kernel_hash kb s) (\<lambda>(verification, s).
        bindE (if verification then load_normal_kernel kb s else Inr s) (\<lambda>s.
          Inr (start_out end_at panic_at s))))"

subsection \<open>The block loader\<close>

lemma BSIZE_simps [simp]: "unat BSIZE = 1024" "unat skip_memory = 4" "skip_memory = 4"
  by (simp_all add: BSIZE_def skip_memory_def)

lemma unat_disk_base: "unat (disk_base kt) \<le> 2219835392" "unat (disk_base kt) + 16777216 \<le> 18446744073709551616"
  by (auto simp: disk_base_def RAMDISK_def RECOVERYDISK_def)

lemma block_offset: "(of_nat p - skip_memory) * BSIZE = of_nat ((p - 4) * 1024)" if "4 \<le> p"
  using that by (simp add: BSIZE_def of_nat_diff)

lemma diskaddr_eq:
  assumes "p < 2000"
  shows "\<not> FSSIZE \<le> of_nat p" "(ucast ((of_nat p :: u32) * 1024) :: u64) = of_nat (p * 1024)"
proof -
  have u: "unat (of_nat p :: u32) = p" using assms by (simp add: unat_of_nat)
  then show "\<not> FSSIZE \<le> of_nat p" using assms by (simp add: FSSIZE_def word_le_nat_alt)
  have "unat ((of_nat p :: u32) * 1024) = p * 1024" using u assms by (simp add: unat_word_ariths)
  then show "(ucast ((of_nat p :: u32) * 1024) :: u64) = of_nat (p * 1024)"
    using assms by (simp add: unat_eq_iff64 unat_of_nat del: of_nat_mult)
qed

lemma load_block_spec:
  fixes b :: buf
  defines "kb \<equiv> data_at b"
  assumes p: "4 \<le> p" "p < 2000" and n: "0 < n" "n \<le> 1024"
    and nw: "unat kb + 1024 \<le> 18446744073709551616" "unat load + ((p - 4) * 1024 + n) \<le> 18446744073709551616"
    and sep: "separate load ((p - 4) * 1024 + n) kb 1024"
  shows "\<exists>m' b'. load_block kt load n p (m, b) = Inr (m', b') \<and> data_at b' = kb
     \<and> (\<forall>i<n. m' (load + of_nat ((p - 4) * 1024 + i)) = m (disk_base kt + of_nat (p * 1024 + i)))
     \<and> (\<forall>a. \<not> in_range a (load + of_nat ((p - 4) * 1024)) n \<longrightarrow> \<not> in_range a kb 1024 \<longrightarrow> m' a = m a)"
proof -
  let ?src = "disk_base kt + of_nat (p * 1024)" and ?dst = "load + of_nat ((p - 4) * 1024)"
  define m1 where "m1 = memmove m kb ?src 1024"
  define m2 where "m2 = memmove m1 ?dst kb n"
  have src: "unat ?src = unat (disk_base kt) + p * 1024"
    using unat_disk_base [of kt] p by (intro unat_add64_numeral) simp
  have m1: "m1 a = (if in_range a kb 1024 then m (?src + (a - kb)) else m a)" for a
    unfolding m1_def using src unat_disk_base [of kt] p nw(1) by (intro memmove_apply) simp_all
  have dst: "unat ?dst = unat load + (p - 4) * 1024"
    using nw(2) n(1) by (intro unat_add64_numeral) simp
  have m2: "m2 a = (if in_range a ?dst n then m1 (kb + (a - ?dst)) else m1 a)" for a
    unfolding m2_def using dst nw n by (intro memmove_apply) simp_all
  have "m2 (?dst + of_nat i) = m (?src + of_nat i)" if i: "i < n" for i
  proof -
    have "unat (of_nat i :: u64) = i" using i n by (simp add: unat_of_nat)
    then show ?thesis using i n by (simp add: m2 m1)
  qed
  then have "\<forall>i<n. m2 (load + of_nat ((p - 4) * 1024 + i)) = m (disk_base kt + of_nat (p * 1024 + i))"
    by (simp only: of_nat_add add.assoc) simp
  moreover have "load_block kt load n p (m, b) = Inr (m2, b\<lparr>blockno := of_nat p, valid := 1\<rparr>)"
    using p diskaddr_eq [OF p(2)] block_offset [OF p(1)]
    by (simp add: load_block_def kernel_copy_def m1_def m2_def kb_def del: of_nat_mult BSIZE_simps(3))
  moreover have "\<forall>a. \<not> in_range a ?dst n \<longrightarrow> \<not> in_range a kb 1024 \<longrightarrow> m2 a = m a"
    by (simp add: m2 m1)
  ultimately show ?thesis by (simp add: kb_def)
qed

lemma load_blocks_spec:
  fixes b :: buf
  defines "kb \<equiv> data_at b"
  assumes "4 \<le> n" "n \<le> 2000"
    and nw: "unat kb + 1024 \<le> 18446744073709551616" "unat load + (n - 4) * 1024 \<le> 18446744073709551616"
    and sep: "separate load ((n - 4) * 1024) kb 1024" "separate load ((n - 4) * 1024) (disk_base kt) (n * 1024)"
      "separate kb 1024 (disk_base kt) (n * 1024)"
  shows "\<exists>m' b'. foldE (load_block kt load 1024) [4..<n] (m, b) = Inr (m', b') \<and> data_at b' = kb
     \<and> (\<forall>i<(n - 4) * 1024. m' (load + of_nat i) = m (disk_base kt + of_nat (4096 + i)))
     \<and> (\<forall>a. \<not> in_range a load ((n - 4) * 1024) \<longrightarrow> \<not> in_range a kb 1024 \<longrightarrow> m' a = m a)"
  using assms(2-)
proof (induction n rule: dec_induct)
  case base
  then show ?case by (simp add: kb_def)
next
  case (step n)
  then have sz: "(Suc n - 4) * 1024 = (n - 4) * 1024 + 1024" by simp
  have ps: "n \<le> 2000" "unat load + (n - 4) * 1024 \<le> 18446744073709551616"
      "separate load ((n - 4) * 1024) kb 1024" "separate load ((n - 4) * 1024) (disk_base kt) (n * 1024)"
      "separate kb 1024 (disk_base kt) (n * 1024)"
    using step.prems unfolding sz separate_def mult_Suc by linarith+
  obtain m1 b1 where 1: "foldE (load_block kt load 1024) [4..<n] (m, b) = Inr (m1, b1)" "data_at b1 = kb"
      "\<And>i. i < (n - 4) * 1024 \<Longrightarrow> m1 (load + of_nat i) = m (disk_base kt + of_nat (4096 + i))"
      "\<And>a. \<not> in_range a load ((n - 4) * 1024) \<Longrightarrow> \<not> in_range a kb 1024 \<Longrightarrow> m1 a = m a"
    using step.IH [OF ps(1) step.prems(2) ps(2-5)] by blast
  have "\<exists>m2 b2. load_block kt load 1024 n (m1, b1) = Inr (m2, b2) \<and> data_at b2 = data_at b1
     \<and> (\<forall>i<1024. m2 (load + of_nat ((n - 4) * 1024 + i)) = m1 (disk_base kt + of_nat (n * 1024 + i)))
     \<and> (\<forall>a. \<not> in_range a (load + of_nat ((n - 4) * 1024)) 1024 \<longrightarrow> \<not> in_range a (data_at b1) 1024 \<longrightarrow> m2 a = m1 a)"
    by (rule load_block_spec) (use step.hyps step.prems 1(2) sz in simp_all)
  then obtain m2 b2 where 2: "load_block kt load 1024 n (m1, b1) = Inr (m2, b2)" "data_at b2 = kb"
      "\<And>i. i < 1024 \<Longrightarrow> m2 (load + of_nat ((n - 4) * 1024 + i)) = m1 (disk_base kt + of_nat (n * 1024 + i))"
      "\<And>a. \<not> in_range a (load + of_nat ((n - 4) * 1024)) 1024 \<Longrightarrow> \<not> in_range a kb 1024 \<Longrightarrow> m2 a = m1 a"
    unfolding 1(2) by blast
  have src: "m1 (disk_base kt + of_nat i) = m (disk_base kt + of_nat i)" if "i < Suc n * 1024" for i
  proof (rule 1(4))
    have u: "unat (disk_base kt + of_nat i) = unat (disk_base kt) + i"
      using that unat_disk_base [of kt] step.prems(1) by (intro unat_add64_numeral) simp
    show "\<not> in_range (disk_base kt + of_nat i) load ((n - 4) * 1024)"
      using that step.prems(5) u unfolding in_range_nowrap [OF ps(2)] sz separate_def by linarith
    show "\<not> in_range (disk_base kt + of_nat i) kb 1024"
      using that step.prems(6) u unfolding in_range_nowrap [OF step.prems(2)] separate_def by linarith
  qed
  have "m2 (load + of_nat i) = m (disk_base kt + of_nat (4096 + i))" if i: "i < (Suc n - 4) * 1024" for i
  proof (cases "i < (n - 4) * 1024")
    case True
    have u: "unat (load + of_nat i) = unat load + i" "unat (load + of_nat ((n - 4) * 1024)) = unat load + (n - 4) * 1024"
      using i step.prems unfolding sz by (intro unat_add64_numeral; simp)+
    have "\<not> in_range (load + of_nat i) kb 1024" "\<not> in_range (load + of_nat i) (load + of_nat ((n - 4) * 1024)) 1024"
      using True u step.prems unfolding sz by (auto simp: separate_def in_range_nowrap)
    then show ?thesis using 1(3) [OF True] 2(4) by simp
  next
    case False
    then obtain j where j: "i = (n - 4) * 1024 + j" by (metis le_Suc_ex not_less)
    have "m2 (load + of_nat i) = m1 (disk_base kt + of_nat (n * 1024 + j))" using 2(3) [of j] i j sz by simp
    also have "\<dots> = m (disk_base kt + of_nat (n * 1024 + j))" using i j sz step.hyps by (intro src) simp
    also have "n * 1024 + j = 4096 + i" using j step.hyps by simp
    finally show ?thesis .
  qed
  moreover have "m2 a = m a" if "\<not> in_range a load ((Suc n - 4) * 1024)" "\<not> in_range a kb 1024" for a
  proof -
    have "\<not> in_range a load ((n - 4) * 1024)" "\<not> in_range a (load + of_nat ((n - 4) * 1024)) 1024"
      using that(1) in_range_offset [of load "(Suc n - 4) * 1024" 0 "(n - 4) * 1024" a]
        in_range_offset [of load "(Suc n - 4) * 1024" "(n - 4) * 1024" 1024 a] step.prems sz by auto
    then show ?thesis using 1(4) 2(4) that(2) by simp
  qed
  moreover have "foldE (load_block kt load 1024) [4..<Suc n] (m, b) = Inr (m2, b2)"
    using step.hyps 1(1) 2(1) by (simp add: foldE_append)
  ultimately show ?case using 2(2) by blast
qed

subsection \<open>Writing the system information table\<close>

lemma compare_fold:
  assumes "n \<le> 32"
  shows "\<exists>m'. fold (compare_step T si) [0..<n] (True, m) = ((\<forall>i<n. m (si + 64 + of_nat i) = T ! i), m')
     \<and> (\<forall>i<n. m' (si + 32 + of_nat i) = T ! i) \<and> (\<forall>a. \<not> in_range a (si + 32) n \<longrightarrow> m' a = m a)"
  using assms
proof (induction n)
  case (Suc n)
  then obtain m' where IH: "fold (compare_step T si) [0..<n] (True, m) = ((\<forall>i<n. m (si + 64 + of_nat i) = T ! i), m')"
      "\<forall>i<n. m' (si + 32 + of_nat i) = T ! i" "\<forall>a. \<not> in_range a (si + 32) n \<longrightarrow> m' a = m a" by auto
  have "si + 64 + of_nat n - (si + 32) = of_nat (32 + n)" by simp
  then have "unat (si + 64 + of_nat n - (si + 32)) = 32 + n"
    using Suc.prems by (simp only: unat_of_nat) simp
  then have obs: "m' (si + 64 + of_nat n) = m (si + 64 + of_nat n)" using IH(3) by (simp add: in_range_def)
  have ne: "(of_nat i :: u64) \<noteq> of_nat n" if "i < n" for i
    using that Suc.prems by (simp add: word_unat_eq_iff unat_of_nat)
  have f: "fold (compare_step T si) [0..<Suc n] (True, m)
      = ((\<forall>i<n. m (si + 64 + of_nat i) = T ! i) \<and> m (si + 64 + of_nat n) = T ! n, m'(si + 32 + of_nat n := T ! n))"
    using IH(1) obs by (simp add: compare_step_def SI_defs)
  have "\<forall>i<Suc n. (m'(si + 32 + of_nat n := T ! n)) (si + 32 + of_nat i) = T ! i"
    using IH(2) ne by (auto simp: less_Suc_eq)
  moreover have "\<forall>a. \<not> in_range a (si + 32) (Suc n) \<longrightarrow> (m'(si + 32 + of_nat n := T ! n)) a = m a"
    using IH(3) Suc.prems by (simp add: in_range_Suc_right)
  ultimately show ?case unfolding f by (auto simp: less_Suc_eq)
qed simp

lemma length_SHA256 [simp]: "length (SHA256 msg) = 32"
proof -
  have "sum_list (map (\<lambda>_. 4) (xs :: u32 list)) = 4 * length xs" for xs by (induction xs) auto
  then show ?thesis by (simp add: SHA256_def length_concat comp_def length_hash_blocks)
qed

lemma bytes_at_eq_iff: "bytes_at m p n = xs \<longleftrightarrow> length xs = n \<and> (\<forall>i<n. m (p + of_nat i) = xs ! i)"
  by (auto simp: bytes_at_def list_eq_iff_nth_eq)

lemma is_secure_boot_spec:
  fixes s T kb
  defines "h \<equiv> SHA256 (bytes_at (bmem s) RAMDISK (unat (find_kernel_size (bmem s) NORMAL)))"
  assumes "length (sdata (sha256_ctx s)) = 64" "unat (find_kernel_size (bmem s) NORMAL) < 4294967296" "length T = 32"
  shows "\<exists>m ctx. is_secure_boot T kb s = (if h = T then Inr (True, s\<lparr>bmem := m, sha256_ctx := ctx\<rparr>)
        else bindE (setup_recovery_kernel kb (s\<lparr>bmem := m, sha256_ctx := ctx\<rparr>)) (\<lambda>s. Inr (False, s)))
     \<and> bytes_at m (sys_info_ptr s + 64) 32 = h \<and> bytes_at m (sys_info_ptr s + 32) 32 = T
     \<and> (\<forall>a. \<not> in_range a (sys_info_ptr s + 32) 64 \<longrightarrow> m a = bmem s a)"
proof -
  let ?si = "sys_info_ptr s"
  obtain c where c: "sha256_update (bmem s) RAMDISK (find_kernel_size (bmem s) NORMAL) (sha256_init (sha256_ctx s)) = Some c"
      "fst (sha256_final c) = h"
    using sha256_digest_fold [OF assms(2,3)] unfolding h_def by blast
  define m1 where "m1 = put_bytes (bmem s) (?si + 64) h"
  have lh: "length h = 32" by (simp add: h_def)
  have m1: "m1 a = (if in_range a (?si + 64) 32 then h ! unat (a - (?si + 64)) else bmem s a)" for a
    unfolding m1_def by (subst put_bytes_apply) (simp_all add: lh)
  obtain m2 where m2: "fold (compare_step T ?si) [0..<32] (True, m1) = ((\<forall>i<32. m1 (?si + 64 + of_nat i) = T ! i), m2)"
      "\<forall>i<32. m2 (?si + 32 + of_nat i) = T ! i" "\<forall>a. \<not> in_range a (?si + 32) 32 \<longrightarrow> m2 a = m1 a"
    using compare_fold [of 32 T ?si m1] by auto
  have u: "unat (of_nat i :: u64) = i" if "i < 32" for i using that by (simp add: unat_of_nat)
  have o1: "m1 (?si + 64 + of_nat i) = h ! i" if "i < 32" for i using that u by (simp add: m1)
  have v: "(\<forall>i<32. m1 (?si + 64 + of_nat i) = T ! i) \<longleftrightarrow> h = T"
    using o1 lh assms(4) by (auto simp: list_eq_iff_nth_eq)
  have far: "unat (a - (?si + 32)) = 32 + unat (a - (?si + 64))" if "in_range a (?si + 64) 32" for a
  proof -
    have "a - (?si + 32) = 32 + (a - (?si + 64))" by simp
    moreover have "unat (32 + (a - (?si + 64))) = 32 + unat (a - (?si + 64))"
      using that unat_add64 [of 32 "a - (?si + 64)"] by (simp add: in_range_def)
    ultimately show ?thesis by (rule subst [OF sym])
  qed
  have o2: "m2 (?si + 64 + of_nat i) = h ! i" if "i < 32" for i
    using that o1 [OF that] far [of "?si + 64 + of_nat i"] m2(3) u by (simp add: in_range_def)
  have fr: "m2 a = bmem s a" if "\<not> in_range a (?si + 32) 64" for a
    using that m2(3) far [of a] m1 [of a] by (auto simp: in_range_def)
  have "is_secure_boot T kb s = (if h = T then Inr (True, s\<lparr>bmem := m2, sha256_ctx := snd (sha256_final c)\<rparr>)
     else bindE (setup_recovery_kernel kb (s\<lparr>bmem := m2, sha256_ctx := snd (sha256_final c)\<rparr>)) (\<lambda>s. Inr (False, s)))"
    using c m2(1) [unfolded v, unfolded m1_def]
    by (cases "sha256_final c"; cases "h = T") (simp_all add: is_secure_boot_def Let_def SI_defs)
  then show ?thesis using o2 m2(2) fr lh assms(4) by (intro exI [of _ m2] exI [of _ "snd (sha256_final c)"]) (simp add: bytes_at_eq_iff)
qed

subsection \<open>Images in place\<close>

definition SYS_INFO :: u64 where "SYS_INFO = 0x80080000"

definition image_ok :: "kernel \<Rightarrow> mem \<Rightarrow> u64 \<Rightarrow> bool" where
  "image_ok kt m kb \<longleftrightarrow>
     (let size = unat (find_kernel_size m kt); load = find_kernel_load_addr m kt; d = disk_base kt in
      4096 \<le> size \<and> size \<le> 2048000 \<and> unat (eh_ehsize m d) + unat (eh_phoff m d) + 24 \<le> size
      \<and> unat load + size \<le> 18446744073709551616 \<and> unat kb + 1024 \<le> 18446744073709551616
      \<and> separate load (size - 4096) d (size + 1024) \<and> separate kb 1024 d (size + 1024)
      \<and> separate load (size - 4096) kb 1024 \<and> separate SYS_INFO 96 d (size + 1024)
      \<and> separate SYS_INFO 96 load (size - 4096) \<and> separate SYS_INFO 96 kb 1024)"

lemma load64_bytes: "(\<And>i. i < 8 \<Longrightarrow> m' (a + of_nat i) = m (a + of_nat i)) \<Longrightarrow> load64 m' a = load64 m a"
proof (rule load64_cong)
  fix x assume same: "\<And>i. i < 8 \<Longrightarrow> m' (a + of_nat i) = m (a + of_nat i)" and "in_range x a 8"
  then show "m' x = m x" using same [of "unat (x - a)"] by (simp add: in_range_def)
qed

lemma headers_agree:
  assumes "\<And>i. i < n \<Longrightarrow> m' (disk_base kt + of_nat i) = m (disk_base kt + of_nat i)" "64 \<le> n"
    "unat (eh_ehsize m (disk_base kt)) + unat (eh_phoff m (disk_base kt)) + 24 \<le> n"
  shows "find_kernel_size m' kt = find_kernel_size m kt" "find_kernel_entry_addr m' kt = find_kernel_entry_addr m kt"
    "find_kernel_load_addr m' kt = find_kernel_load_addr m kt"
    "eh_ehsize m' (disk_base kt) = eh_ehsize m (disk_base kt)" "eh_phoff m' (disk_base kt) = eh_phoff m (disk_base kt)"
proof -
  let ?d = "disk_base kt"
  have l64: "load64 m' (?d + of_nat k) = load64 m (?d + of_nat k)" if "k + 8 \<le> n" for k
    using that assms(1) by (intro load64_bytes) (simp add: add.assoc flip: of_nat_add)
  have l16: "load16 m' (?d + of_nat k) = load16 m (?d + of_nat k)" if "k + 2 \<le> n" for k
    using that assms(1) [of k] assms(1) [of "k + 1"] by (simp add: load16_def ac_simps)
  have e: "eh_entry m' ?d = eh_entry m ?d" "eh_phoff m' ?d = eh_phoff m ?d" "eh_shoff m' ?d = eh_shoff m ?d"
      "eh_ehsize m' ?d = eh_ehsize m ?d" "eh_shentsize m' ?d = eh_shentsize m ?d" "eh_shnum m' ?d = eh_shnum m ?d"
    unfolding elf_fields using assms(2) l64 [of 24] l64 [of 32] l64 [of 40] l16 [of 52] l16 [of 58] l16 [of 60] by simp_all
  show "find_kernel_size m' kt = find_kernel_size m kt" "find_kernel_entry_addr m' kt = find_kernel_entry_addr m kt"
    "eh_ehsize m' ?d = eh_ehsize m ?d" "eh_phoff m' ?d = eh_phoff m ?d"
    using e by (simp_all add: find_kernel_size_def find_kernel_entry_addr_def)
  let ?o = "unat (eh_ehsize m ?d) + unat (eh_phoff m ?d) + 16"
  have "?d + ucast (eh_ehsize m ?d) + eh_phoff m ?d + 16 = ?d + of_nat ?o"
    by (simp add: unsigned_ucast_eq)
  then show "find_kernel_load_addr m' kt = find_kernel_load_addr m kt"
    using l64 [of ?o] assms(3) e by (simp add: find_kernel_load_addr_def ph_vaddr_def Let_def add.assoc)
qed

definition loaded :: "kernel \<Rightarrow> mem \<Rightarrow> u64 \<Rightarrow> nat \<Rightarrow> mem \<Rightarrow> bool" where
  "loaded kt m kb n m' \<longleftrightarrow> (let load = find_kernel_load_addr m kt in
     bytes_at m' load n = bytes_at m (disk_base kt + 4096) n
     \<and> (\<forall>a. \<not> in_range a load n \<longrightarrow> \<not> in_range a kb 1024 \<longrightarrow> m' a = m a))"

lemma image_okD:
  fixes kt m kb
  defines "ksz \<equiv> unat (find_kernel_size m kt)" and "load \<equiv> find_kernel_load_addr m kt" and "d \<equiv> disk_base kt"
  assumes "image_ok kt m kb"
  shows "4096 \<le> ksz" "ksz \<le> 2048000" "unat (eh_ehsize m d) + unat (eh_phoff m d) + 24 \<le> ksz"
    "unat load + ksz \<le> 18446744073709551616" "unat kb + 1024 \<le> 18446744073709551616"
    "separate load (ksz - 4096) d (ksz + 1024)" "separate kb 1024 d (ksz + 1024)"
    "separate load (ksz - 4096) kb 1024" "separate SYS_INFO 96 d (ksz + 1024)"
    "separate SYS_INFO 96 load (ksz - 4096)" "separate SYS_INFO 96 kb 1024"
  using assms by (auto simp: image_ok_def Let_def)

lemma unat_size_div: "unat (find_kernel_size m kt div BSIZE) = unat (find_kernel_size m kt) div 1024"
  "unat (find_kernel_size m kt mod BSIZE) = unat (find_kernel_size m kt) mod 1024"
  by (simp_all add: unat_div unat_mod)

lemma separate_mono: "separate p n q k \<Longrightarrow> n' \<le> n \<Longrightarrow> k' \<le> k \<Longrightarrow> separate p n' q k'"
  by (auto simp: separate_def)

lemma bytes_at_loaded:
  "(\<forall>i<n. m' (load + of_nat i) = m (d + of_nat (4096 + i))) \<Longrightarrow> bytes_at m' load n = bytes_at m (d + 4096) n"
  by (simp add: bytes_at_def add.assoc)

lemma load_blocks_loaded:
  fixes b :: buf
  assumes ok: "image_ok kt m (data_at b)"
  defines "n \<equiv> unat (find_kernel_size m kt) div 1024"
  shows "\<exists>m' b'. load_blocks kt (find_kernel_load_addr m kt) (find_kernel_size m kt div BSIZE) (m, b) = Inr (m', b')
     \<and> data_at b' = data_at b \<and> loaded kt m (data_at b) ((n - 4) * 1024) m'"
proof -
  note ok = image_okD [OF ok]
  have n: "4 \<le> n" "n \<le> 2000" "n * 1024 \<le> unat (find_kernel_size m kt)" using ok(1,2) by (auto simp: n_def)
  then have n': "(n - 4) * 1024 \<le> unat (find_kernel_size m kt) - 4096" by simp
  have "\<exists>m' b'. foldE (load_block kt (find_kernel_load_addr m kt) 1024) [4..<n] (m, b) = Inr (m', b') \<and> data_at b' = data_at b
     \<and> (\<forall>i<(n - 4) * 1024. m' (find_kernel_load_addr m kt + of_nat i) = m (disk_base kt + of_nat (4096 + i)))
     \<and> (\<forall>a. \<not> in_range a (find_kernel_load_addr m kt) ((n - 4) * 1024) \<longrightarrow> \<not> in_range a (data_at b) 1024 \<longrightarrow> m' a = m a)"
  proof (rule load_blocks_spec [OF n(1,2) ok(5)])
    show "unat (find_kernel_load_addr m kt) + (n - 4) * 1024 \<le> 18446744073709551616" using n' ok(4) by linarith
  qed (use ok(6-8) n(3) n' in \<open>auto elim: separate_mono\<close>)
  then obtain m' b' where "foldE (load_block kt (find_kernel_load_addr m kt) 1024) [4..<n] (m, b) = Inr (m', b')" "data_at b' = data_at b"
     "\<forall>i<(n - 4) * 1024. m' (find_kernel_load_addr m kt + of_nat i) = m (disk_base kt + of_nat (4096 + i))"
     "\<forall>a. \<not> in_range a (find_kernel_load_addr m kt) ((n - 4) * 1024) \<longrightarrow> \<not> in_range a (data_at b) 1024 \<longrightarrow> m' a = m a"
    by blast
  then show ?thesis unfolding n_def
    by (auto simp: load_blocks_def loaded_def unat_size_div Let_def intro: bytes_at_loaded)
qed

lemma setup_recovery_loaded:
  assumes "image_ok RECOVERY (bmem s) kb"
  shows "\<exists>m'. setup_recovery_kernel kb s = Inr (s\<lparr>bmem := m', mepc := find_kernel_entry_addr (bmem s) RECOVERY\<rparr>)
     \<and> loaded RECOVERY (bmem s) kb ((unat (find_kernel_size (bmem s) RECOVERY) div 1024 - 4) * 1024) m'"
  using load_blocks_loaded [of RECOVERY "bmem s" "\<lparr>valid = 0, blockno = 0, data_at = kb\<rparr>"] assms
  by (auto simp: setup_recovery_kernel_def Let_def)

lemma last_block_loaded:
  fixes b :: buf
  assumes ok: "image_ok kt m (data_at b)"
  defines "ksz \<equiv> unat (find_kernel_size m kt)"
  assumes ld: "loaded kt m (data_at b) ((ksz div 1024 - 4) * 1024) m1" and r: "0 < ksz mod 1024"
  shows "\<exists>m' b'. load_block kt (find_kernel_load_addr m kt) (ksz mod 1024) (ksz div 1024) (m1, b) = Inr (m', b')
     \<and> loaded kt m (data_at b) (ksz - 4096) m'"
proof -
  note ok = image_okD [OF ok, folded ksz_def]
  let ?n = "ksz div 1024" and ?r = "ksz mod 1024" and ?load = "find_kernel_load_addr m kt" and ?kb = "data_at b"
  have sz2: "?n * 1024 + ?r = ksz" "?r < 1024" by simp_all
  have n: "4 \<le> ?n" "?n < 2000" using ok(1,2) r sz2 by linarith+
  have sz: "(?n - 4) * 1024 + ?r = ksz - 4096" "?n * 1024 + ?r = ksz"
    using sz2 n unfolding diff_mult_distrib by linarith+
  have nw: "unat ?load + (ksz - 4096) \<le> 18446744073709551616" using ok(4) by linarith
  have "\<exists>m' b'. load_block kt ?load ?r ?n (m1, b) = Inr (m', b') \<and> data_at b' = ?kb
     \<and> (\<forall>i<?r. m' (?load + of_nat ((?n - 4) * 1024 + i)) = m1 (disk_base kt + of_nat (?n * 1024 + i)))
     \<and> (\<forall>a. \<not> in_range a (?load + of_nat ((?n - 4) * 1024)) ?r \<longrightarrow> \<not> in_range a ?kb 1024 \<longrightarrow> m' a = m1 a)"
    by (rule load_block_spec [OF n r]) (use ok(5,8) nw sz in simp_all)
  then obtain m' b' where m': "load_block kt ?load ?r ?n (m1, b) = Inr (m', b')"
     "\<And>i. i < ?r \<Longrightarrow> m' (?load + of_nat ((?n - 4) * 1024 + i)) = m1 (disk_base kt + of_nat (?n * 1024 + i))"
     "\<And>a. \<not> in_range a (?load + of_nat ((?n - 4) * 1024)) ?r \<Longrightarrow> \<not> in_range a ?kb 1024 \<Longrightarrow> m' a = m1 a" by blast
  have m1: "\<And>i. i < (?n - 4) * 1024 \<Longrightarrow> m1 (?load + of_nat i) = m (disk_base kt + of_nat (4096 + i))"
     "\<And>a. \<not> in_range a ?load ((?n - 4) * 1024) \<Longrightarrow> \<not> in_range a ?kb 1024 \<Longrightarrow> m1 a = m a"
    using ld by (auto simp: loaded_def Let_def bytes_at_def add.assoc)
  have nw1: "unat ?load + (?n - 4) * 1024 \<le> 18446744073709551616" using nw sz by linarith
  have "m' (?load + of_nat i) = m (disk_base kt + of_nat (4096 + i))" if i: "i < ksz - 4096" for i
  proof (cases "i < (?n - 4) * 1024")
    case True
    have u: "unat (?load + of_nat i) = unat ?load + i" "unat (?load + of_nat ((?n - 4) * 1024)) = unat ?load + (?n - 4) * 1024"
      using i nw sz r by (intro unat_add64_numeral; linarith)+
    have "\<not> in_range (?load + of_nat i) (?load + of_nat ((?n - 4) * 1024)) ?r"
      using True u nw sz by (subst in_range_nowrap; linarith)
    moreover have "\<not> in_range (?load + of_nat i) ?kb 1024"
      using i u ok(8) unfolding in_range_nowrap [OF ok(5)] separate_def by linarith
    ultimately show ?thesis using m'(3) m1(1) [OF True] by simp
  next
    case False
    then obtain j where j: "i = (?n - 4) * 1024 + j" by (metis le_Suc_ex not_less)
    then have jr: "j < ?r" using i sz by linarith
    have u: "unat (disk_base kt + of_nat (?n * 1024 + j)) = unat (disk_base kt) + (?n * 1024 + j)"
      using unat_disk_base [of kt] ok(2) jr sz by (intro unat_add64_numeral) linarith
    have "\<not> in_range (disk_base kt + of_nat (?n * 1024 + j)) ?load ((?n - 4) * 1024)"
      using u ok(6) jr sz unfolding in_range_nowrap [OF nw1] separate_def by linarith
    moreover have "\<not> in_range (disk_base kt + of_nat (?n * 1024 + j)) ?kb 1024"
      using u ok(7) jr sz unfolding in_range_nowrap [OF ok(5)] separate_def by linarith
    moreover have "?n * 1024 + j = 4096 + i" using j n(1) by (simp add: diff_mult_distrib)
    ultimately show ?thesis using m'(2) [OF jr] m1(2) j by simp
  qed
  moreover have "m' a = m a" if a: "\<not> in_range a ?load (ksz - 4096)" "\<not> in_range a ?kb 1024" for a
  proof -
    have "\<not> in_range a (?load + of_nat ((?n - 4) * 1024)) ?r" "\<not> in_range a ?load ((?n - 4) * 1024)"
      using a(1) in_range_offset [of ?load "ksz - 4096" "(?n - 4) * 1024" ?r a]
        in_range_offset [of ?load "ksz - 4096" 0 "(?n - 4) * 1024" a] nw sz by auto
    then show ?thesis using m'(3) m1(2) a(2) by simp
  qed
  ultimately have "loaded kt m ?kb (ksz - 4096) m'"
    by (auto simp: loaded_def Let_def intro: bytes_at_loaded)
  then show ?thesis using m'(1) by blast
qed

lemma load_normal_loaded:
  assumes ok: "image_ok NORMAL (bmem s) kb"
  defines "ksz \<equiv> unat (find_kernel_size (bmem s) NORMAL)"
  shows "\<exists>m'. load_normal_kernel kb s = Inr (s\<lparr>bmem := m', mepc := find_kernel_entry_addr (bmem s) NORMAL\<rparr>)
     \<and> loaded NORMAL (bmem s) kb (ksz - 4096) m'"
proof -
  let ?load = "find_kernel_load_addr (bmem s) NORMAL"
  obtain m1 b1 where 1: "load_blocks NORMAL ?load (find_kernel_size (bmem s) NORMAL div BSIZE)
        (bmem s, \<lparr>valid = 0, blockno = 0, data_at = kb\<rparr>) = Inr (m1, b1)" "data_at b1 = kb"
      "loaded NORMAL (bmem s) kb ((ksz div 1024 - 4) * 1024) m1"
    using load_blocks_loaded [of NORMAL "bmem s" "\<lparr>valid = 0, blockno = 0, data_at = kb\<rparr>"] ok
    by (auto simp: ksz_def)
  show ?thesis
  proof (cases "ksz mod 1024 = 0")
    case True
    then have "find_kernel_size (bmem s) NORMAL mod BSIZE = 0"
      by (simp add: unat_eq_iff64 unat_size_div ksz_def)
    moreover have "(ksz div 1024 - 4) * 1024 = ksz - 4096"
      using True div_mult_mod_eq [of ksz 1024] by (simp add: diff_mult_distrib)
    ultimately show ?thesis using 1 by (auto simp: load_normal_kernel_def Let_def)
  next
    case False
    then have nz: "find_kernel_size (bmem s) NORMAL mod BSIZE \<noteq> 0"
      by (simp add: unat_eq_iff64 unat_size_div ksz_def)
    obtain m' b' where "load_block NORMAL ?load (ksz mod 1024) (ksz div 1024) (m1, b1) = Inr (m', b')"
        "loaded NORMAL (bmem s) kb (ksz - 4096) m'"
      using last_block_loaded [of NORMAL "bmem s" b1 m1] ok 1 False by (auto simp: ksz_def)
    then show ?thesis using 1 nz by (auto simp: load_normal_kernel_def Let_def unat_size_div ksz_def)
  qed
qed

subsection \<open>From reset to the kernel\<close>

lemma unat_SYS_INFO [simp]: "unat SYS_INFO = 2148007936"
  by (simp add: SYS_INFO_def)

lemma image_sys_info:
  assumes ok: "image_ok kt m kb" and same: "\<And>a. \<not> in_range a SYS_INFO 96 \<Longrightarrow> m1 a = m a"
  shows "image_ok kt m1 kb" "find_kernel_size m1 kt = find_kernel_size m kt"
    "find_kernel_entry_addr m1 kt = find_kernel_entry_addr m kt"
    "find_kernel_load_addr m1 kt = find_kernel_load_addr m kt"
    "i < unat (find_kernel_size m kt) \<Longrightarrow> m1 (disk_base kt + of_nat i) = m (disk_base kt + of_nat i)"
proof -
  note d = image_okD [OF ok]
  have eq: "m1 (disk_base kt + of_nat i) = m (disk_base kt + of_nat i)" if "i < unat (find_kernel_size m kt)" for i
  proof (rule same)
    have "unat (disk_base kt + of_nat i) = unat (disk_base kt) + i"
      using that d(2) unat_disk_base [of kt] by (intro unat_add64_numeral) linarith
    then show "\<not> in_range (disk_base kt + of_nat i) SYS_INFO 96"
      using that d(9) by (subst in_range_nowrap) (auto simp: separate_def)
  qed
  note h = headers_agree [of "unat (find_kernel_size m kt)" m1 kt m, OF eq _ d(3)]
  show "find_kernel_size m1 kt = find_kernel_size m kt"
    "find_kernel_entry_addr m1 kt = find_kernel_entry_addr m kt"
    "find_kernel_load_addr m1 kt = find_kernel_load_addr m kt" using h(1-3) d(1) by simp_all
  then show "image_ok kt m1 kb" using ok h(4,5) d(1) by (simp add: image_ok_def Let_def)
  show "i < unat (find_kernel_size m kt) \<Longrightarrow> m1 (disk_base kt + of_nat i) = m (disk_base kt + of_nat i)" by (rule eq)
qed

lemma start_out_simps [simp]:
  "bpc (start_out e p s) = mepc s" "bprv (start_out e p s) = drop_bit 11 (mstatus s) AND 3"
  by (simp_all add: start_out_def mret_def Let_def)

lemma start_out_mem:
  assumes "sys_info_ptr s = SYS_INFO" "\<not> in_range a SYS_INFO 32"
  shows "bmem (start_out e p s) a = bmem s a"
proof -
  have "\<not> in_range a SYS_INFO 8" "\<not> in_range a (SYS_INFO + 8) 8" "\<not> in_range a (SYS_INFO + 16) 8" "\<not> in_range a (SYS_INFO + 24) 8"
    using assms(2) in_range_offset [of SYS_INFO 32 0 8 a] in_range_offset [of SYS_INFO 32 8 8 a]
      in_range_offset [of SYS_INFO 32 16 8 a] in_range_offset [of SYS_INFO 32 24 8 a] by auto
  then show ?thesis using assms(1) by (simp add: start_out_def mret_def Let_def SI_defs store64_other)
qed

lemma set_pmp_simps [simp]:
  "bmem (set_pmp v s) = bmem s" "sha256_ctx (set_pmp v s) = sha256_ctx s" "sys_info_ptr (set_pmp v s) = sys_info_ptr s"
  "mstatus (set_pmp v s) = mstatus s"
  by (simp_all add: set_pmp_def Let_def)

lemma mpp_supervisor: "drop_bit 11 ((x AND NOT MSTATUS_MPP_MASK) OR MSTATUS_MPP_S) AND 3 = 1"
proof -
  have three: "(3 :: u64) = mask 2" by (simp add: mask_eq_exp_minus_1)
  show ?thesis unfolding MSTATUS_MPP_MASK_def MSTATUS_MPP_S_def three
    by (rule bit_word_eqI) (auto simp: bit_simps bit_1_iff)
qed

text \<open>What the loader leaves in memory once an image is loaded and the table filled in.\<close>

lemma loaded_published:
  assumes ok: "image_ok kt m kb" and same: "\<And>a. \<not> in_range a (SYS_INFO + 32) 64 \<Longrightarrow> m1 a = m a"
    and ld: "loaded kt m1 kb n m2" and n: "n \<le> unat (find_kernel_size m kt) - 4096"
    and m3: "\<And>a. \<not> in_range a SYS_INFO 32 \<Longrightarrow> m3 a = m2 a"
  shows "bytes_at m3 (find_kernel_load_addr m kt) n = bytes_at m (disk_base kt + 4096) n"
    "bytes_at m3 (SYS_INFO + 32) 32 = bytes_at m1 (SYS_INFO + 32) 32"
    "bytes_at m3 (SYS_INFO + 64) 32 = bytes_at m1 (SYS_INFO + 64) 32"
    "\<lbrakk>n \<le> i; i < unat (find_kernel_size m kt) - 4096\<rbrakk>
      \<Longrightarrow> m3 (find_kernel_load_addr m kt + of_nat i) = m (find_kernel_load_addr m kt + of_nat i)"
proof -
  note d = image_okD [OF ok]
  let ?l = "find_kernel_load_addr m kt" and ?n = "unat (find_kernel_size m kt) - 4096"
  have same': "m1 a = m a" if "\<not> in_range a SYS_INFO 96" for a
    using that in_range_offset [of SYS_INFO 96 32 64 a] by (intro same) auto
  note im = image_sys_info [OF ok, of m1, OF same']
  have m3': "m3 a = m2 a" if "\<not> in_range a SYS_INFO 96" for a
    using that in_range_offset [of SYS_INFO 96 0 32 a] by (intro m3) auto
  have m2: "bytes_at m2 ?l n = bytes_at m1 (disk_base kt + 4096) n"
      "\<And>a. \<not> in_range a ?l n \<Longrightarrow> \<not> in_range a kb 1024 \<Longrightarrow> m2 a = m1 a"
    using ld by (auto simp: loaded_def Let_def im(4))
  have nw: "unat ?l + ?n \<le> 18446744073709551616" using d(4) by linarith
  have lo: "unat (?l + of_nat i) = unat ?l + i" if "i < ?n" for i
    using that nw by (intro unat_add64_numeral) linarith
  have away: "\<not> in_range (?l + of_nat i) SYS_INFO 96" "\<not> in_range (?l + of_nat i) kb 1024" if "i < ?n" for i
    using that lo [OF that] d(8,10,5) by (auto simp: in_range_nowrap separate_def)
  have "bytes_at m3 ?l n = bytes_at m2 ?l n"
    using n away by (intro bytes_at_cong m3') simp
  also have "\<dots> = bytes_at m (disk_base kt + 4096) n"
    unfolding m2(1) using n im(5) [of "4096 + i" for i] by (intro bytes_at_cong) (simp add: add.assoc)
  finally show "bytes_at m3 ?l n = bytes_at m (disk_base kt + 4096) n" .
  have sys: "m3 a = m1 a" if "in_range a SYS_INFO 96" "\<not> in_range a SYS_INFO 32" for a
  proof -
    have "\<not> in_range a ?l ?n" "\<not> in_range a kb 1024"
      using that(1) d(10,11) d(5) nw by (auto simp: in_range_nowrap separate_def)
    then have "\<not> in_range a ?l n" using n by (simp add: in_range_def)
    then show ?thesis using m3 [OF that(2)] m2(2) \<open>\<not> in_range a kb 1024\<close> by simp
  qed
  have off: "in_range (SYS_INFO + of_nat k + of_nat i) SYS_INFO 96 \<and> \<not> in_range (SYS_INFO + of_nat k + of_nat i) SYS_INFO 32"
    if "k + i < 96" "32 \<le> k" for k i
    using that by (simp add: add.assoc unat_of_nat flip: of_nat_add)
  show "bytes_at m3 (SYS_INFO + 32) 32 = bytes_at m1 (SYS_INFO + 32) 32"
    "bytes_at m3 (SYS_INFO + 64) 32 = bytes_at m1 (SYS_INFO + 64) 32"
    using sys off [of 32] off [of 64] by (auto intro!: bytes_at_cong)
  show "m3 (?l + of_nat i) = m (?l + of_nat i)" if i: "n \<le> i" "i < ?n"
  proof -
    have "unat (of_nat i :: u64) = i" using i(2) d(2) by (simp add: unat_of_nat)
    then have "\<not> in_range (?l + of_nat i) ?l n" using i(1) by simp
    then show ?thesis using m3' m2(2) same' away [OF i(2)] by simp
  qed
qed

lemma start_unfold:
  fixes s T v hart
  defines "s0 \<equiv> set_pmp v (s\<lparr>sys_info_ptr := 0x80080000, tp := scast (ucast hart :: u32),
      mstatus := (mstatus s AND NOT MSTATUS_MPP_MASK) OR MSTATUS_MPP_S, satp := 0\<rparr>)"
  shows "start T v hart kb e pa s = bindE (is_secure_boot T kb s0) (\<lambda>(verification, s).
        bindE (if verification then load_normal_kernel kb s else Inr s) (\<lambda>s. Inr (start_out e pa s)))"
    "bmem s0 = bmem s" "sys_info_ptr s0 = SYS_INFO" "sha256_ctx s0 = sha256_ctx s"
    "drop_bit 11 (mstatus s0) AND 3 = 1"
  using mpp_supervisor [of "mstatus s"]
  by (simp_all add: start_def s0_def SYS_INFO_def Let_def)

lemma start_trusted:
  fixes s v hart kb e pa T
  defines "n \<equiv> unat (find_kernel_size (bmem s) NORMAL)"
  assumes ok: "image_ok NORMAL (bmem s) kb" and "length (sdata (sha256_ctx s)) = 64" "length T = 32"
    and match: "SHA256 (bytes_at (bmem s) RAMDISK n) = T"
  shows "\<exists>s'. start T v hart kb e pa s = Inr s' \<and> bprv s' = 1 \<and> bpc s' = find_kernel_entry_addr (bmem s) NORMAL
     \<and> bytes_at (bmem s') (find_kernel_load_addr (bmem s) NORMAL) (n - 4096) = bytes_at (bmem s) (RAMDISK + 4096) (n - 4096)
     \<and> bytes_at (bmem s') (SYS_INFO + SI_expected) 32 = T \<and> bytes_at (bmem s') (SYS_INFO + SI_observed) 32 = T"
proof -
  define s0 where "s0 = set_pmp v (s\<lparr>sys_info_ptr := 0x80080000, tp := scast (ucast hart :: u32),
      mstatus := (mstatus s AND NOT MSTATUS_MPP_MASK) OR MSTATUS_MPP_S, satp := 0\<rparr>)"
  note st1 = start_unfold(1) [where T = T and v = v and hart = hart and kb = kb and e = e and pa = pa and s = s, folded s0_def]
  note st = start_unfold [where v = v and hart = hart and s = s, folded s0_def]
  have lt: "unat (find_kernel_size (bmem s) NORMAL) < 4294967296" using image_okD(2) [OF ok] by simp
  obtain m ctx where m: "is_secure_boot T kb s0 = Inr (True, s0\<lparr>bmem := m, sha256_ctx := ctx\<rparr>)"
      "bytes_at m (SYS_INFO + 64) 32 = T" "bytes_at m (SYS_INFO + 32) 32 = T"
      "\<And>a. \<not> in_range a (SYS_INFO + 32) 64 \<Longrightarrow> m a = bmem s a"
    using is_secure_boot_spec [of s0 T kb] assms(3,4) match lt unfolding st(2-4) n_def by auto
  have same: "m a = bmem s a" if "\<not> in_range a SYS_INFO 96" for a
    using that in_range_offset [of SYS_INFO 96 32 64 a] by (intro m(4)) auto
  note im = image_sys_info [OF ok, of m, OF same]
  let ?s1 = "s0\<lparr>bmem := m, sha256_ctx := ctx\<rparr>"
  have ok1: "image_ok NORMAL (bmem ?s1) kb" using im(1) by simp
  obtain m2 where m2: "load_normal_kernel kb ?s1 = Inr (?s1\<lparr>bmem := m2, mepc := find_kernel_entry_addr m NORMAL\<rparr>)"
      "loaded NORMAL m kb (n - 4096) m2"
    using load_normal_loaded [OF ok1] im(2) by (auto simp: n_def)
  define s2 where "s2 = ?s1\<lparr>bmem := m2, mepc := find_kernel_entry_addr m NORMAL\<rparr>"
  have fr: "bmem (start_out e pa s2) a = m2 a" if "\<not> in_range a SYS_INFO 32" for a
    using that st(3) by (subst start_out_mem) (simp_all add: s2_def)
  have pub: "bytes_at (bmem (start_out e pa s2)) (find_kernel_load_addr (bmem s) NORMAL) (n - 4096)
        = bytes_at (bmem s) (disk_base NORMAL + 4096) (n - 4096)"
      "bytes_at (bmem (start_out e pa s2)) (SYS_INFO + 32) 32 = bytes_at m (SYS_INFO + 32) 32"
      "bytes_at (bmem (start_out e pa s2)) (SYS_INFO + 64) 32 = bytes_at m (SYS_INFO + 64) 32"
    using loaded_published [OF ok m(4) m2(2) _ fr] unfolding n_def by blast+
  have "start T v hart kb e pa s = Inr (start_out e pa s2)" using st1 m(1) m2(1) by (simp add: s2_def)
  then show ?thesis using pub m(2,3) im(3) st(5)
    by (simp add: s2_def SI_defs disk_base_def)
qed

lemma start_recovery:
  fixes s v hart kb e pa T
  defines "n \<equiv> unat (find_kernel_size (bmem s) RECOVERY)" and "load \<equiv> find_kernel_load_addr (bmem s) RECOVERY"
  assumes ok: "image_ok RECOVERY (bmem s) kb" and "length (sdata (sha256_ctx s)) = 64" "length T = 32"
    and lt: "unat (find_kernel_size (bmem s) NORMAL) < 4294967296"
    and match: "SHA256 (bytes_at (bmem s) RAMDISK (unat (find_kernel_size (bmem s) NORMAL))) \<noteq> T"
  shows "\<exists>s'. start T v hart kb e pa s = Inr s' \<and> bprv s' = 1 \<and> bpc s' = find_kernel_entry_addr (bmem s) RECOVERY
     \<and> bytes_at (bmem s') load (n div 1024 * 1024 - 4096) = bytes_at (bmem s) (RECOVERYDISK + 4096) (n div 1024 * 1024 - 4096)
     \<and> (\<forall>i. n div 1024 * 1024 - 4096 \<le> i \<and> i < n - 4096 \<longrightarrow> bmem s' (load + of_nat i) = bmem s (load + of_nat i))
     \<and> bytes_at (bmem s') (SYS_INFO + SI_expected) 32 = T"
proof -
  define s0 where "s0 = set_pmp v (s\<lparr>sys_info_ptr := 0x80080000, tp := scast (ucast hart :: u32),
      mstatus := (mstatus s AND NOT MSTATUS_MPP_MASK) OR MSTATUS_MPP_S, satp := 0\<rparr>)"
  note st1 = start_unfold(1) [where T = T and v = v and hart = hart and kb = kb and e = e and pa = pa and s = s, folded s0_def]
  note st = start_unfold [where v = v and hart = hart and s = s, folded s0_def]
  obtain m ctx where m: "is_secure_boot T kb s0
        = bindE (setup_recovery_kernel kb (s0\<lparr>bmem := m, sha256_ctx := ctx\<rparr>)) (\<lambda>s. Inr (False, s))"
      "bytes_at m (SYS_INFO + 32) 32 = T" "\<And>a. \<not> in_range a (SYS_INFO + 32) 64 \<Longrightarrow> m a = bmem s a"
    using is_secure_boot_spec [of s0 T kb] assms(4,5) match lt unfolding st(2-4) by auto
  have same: "m a = bmem s a" if "\<not> in_range a SYS_INFO 96" for a
    using that in_range_offset [of SYS_INFO 96 32 64 a] by (intro m(3)) auto
  note im = image_sys_info [OF ok, of m, OF same]
  let ?s1 = "s0\<lparr>bmem := m, sha256_ctx := ctx\<rparr>" and ?k = "n div 1024 * 1024 - 4096"
  have ok1: "image_ok RECOVERY (bmem ?s1) kb" using im(1) by simp
  have k: "(n div 1024 - 4) * 1024 = ?k" by (simp add: diff_mult_distrib)
  have kn: "?k \<le> unat (find_kernel_size (bmem s) RECOVERY) - 4096"
    unfolding n_def by (intro diff_le_mono) simp
  obtain m2 where m2: "setup_recovery_kernel kb ?s1 = Inr (?s1\<lparr>bmem := m2, mepc := find_kernel_entry_addr m RECOVERY\<rparr>)"
      "loaded RECOVERY m kb ?k m2"
    using setup_recovery_loaded [OF ok1] im(2) k unfolding n_def by auto
  define s2 where "s2 = ?s1\<lparr>bmem := m2, mepc := find_kernel_entry_addr m RECOVERY\<rparr>"
  have fr: "bmem (start_out e pa s2) a = m2 a" if "\<not> in_range a SYS_INFO 32" for a
    using that st(3) by (subst start_out_mem) (simp_all add: s2_def)
  have pub: "bytes_at (bmem (start_out e pa s2)) (find_kernel_load_addr (bmem s) RECOVERY) ?k
        = bytes_at (bmem s) (disk_base RECOVERY + 4096) ?k"
      "bytes_at (bmem (start_out e pa s2)) (SYS_INFO + 32) 32 = bytes_at m (SYS_INFO + 32) 32"
      "\<forall>i. ?k \<le> i \<and> i < unat (find_kernel_size (bmem s) RECOVERY) - 4096 \<longrightarrow> bmem (start_out e pa s2) (load + of_nat i) = bmem s (load + of_nat i)"
    using loaded_published [OF ok m(3) m2(2) kn fr] unfolding load_def by blast+
  have "start T v hart kb e pa s = Inr (start_out e pa s2)" using st1 m(1) m2(1) by (simp add: s2_def)
  then show ?thesis using pub m(2) im(3) st(5)
    by (simp add: s2_def SI_defs disk_base_def load_def n_def)
qed

text \<open>A small image: header and program header at the start, 5000 bytes long, entry and load address
  \<open>0x80000000\<close>.\<close>

definition demo_image :: "u64 \<Rightarrow> mem" where
  "demo_image d = (\<lambda>_. 0)(d + 27 := 0x80, d + 40 := 0x88, d + 41 := 0x13, d + 52 := 0x40, d + 83 := 0x80)"

definition demo_boot :: "mem \<Rightarrow> boot" where
  "demo_boot m = \<lparr>bmem = m, sha256_ctx = \<lparr>sdata = replicate 64 0, datalen = 0, bitlen = 0, hstate = []\<rparr>,
     sys_info_ptr = 0, tp = 0, ra = 0, mstatus = 0, mepc = 0, satp = 0, sie = 0, medeleg = 0, mideleg = 0,
     pmpcfg0 = 0, pmpaddr = replicate 16 0, bpc = 0, bprv = 3\<rparr>"

lemma demo_image_headers:
  "find_kernel_size (demo_image (disk_base kt)) kt = 5000"
  "find_kernel_load_addr (demo_image (disk_base kt)) kt = 0x80000000"
  "find_kernel_entry_addr (demo_image (disk_base kt)) kt = 0x80000000"
  "eh_ehsize (demo_image (disk_base kt)) (disk_base kt) = 64" "eh_phoff (demo_image (disk_base kt)) (disk_base kt) = 0"
  by (simp_all add: demo_image_def find_kernel_size_def find_kernel_load_addr_def find_kernel_entry_addr_def elf_fields
      load64_def load16_def Let_def add.assoc)

lemma demo_image_ok: "image_ok kt (demo_image (disk_base kt)) 0x80090000"
  unfolding image_ok_def Let_def demo_image_headers
  by (cases kt) (simp_all add: separate_def disk_base_def RAMDISK_def RECOVERYDISK_def)

subsection \<open>Physical memory protection\<close>

text \<open>The rule of the privileged architecture for supervisor accesses: the first entry that matches
  an address decides, and an address no entry matches is refused.\<close>

definition pmp_cfg :: "boot \<Rightarrow> nat \<Rightarrow> u64" where
  "pmp_cfg s i = drop_bit (8 * i) (pmpcfg0 s) AND 0xff"

definition pmp_hit :: "boot \<Rightarrow> u64 \<Rightarrow> nat \<Rightarrow> bool" where
  "pmp_hit s a i =
     (let A = drop_bit 3 (pmp_cfg s i) AND 3; p = pmpaddr s ! i; x = drop_bit 2 a; k = p XOR (p + 1) in
      if A = 0 then False
      else if A = 1 then (if i = 0 then 0 else pmpaddr s ! (i - 1)) \<le> x \<and> x < p
      else if A = 2 then x = p
      else x AND NOT k = p AND NOT k)"

definition pmp_allows :: "boot \<Rightarrow> u64 \<Rightarrow> bool" where
  "pmp_allows s a = (case find (pmp_hit s a) [0..<8] of None \<Rightarrow> False | Some i \<Rightarrow> pmp_cfg s i AND 7 = 7)"

definition pmp_region :: "version \<Rightarrow> u64 \<Rightarrow> bool" where
  "pmp_region v a \<longleftrightarrow>
     (if v = KERNELPMP1 then a < KERNBASE + 117 * 1024 * 1024
      else if v = KERNELPMP2 then a < KERNBASE + 118 * 1024 * 1024
        \<or> KERNBASE + 120 * 1024 * 1024 \<le> a \<and> a < KERNBASE + 122 * 1024 * 1024
        \<or> KERNBASE + 126 * 1024 * 1024 \<le> a \<and> a < KERNBASE + 128 * 1024 * 1024
      else a < 0xfffffffffffffc)"

lemma upt8: "[0..<8] = [0, 1, 2, 3, 4, 5, 6, 7 :: nat]"
  by (simp add: upt_conv_Cons)

lemma unat_clear_low: "unat (x AND NOT (mask n) :: u64) = unat x div 2 ^ n * 2 ^ n"
proof -
  have "x AND NOT (mask n) = push_bit n (drop_bit n x)"
    by (rule bit_word_eqI) (auto simp: bit_simps)
  moreover have "unat x div 2 ^ n * 2 ^ n < 2 ^ 64"
    by (rule le_less_trans [OF div_times_less_eq_dividend]) simp
  ultimately show ?thesis
    by (simp only: unsigned_push_bit_eq unat_drop64) (simp add: push_bit_eq_mult take_bit_nat_eq_self)
qed

lemma napot_2MB: "drop_bit 2 a AND - 524288 = (c :: u64) \<longleftrightarrow> unat a div 2097152 * 524288 = unat c"
proof -
  have "(- 524288 :: u64) = NOT (mask 19)" by (simp add: mask_eq_exp_minus_1)
  then have "unat (drop_bit 2 a AND - 524288) = unat a div 2097152 * 524288"
    using unat_clear_low [of "drop_bit 2 a" 19] by (simp add: unat_drop64 div_mult2_eq [symmetric])
  then show ?thesis by (simp add: unat_eq_iff64)
qed

lemma div_eq_interval: "0 < k \<Longrightarrow> (a :: nat) div k = q \<longleftrightarrow> q * k \<le> a \<and> a < q * k + k"
  by (metis add.commute div_nat_eqI div_times_less_eq_dividend dividend_less_div_times mult.commute mult_Suc)

lemma set_pmp_allows:
  assumes "length (pmpaddr s) = 16"
  shows "pmp_allows (set_pmp v s) a = pmp_region v a"
proof -
  have n: "unat a div 2097152 * 524288 = 569901056 \<longleftrightarrow> unat a div 2097152 = 1087"
     "unat a div 2097152 * 524288 = 568328192 \<longleftrightarrow> unat a div 2097152 = 1084" by linarith+
  show ?thesis
    using assms
    by (cases v) (auto simp: pmp_allows_def upt8 pmp_hit_def pmp_cfg_def set_pmp_def Let_def pmp_region_def
        KERNBASE_def word_less_nat_alt word_le_nat_alt unat_drop64 div_less_iff_less_mult napot_2MB n div_eq_interval)
qed

lemma start_pmp:
  assumes "start T v hart kb e pa s = Inr s'" "length (pmpaddr s) = 16"
  shows "pmp_allows s' a = pmp_region v a"
proof -
  define s0 where "s0 = s\<lparr>sys_info_ptr := 0x80080000, tp := scast (ucast hart :: u32),
      mstatus := (mstatus s AND NOT MSTATUS_MPP_MASK) OR MSTATUS_MPP_S, satp := 0\<rparr>"
  have "pmpcfg0 s' = pmpcfg0 (set_pmp v s0) \<and> pmpaddr s' = pmpaddr (set_pmp v s0)"
    using assms(1)
    by (auto simp: start_def is_secure_boot_def setup_recovery_kernel_def load_normal_kernel_def start_out_def mret_def
        Let_def s0_def split: option.splits prod.splits if_splits)
  then have c: "pmp_cfg s' = pmp_cfg (set_pmp v s0)" and "pmpaddr s' = pmpaddr (set_pmp v s0)"
    by (simp_all add: fun_eq_iff pmp_cfg_def)
  then have "pmp_hit s' a = pmp_hit (set_pmp v s0) a" by (simp only: fun_eq_iff pmp_hit_def) simp
  then have "pmp_allows s' a = pmp_allows (set_pmp v s0) a" by (simp only: pmp_allows_def c)
  also have "\<dots> = pmp_region v a" using assms(2) by (intro set_pmp_allows) (simp add: s0_def)
  finally show ?thesis .
qed

subsection \<open>Properties\<close>

text \<open>C9: when the digest of the normal kernel image is the trusted one, \<open>start\<close> returns to the entry
  point of that image in supervisor mode, with the image from its second page on loaded to the last
  byte at the address its program header names, and the expected and observed digests published in the
  system information table.\<close>

theorem start_boots_trusted_kernel:
  fixes s v hart kb e pa T
  defines "n \<equiv> unat (find_kernel_size (bmem s) NORMAL)"
  assumes "image_ok NORMAL (bmem s) kb" "length (sdata (sha256_ctx s)) = 64" "length T = 32"
    and "SHA256 (bytes_at (bmem s) RAMDISK n) = T"
  shows "\<exists>s'. start T v hart kb e pa s = Inr s' \<and> bprv s' = 1 \<and> bpc s' = find_kernel_entry_addr (bmem s) NORMAL
     \<and> bytes_at (bmem s') (find_kernel_load_addr (bmem s) NORMAL) (n - 4096) = bytes_at (bmem s) (RAMDISK + 4096) (n - 4096)
     \<and> bytes_at (bmem s') (SYS_INFO + SI_expected) 32 = T \<and> bytes_at (bmem s') (SYS_INFO + SI_observed) 32 = T"
  using start_trusted assms unfolding n_def by blast

theorem start_boots_trusted_kernel_witness:
  "\<exists>s'. start (SHA256 (bytes_at (demo_image RAMDISK) RAMDISK 5000)) KERNEL2 0 0x80090000 0x80004000 0x80000100
       (demo_boot (demo_image RAMDISK)) = Inr s' \<and> bprv s' = 1 \<and> bpc s' = 0x80000000
     \<and> bytes_at (bmem s') 0x80000000 904 = bytes_at (demo_image RAMDISK) (RAMDISK + 4096) 904"
  using start_boots_trusted_kernel [of "demo_boot (demo_image RAMDISK)" "0x80090000"
      "SHA256 (bytes_at (demo_image RAMDISK) RAMDISK 5000)" KERNEL2 0 "0x80004000" "0x80000100"]
    demo_image_ok [of NORMAL] demo_image_headers [of NORMAL]
  by (simp add: demo_boot_def disk_base_def) blast

text \<open>When the digest of the normal image differs from the trusted one, \<open>start\<close> never enters it: it
  leaves for the entry point of the recovery image, of which exactly the whole 1024-byte blocks from
  the second page on are loaded; the bytes of a last partial block are not (unlike for the normal kernel).\<close>

theorem start_falls_back_to_recovery:
  fixes s v hart kb e pa T
  defines "n \<equiv> unat (find_kernel_size (bmem s) RECOVERY)" and "load \<equiv> find_kernel_load_addr (bmem s) RECOVERY"
  assumes "image_ok RECOVERY (bmem s) kb" "length (sdata (sha256_ctx s)) = 64" "length T = 32"
    and "unat (find_kernel_size (bmem s) NORMAL) < 4294967296"
    and "SHA256 (bytes_at (bmem s) RAMDISK (unat (find_kernel_size (bmem s) NORMAL))) \<noteq> T"
  shows "\<exists>s'. start T v hart kb e pa s = Inr s' \<and> bprv s' = 1 \<and> bpc s' = find_kernel_entry_addr (bmem s) RECOVERY
     \<and> bytes_at (bmem s') load (n div 1024 * 1024 - 4096) = bytes_at (bmem s) (RECOVERYDISK + 4096) (n div 1024 * 1024 - 4096)
     \<and> (\<forall>i. n div 1024 * 1024 - 4096 \<le> i \<and> i < n - 4096 \<longrightarrow> bmem s' (load + of_nat i) = bmem s (load + of_nat i))
     \<and> bytes_at (bmem s') (SYS_INFO + SI_expected) 32 = T"
  using start_recovery assms unfolding n_def load_def by blast

lemma demo_recovery_normal_size: "find_kernel_size (demo_image RECOVERYDISK) NORMAL = 0"
  by (simp add: demo_image_def find_kernel_size_def elf_fields load64_def load16_def Let_def disk_base_def
      RAMDISK_def RECOVERYDISK_def)

lemma complement_differs: "SHA256 msg \<noteq> map NOT (SHA256 msg)"
proof
  assume "SHA256 msg = map NOT (SHA256 msg)"
  then have "SHA256 msg ! 0 = NOT (SHA256 msg ! 0)" by (metis length_SHA256 nth_map zero_less_numeral)
  then show False using bit_not_iff [of "SHA256 msg ! 0" 0] by simp
qed

theorem start_falls_back_to_recovery_witness:
  "\<exists>s'. start (map NOT (SHA256 [])) KERNEL2 0 0x80090000 0x80004000 0x80000100
       (demo_boot (demo_image RECOVERYDISK)) = Inr s' \<and> bprv s' = 1 \<and> bpc s' = 0x80000000
     \<and> bytes_at (bmem s') (SYS_INFO + SI_expected) 32 = map NOT (SHA256 [])"
  using start_falls_back_to_recovery [of "demo_boot (demo_image RECOVERYDISK)" "0x80090000"
      "map NOT (SHA256 [])" KERNEL2 0 "0x80004000" "0x80000100"]
    demo_image_ok [of RECOVERY] demo_image_headers [of RECOVERY] complement_differs [of "[]"]
  by (simp add: demo_boot_def disk_base_def demo_recovery_normal_size) blast

text \<open>C34: after \<open>start\<close>, the physical memory protection lets supervisor mode access exactly: all of memory
  for the plain kernels; everything below 117 MB of DRAM for \<open>kernelpmp1\<close>; everything but 118-120 MB,
  122-126 MB and above 128 MB for \<open>kernelpmp2\<close>.\<close>

theorem start_isolates_memory:
  assumes "start T v hart kb e pa s = Inr s'" "length (pmpaddr s) = 16"
  shows "pmp_allows s' a = pmp_region v a"
  using assms by (rule start_pmp)

theorem start_isolates_memory_witness:
  "\<exists>s'. start (SHA256 (bytes_at (demo_image RAMDISK) RAMDISK 5000)) KERNELPMP2 0 0x80090000 0x80004000 0x80000100
       (demo_boot (demo_image RAMDISK)) = Inr s'
     \<and> pmp_allows s' 0x80000000 \<and> \<not> pmp_allows s' 0x87600000 \<and> pmp_allows s' 0x87800000 \<and> \<not> pmp_allows s' 0x87A00000"
proof -
  let ?s = "demo_boot (demo_image RAMDISK)" and ?T = "SHA256 (bytes_at (demo_image RAMDISK) RAMDISK 5000)"
  obtain s' where s': "start ?T KERNELPMP2 0 0x80090000 0x80004000 0x80000100 ?s = Inr s'"
    using start_trusted [of ?s "0x80090000" ?T KERNELPMP2 0 "0x80004000" "0x80000100"]
      demo_image_ok [of NORMAL] demo_image_headers [of NORMAL]
    by (auto simp: demo_boot_def disk_base_def)
  then show ?thesis using start_isolates_memory [OF s']
    by (simp add: demo_boot_def pmp_region_def KERNBASE_def)
qed

end
