(* ===== verification/Cow.thy ===== *)
theory Cow
  imports UserMem
begin

text \<open>
  Copy-on-write fork and its page faults, \<open>uvmcopy_cow\<close> and \<open>copy_on_write\<close> of \<open>kernel/cow.c\<close>
  (Project 2), on the page tables and copy-on-write groups. The current process is the one whose
  group \<open>vmstate\<close> holds; its page table and the faulting address are arguments. A null result of
  \<open>walk\<close> or \<open>kalloc\<close> is used without a check and is \<open>NullDeref\<close>.
\<close>

unbundle bit_operations_syntax

subsection \<open>Operations\<close>

function uvmcopy_cow_from :: "u64 \<Rightarrow> u64 \<Rightarrow> u64 \<Rightarrow> u64 \<Rightarrow> u64 \<Rightarrow> 'a vmstate_scheme \<Rightarrow> kerror + 'a vmstate_scheme" where
  "uvmcopy_cow_from kend old new sz i s =
     (if i < sz
      then bindE (walk old i False s) (\<lambda>(pte, s).
        if pte = 0 then Inl (Panic ''uvmcopy: pte should exist'')
        else let e = load64 (pmem s) pte in
          if e AND PTE_V = 0 then Inl (Panic ''uvmcopy: page not present from uvmcopy_cow'')
          else let pa = PTE2PA e; flags = PTE_FLAGS e AND NOT PTE_W in
            bindE (mappages new i PGSIZE pa flags s) (\<lambda>(r, s).
              if r \<noteq> 0 then Inl (Panic ''Unable to map the pages'')
              else bindE (add_shmem (p_cow_group s) pa (cow_groups s)) (\<lambda>gs.
                bindE (uvmunmap kend old i 1 False (s\<lparr>cow_groups := gs\<rparr>)) (\<lambda>s.
                  bindE (mappages old i PGSIZE pa flags s) (\<lambda>(r, s).
                    if r \<noteq> 0 then Inl (Panic ''Unable to map the pages'')
                    else uvmcopy_cow_from kend old new sz (i + PGSIZE) s)))))
      else Inr s)"
  by pat_completeness auto
termination
proof (relation "measure (\<lambda>(kend, old, new, sz, i, s). 274877911040 - unat i)", goal_cases)
  case 1 show ?case by simp
qed (drule walk_Inr_less, simp add: unat_add64)

declare uvmcopy_cow_from.simps [simp del]

definition uvmcopy_cow :: "u64 \<Rightarrow> u64 \<Rightarrow> u64 \<Rightarrow> u64 \<Rightarrow> 'a vmstate_scheme \<Rightarrow> kerror + int \<times> 'a vmstate_scheme" where
  "uvmcopy_cow kend old new sz s =
     bindE (get_cow_group_count (p_cow_group s) (cow_groups s)) (\<lambda>c.
       bindE (if c = 0 then incr_cow_group_count (p_cow_group s) (cow_groups s) else Inr (cow_groups s)) (\<lambda>gs.
         bindE (uvmcopy_cow_from kend old new sz 0 (s\<lparr>cow_groups := gs\<rparr>)) (\<lambda>s.
           bindE (incr_cow_group_count (p_cow_group s) (cow_groups s)) (\<lambda>gs.
             Inr (0, s\<lparr>cow_groups := gs\<rparr>)))))"

definition copy_on_write :: "u64 \<Rightarrow> u64 \<Rightarrow> u64 \<Rightarrow> 'a vmstate_scheme \<Rightarrow> kerror + 'a vmstate_scheme" where
  "copy_on_write kend pagetable stval s =
     (let curr_fault_addr = stval AND NOT 0xFFF in
      bindE (walk pagetable curr_fault_addr False s) (\<lambda>(pte, s).
        if pte = 0 then Inl NullDeref
        else let e = load64 (pmem s) pte; flags = PTE_FLAGS e OR PTE_W; pa = PTE2PA e; (m, s) = kalloc s in
          if m = 0 then Inl NullDeref
          else bindE (uvmunmap kend pagetable curr_fault_addr 1 False (s\<lparr>pmem := memmove (pmem s) m pa 4096\<rparr>)) (\<lambda>s.
            bindE (mappages pagetable curr_fault_addr PGSIZE m flags s) (\<lambda>(r, s).
              if r \<noteq> 0 then Inl (Panic ''Unable to mappages'') else Inr s))))"

subsection \<open>One page at a time\<close>

lemma fault_page: "va AND NOT 0xFFF = PGROUNDDOWN va"
  by (simp add: PGROUNDDOWN_def PGSIZE_def)

text \<open>Taking a page from the free list and filling it keeps the address space.\<close>

lemma kalloc_fill:
  assumes inv: "vm_inv kend s pt (q # ps)" and m: "\<And>x. \<not> in_range x q 4096 \<Longrightarrow> m x = pmem s x"
  defines "s' \<equiv> (snd (kalloc s))\<lparr>pmem := m\<rparr>"
  shows "vm_inv kend s' pt ps" "leaf (pmem s') pt va = leaf (pmem s) pt va" "tables (pmem s') pt = tables (pmem s) pt"
proof -
  have r: "kmem_repr kend s (q # ps)" and wf: "pt_wf kend (pmem s) pt" and dj: "tables (pmem s) pt \<inter> set (q # ps) = {}"
    using inv by (auto simp: vm_inv_def)
  have k: "kpage kend q" "q \<notin> set ps" "\<forall>p \<in> set ps. kpage kend p" using r by (auto simp: kmem_repr_def)
  have ag: "agree_on (tables (pmem s) pt) (pmem s) m"
  proof -
    have "m x = pmem s x" if "t \<in> tables (pmem s) pt" "in_range x t 4096" for t x
    proof (rule m)
      have "aligned 4096 t" "t \<noteq> q" using wf dj that(1) by (auto simp: pt_wf_def kpage_def)
      then show "\<not> in_range x q 4096" using that(2) k(1) page_disjoint [of t q x] by (auto simp: kpage_def)
    qed
    then show ?thesis by (simp add: agree_on_def)
  qed
  note f = leaf_frame [OF wf ag]
  have r1: "kmem_repr kend (snd (kalloc s)) ps" using kalloc_repr_Cons [OF r] by blast
  have fr: "m x = pmem (snd (kalloc s)) x" if "\<not> in_range x q 4096" for x
    using m [OF that] kalloc_frame [of x s] kalloc_repr_Cons [OF r] that by simp
  have "free_chain m (freelist (snd (kalloc s))) ps = free_chain (pmem (snd (kalloc s))) (freelist (snd (kalloc s))) ps"
  proof (rule free_chain_cong)
    fix p x assume p: "p \<in> set ps" "in_range x p 4096"
    then have "aligned 4096 p" "p \<noteq> q" using k by (auto simp: kpage_def)
    then show "m x = pmem (snd (kalloc s)) x" using p(2) k(1) page_disjoint [of p q x] by (intro fr) (auto simp: kpage_def)
  qed
  then have "kmem_repr kend s' ps" using r1 by (simp add: kmem_repr_def s'_def)
  then show "vm_inv kend s' pt ps" "leaf (pmem s') pt va = leaf (pmem s) pt va" "tables (pmem s') pt = tables (pmem s) pt"
    using f dj by (auto simp: vm_inv_def s'_def)
qed

definition same_page :: "u64 \<Rightarrow> u64 \<Rightarrow> bool" where
  "same_page va vb \<longleftrightarrow> unat va div 4096 = unat vb div 4096"

lemma page_below_MAXVA:
  assumes "aligned 4096 va" "va < MAXVA"
  shows "unat va + 4096 \<le> 274877906944"
proof -
  obtain q where "unat va = 4096 * q" using assms(1) by (auto simp: aligned_def)
  then show ?thesis using assms(2) by (simp add: word_less_nat_alt)
qed

lemma leaf_page: "same_page va vb \<Longrightarrow> leaf m pt vb = leaf m pt va"
  by (metis same_page_def leaf_same_page)

lemma page_PGROUNDDOWN:
  assumes "aligned 4096 va" "va < MAXVA"
  shows "PGROUNDDOWN va = va" "PGROUNDDOWN (va + PGSIZE - 1) = va"
proof -
  obtain q where q: "unat va = 4096 * q" using assms(1) by (auto simp: aligned_def)
  have "unat (va + PGSIZE - 1) = 4096 * q + 4095"
    using page_below_MAXVA [OF assms] q by (simp add: unat_sub64 unat_add64)
  then show "PGROUNDDOWN va = va" "PGROUNDDOWN (va + PGSIZE - 1) = va"
    using q by (auto simp: unat_eq_iff64 unat_PGROUNDDOWN)
qed

lemma walk_levels_existing:
  "tbl (pmem s) pt va 2 = Some t \<Longrightarrow> walk_levels 2 pt va al s = (t + PX 0 va * 8, s)"
  by (simp add: numeral_2_eq_2 Let_def split: option.splits if_splits)

text \<open>Unmapping one page and mapping it again elsewhere, as both functions do, is one store.\<close>

lemma remap_one:
  assumes inv: "vm_inv kend s pt ps" and va: "aligned 4096 va" "va < MAXVA"
    and e: "leaf (pmem s) pt va = Some e" "PTE_FLAGS e \<noteq> PTE_V"
  shows "\<exists>m1 m2. uvmunmap kend pt va 1 False s = Inr (s\<lparr>pmem := m1\<rparr>)
     \<and> mappages pt va PGSIZE pa perm (s\<lparr>pmem := m1\<rparr>) = Inr (0, s\<lparr>pmem := m2\<rparr>)
     \<and> vm_keeps kend pt s ps (s\<lparr>pmem := m2\<rparr>) ps \<and> tables m2 pt = tables (pmem s) pt
     \<and> (\<forall>vb < MAXVA. leaf m2 pt vb = (if same_page va vb then Some (PA2PTE pa OR perm OR PTE_V) else leaf (pmem s) pt vb))"
proof -
  obtain t where t: "tbl (pmem s) pt va 2 = Some t" "walk pt va False s = Inr (t + PX 0 va * 8, s)"
      "t + PX 0 va * 8 \<noteq> 0" "load64 (pmem s) (t + PX 0 va * 8) = e" "e AND PTE_V \<noteq> 0"
    using walk_leaf [OF inv va(2) e(1)] by blast
  let ?pte = "t + PX 0 va * 8"
  define m1 where "m1 = store64 (pmem s) ?pte 0"
  define v where "v = PA2PTE pa OR perm OR PTE_V"
  have un: "unat (va + PGSIZE) = unat va + 4096" using page_below_MAXVA [OF va] by (simp add: unat_add64)
  have "uvmunmap_from kend pt va (va + PGSIZE) False s = Inr (s\<lparr>pmem := m1\<rparr>)"
    using t e(2) un by (subst uvmunmap_from.simps, subst uvmunmap_from.simps) (simp add: Let_def m1_def word_less_nat_alt)
  then have u: "uvmunmap kend pt va 1 False s = Inr (s\<lparr>pmem := m1\<rparr>)" using va(1) by (simp add: uvmunmap_def aligned_def)
  note c = clear_leaf [OF inv va(2) t(1), folded m1_def]
  have wf: "pt_wf kend (pmem s) pt" using inv by (simp add: vm_inv_def)
  have inv1: "vm_inv kend (s\<lparr>pmem := m1\<rparr>) pt ps" using c(1) by (simp add: vm_keeps_def)
  have t1: "tbl (pmem (s\<lparr>pmem := m1\<rparr>)) pt va 2 = Some t" using tbl_store_leaf [OF wf t(1), of 2 0 va] t(1) by (simp add: m1_def)
  have l1: "load64 m1 ?pte AND PTE_V = 0"
    using c(2) [OF va(2)] t1 by (auto simp: leaf_def Let_def split: if_splits)
  define m2 where "m2 = store64 m1 ?pte v"
  have w1: "walk pt va True (s\<lparr>pmem := m1\<rparr>) = Inr (?pte, s\<lparr>pmem := m1\<rparr>)"
    using walk_levels_existing [OF t1] va(2) by (simp add: walk_Inr)
  have mp: "mappages pt va PGSIZE pa perm (s\<lparr>pmem := m1\<rparr>) = Inr (0, s\<lparr>pmem := m2\<rparr>)"
    unfolding mappages_def page_PGROUNDDOWN [OF va]
    by (subst mappages_from.simps) (use w1 t(3) l1 in \<open>simp add: Let_def m2_def v_def PGSIZE_def\<close>)
  have k2: "vm_keeps kend pt (s\<lparr>pmem := m1\<rparr>) ps (s\<lparr>pmem := m2\<rparr>) ps"
    using vm_keeps_store_leaf [OF inv1 t1, of v] by (simp add: m2_def)
  have v: "v AND PTE_V \<noteq> 0" using PTE_V_or [of "PA2PTE pa OR perm"] by (simp add: v_def or.assoc)
  have lf: "leaf m2 pt vb = (if same_page va vb then Some v else leaf (pmem s) pt vb)" if vb: "vb < MAXVA" for vb
    using vm_inv_store_leaf(3) [OF inv1 t1, of v vb] same_upto_3_iff [OF va(2) vb] c(2) [OF vb] v
    by (auto simp: m2_def same_page_def)
  have tb: "tables m2 pt = tables (pmem s) pt"
    using vm_inv_store_leaf(2) [OF inv1 t1, of v] vm_inv_store_leaf(2) [OF inv t(1), of 0] by (simp add: m2_def m1_def)
  show ?thesis using u mp vm_keeps_trans [OF c(1) k2] lf tb unfolding v_def by blast
qed

lemma cow_fault:
  fixes s :: "'a vmstate_scheme"
  assumes inv: "vm_inv kend s pt (q # ps)" and va: "stval < MAXVA" and e: "leaf (pmem s) pt stval = Some e" "PTE_FLAGS e \<noteq> PTE_V"
    and own: "\<And>t x. t \<in> tables (pmem s) pt \<union> set (q # ps) \<Longrightarrow> in_range x (PTE2PA e) 4096 \<Longrightarrow> \<not> in_range x t 4096"
  shows "\<exists>s'. copy_on_write kend pt stval s = Inr s' \<and> vm_inv kend s' pt ps
     \<and> (\<forall>vb < MAXVA. leaf (pmem s') pt vb =
          (if same_page stval vb then Some (PA2PTE q OR PTE_FLAGS e OR PTE_W OR PTE_V) else leaf (pmem s) pt vb))
     \<and> bytes_at (pmem s') q 4096 = bytes_at (pmem s) (PTE2PA e) 4096
     \<and> bytes_at (pmem s') (PTE2PA e) 4096 = bytes_at (pmem s) (PTE2PA e) 4096"
proof -
  let ?va = "PGROUNDDOWN stval" and ?pa = "PTE2PA e"
  have va': "aligned 4096 ?va" "?va < MAXVA" "unat ?va div 4096 = unat stval div 4096"
    using va PGROUNDDOWN_div [of stval] by (auto simp: aligned_def unat_PGROUNDDOWN word_less_nat_alt)
  have sp: "same_page ?va vb = same_page stval vb" for vb using va'(3) by (simp add: same_page_def)
  have e': "leaf (pmem s) pt ?va = Some e" using leaf_same_page [OF va'(3)] e(1) by simp
  obtain t where w: "walk pt ?va False s = Inr (t + PX 0 ?va * 8, s)" "t + PX 0 ?va * 8 \<noteq> 0" "load64 (pmem s) (t + PX 0 ?va * 8) = e"
    using walk_leaf [OF inv va'(2) e'] by blast
  have km: "kmem_repr kend s (q # ps)" using inv by (simp add: vm_inv_def)
  have k: "fst (kalloc s) = q" "q \<noteq> 0" "kpage kend q" using kalloc_repr_Cons [OF km] km by (auto simp: kmem_repr_def kpage_def)
  have aq: "aligned 4096 q" "aligned 4096 ?pa" using k(3) PTE2PA_aligned by (auto simp: kpage_def)
  have page_fits: "unat p + 4096 \<le> 18446744073709551616" if al: "aligned 4096 p" for p
  proof -
    obtain i where "unat p = 4096 * i" using al by (auto simp: aligned_def)
    then show ?thesis using unat_lt64 [of p] by simp
  qed
  define m1 where "m1 = memmove (pmem (snd (kalloc s))) q ?pa 4096"
  have old: "pmem (snd (kalloc s)) x = pmem s x" if "\<not> in_range x q 4096" for x using kalloc_frame that k(1) by metis
  have pa_q: "\<not> in_range x q 4096" if "in_range x ?pa 4096" for x using own [of q x] that by simp
  have m1: "m1 x = (if in_range x q 4096 then pmem (snd (kalloc s)) (?pa + (x - q)) else pmem (snd (kalloc s)) x)" for x
    unfolding m1_def using page_fits aq by (intro memmove_apply) auto
  have m1': "m1 x = pmem s x" if "\<not> in_range x q 4096" for x using m1 old that by simp
  define s1 where "s1 = (snd (kalloc s))\<lparr>pmem := m1\<rparr>"
  note f = kalloc_fill [OF inv, of m1, OF m1', folded s1_def]
  obtain m2 m3 where m: "uvmunmap kend pt ?va 1 False s1 = Inr (s1\<lparr>pmem := m2\<rparr>)"
      "mappages pt ?va PGSIZE q (PTE_FLAGS e OR PTE_W) (s1\<lparr>pmem := m2\<rparr>) = Inr (0, s1\<lparr>pmem := m3\<rparr>)"
      "vm_keeps kend pt s1 ps (s1\<lparr>pmem := m3\<rparr>) ps"
      "\<forall>vb < MAXVA. leaf m3 pt vb = (if same_page stval vb then Some (PA2PTE q OR (PTE_FLAGS e OR PTE_W) OR PTE_V) else leaf (pmem s) pt vb)"
    using remap_one [OF f(1) va'(1,2), of e q "PTE_FLAGS e OR PTE_W"] e' e(2) f(2) unfolding sp by auto
  define s3 where "s3 = s1\<lparr>pmem := m3\<rparr>"
  have fr: "pmem s3 x = m1 x" if "\<And>t. t \<in> tables (pmem s) pt \<union> set ps \<Longrightarrow> \<not> in_range x t 4096" for x
  proof -
    have "vm_keeps kend pt s1 ps s3 ps" using m(3) by (simp add: s3_def)
    then show ?thesis using that f(3) by (auto simp: vm_keeps_def s1_def)
  qed
  have q_other: "\<not> in_range x t 4096" if "in_range x q 4096" "t \<in> tables (pmem s) pt \<union> set ps" for x t
  proof -
    have "t \<noteq> q" "aligned 4096 t" using that(2) inv by (auto simp: vm_inv_def kmem_repr_def pt_wf_def kpage_def)
    then show ?thesis using page_disjoint [OF aq(1) _ _ that(1)] by metis
  qed
  have u: "unat (of_nat i :: u64) = i" if "i < 4096" for i using that by (simp add: unat_of_nat)
  have "pmem s3 (q + of_nat i) = pmem s (?pa + of_nat i)" if i: "i < 4096" for i
  proof -
    have "pmem s3 (q + of_nat i) = m1 (q + of_nat i)" using i u by (intro fr q_other) simp_all
    also have "\<dots> = pmem (snd (kalloc s)) (?pa + of_nat i)" using i u by (simp add: m1)
    also have "\<dots> = pmem s (?pa + of_nat i)" using i u by (intro old pa_q) simp
    finally show ?thesis .
  qed
  then have b1: "bytes_at (pmem s3) q 4096 = bytes_at (pmem s) ?pa 4096" by (simp add: bytes_at_def)
  have "pmem s3 (?pa + of_nat i) = pmem s (?pa + of_nat i)" if i: "i < 4096" for i
  proof -
    have r: "in_range (?pa + of_nat i) ?pa 4096" using i u by simp
    have "pmem s3 (?pa + of_nat i) = m1 (?pa + of_nat i)" using r own by (intro fr) auto
    then show ?thesis using m1' pa_q [OF r] by simp
  qed
  then have b2: "bytes_at (pmem s3) ?pa 4096 = bytes_at (pmem s) ?pa 4096" by (simp add: bytes_at_def)
  have "copy_on_write kend pt stval s = Inr s3"
    using w k m(1,2) unfolding copy_on_write_def fault_page Let_def s3_def
    by (cases "kalloc s") (simp add: s1_def m1_def)
  moreover have "vm_inv kend s3 pt ps" using m(3) by (simp add: vm_keeps_def s3_def)
  ultimately show ?thesis using m(4) b1 b2 by (auto simp: or.assoc s3_def)
qed

subsection \<open>Two address spaces over one free list\<close>

definition two_spaces :: "u64 \<Rightarrow> 'a machine_scheme \<Rightarrow> u64 \<Rightarrow> u64 \<Rightarrow> u64 list \<Rightarrow> bool" where
  "two_spaces kend s old new ps \<longleftrightarrow> vm_inv kend s old ps \<and> vm_inv kend s new ps
     \<and> tables (pmem s) old \<inter> tables (pmem s) new = {}"

lemma two_spaces_sym: "two_spaces kend s old new ps \<longleftrightarrow> two_spaces kend s new old ps"
  by (auto simp: two_spaces_def)

text \<open>What changes one address space keeps the other.\<close>

lemma other_space:
  assumes two: "two_spaces kend s pt qt ps" and k: "vm_keeps kend pt s ps s' ps'"
  shows "two_spaces kend s' pt qt ps'" "leaf (pmem s') qt va = leaf (pmem s) qt va"
    "tables (pmem s') qt = tables (pmem s) qt"
proof -
  have wf: "pt_wf kend (pmem s) qt" "pt_wf kend (pmem s) pt" and km: "kmem_repr kend s ps"
    and dj: "tables (pmem s) qt \<inter> set ps = {}" "tables (pmem s) pt \<inter> tables (pmem s) qt = {}"
    using two by (auto simp: two_spaces_def vm_inv_def)
  have ag: "agree_on (tables (pmem s) qt) (pmem s) (pmem s')"
  proof -
    have "pmem s' x = pmem s x" if t: "t \<in> tables (pmem s) qt" "in_range x t 4096" for t x
    proof -
      have "\<not> in_range x p 4096" if p: "p \<in> tables (pmem s) pt \<union> set ps" for p
      proof
        assume "in_range x p 4096"
        moreover have "aligned 4096 t" "aligned 4096 p" "t \<noteq> p"
          using t(1) p dj wf km by (auto simp: pt_wf_def kpage_def kmem_repr_def)
        ultimately show False using page_disjoint t(2) by metis
      qed
      then show ?thesis using k by (simp add: vm_keeps_def)
    qed
    then show ?thesis by (simp add: agree_on_def)
  qed
  note f = leaf_frame [OF wf(1) ag]
  have "set ps' \<subseteq> set ps" using k by (auto simp: vm_keeps_def dest: in_set_dropD)
  moreover have "tables (pmem s') pt \<subseteq> tables (pmem s) pt \<union> set ps" "vm_inv kend s' pt ps'"
    using k by (auto simp: vm_keeps_def)
  ultimately show "two_spaces kend s' pt qt ps'" using f dj by (auto simp: two_spaces_def vm_inv_def)
  show "leaf (pmem s') qt va = leaf (pmem s) qt va" "tables (pmem s') qt = tables (pmem s) qt" using f by auto
qed

subsection \<open>The loop of \<open>uvmcopy_cow\<close>\<close>

lemma map_fresh:
  fixes s :: "'a vmstate_scheme"
  assumes inv: "vm_inv kend s pt ps" and va: "aligned 4096 va" "va < MAXVA" and free: "leaf (pmem s) pt va = None"
    and n: "2 \<le> length ps"
  shows "\<exists>s' ps'. mappages pt va PGSIZE pa perm s = Inr (0, s') \<and> vm_keeps kend pt s ps s' ps'
     \<and> length ps \<le> length ps' + 2 \<and> machine.more s' = machine.more s
     \<and> (\<forall>vb < MAXVA. leaf (pmem s') pt vb = (if same_page va vb then Some (PA2PTE pa OR perm OR PTE_V) else leaf (pmem s) pt vb))"
proof -
  obtain pte s1 where w: "walk pt va True s = Inr (pte, s1)" using va(2) by (cases "walk_levels 2 pt va True s") (simp add: walk_Inr)
  then have mo: "machine.more s1 = machine.more s" by (rule walk_more)
  let ?v = "PA2PTE pa OR perm OR PTE_V"
  from map_one_page [OF inv va(2) free w, of "PA2PTE pa OR perm"] obtain ps1 where p1: "length ps \<le> length ps1 + 2"
    and p2: "if pte = 0 then length ps < 2 else load64 (pmem s1) pte AND PTE_V = 0
      \<and> vm_keeps kend pt s ps (s1\<lparr>pmem := store64 (pmem s1) pte ?v\<rparr>) ps1
      \<and> (\<forall>vb < MAXVA. leaf (store64 (pmem s1) pte ?v) pt vb =
         (if unat vb div 4096 = unat va div 4096 then Some ?v else leaf (pmem s) pt vb))"
    unfolding or.assoc by blast
  have p0: "pte \<noteq> 0" using p2 n by (auto split: if_splits)
  then have p: "load64 (pmem s1) pte AND PTE_V = 0" "vm_keeps kend pt s ps (s1\<lparr>pmem := store64 (pmem s1) pte ?v\<rparr>) ps1"
      "\<forall>vb < MAXVA. leaf (store64 (pmem s1) pte ?v) pt vb =
         (if unat vb div 4096 = unat va div 4096 then Some ?v else leaf (pmem s) pt vb)"
    using p2 unfolding if_not_P [OF p0] by blast+
  let ?s = "s1\<lparr>pmem := store64 (pmem s1) pte ?v\<rparr>"
  have "mappages pt va PGSIZE pa perm s = Inr (0, ?s)"
    unfolding mappages_def page_PGROUNDDOWN [OF va]
    by (subst mappages_from.simps) (use w p0 p(1) in \<open>simp add: Let_def PGSIZE_def\<close>)
  moreover have "machine.more ?s = machine.more s" using mo by simp
  moreover have "\<forall>vb < MAXVA. leaf (pmem ?s) pt vb = (if same_page va vb then Some ?v else leaf (pmem s) pt vb)"
    using p(3) by (auto simp: same_page_def)
  ultimately show ?thesis using p1 p(2) by blast
qed

text \<open>The group has room for the frames \<open>F\<close>.\<close>

definition cow_room :: "u64 set \<Rightarrow> nat \<Rightarrow> int \<Rightarrow> cow_group list \<Rightarrow> bool" where
  "cow_room F j g gs \<longleftrightarrow> cow_table_ok gs \<and> get_cow_group g gs = Some j \<and> shared_pages (shmem (gs ! j)) \<subseteq> F
     \<and> finite F \<and> card F \<le> SHMEM_MAX \<and> 0 \<notin> F"

text \<open>All groups but the one at \<open>j\<close> are the same, and that one keeps its id.\<close>

definition same_others :: "nat \<Rightarrow> cow_group list \<Rightarrow> cow_group list \<Rightarrow> bool" where
  "same_others j gs gs' \<longleftrightarrow> length gs' = length gs \<and> (\<forall>k. k \<noteq> j \<longrightarrow> gs' ! k = gs ! k) \<and> group (gs' ! j) = group (gs ! j)"

lemma same_others_refl [simp]: "same_others j gs gs"
  and same_others_trans: "same_others j gs gs' \<Longrightarrow> same_others j gs' gs'' \<Longrightarrow> same_others j gs gs''"
  by (simp_all add: same_others_def)

lemma add_shmem_room:
  assumes "cow_room F j g gs" "pa \<in> F"
  shows "\<exists>gs'. add_shmem g pa gs = Inr gs' \<and> cow_room F j g gs' \<and> count (gs' ! j) = count (gs ! j)
     \<and> shared_pages (shmem (gs' ! j)) = insert pa (shared_pages (shmem (gs ! j))) \<and> same_others j gs gs'"
proof -
  have r: "cow_table_ok gs" "get_cow_group g gs = Some j" "pa \<noteq> 0" "shared_pages (shmem (gs ! j)) \<subseteq> F" "finite F" "card F \<le> SHMEM_MAX"
    using assms by (auto simp: cow_room_def)
  note spec = add_shmem_spec [OF r(1-3)]
  show ?thesis
  proof (cases "pa \<in> shared_pages (shmem (gs ! j))")
    case True
    then show ?thesis using spec assms(1) by (auto simp: insert_absorb)
  next
    case False
    then have "card (shared_pages (shmem (gs ! j))) < card F" using r(4,5) assms(2) by (intro psubset_card_mono) auto
    then obtain gs' where gs': "add_shmem g pa gs = Inr gs'" "cow_table_ok gs'" "get_cow_group g gs' = Some j"
      "shared_pages (shmem (gs' ! j)) = insert pa (shared_pages (shmem (gs ! j)))" "map count gs' = map count gs"
      "\<forall>k. k \<noteq> j \<longrightarrow> gs' ! k = gs ! k" "map group gs' = map group gs"
      using spec False r(6) by auto
    moreover have j: "j < length gs" "length gs' = length gs" using get_cow_group_Some [OF r(2)] gs'(5) by (auto dest: map_eq_imp_length_eq)
    moreover have "count (gs' ! j) = count (gs ! j)" using arg_cong [OF gs'(5), of "\<lambda>xs. xs ! j"] j by simp
    moreover have "same_others j gs gs'" using arg_cong [OF gs'(7), of "\<lambda>xs. xs ! j"] gs'(6) j by (simp add: same_others_def)
    ultimately show ?thesis using assms by (auto simp: cow_room_def)
  qed
qed

definition read_only :: "u64 \<Rightarrow> u64" where
  "read_only e = PA2PTE (PTE2PA e) OR (PTE_FLAGS e AND NOT PTE_W) OR PTE_V"

lemma cow_fields:
  fixes s s' :: "'a vmstate_scheme"
  shows "machine.more s' = machine.more s \<Longrightarrow> cow_groups s' = cow_groups s \<and> p_cow_group s' = p_cow_group s \<and> p_cow_enabled s' = p_cow_enabled s"
  by (cases s, cases s') simp

lemma vm_keeps_groups [simp]:
  "vm_inv kend (s\<lparr>cow_groups := gs\<rparr>) pt ps = vm_inv kend s pt ps"
  "two_spaces kend (s\<lparr>cow_groups := gs\<rparr>) pt qt ps = two_spaces kend s pt qt ps"
  by (auto simp: vm_inv_def two_spaces_def kmem_repr_def)

text \<open>\<open>forked P\<close>: the pages \<open>P\<close> of the parent are read-only in both address spaces, on the same frames.\<close>

definition forked :: "u64 \<Rightarrow> u64 \<Rightarrow> u64 \<Rightarrow> (u64 \<Rightarrow> bool) \<Rightarrow> 'a vmstate_scheme \<Rightarrow> u64 list \<Rightarrow> 'a vmstate_scheme \<Rightarrow> u64 list \<Rightarrow> bool" where
  "forked kend old new P s ps s' ps' \<longleftrightarrow> two_spaces kend s' old new ps'
     \<and> set ps' \<union> tables (pmem s') old \<union> tables (pmem s') new \<subseteq> set ps \<union> tables (pmem s) old \<union> tables (pmem s) new
     \<and> (\<forall>x. (\<forall>p \<in> set ps \<union> tables (pmem s) old \<union> tables (pmem s) new. \<not> in_range x p 4096) \<longrightarrow> pmem s' x = pmem s x)
     \<and> p_cow_group s' = p_cow_group s \<and> p_cow_enabled s' = p_cow_enabled s
     \<and> (\<forall>vb < MAXVA. leaf (pmem s') old vb = (if P vb then map_option read_only (leaf (pmem s) old vb) else leaf (pmem s) old vb)
        \<and> leaf (pmem s') new vb = (if P vb then map_option read_only (leaf (pmem s) old vb) else leaf (pmem s) new vb))"

lemma forked_trans:
  assumes "forked kend old new P s ps s1 ps1" "forked kend old new Q s1 ps1 s2 ps2" "\<And>vb. \<not> (P vb \<and> Q vb)"
  shows "forked kend old new (\<lambda>vb. P vb \<or> Q vb) s ps s2 ps2"
proof -
  have lf: "leaf (pmem s2) old vb = (if P vb \<or> Q vb then map_option read_only (leaf (pmem s) old vb) else leaf (pmem s) old vb)
     \<and> leaf (pmem s2) new vb = (if P vb \<or> Q vb then map_option read_only (leaf (pmem s) old vb) else leaf (pmem s) new vb)"
    if "vb < MAXVA" for vb
    using that assms(1,2) assms(3) [of vb] by (auto simp: forked_def)
  have fr: "pmem s2 x = pmem s x" if x: "\<forall>p \<in> set ps \<union> tables (pmem s) old \<union> tables (pmem s) new. \<not> in_range x p 4096" for x
  proof -
    have "\<forall>p \<in> set ps1 \<union> tables (pmem s1) old \<union> tables (pmem s1) new. \<not> in_range x p 4096"
      using x assms(1) unfolding forked_def by blast
    then have "pmem s2 x = pmem s1 x" using assms(2) unfolding forked_def by blast
    also have "\<dots> = pmem s x" using x assms(1) unfolding forked_def by blast
    finally show ?thesis .
  qed
  show ?thesis unfolding forked_def
  proof (intro conjI)
    show "two_spaces kend s2 old new ps2" "p_cow_group s2 = p_cow_group s" "p_cow_enabled s2 = p_cow_enabled s"
      using assms(1,2) by (auto simp: forked_def)
    show "set ps2 \<union> tables (pmem s2) old \<union> tables (pmem s2) new \<subseteq> set ps \<union> tables (pmem s) old \<union> tables (pmem s) new"
      using assms(1,2) unfolding forked_def by blast
  qed (use lf fr in blast)+
qed

lemma fork_step:
  fixes s :: "'a vmstate_scheme"
  assumes two: "two_spaces kend s old new ps" and i: "aligned 4096 i" "i < MAXVA" "i < sz"
    and e: "leaf (pmem s) old i = Some e" "PTE_FLAGS e \<noteq> PTE_V" and new: "leaf (pmem s) new i = None" and n: "2 \<le> length ps"
    and room: "cow_room F j (p_cow_group s) (cow_groups s)" "PTE2PA e \<in> F"
  shows "\<exists>s' ps'. uvmcopy_cow_from kend old new sz i s = uvmcopy_cow_from kend old new sz (i + PGSIZE) s'
     \<and> forked kend old new (same_page i) s ps s' ps' \<and> length ps \<le> length ps' + 2
     \<and> cow_room F j (p_cow_group s') (cow_groups s') \<and> count (cow_groups s' ! j) = count (cow_groups s ! j)
     \<and> shared_pages (shmem (cow_groups s' ! j)) = insert (PTE2PA e) (shared_pages (shmem (cow_groups s ! j)))
     \<and> same_others j (cow_groups s) (cow_groups s')"
proof -
  let ?pa = "PTE2PA e" and ?f = "PTE_FLAGS e AND NOT PTE_W"
  have inv: "vm_inv kend s old ps" "vm_inv kend s new ps" using two by (auto simp: two_spaces_def)
  obtain t where w: "walk old i False s = Inr (t + PX 0 i * 8, s)" "t + PX 0 i * 8 \<noteq> 0"
      "load64 (pmem s) (t + PX 0 i * 8) = e" "e AND PTE_V \<noteq> 0"
    using walk_leaf [OF inv(1) i(2) e(1)] by blast
  obtain s1 ps1 where m: "mappages new i PGSIZE ?pa ?f s = Inr (0, s1)" "vm_keeps kend new s ps s1 ps1"
      "length ps \<le> length ps1 + 2" "machine.more s1 = machine.more s"
      "\<forall>vb < MAXVA. leaf (pmem s1) new vb = (if same_page i vb then Some (PA2PTE ?pa OR ?f OR PTE_V) else leaf (pmem s) new vb)"
    using map_fresh [OF inv(2) i(1,2) new n, of ?pa ?f] by blast
  note c1 = cow_fields [OF m(4)]
  note o1 = other_space [OF two [unfolded two_spaces_sym [of kend s old]] m(2)]
  obtain gs where g: "add_shmem (p_cow_group s) ?pa (cow_groups s) = Inr gs" "cow_room F j (p_cow_group s) gs"
      "count (gs ! j) = count (cow_groups s ! j)" "shared_pages (shmem (gs ! j)) = insert ?pa (shared_pages (shmem (cow_groups s ! j)))"
      "same_others j (cow_groups s) gs"
    using add_shmem_room [OF room] by blast
  let ?s1 = "s1\<lparr>cow_groups := gs\<rparr>"
  have two1: "two_spaces kend ?s1 old new ps1" using o1(1) two_spaces_sym [of kend s1 old new ps1] by simp
  then have inv1: "vm_inv kend ?s1 old ps1" by (simp add: two_spaces_def)
  have e1: "leaf (pmem ?s1) old i = Some e" using o1(2) e(1) by simp
  obtain m1 m2 where r: "uvmunmap kend old i 1 False ?s1 = Inr (?s1\<lparr>pmem := m1\<rparr>)"
      "mappages old i PGSIZE ?pa ?f (?s1\<lparr>pmem := m1\<rparr>) = Inr (0, ?s1\<lparr>pmem := m2\<rparr>)"
      "vm_keeps kend old ?s1 ps1 (?s1\<lparr>pmem := m2\<rparr>) ps1" "tables m2 old = tables (pmem ?s1) old"
      "\<forall>vb < MAXVA. leaf m2 old vb = (if same_page i vb then Some (PA2PTE ?pa OR ?f OR PTE_V) else leaf (pmem ?s1) old vb)"
    using remap_one [OF inv1 i(1,2) e1 e(2), of ?pa ?f] by blast
  let ?s2 = "?s1\<lparr>pmem := m2\<rparr>"
  note o2 = other_space [OF two1 r(3)]
  have body: "uvmcopy_cow_from kend old new sz i s = uvmcopy_cow_from kend old new sz (i + PGSIZE) ?s2"
    using i(3) w m(1) g(1) r(1,2) c1 by (subst uvmcopy_cow_from.simps) (simp add: Let_def)
  have T: "set ps1 \<union> tables (pmem s1) old \<union> tables (pmem s1) new \<subseteq> set ps \<union> tables (pmem s) old \<union> tables (pmem s) new"
    using m(2) o1(3) by (auto simp: vm_keeps_def dest: in_set_dropD)
  have fr: "pmem ?s2 x = pmem s x" if x: "\<forall>p \<in> set ps \<union> tables (pmem s) old \<union> tables (pmem s) new. \<not> in_range x p 4096" for x
  proof -
    have "\<forall>p \<in> tables (pmem ?s1) old \<union> set ps1. \<not> in_range x p 4096" using x T by auto
    then have "pmem ?s2 x = pmem ?s1 x" using r(3) unfolding vm_keeps_def by blast
    also have "\<dots> = pmem s x" using m(2) x unfolding vm_keeps_def by auto
    finally show ?thesis .
  qed
  have f1: "leaf (pmem s) old vb = Some e" if "same_page i vb" for vb using leaf_page [OF that] e(1) by simp
  have lo: "leaf (pmem ?s2) old vb = (if same_page i vb then map_option read_only (leaf (pmem s) old vb) else leaf (pmem s) old vb)"
    if vb: "vb < MAXVA" for vb
    using r(5) vb o1(2) [of vb] f1 by (simp add: read_only_def)
  have ln: "leaf (pmem ?s2) new vb = (if same_page i vb then map_option read_only (leaf (pmem s) old vb) else leaf (pmem s) new vb)"
    if vb: "vb < MAXVA" for vb
    using m(5) vb o2(2) [of vb] f1 by (simp add: read_only_def)
  have "forked kend old new (same_page i) s ps ?s2 ps1"
    unfolding forked_def using o2(1,3) r(4) T fr lo ln c1 by simp
  then show ?thesis using body m(3) g c1 by (intro exI [of _ ?s2] exI [of _ ps1]) simp
qed

definition frames :: "mem \<Rightarrow> u64 \<Rightarrow> u64 \<Rightarrow> nat \<Rightarrow> u64 set" where
  "frames m pt a n = {PTE2PA e | e vb. vb < MAXVA \<and> in_span a n vb \<and> leaf m pt vb = Some e}"

lemma uvmcopy_cow_from_spec:
  fixes s :: "'a vmstate_scheme"
  assumes "two_spaces kend s old new ps" "aligned 4096 i" "unat sz \<le> 274877906944"
    and "n = (unat sz - unat i + 4095) div 4096" "2 * n \<le> length ps"
    and "\<forall>vb < MAXVA. in_span i n vb \<longrightarrow> leaf (pmem s) new vb = None \<and> (\<exists>e. leaf (pmem s) old vb = Some e \<and> PTE_FLAGS e \<noteq> PTE_V)"
    and "cow_room F j (p_cow_group s) (cow_groups s)" "frames (pmem s) old i n \<subseteq> F"
  shows "\<exists>s' ps'. uvmcopy_cow_from kend old new sz i s = Inr s' \<and> forked kend old new (in_span i n) s ps s' ps'
     \<and> cow_room F j (p_cow_group s') (cow_groups s') \<and> count (cow_groups s' ! j) = count (cow_groups s ! j)
     \<and> shared_pages (shmem (cow_groups s' ! j)) = frames (pmem s) old i n \<union> shared_pages (shmem (cow_groups s ! j))
     \<and> same_others j (cow_groups s) (cow_groups s')"
  using assms
proof (induction n arbitrary: s ps i)
  case 0
  then have "\<not> i < sz" by (simp add: word_less_nat_alt)
  moreover have "forked kend old new (in_span i 0) s ps s ps" using 0(1) by (auto simp: forked_def in_span_def)
  moreover have "frames (pmem s) old i 0 = {}" by (simp add: frames_def in_span_def)
  ultimately show ?case using 0(7) by (subst uvmcopy_cow_from.simps) auto
next
  case (Suc n)
  have lt: "unat i < unat sz" using Suc.prems(4) by (cases "unat i < unat sz") auto
  have i: "i < MAXVA" "i < sz" using lt Suc.prems(3) by (auto simp: word_less_nat_alt)
  obtain q where q: "unat i = 4096 * q" using Suc.prems(2) by (auto simp: aligned_def)
  have u: "unat (i + PGSIZE) = unat i + 4096" using page_below_MAXVA [OF Suc.prems(2) i(1)] by (simp add: unat_add64)
  have span: "in_span i (Suc n) vb = (same_page i vb \<or> in_span (i + PGSIZE) n vb)" "\<not> (same_page i vb \<and> in_span (i + PGSIZE) n vb)" for vb
    using u by (auto simp: in_span_def same_page_def)
  obtain e where e: "leaf (pmem s) old i = Some e" "PTE_FLAGS e \<noteq> PTE_V" "leaf (pmem s) new i = None"
    using Suc.prems(6) i(1) span(1) [of i] by (auto simp: same_page_def)
  have "PTE2PA e \<in> F" using e(1) i(1) Suc.prems(8) span(1) [of i] by (auto simp: frames_def same_page_def)
  from fork_step [OF Suc.prems(1,2) i e _ Suc.prems(7) this] obtain s1 ps1 where
    s1: "uvmcopy_cow_from kend old new sz i s = uvmcopy_cow_from kend old new sz (i + PGSIZE) s1"
      "forked kend old new (same_page i) s ps s1 ps1" "length ps \<le> length ps1 + 2"
      "cow_room F j (p_cow_group s1) (cow_groups s1)" "count (cow_groups s1 ! j) = count (cow_groups s ! j)"
      "shared_pages (shmem (cow_groups s1 ! j)) = insert (PTE2PA e) (shared_pages (shmem (cow_groups s ! j)))"
      "same_others j (cow_groups s) (cow_groups s1)"
    using Suc.prems(5) by auto
  have lf: "leaf (pmem s1) old vb = leaf (pmem s) old vb" "leaf (pmem s1) new vb = leaf (pmem s) new vb"
    if "vb < MAXVA" "in_span (i + PGSIZE) n vb" for vb
    using s1(2) that span(2) by (auto simp: forked_def)
  have fr: "frames (pmem s1) old (i + PGSIZE) n = frames (pmem s) old (i + PGSIZE) n"
    using lf by (auto simp: frames_def) metis+
  have fi: "frames (pmem s) old i (Suc n) = insert (PTE2PA e) (frames (pmem s) old (i + PGSIZE) n)"
  proof -
    have "leaf (pmem s) old vb = Some e" if "same_page i vb" for vb using leaf_page [OF that] e(1) by simp
    moreover have "same_page i i" by (simp add: same_page_def)
    ultimately show ?thesis unfolding frames_def span(1) using i(1) e(1) by fastforce
  qed
  have "\<exists>s' ps'. uvmcopy_cow_from kend old new sz (i + PGSIZE) s1 = Inr s' \<and> forked kend old new (in_span (i + PGSIZE) n) s1 ps1 s' ps'
     \<and> cow_room F j (p_cow_group s') (cow_groups s') \<and> count (cow_groups s' ! j) = count (cow_groups s1 ! j)
     \<and> shared_pages (shmem (cow_groups s' ! j)) = frames (pmem s1) old (i + PGSIZE) n \<union> shared_pages (shmem (cow_groups s1 ! j))
     \<and> same_others j (cow_groups s1) (cow_groups s')"
  proof (rule Suc.IH)
    show "two_spaces kend s1 old new ps1" using s1(2) by (simp add: forked_def)
    show "aligned 4096 (i + PGSIZE)" using u q by (simp add: aligned_def)
    show "n = (unat sz - unat (i + PGSIZE) + 4095) div 4096" using Suc.prems(4) lt u by auto
    show "\<forall>vb < MAXVA. in_span (i + PGSIZE) n vb \<longrightarrow> leaf (pmem s1) new vb = None \<and> (\<exists>e. leaf (pmem s1) old vb = Some e \<and> PTE_FLAGS e \<noteq> PTE_V)"
      using lf Suc.prems(6) span(1) by auto
    show "frames (pmem s1) old (i + PGSIZE) n \<subseteq> F" using fr fi Suc.prems(8) by auto
    show "2 * n \<le> length ps1" using Suc.prems(5) s1(3) by simp
  qed (use Suc.prems(3) s1(4) in auto)
  then obtain s' ps' where s': "uvmcopy_cow_from kend old new sz (i + PGSIZE) s1 = Inr s'"
     "forked kend old new (in_span (i + PGSIZE) n) s1 ps1 s' ps'"
     "cow_room F j (p_cow_group s') (cow_groups s')" "count (cow_groups s' ! j) = count (cow_groups s1 ! j)"
     "shared_pages (shmem (cow_groups s' ! j)) = frames (pmem s1) old (i + PGSIZE) n \<union> shared_pages (shmem (cow_groups s1 ! j))"
     "same_others j (cow_groups s1) (cow_groups s')" by blast
  have "forked kend old new (in_span i (Suc n)) s ps s' ps'"
    using forked_trans [OF s1(2) s'(2) span(2)] unfolding span(1) [symmetric] .
  then show ?case using s1 s' fr fi same_others_trans [OF s1(7) s'(6)] by auto
qed

lemma incr_count:
  assumes "get_cow_group g gs = Some j"
  defines "gs' \<equiv> gs[j := (gs ! j)\<lparr>count := count (gs ! j) + 1\<rparr>]"
  shows "incr_cow_group_count g gs = Inr gs'" "count (gs' ! j) = count (gs ! j) + 1" "shmem (gs' ! j) = shmem (gs ! j)"
    "cow_room F j g gs \<Longrightarrow> cow_room F j g gs'" "same_others j gs gs'"
proof -
  have j: "j < length gs" using get_cow_group_Some [OF assms(1)] by simp
  show "incr_cow_group_count g gs = Inr gs'"
    using assms(1) by (simp add: incr_cow_group_count_def get_cow_group_count_def gs'_def)
  show "count (gs' ! j) = count (gs ! j) + 1" "shmem (gs' ! j) = shmem (gs ! j)" "same_others j gs gs'"
    using j by (simp_all add: gs'_def same_others_def)
  have "map group gs' = map group gs" using j by (simp add: gs'_def map_update list_update_same_conv)
  note g = get_cow_group_cong [OF this, of g]
  assume r: "cow_room F j g gs"
  then have "shmem_ok (shmem (gs ! j))" using j by (simp add: cow_room_def cow_table_ok_def)
  then show "cow_room F j g gs'" using r g j
    by (auto simp: cow_room_def cow_table_ok_def gs'_def dest!: set_update_subset_insert [THEN subsetD])
qed

subsection \<open>Properties\<close>

text \<open>C7: \<open>uvmcopy_cow\<close> forks an address space without copying a page. With two free pages per user
  page for the tables of the child and room for the frames in the group, it returns 0; every page of the
  parent is then mapped in parent and child to the same frame, both times without write permission;
  all other pages of both address spaces and all memory outside page tables are unchanged; the
  frames are added to the pages the group records as shared, no other page is, the group counts one more process
  (two if it counted none), and no other group changes.\<close>

theorem uvmcopy_cow_shares_frames:
  fixes s :: "'a vmstate_scheme"
  assumes "two_spaces kend s old new ps" "unat sz \<le> 274877906944"
    and "n = (unat sz + 4095) div 4096" "2 * n \<le> length ps"
    and "\<forall>vb < MAXVA. in_span 0 n vb \<longrightarrow> leaf (pmem s) new vb = None \<and> (\<exists>e. leaf (pmem s) old vb = Some e \<and> PTE_FLAGS e \<noteq> PTE_V)"
    and "cow_room F j (p_cow_group s) (cow_groups s)" "frames (pmem s) old 0 n \<subseteq> F"
  shows "\<exists>s' ps'. uvmcopy_cow kend old new sz s = Inr (0, s') \<and> forked kend old new (in_span 0 n) s ps s' ps'
     \<and> (\<forall>pa \<in> frames (pmem s) old 0 n. is_shmem (p_cow_group s') pa (cow_groups s') = Inr True)
     \<and> shared_pages (shmem (cow_groups s' ! j)) = frames (pmem s) old 0 n \<union> shared_pages (shmem (cow_groups s ! j))
     \<and> get_cow_group_count (p_cow_group s') (cow_groups s') =
         Inr (if count (cow_groups s ! j) = 0 then 2 else count (cow_groups s ! j) + 1)
     \<and> same_others j (cow_groups s) (cow_groups s')"
proof -
  let ?g = "p_cow_group s" and ?c = "count (cow_groups s ! j)"
  have g: "get_cow_group ?g (cow_groups s) = Some j" using assms(6) by (simp add: cow_room_def)
  obtain gs where gs: "(if ?c = 0 then incr_cow_group_count ?g (cow_groups s) else Inr (cow_groups s)) = Inr gs"
      "cow_room F j ?g gs" "count (gs ! j) = (if ?c = 0 then 1 else ?c)" "shmem (gs ! j) = shmem (cow_groups s ! j)" "same_others j (cow_groups s) gs"
    using incr_count [OF g] assms(6) by (cases "?c = 0") auto
  let ?s = "s\<lparr>cow_groups := gs\<rparr>"
  have "\<exists>s' ps'. uvmcopy_cow_from kend old new sz 0 ?s = Inr s' \<and> forked kend old new (in_span 0 n) ?s ps s' ps'
     \<and> cow_room F j (p_cow_group s') (cow_groups s') \<and> count (cow_groups s' ! j) = count (cow_groups ?s ! j)
     \<and> shared_pages (shmem (cow_groups s' ! j)) = frames (pmem ?s) old 0 n \<union> shared_pages (shmem (cow_groups ?s ! j))
     \<and> same_others j (cow_groups ?s) (cow_groups s')"
    by (rule uvmcopy_cow_from_spec) (use assms gs(2) in \<open>auto simp: aligned_def\<close>)
  then obtain s1 ps' where s1: "uvmcopy_cow_from kend old new sz 0 ?s = Inr s1" "forked kend old new (in_span 0 n) ?s ps s1 ps'"
     "cow_room F j (p_cow_group s1) (cow_groups s1)" "count (cow_groups s1 ! j) = count (gs ! j)"
     "shared_pages (shmem (cow_groups s1 ! j)) = frames (pmem s) old 0 n \<union> shared_pages (shmem (cow_groups s ! j))"
     "same_others j gs (cow_groups s1)" using gs(4) by auto
  have g1: "get_cow_group (p_cow_group s1) (cow_groups s1) = Some j" using s1(3) by (simp add: cow_room_def)
  define gs' where "gs' = (cow_groups s1)[j := (cow_groups s1 ! j)\<lparr>count := count (cow_groups s1 ! j) + 1\<rparr>]"
  note i = incr_count [OF g1, folded gs'_def]
  let ?s' = "s1\<lparr>cow_groups := gs'\<rparr>"
  have "uvmcopy_cow kend old new sz s = Inr (0, ?s')"
    using g gs(1) s1(1) i(1) by (simp add: uvmcopy_cow_def get_cow_group_count_def)
  moreover have "forked kend old new (in_span 0 n) s ps ?s' ps'" using s1(2) by (simp add: forked_def)
  moreover have r: "cow_room F j (p_cow_group ?s') (cow_groups ?s')" using i(4) [OF s1(3)] by simp
  moreover have "shared_pages (shmem (cow_groups ?s' ! j)) = frames (pmem s) old 0 n \<union> shared_pages (shmem (cow_groups s ! j))"
    using s1(5) i(3) by simp
  moreover have "same_others j (cow_groups s) (cow_groups ?s')"
    using same_others_trans [OF same_others_trans [OF gs(5) s1(6)] i(5)] by simp
  moreover have "is_shmem (p_cow_group ?s') pa (cow_groups ?s') = Inr True" if pa: "pa \<in> frames (pmem s) old 0 n" for pa
  proof -
    have "pa \<noteq> 0" "pa \<in> shared_pages (shmem (gs' ! j))" using pa assms(6,7) s1(5) i(3) by (auto simp: cow_room_def)
    then show ?thesis using r get_cow_group_Some by (fastforce simp: is_shmem_def shmem_member_iff cow_room_def)
  qed
  moreover have "get_cow_group_count (p_cow_group ?s') (cow_groups ?s') = Inr (if ?c = 0 then 2 else ?c + 1)"
    using r i(2) s1(4) gs(3) by (simp add: get_cow_group_count_def cow_room_def)
  ultimately show ?thesis by blast
qed

text \<open>C23: a write fault on a shared page: \<open>copy_on_write\<close> gives the faulting process a private writable
  copy in the page \<open>q\<close> it allocates, with the bytes and other permissions of the shared one, leaves
  the shared page and every other mapping as they were and keeps the page-table invariant.\<close>

theorem copy_on_write_private_copy:
  fixes s :: "'a vmstate_scheme"
  assumes "vm_inv kend s pt (q # ps)" "stval < MAXVA" "leaf (pmem s) pt stval = Some e" "PTE_FLAGS e \<noteq> PTE_V"
    and "\<forall>t \<in> tables (pmem s) pt \<union> set (q # ps). \<forall>x. in_range x (PTE2PA e) 4096 \<longrightarrow> \<not> in_range x t 4096"
  shows "\<exists>s'. copy_on_write kend pt stval s = Inr s' \<and> vm_inv kend s' pt ps
     \<and> (\<forall>vb < MAXVA. leaf (pmem s') pt vb =
          (if same_page stval vb then Some (PA2PTE q OR PTE_FLAGS e OR PTE_W OR PTE_V) else leaf (pmem s) pt vb))
     \<and> bytes_at (pmem s') q 4096 = bytes_at (pmem s) (PTE2PA e) 4096
     \<and> bytes_at (pmem s') (PTE2PA e) 4096 = bytes_at (pmem s) (PTE2PA e) 4096"
  by (rule cow_fault) (use assms in blast)+

subsection \<open>Witnesses: one user page, forked and written\<close>

definition demo_end :: u64 where "demo_end = 0x87FF5000"

definition demo_pages :: "u64 list" where
  "demo_pages = [0x87FFF000, 0x87FFE000, 0x87FFD000, 0x87FFC000, 0x87FFB000, 0x87FFA000, 0x87FF9000, 0x87FF8000,
     0x87FF7000, 0x87FF6000, 0x87FF5000]"

lemma demo_kinit:
  assumes "freelist s = 0"
  shows "\<exists>s0. kinit demo_end s = Inr s0 \<and> kmem_repr demo_end s0 demo_pages"
proof -
  have u: "unat (PGROUNDUP demo_end) = 2281656320" unfolding demo_end_def by (subst unat_PGROUNDUP) simp_all
  then have p: "PGROUNDUP demo_end = 0x87FF5000" by (simp add: unat_eq_iff64)
  have "pages_from 0x87FF5000 11 = demo_pages" by (simp add: demo_pages_def eval_nat_numeral PGSIZE_def)
  then show ?thesis using kinit_repr [of demo_end s] assms u p by (auto simp: demo_end_def word_le_nat_alt)
qed


lemma second_space:
  assumes inv: "vm_inv kend s old (p # ps)"
  shows "\<exists>s'. uvmcreate s = (p, s') \<and> two_spaces kend s' old p ps \<and> (\<forall>va. leaf (pmem s') p va = None)
     \<and> (\<forall>va. leaf (pmem s') old va = leaf (pmem s) old va) \<and> machine.more s' = machine.more s"
proof -
  have km: "kmem_repr kend s (p # ps)" and dj: "p \<notin> tables (pmem s) old" using inv by (auto simp: vm_inv_def)
  have kp: "kpage kend p" using km by (simp add: kmem_repr_def)
  obtain s' where s': "uvmcreate s = (p, s')" "vm_inv kend s' p ps" "\<forall>va. leaf (pmem s') p va = None"
    using uvmcreate_spec [OF km] by blast
  have k: "fst (kalloc s) = p" "p \<noteq> 0" using kalloc_repr_Cons [OF km] kp by (auto simp: kpage_def)
  define m where "m = memset (pmem (snd (kalloc s))) p 0 4096"
  have e: "s' = (snd (kalloc s))\<lparr>pmem := m\<rparr>"
    using s'(1) k by (cases "kalloc s") (simp add: uvmcreate_def m_def)
  have "m x = pmem s x" if "\<not> in_range x p 4096" for x using that kalloc_frame [of x s] k(1) by (simp add: m_def)
  note f = kalloc_fill [OF inv this, folded e]
  have "tables (pmem s') p = {p}" using zero_page_table [OF kp, of m] by (simp add: e m_def)
  then show ?thesis using s' f dj kalloc_more [of s] by (auto simp: two_spaces_def e)
qed

text \<open>Page 0 is mapped to the frame \<open>0x80000000\<close>.\<close>

definition demo_entry :: "u64 \<Rightarrow> u64" where "demo_entry perm = PA2PTE 0x80000000 OR perm OR PTE_V"

lemma demo_entry_facts:
  assumes "unat perm < 1024"
  shows "PTE2PA (demo_entry perm) = 0x80000000" "PTE_FLAGS (demo_entry perm) = perm OR PTE_V"
proof -
  have r: "range_entry 0 0x80000000 perm 0 = demo_entry perm" by (simp add: range_entry_def demo_entry_def)
  show "PTE2PA (demo_entry perm) = 0x80000000" "PTE_FLAGS (demo_entry perm) = perm OR PTE_V"
    using range_entry_PTE2PA [OF assms, of "0x80000000" 0 0] range_entry_flags(1) [OF assms, of 0 "0x80000000" 0]
    by (auto simp: r aligned_def word_less_nat_alt)
qed

definition demo_mem :: "u64 \<Rightarrow> u64 \<Rightarrow> u64 option" where
  "demo_mem perm vb = (if same_page 0 vb then Some (demo_entry perm) else None)"

lemma demo_user_page:
  "\<exists>(s :: vmstate) p q ps. vm_inv demo_end s 0x87FFF000 (p # q # ps) \<and> 6 \<le> length ps
     \<and> p_cow_group s = 3 \<and> cow_groups s = one_group \<and> (\<forall>vb < MAXVA. leaf (pmem s) 0x87FFF000 vb = demo_mem perm vb)"
proof -
  obtain s0 :: vmstate where "kmem_repr demo_end s0 demo_pages"
    using demo_kinit [of "\<lparr>pmem = (\<lambda>_. 0), freelist = 0, cow_groups = [], p_cow_enabled = 0, p_cow_group = 0\<rparr>"] by auto
  from uvmcreate_spec [OF this [unfolded demo_pages_def]] obtain s1 :: vmstate where
    s1: "vm_inv demo_end s1 0x87FFF000 (tl demo_pages)" "\<forall>va. leaf (pmem s1) 0x87FFF000 va = None"
    by (auto simp: demo_pages_def)
  obtain s2 ps where s2: "vm_keeps demo_end 0x87FFF000 s1 (tl demo_pages) s2 ps" "length (tl demo_pages) \<le> length ps + 2"
      "\<forall>vb < MAXVA. leaf (pmem s2) 0x87FFF000 vb = demo_mem perm vb"
    using map_fresh [OF s1(1), of 0 "0x80000000" perm] s1(2)
    by (auto simp: aligned_def word_less_nat_alt demo_pages_def demo_mem_def demo_entry_def)
  obtain p q ps' where ps: "ps = p # q # ps'" "6 \<le> length ps'"
  proof -
    have "8 \<le> length ps" using s2(2) by (simp add: demo_pages_def)
    then show ?thesis using that by (cases ps; cases "tl ps") auto
  qed
  let ?s = "s2\<lparr>cow_groups := one_group, p_cow_group := 3\<rparr>"
  have "vm_inv demo_end ?s 0x87FFF000 (p # q # ps')" using s2(1) ps(1) by (simp add: vm_keeps_def vm_inv_def kmem_repr_def)
  then show ?thesis using s2(3) ps(2) by (intro exI [of _ ?s]) auto
qed

lemma demo_frame_apart:
  assumes "kpage demo_end t" "in_range x 0x80000000 4096"
  shows "\<not> in_range x t 4096"
proof -
  have "aligned 4096 t" "t \<noteq> 0x80000000" using assms(1) by (auto simp: kpage_def word_le_nat_alt demo_end_def)
  then show ?thesis using page_disjoint [of "0x80000000" t x] assms(2) by (auto simp: aligned_def)
qed

theorem uvmcopy_cow_shares_frames_witness:
  "\<exists>(s :: vmstate) new s'. leaf (pmem s) 0x87FFF000 0 = Some (demo_entry (PTE_R OR PTE_W OR PTE_U))
     \<and> uvmcopy_cow demo_end 0x87FFF000 new 0x1000 s = Inr (0, s')
     \<and> leaf (pmem s') new 0 = Some (read_only (demo_entry (PTE_R OR PTE_W OR PTE_U)))
     \<and> get_cow_group_count 3 (cow_groups s') = Inr 2"
proof -
  let ?perm = "PTE_R OR PTE_W OR PTE_U" and ?old = "0x87FFF000 :: u64"
  obtain s :: vmstate and p q ps where s: "vm_inv demo_end s ?old (p # q # ps)" "6 \<le> length ps"
     "p_cow_group s = 3" "cow_groups s = one_group" "\<forall>vb < MAXVA. leaf (pmem s) ?old vb = demo_mem ?perm vb"
    using demo_user_page by metis
  obtain s1 where s1: "two_spaces demo_end s1 ?old p (q # ps)" "\<forall>va. leaf (pmem s1) p va = None"
      "\<forall>va. leaf (pmem s1) ?old va = leaf (pmem s) ?old va" "machine.more s1 = machine.more s"
    using second_space [OF s(1)] by auto
  have e: "PTE2PA (demo_entry ?perm) = 0x80000000" "PTE_FLAGS (demo_entry ?perm) = ?perm OR PTE_V"
    using demo_entry_facts [of ?perm] by auto
  have sp: "in_span 0 1 vb \<longleftrightarrow> same_page 0 vb" for vb by (auto simp: in_span_def same_page_def)
  have lf: "leaf (pmem s1) ?old vb = demo_mem ?perm vb" if "vb < MAXVA" for vb using s1(3) s(5) that by simp
  have fr: "frames (pmem s1) ?old 0 1 = {0x80000000}"
  proof -
    have "0 < MAXVA" "in_span 0 1 0" by (simp_all add: word_less_nat_alt in_span_def)
    then have "0x80000000 \<in> frames (pmem s1) ?old 0 1"
      using lf [of 0] e(1) unfolding frames_def demo_mem_def same_page_def by fastforce
    moreover have "PTE2PA e' = 0x80000000" if "vb < MAXVA" "leaf (pmem s1) ?old vb = Some e'" for vb e'
      using lf [OF that(1)] that(2) e(1) by (auto simp: demo_mem_def split: if_splits)
    ultimately show ?thesis unfolding frames_def by blast
  qed
  have c: "cow_groups s1 = one_group" "p_cow_group s1 = 3" using cow_fields [OF s1(4)] s by auto
  have room: "cow_room {0x80000000} 0 (p_cow_group s1) (cow_groups s1)"
    using one_group_ok by (simp add: cow_room_def c SHMEM_MAX_def)
  have c0: "count (one_group ! 0) = 1" by (simp add: one_group_def)
  have "\<exists>s' ps'. uvmcopy_cow demo_end ?old p 0x1000 s1 = Inr (0, s') \<and> forked demo_end ?old p (in_span 0 1) s1 (q # ps) s' ps'
     \<and> (\<forall>pa \<in> frames (pmem s1) ?old 0 1. is_shmem (p_cow_group s') pa (cow_groups s') = Inr True)
     \<and> shared_pages (shmem (cow_groups s' ! 0)) = frames (pmem s1) ?old 0 1 \<union> shared_pages (shmem (cow_groups s1 ! 0))
     \<and> get_cow_group_count (p_cow_group s') (cow_groups s') =
         Inr (if count (cow_groups s1 ! 0) = 0 then 2 else count (cow_groups s1 ! 0) + 1)
     \<and> same_others 0 (cow_groups s1) (cow_groups s')"
  proof (rule uvmcopy_cow_shares_frames [OF s1(1) _ _ _ _ room])
    show "\<forall>vb < MAXVA. in_span 0 1 vb \<longrightarrow> leaf (pmem s1) p vb = None \<and> (\<exists>e. leaf (pmem s1) ?old vb = Some e \<and> PTE_FLAGS e \<noteq> PTE_V)"
      unfolding sp using lf s1(2) e(2) by (simp add: demo_mem_def)
  qed (use s(2) fr in auto)
  then obtain s' ps' where s': "uvmcopy_cow demo_end ?old p 0x1000 s1 = Inr (0, s')"
      "forked demo_end ?old p (in_span 0 1) s1 (q # ps) s' ps'"
      "get_cow_group_count (p_cow_group s') (cow_groups s') = Inr 2" unfolding c(1) c0 by auto
  have o: "leaf (pmem s1) ?old 0 = Some (demo_entry ?perm)" "0 < MAXVA" using lf [of 0] by (simp_all add: demo_mem_def same_page_def word_less_nat_alt)
  then have "leaf (pmem s') p 0 = Some (read_only (demo_entry ?perm))"
    using s'(2) by (simp add: forked_def in_span_def)
  moreover have "p_cow_group s' = 3" using s'(2) c(2) unfolding forked_def by metis
  ultimately show ?thesis using o(1) s'(1,3) by (intro exI [of _ s1] exI [of _ p] exI [of _ s']) simp
qed

theorem copy_on_write_private_copy_witness:
  "\<exists>(s :: vmstate) q s'. leaf (pmem s) 0x87FFF000 0x123 = Some (demo_entry (PTE_R OR PTE_U))
     \<and> copy_on_write demo_end 0x87FFF000 0x123 s = Inr s'
     \<and> leaf (pmem s') 0x87FFF000 0x123 = Some (PA2PTE q OR PTE_FLAGS (demo_entry (PTE_R OR PTE_U)) OR PTE_W OR PTE_V)
     \<and> bytes_at (pmem s') q 4096 = bytes_at (pmem s) 0x80000000 4096"
proof -
  let ?perm = "PTE_R OR PTE_U" and ?pt = "0x87FFF000 :: u64"
  obtain s :: vmstate and p q ps where s: "vm_inv demo_end s ?pt (p # q # ps)" "\<forall>vb < MAXVA. leaf (pmem s) ?pt vb = demo_mem ?perm vb"
    using demo_user_page by metis
  have e: "PTE2PA (demo_entry ?perm) = 0x80000000" "PTE_FLAGS (demo_entry ?perm) \<noteq> PTE_V"
    using demo_entry_facts [of ?perm] by auto
  have va: "0x123 < MAXVA" by (simp add: word_less_nat_alt)
  have lf: "leaf (pmem s) ?pt 0x123 = Some (demo_entry ?perm)" using s(2) va by (simp add: demo_mem_def same_page_def)
  have ap: "\<forall>t \<in> tables (pmem s) ?pt \<union> set (p # q # ps). \<forall>x. in_range x (PTE2PA (demo_entry ?perm)) 4096 \<longrightarrow> \<not> in_range x t 4096"
    using s(1) demo_frame_apart unfolding e(1) by (auto simp: vm_inv_def pt_wf_def kmem_repr_def)
  from copy_on_write_private_copy [OF s(1) va lf e(2) ap] obtain s' where
    "copy_on_write demo_end ?pt 0x123 s = Inr s'"
    "\<forall>vb < MAXVA. leaf (pmem s') ?pt vb =
       (if same_page 0x123 vb then Some (PA2PTE p OR PTE_FLAGS (demo_entry ?perm) OR PTE_W OR PTE_V) else leaf (pmem s) ?pt vb)"
    "bytes_at (pmem s') p 4096 = bytes_at (pmem s) (PTE2PA (demo_entry ?perm)) 4096" by blast
  then show ?thesis using lf va e(1) by (fastforce simp: same_page_def)
qed

end
