(* ===== verification/Locks.thy ===== *)
theory Locks
  imports Prelude
begin

text \<open>
  \<open>kernel/spinlock.c\<close> and \<open>kernel/sleeplock.c\<close>.

  A spin lock is shared by all harts, so its operations are modelled at the grain of the memory
  accesses that other harts can observe: \<open>acquire\<close> pushes the interrupt state and checks \<open>holding\<close>,
  then swaps \<open>locked\<close> atomically until the old value is 0, then stores \<open>cpu\<close>; \<open>release\<close> checks,
  clears \<open>cpu\<close>, clears \<open>locked\<close>, then pops. The phase of each hart says where it is, and \<open>lk_step\<close>
  interleaves the harts. \<open>acquire\<close> and \<open>release\<close> are the compositions of the phases as one hart
  runs them. The sleep lock is built on them and is atomic under its spin lock; \<open>acquiresleep\<close> on a
  lock that is taken puts the caller to sleep.
\<close>

subsection \<open>State\<close>

record cpu =
  noff :: int
  intena :: bool
  intr :: bool          \<comment> \<open>the interrupt-enable bit of the hart\<close>

record spinlock =
  locked :: bool
  owner :: "nat option" \<comment> \<open>the field \<open>cpu\<close>\<close>

datatype phase = Idle | Spinning nat | Taken nat | Clearing nat | Popping nat

record harts =
  cpus :: "nat \<Rightarrow> cpu"
  locks :: "nat \<Rightarrow> spinlock"
  phases :: "nat \<Rightarrow> phase"

definition set_cpu :: "nat \<Rightarrow> cpu \<Rightarrow> harts \<Rightarrow> harts" where
  "set_cpu c x s = s\<lparr>cpus := (cpus s)(c := x)\<rparr>"

definition set_lock :: "nat \<Rightarrow> spinlock \<Rightarrow> harts \<Rightarrow> harts" where
  "set_lock l x s = s\<lparr>locks := (locks s)(l := x)\<rparr>"

definition set_phase :: "nat \<Rightarrow> phase \<Rightarrow> harts \<Rightarrow> harts" where
  "set_phase c x s = s\<lparr>phases := (phases s)(c := x)\<rparr>"

lemmas hart_updates = set_cpu_def set_lock_def set_phase_def

subsection \<open>Spin locks\<close>

definition initlock :: "nat \<Rightarrow> harts \<Rightarrow> harts" where
  "initlock l s = set_lock l \<lparr>locked = False, owner = None\<rparr> s"

definition holding :: "nat \<Rightarrow> nat \<Rightarrow> harts \<Rightarrow> bool" where
  "holding c l s \<longleftrightarrow> locked (locks s l) \<and> owner (locks s l) = Some c"

definition push_off :: "nat \<Rightarrow> harts \<Rightarrow> harts" where
  "push_off c s =
     (let k = cpus s c; old = intr k; k = k\<lparr>intr := False\<rparr>;
          k = (if noff k = 0 then k\<lparr>intena := old\<rparr> else k) in
      set_cpu c (k\<lparr>noff := noff k + 1\<rparr>) s)"

definition pop_off :: "nat \<Rightarrow> harts \<Rightarrow> kerror + harts" where
  "pop_off c s =
     (let k = cpus s c in
      if intr k then Inl (Panic ''pop_off - interruptible'')
      else if noff k < 1 then Inl (Panic ''pop_off'')
      else let k = k\<lparr>noff := noff k - 1\<rparr> in
        Inr (set_cpu c (if noff k = 0 \<and> intena k then k\<lparr>intr := True\<rparr> else k) s))"

definition acquire_enter :: "nat \<Rightarrow> nat \<Rightarrow> harts \<Rightarrow> kerror + harts" where
  "acquire_enter c l s =
     (let s = push_off c s in
      if holding c l s then Inl (Panic ''acquire'') else Inr (set_phase c (Spinning l) s))"

text \<open>One atomic swap: the new state and the old value of the lock word.\<close>

definition test_and_set :: "nat \<Rightarrow> nat \<Rightarrow> harts \<Rightarrow> bool \<times> harts" where
  "test_and_set c l s =
     (if locked (locks s l) then (True, s)
      else (False, set_phase c (Taken l) (set_lock l ((locks s l)\<lparr>locked := True\<rparr>) s)))"

definition acquire_exit :: "nat \<Rightarrow> nat \<Rightarrow> harts \<Rightarrow> harts" where
  "acquire_exit c l s = set_phase c Idle (set_lock l ((locks s l)\<lparr>owner := Some c\<rparr>) s)"

definition release_enter :: "nat \<Rightarrow> nat \<Rightarrow> harts \<Rightarrow> kerror + harts" where
  "release_enter c l s =
     (if \<not> holding c l s then Inl (Panic ''release'')
      else Inr (set_phase c (Clearing l) (set_lock l ((locks s l)\<lparr>owner := None\<rparr>) s)))"

definition sync_lock_release :: "nat \<Rightarrow> nat \<Rightarrow> harts \<Rightarrow> harts" where
  "sync_lock_release c l s = set_phase c (Popping l) (set_lock l ((locks s l)\<lparr>locked := False\<rparr>) s)"

definition release_exit :: "nat \<Rightarrow> harts \<Rightarrow> kerror + harts" where
  "release_exit c s = bindE (pop_off c s) (\<lambda>s. Inr (set_phase c Idle s))"

text \<open>One hart on its own: a lock another hart holds is waited for in vain.\<close>

definition acquire :: "nat \<Rightarrow> nat \<Rightarrow> harts \<Rightarrow> kerror + harts" where
  "acquire c l s = bindE (acquire_enter c l s) (\<lambda>s.
     let (old, s) = test_and_set c l s in if old then Inl Diverges else Inr (acquire_exit c l s))"

definition release :: "nat \<Rightarrow> nat \<Rightarrow> harts \<Rightarrow> kerror + harts" where
  "release c l s = bindE (release_enter c l s) (\<lambda>s. release_exit c (sync_lock_release c l s))"

subsection \<open>Interleaving\<close>

inductive lk_step :: "harts \<Rightarrow> harts \<Rightarrow> bool" where
  enter: "phases s c = Idle \<Longrightarrow> acquire_enter c l s = Inr s' \<Longrightarrow> lk_step s s'"
| spin: "phases s c = Spinning l \<Longrightarrow> test_and_set c l s = (old, s') \<Longrightarrow> lk_step s s'"
| own: "phases s c = Taken l \<Longrightarrow> lk_step s (acquire_exit c l s)"
| drop: "phases s c = Idle \<Longrightarrow> release_enter c l s = Inr s' \<Longrightarrow> lk_step s s'"
| unlock: "phases s c = Clearing l \<Longrightarrow> lk_step s (sync_lock_release c l s)"
| pop: "phases s c = Popping l \<Longrightarrow> release_exit c s = Inr s' \<Longrightarrow> lk_step s s'"
| intr: "phases s c = Idle \<Longrightarrow> noff (cpus s c) = 0 \<Longrightarrow> lk_step s (set_cpu c ((cpus s c)\<lparr>intr := b\<rparr>) s)"

inductive lk_reachable :: "harts \<Rightarrow> bool" where
  init: "(\<And>c. noff (cpus s c) = 0) \<Longrightarrow> (\<And>c. phases s c = Idle)
     \<Longrightarrow> (\<And>l. locks s l = \<lparr>locked = False, owner = None\<rparr>) \<Longrightarrow> lk_reachable s"
| step: "lk_reachable s \<Longrightarrow> lk_step s s' \<Longrightarrow> lk_reachable s'"

subsection \<open>Sleep locks\<close>

record sleeplock =
  slocked :: bool
  spid :: int

definition initsleeplock :: sleeplock where
  "initsleeplock = \<lparr>slocked = False, spid = 0\<rparr>"

definition acquiresleep :: "int \<Rightarrow> sleeplock \<Rightarrow> kerror + sleeplock" where
  "acquiresleep mypid lk = (if slocked lk then Inl WouldSleep else Inr \<lparr>slocked = True, spid = mypid\<rparr>)"

definition releasesleep :: "sleeplock \<Rightarrow> sleeplock" where
  "releasesleep lk = \<lparr>slocked = False, spid = 0\<rparr>"

definition holdingsleep :: "int \<Rightarrow> sleeplock \<Rightarrow> bool" where
  "holdingsleep mypid lk \<longleftrightarrow> slocked lk \<and> spid lk = mypid"

subsection \<open>The invariant of the interleaved system\<close>

definition held :: "harts \<Rightarrow> nat \<Rightarrow> nat set" where
  "held s c = {l. owner (locks s l) = Some c}"

definition inside :: "harts \<Rightarrow> nat \<Rightarrow> nat \<Rightarrow> bool" where
  "inside s c l \<longleftrightarrow> owner (locks s l) = Some c \<or> phases s c = Taken l \<or> phases s c = Clearing l"

definition lk_inv :: "harts \<Rightarrow> bool" where
  "lk_inv s \<longleftrightarrow>
     (\<forall>l. locked (locks s l) \<longleftrightarrow> (\<exists>c. inside s c l)) \<and>
     (\<forall>c c' l. inside s c l \<longrightarrow> inside s c' l \<longrightarrow> c = c') \<and>
     (\<forall>c l. phases s c = Taken l \<or> phases s c = Clearing l \<longrightarrow> owner (locks s l) = None) \<and>
     (\<forall>c. finite (held s c) \<and> noff (cpus s c) = int (card (held s c)) + (if phases s c = Idle then 0 else 1)) \<and>
     (\<forall>c. 0 < noff (cpus s c) \<longrightarrow> \<not> intr (cpus s c))"

lemma lk_invI:
  assumes "\<And>l. locked (locks s l) \<longleftrightarrow> (\<exists>c. inside s c l)" "\<And>c c' l. inside s c l \<Longrightarrow> inside s c' l \<Longrightarrow> c = c'"
    "\<And>c l. phases s c = Taken l \<or> phases s c = Clearing l \<Longrightarrow> owner (locks s l) = None"
    "\<And>c. finite (held s c)" "\<And>c. noff (cpus s c) = int (card (held s c)) + (if phases s c = Idle then 0 else 1)"
    "\<And>c. 0 < noff (cpus s c) \<Longrightarrow> \<not> intr (cpus s c)"
  shows "lk_inv s"
  using assms unfolding lk_inv_def by blast

lemma lk_invD:
  assumes "lk_inv s"
  shows "locked (locks s l) \<longleftrightarrow> (\<exists>c. inside s c l)" "inside s c l \<Longrightarrow> inside s c' l \<Longrightarrow> c = c'"
    "phases s c = Taken l \<or> phases s c = Clearing l \<Longrightarrow> owner (locks s l) = None"
    "finite (held s c)" "noff (cpus s c) = int (card (held s c)) + (if phases s c = Idle then 0 else 1)"
    "0 < noff (cpus s c) \<Longrightarrow> \<not> intr (cpus s c)"
  using assms unfolding lk_inv_def by blast+

text \<open>A step of hart \<open>c\<close> that leaves the owners alone.\<close>

lemma lk_inv_same_owner:
  assumes inv: "lk_inv s" and other: "\<And>c'. c' \<noteq> c \<Longrightarrow> phases s' c' = phases s c' \<and> cpus s' c' = cpus s c'"
    and own: "\<And>l. owner (locks s' l) = owner (locks s l)"
    and lk: "\<And>l. locked (locks s' l) \<longleftrightarrow> (\<exists>c. inside s' c l)"
    and ins: "\<And>l. inside s' c l \<Longrightarrow> inside s c l \<or> \<not> locked (locks s l)"
    and ph: "\<And>l. phases s' c = Taken l \<or> phases s' c = Clearing l \<Longrightarrow> owner (locks s l) = None"
    and n: "noff (cpus s' c) = int (card (held s c)) + (if phases s' c = Idle then 0 else 1)"
    and i: "0 < noff (cpus s' c) \<Longrightarrow> \<not> intr (cpus s' c)"
  shows "lk_inv s'"
proof (rule lk_invI)
  note d = lk_invD [OF inv]
  have hd: "held s' x = held s x" for x by (simp add: held_def own)
  have ins': "inside s' x l \<Longrightarrow> inside s x l \<or> (x = c \<and> \<not> locked (locks s l))" for x l
    using ins other own by (cases "x = c") (auto simp: inside_def)
  show "x = y" if "inside s' x l" "inside s' y l" for x y l
    using ins' [OF that(1)] ins' [OF that(2)] d(1,2) by metis
  show "locked (locks s' l) \<longleftrightarrow> (\<exists>c. inside s' c l)" for l by (rule lk)
  show "owner (locks s' l) = None" if "phases s' x = Taken l \<or> phases s' x = Clearing l" for x l
    using that ph d(3) other own by (cases "x = c") auto
  show "finite (held s' x)" for x using d(4) hd by simp
  show "noff (cpus s' x) = int (card (held s' x)) + (if phases s' x = Idle then 0 else 1)" for x
    using n d(5) other hd by (cases "x = c") auto
  show "\<not> intr (cpus s' x)" if "0 < noff (cpus s' x)" for x
    using that i d(6) other by (cases "x = c") auto
qed

lemma enter_inv:
  assumes inv: "lk_inv s" and ph: "phases s c = Idle" and st: "acquire_enter c l s = Inr s'"
  shows "lk_inv s'"
proof -
  note d = lk_invD [OF inv]
  have s': "s' = set_phase c (Spinning l) (push_off c s)"
    using st by (auto simp: acquire_enter_def Let_def split: if_splits)
  have "inside s' x k \<longleftrightarrow> inside s x k" for x k
    using ph by (auto simp: s' inside_def push_off_def hart_updates Let_def)
  then show ?thesis using d(1,3,5,6) ph
    by (intro lk_inv_same_owner [OF inv, of c]) (auto simp: s' push_off_def hart_updates Let_def)
qed

lemma spin_inv:
  assumes inv: "lk_inv s" and ph: "phases s c = Spinning l" and st: "test_and_set c l s = (old, s')"
  shows "lk_inv s'"
proof (cases "locked (locks s l)")
  case True
  then show ?thesis using st inv by (simp add: test_and_set_def)
next
  case False
  note d = lk_invD [OF inv]
  have s': "s' = set_phase c (Taken l) (set_lock l ((locks s l)\<lparr>locked := True\<rparr>) s)"
    using st False by (simp add: test_and_set_def)
  have "inside s' x k \<longleftrightarrow> inside s x k \<or> (x = c \<and> k = l)" for x k
    using ph by (auto simp: s' inside_def hart_updates)
  moreover have "owner (locks s l) = None" using d(1) [of l] False by (cases "owner (locks s l)") (auto simp: inside_def)
  ultimately show ?thesis using d(1,3) d(5) [of c] d(6) [of c] ph False
    by (intro lk_inv_same_owner [OF inv, of c]) (auto simp: s' hart_updates)
qed

lemma unlock_inv:
  assumes inv: "lk_inv s" and ph: "phases s c = Clearing l"
  shows "lk_inv (sync_lock_release c l s)"
proof -
  note d = lk_invD [OF inv]
  have on: "owner (locks s l) = None" using d(3) ph by blast
  have "inside s c l" using ph by (simp add: inside_def)
  then have "inside s x l \<Longrightarrow> x = c" for x using d(2) by blast
  then have "inside (sync_lock_release c l s) x k \<longleftrightarrow> inside s x k \<and> k \<noteq> l" for x k
    using ph on by (auto simp: sync_lock_release_def inside_def hart_updates)
  then show ?thesis using d(1,3) d(5) [of c] d(6) [of c] ph
    by (intro lk_inv_same_owner [OF inv, of c]) (auto simp: sync_lock_release_def hart_updates)
qed

lemma pop_inv:
  assumes inv: "lk_inv s" and ph: "phases s c = Popping l" and st: "release_exit c s = Inr s'"
  shows "lk_inv s'"
proof -
  note d = lk_invD [OF inv]
  obtain k where s': "s' = set_phase c Idle (set_cpu c k s)" "noff k = noff (cpus s c) - 1"
      "intr k \<longleftrightarrow> intr (cpus s c) \<or> (noff k = 0 \<and> intena k)" "\<not> intr (cpus s c)"
    using st by (auto simp: release_exit_def pop_off_def Let_def split: if_splits)
  have "inside s' x k \<longleftrightarrow> inside s x k" for x k
    using ph by (auto simp: s' inside_def hart_updates)
  then show ?thesis using d(1,3) d(5) [of c] ph s'(2-)
    by (intro lk_inv_same_owner [OF inv, of c]) (auto simp: s'(1) hart_updates)
qed

lemma intr_inv:
  assumes inv: "lk_inv s" and "phases s c = Idle" "noff (cpus s c) = 0"
  shows "lk_inv (set_cpu c ((cpus s c)\<lparr>intr := b\<rparr>) s)"
  using lk_invD(1,3) [OF inv] lk_invD(5) [OF inv, of c] assms(2,3)
  by (intro lk_inv_same_owner [OF inv, of c]) (auto simp: hart_updates inside_def)

lemma own_inv:
  assumes inv: "lk_inv s" and ph: "phases s c = Taken l"
  shows "lk_inv (acquire_exit c l s)"
proof (rule lk_invI)
  note d = lk_invD [OF inv]
  let ?s = "acquire_exit c l s"
  have on: "owner (locks s l) = None" using d(3) ph by blast
  have ins: "inside ?s x k \<longleftrightarrow> inside s x k" for x k
    using ph on by (auto simp: acquire_exit_def inside_def hart_updates)
  have "locked (locks ?s k) = locked (locks s k)" for k by (simp add: acquire_exit_def hart_updates)
  then show "locked (locks ?s k) \<longleftrightarrow> (\<exists>c. inside ?s c k)" for k using d(1) [of k] by (simp add: ins)
  show "x = y" if "inside ?s x k" "inside ?s y k" for x y k using that d(2) by (auto simp: ins)
  show "owner (locks ?s k) = None" if "phases ?s x = Taken k \<or> phases ?s x = Clearing k" for x k
  proof -
    have "x \<noteq> c" using that by (auto simp: acquire_exit_def hart_updates)
    then have p: "phases s x = Taken k \<or> phases s x = Clearing k" using that by (auto simp: acquire_exit_def hart_updates)
    then have "k \<noteq> l" using d(2) [of x l c] \<open>x \<noteq> c\<close> ph by (auto simp: inside_def)
    then show ?thesis using d(3) p by (auto simp: acquire_exit_def hart_updates)
  qed
  have hc: "held ?s c = insert l (held s c)" "l \<notin> held s c" and ho: "\<And>x. x \<noteq> c \<Longrightarrow> held ?s x = held s x"
    using on by (auto simp: acquire_exit_def held_def hart_updates)
  show "finite (held ?s x)" for x using d(4) hc ho by (cases "x = c") auto
  show "noff (cpus ?s x) = int (card (held ?s x)) + (if phases ?s x = Idle then 0 else 1)" for x
    using d(4,5) ph hc ho by (cases "x = c") (auto simp: acquire_exit_def hart_updates)
  show "\<not> intr (cpus ?s x)" if "0 < noff (cpus ?s x)" for x
    using that d(6) by (auto simp: acquire_exit_def hart_updates)
qed

lemma drop_inv:
  assumes inv: "lk_inv s" and ph: "phases s c = Idle" and st: "release_enter c l s = Inr s'"
  shows "lk_inv s'"
proof (rule lk_invI)
  note d = lk_invD [OF inv]
  have s': "s' = set_phase c (Clearing l) (set_lock l ((locks s l)\<lparr>owner := None\<rparr>) s)"
    and on: "owner (locks s l) = Some c" and lk: "locked (locks s l)"
    using st by (auto simp: release_enter_def holding_def split: if_splits)
  have ins: "inside s' x k \<longleftrightarrow> inside s x k" for x k
    using ph on d(2) [of c l x] by (auto simp: s' inside_def hart_updates)
  show "locked (locks s' k) \<longleftrightarrow> (\<exists>c. inside s' c k)" for k
    unfolding ins using d(1) [of k] by (auto simp: s' hart_updates split: if_splits)
  show "x = y" if "inside s' x k" "inside s' y k" for x y k using that d(2) by (auto simp: ins)
  show "owner (locks s' k) = None" if "phases s' x = Taken k \<or> phases s' x = Clearing k" for x k
    using that d(3) by (cases "x = c") (auto simp: s' hart_updates split: if_splits)
  have hc: "held s c = insert l (held s' c)" "l \<notin> held s' c" and ho: "\<And>x. x \<noteq> c \<Longrightarrow> held s' x = held s x"
    using on by (auto simp: s' held_def hart_updates)
  show f: "finite (held s' x)" for x using d(4) [of x] hc ho by (cases "x = c") auto
  show "noff (cpus s' x) = int (card (held s' x)) + (if phases s' x = Idle then 0 else 1)" for x
    using d(5) [of x] f [of x] ph hc ho by (cases "x = c") (auto simp: s' hart_updates)
  show "\<not> intr (cpus s' x)" if "0 < noff (cpus s' x)" for x
    using that d(6) by (auto simp: s' hart_updates)
qed

lemmas lk_step_invs = enter_inv spin_inv own_inv drop_inv unlock_inv pop_inv intr_inv

lemma lk_step_inv: "lk_step s s' \<Longrightarrow> lk_inv s \<Longrightarrow> lk_inv s'"
  by (induction rule: lk_step.induct) (auto intro: lk_step_invs)

lemma lk_reachable_inv: "lk_reachable s \<Longrightarrow> lk_inv s"
proof (induction rule: lk_reachable.induct)
  case (init s)
  then show ?case by (auto simp: lk_inv_def inside_def held_def)
qed (blast intro: lk_step_inv)

text \<open>Taking a free lock and releasing it restores the hart's interrupt state and the lock.\<close>

lemma acquire_release_restores:
  assumes inv: "lk_inv s" and "phases s c = Idle" "locks s l = \<lparr>locked = False, owner = None\<rparr>"
  shows "\<exists>s1. acquire c l s = Inr s1 \<and> holding c l s1
     \<and> (\<exists>s2. release c l s1 = Inr s2 \<and> locks s2 = locks s \<and> phases s2 = phases s
          \<and> noff (cpus s2 c) = noff (cpus s c) \<and> intr (cpus s2 c) = intr (cpus s c))"
proof -
  have "0 \<le> noff (cpus s c)" "0 < noff (cpus s c) \<Longrightarrow> \<not> intr (cpus s c)"
    using lk_invD(5,6) [OF inv, of c] by auto
  then show ?thesis using assms(2,3)
    by (auto simp: acquire_def release_def acquire_enter_def push_off_def holding_def test_and_set_def acquire_exit_def
        release_enter_def sync_lock_release_def release_exit_def pop_off_def hart_updates Let_def fun_eq_iff)
qed

subsection \<open>Properties\<close>

text \<open>C11: in every reachable interleaving of the harts, at most one hart is between the successful swap
  of \<open>acquire\<close> and the unlocking store of \<open>release\<close> of a given lock, the lock word is set exactly while
  some hart is there, and the interrupts of that hart are off.\<close>

theorem spinlock_mutual_exclusion:
  assumes "lk_reachable s"
  shows "(inside s c l \<and> inside s c' l \<longrightarrow> c = c') \<and> (locked (locks s l) \<longleftrightarrow> (\<exists>k. inside s k l))
     \<and> (inside s c l \<longrightarrow> \<not> intr (cpus s c))"
proof -
  note d = lk_invD [OF lk_reachable_inv [OF assms]]
  have "0 < noff (cpus s c)" if "inside s c l"
  proof -
    have "l \<in> held s c \<or> phases s c \<noteq> Idle" using that by (auto simp: inside_def held_def)
    then show ?thesis using d(4) [of c] d(5) [of c] by (auto simp: card_gt_0_iff)
  qed
  then show ?thesis using d(1,2,6) by blast
qed

definition harts0 :: harts where
  "harts0 = \<lparr>cpus = (\<lambda>_. \<lparr>noff = 0, intena = False, intr = True\<rparr>), locks = (\<lambda>_. \<lparr>locked = False, owner = None\<rparr>),
     phases = (\<lambda>_. Idle)\<rparr>"

theorem spinlock_mutual_exclusion_witness:
  "\<exists>s. lk_reachable s \<and> inside s 0 3 \<and> locked (locks s 3) \<and> \<not> intr (cpus s 0)"
proof -
  define s1 where "s1 = set_phase 0 (Spinning 3) (push_off 0 harts0)"
  define s2 where "s2 = snd (test_and_set 0 3 s1)"
  have "lk_reachable harts0" by (rule lk_reachable.init) (simp_all add: harts0_def)
  moreover have "lk_step harts0 s1"
    by (rule lk_step.enter [of _ 0 3]) (simp_all add: harts0_def s1_def acquire_enter_def holding_def push_off_def hart_updates Let_def)
  moreover have "lk_step s1 s2"
    by (rule lk_step.spin [of _ 0 3 "fst (test_and_set 0 3 s1)"]) (simp_all add: s2_def s1_def hart_updates)
  ultimately have r: "lk_reachable s2" by (blast intro: lk_reachable.step)
  moreover have "inside s2 0 3"
    by (simp add: s2_def s1_def harts0_def inside_def test_and_set_def push_off_def hart_updates Let_def)
  ultimately show ?thesis using spinlock_mutual_exclusion [OF r, of 0 3 0] by blast
qed

end
