(* ===== verification/Bio.thy ===== *)
theory Bio
  imports Locks KString
begin

text \<open>
  The buffer cache, \<open>kernel/bio.c\<close> (Project 2): \<open>NBUF\<close> buffers on a circular doubly linked list in
  most-recently-used order, threaded through \<open>prev\<close> and \<open>next\<close>. A pointer to a buffer is its index;
  the list head \<open>bcache.head\<close> is the buffer with index \<open>NBUF\<close>. \<open>bcache.lock\<close> makes each operation
  atomic. \<open>virtio_disk_rw\<close>, the driver, is its contract: it moves one block between the buffer and the
  disk; the blocks written are recorded in order, which the crash theorems of the log use.
\<close>

subsection \<open>State\<close>

definition NBUF :: nat where "NBUF = 30"

type_synonym block = "u8 list"

record buffer =
  b_valid :: bool
  b_dev :: u32
  b_blockno :: u32
  b_lock :: sleeplock
  b_refcnt :: u32
  b_prev :: nat
  b_next :: nat
  b_data :: block

record bcache =
  bufs :: "buffer list"
  disk :: "u32 \<Rightarrow> block"
  written :: "(u32 \<times> block) list"

abbreviation head :: nat where "head \<equiv> NBUF"

definition upd_buf :: "nat \<Rightarrow> (buffer \<Rightarrow> buffer) \<Rightarrow> 'a bcache_scheme \<Rightarrow> 'a bcache_scheme" where
  "upd_buf i f s = s\<lparr>bufs := (bufs s)[i := f (bufs s ! i)]\<rparr>"

text \<open>The contract of the disk driver.\<close>

definition virtio_disk_rw :: "nat \<Rightarrow> bool \<Rightarrow> 'a bcache_scheme \<Rightarrow> 'a bcache_scheme" where
  "virtio_disk_rw i write s =
     (let b = bufs s ! i in
      if write then s\<lparr>disk := (disk s)(b_blockno b := b_data b), written := written s @ [(b_blockno b, b_data b)]\<rparr>
      else upd_buf i (\<lambda>b. b\<lparr>b_data := disk s (b_blockno b)\<rparr>) s)"

subsection \<open>Operations\<close>

definition set_next :: "nat \<Rightarrow> nat \<Rightarrow> 'a bcache_scheme \<Rightarrow> 'a bcache_scheme" where
  "set_next i j = upd_buf i (\<lambda>b. b\<lparr>b_next := j\<rparr>)"

definition set_prev :: "nat \<Rightarrow> nat \<Rightarrow> 'a bcache_scheme \<Rightarrow> 'a bcache_scheme" where
  "set_prev i j = upd_buf i (\<lambda>b. b\<lparr>b_prev := j\<rparr>)"

definition next_of :: "'a bcache_scheme \<Rightarrow> nat \<Rightarrow> nat" where "next_of s i = b_next (bufs s ! i)"

definition prev_of :: "'a bcache_scheme \<Rightarrow> nat \<Rightarrow> nat" where "prev_of s i = b_prev (bufs s ! i)"

definition link_front :: "nat \<Rightarrow> 'a bcache_scheme \<Rightarrow> 'a bcache_scheme" where
  "link_front b s =
     (let s = set_next b (next_of s head) s; s = set_prev b head s; s = set_prev (next_of s head) b s in
      set_next head b s)"

definition binit_buf :: "nat \<Rightarrow> 'a bcache_scheme \<Rightarrow> 'a bcache_scheme" where
  "binit_buf b s =
     (let s = set_next b (next_of s head) s; s = set_prev b head s;
          s = upd_buf b (\<lambda>x. x\<lparr>b_lock := initsleeplock\<rparr>) s; s = set_prev (next_of s head) b s in
      set_next head b s)"

definition binit :: "'a bcache_scheme \<Rightarrow> 'a bcache_scheme" where
  "binit s = fold binit_buf [0..<NBUF] (set_next head head (set_prev head head s))"

text \<open>The two loops of \<open>bget\<close>: follow the links from \<open>b\<close> until the head or the first buffer with the
  property. The fuel is one more than the number of buffers; a well-formed list never exhausts it.\<close>

fun scan :: "nat \<Rightarrow> (nat \<Rightarrow> nat) \<Rightarrow> (nat \<Rightarrow> bool) \<Rightarrow> nat \<Rightarrow> kerror + nat option" where
  "scan 0 link found b = Inl Diverges"
| "scan (Suc fuel) link found b =
     (if b = head then Inr None else if found b then Inr (Some b) else scan fuel link found (link b))"

definition bget :: "int \<Rightarrow> u32 \<Rightarrow> u32 \<Rightarrow> 'a bcache_scheme \<Rightarrow> kerror + (nat \<times> 'a bcache_scheme)" where
  "bget pid dev blockno s =
     bindE (scan (Suc NBUF) (next_of s) (\<lambda>i. b_dev (bufs s ! i) = dev \<and> b_blockno (bufs s ! i) = blockno) (next_of s head))
       (\<lambda>hit. case hit of
          Some b \<Rightarrow>
            (let s = upd_buf b (\<lambda>x. x\<lparr>b_refcnt := b_refcnt x + 1\<rparr>) s in
             bindE (acquiresleep pid (b_lock (bufs s ! b))) (\<lambda>lk. Inr (b, upd_buf b (\<lambda>x. x\<lparr>b_lock := lk\<rparr>) s)))
        | None \<Rightarrow>
            bindE (scan (Suc NBUF) (prev_of s) (\<lambda>i. b_refcnt (bufs s ! i) = 0) (prev_of s head)) (\<lambda>free. case free of
              Some b \<Rightarrow>
                (let s = upd_buf b (\<lambda>x. x\<lparr>b_dev := dev, b_blockno := blockno, b_valid := False, b_refcnt := 1\<rparr>) s in
                 bindE (acquiresleep pid (b_lock (bufs s ! b))) (\<lambda>lk. Inr (b, upd_buf b (\<lambda>x. x\<lparr>b_lock := lk\<rparr>) s)))
            | None \<Rightarrow> Inl (Panic ''bget: no buffers'')))"

definition bread :: "int \<Rightarrow> u32 \<Rightarrow> u32 \<Rightarrow> 'a bcache_scheme \<Rightarrow> kerror + (nat \<times> 'a bcache_scheme)" where
  "bread pid dev blockno s =
     bindE (bget pid dev blockno s) (\<lambda>(b, s).
       Inr (b, if \<not> b_valid (bufs s ! b)
               then upd_buf b (\<lambda>x. x\<lparr>b_valid := True\<rparr>) (virtio_disk_rw b False s) else s))"

definition bwrite :: "int \<Rightarrow> nat \<Rightarrow> 'a bcache_scheme \<Rightarrow> kerror + 'a bcache_scheme" where
  "bwrite pid b s =
     (if \<not> holdingsleep pid (b_lock (bufs s ! b)) then Inl (Panic ''bwrite'') else Inr (virtio_disk_rw b True s))"

definition brelse :: "int \<Rightarrow> nat \<Rightarrow> 'a bcache_scheme \<Rightarrow> kerror + 'a bcache_scheme" where
  "brelse pid b s =
     (if \<not> holdingsleep pid (b_lock (bufs s ! b)) then Inl (Panic ''brelse'')
      else let s = upd_buf b (\<lambda>x. x\<lparr>b_lock := releasesleep (b_lock x)\<rparr>) s;
               s = upd_buf b (\<lambda>x. x\<lparr>b_refcnt := b_refcnt x - 1\<rparr>) s in
        if b_refcnt (bufs s ! b) = 0
        then let s = set_prev (next_of s b) (prev_of s b) s; s = set_next (prev_of s b) (next_of s b) s in
          Inr (link_front b s)
        else Inr s)"

definition bpin :: "nat \<Rightarrow> 'a bcache_scheme \<Rightarrow> 'a bcache_scheme" where
  "bpin b = upd_buf b (\<lambda>x. x\<lparr>b_refcnt := b_refcnt x + 1\<rparr>)"

definition bunpin :: "nat \<Rightarrow> 'a bcache_scheme \<Rightarrow> 'a bcache_scheme" where
  "bunpin b = upd_buf b (\<lambda>x. x\<lparr>b_refcnt := b_refcnt x - 1\<rparr>)"

text \<open>A store into the data of a buffer.\<close>

definition set_data :: "nat \<Rightarrow> block \<Rightarrow> 'a bcache_scheme \<Rightarrow> 'a bcache_scheme" where
  "set_data b d = upd_buf b (\<lambda>x. x\<lparr>b_data := d\<rparr>)"

subsection \<open>The list of buffers\<close>

primrec chain :: "(nat \<Rightarrow> nat) \<Rightarrow> nat \<Rightarrow> nat list \<Rightarrow> bool" where
  "chain f x [] = True"
| "chain f x (y # ys) \<longleftrightarrow> f x = y \<and> chain f y ys"

definition lru :: "'a bcache_scheme \<Rightarrow> nat list \<Rightarrow> bool" where
  "lru s xs \<longleftrightarrow> distinct xs \<and> set xs = {..<NBUF} \<and> length (bufs s) = Suc NBUF
     \<and> chain (next_of s) head (xs @ [head]) \<and> chain (prev_of s) head (rev xs @ [head])"

lemma chain_append: "chain f x (ys @ zs) \<longleftrightarrow> chain f x ys \<and> chain f (last (x # ys)) zs"
  by (induction ys arbitrary: x) auto

lemma chain_cong: "(\<And>y. y \<in> set (butlast (x # ys)) \<Longrightarrow> f y = g y) \<Longrightarrow> chain f x ys = chain g x ys"
  by (induction ys arbitrary: x) auto

lemma scan_chain:
  "chain link x (ys @ [head]) \<Longrightarrow> head \<notin> set ys \<Longrightarrow> length ys < fuel \<Longrightarrow> scan fuel link P (link x) = Inr (find P ys)"
proof (induction ys arbitrary: x fuel)
  case Nil
  then show ?case by (cases fuel) auto
next
  case (Cons y ys)
  then obtain k where "fuel = Suc k" by (cases fuel) auto
  then show ?case using Cons.prems Cons.IH [of y k] by auto
qed

text \<open>Unlinking an element and putting it in front, on one of the two link functions.\<close>

lemma chain_unlink:
  assumes "chain f x (us @ b # n # ws)" "distinct (x # us @ b # vs)" "n # ws = vs @ [x]"
  shows "chain (f(last (x # us) := n)) x (us @ n # ws)"
proof -
  let ?p = "last (x # us)"
  have c: "chain f x us" "f ?p = b" "f b = n" "chain f n ws"
    using assms(1) by (auto simp: chain_append)
  have "chain (f(?p := n)) x us = chain f x us"
  proof (rule chain_cong)
    fix y assume "y \<in> set (butlast (x # us))"
    then have "y \<noteq> ?p" using assms(2) append_butlast_last_id [of "x # us"]
      by (metis (no_types, lifting) distinct_append distinct_butlast list.discI not_distinct_conv_prefix append_Cons)
    then show "(f(?p := n)) y = f y" by simp
  qed
  moreover have "chain (f(?p := n)) n ws = chain f n ws"
  proof (rule chain_cong)
    fix y assume y: "y \<in> set (butlast (n # ws))"
    then have "y \<in> set vs" using assms(3) by simp
    moreover have "?p \<in> set (x # us)" using last_in_set by blast
    ultimately have "y \<noteq> ?p" using assms(2) by auto
    then show "(f(?p := n)) y = f y" by simp
  qed
  ultimately show ?thesis using c by (simp add: chain_append)
qed

lemma chain_link_front:
  assumes "chain f x (ys @ [x])" "distinct (x # ys)" "b \<notin> set (x # ys)"
  shows "chain (f(b := f x, x := b)) x (b # ys @ [x])"
proof (cases ys)
  case Nil
  then show ?thesis using assms by auto
next
  case (Cons y zs)
  have "chain (f(b := f x, x := b)) y (zs @ [x]) = chain f y (zs @ [x])"
    using assms Cons by (intro chain_cong) (auto simp: butlast_append)
  then show ?thesis using assms Cons by auto
qed

text \<open>The same move seen from the other end: the last element of the reversed list.\<close>

lemma chain_link_back:
  assumes "chain f x (ys @ [x])" "distinct (x # ys)" "b \<notin> set (x # ys)"
  shows "chain (f(b := x, last (x # ys) := b)) x (ys @ [b, x])"
proof -
  let ?l = "last (x # ys)" and ?g = "f(b := x, last (x # ys) := b)"
  have c: "chain f x ys" using assms(1) by (simp add: chain_append)
  have "chain ?g x ys = chain f x ys"
  proof (rule chain_cong)
    fix y assume y: "y \<in> set (butlast (x # ys))"
    then have "y \<noteq> ?l" using assms(2) append_butlast_last_id [of "x # ys"]
      by (metis distinct_butlast list.discI not_distinct_conv_prefix)
    moreover have "y \<noteq> b" using assms(3) in_set_butlastD [OF y] by auto
    ultimately show "?g y = f y" by simp
  qed
  moreover have "b \<noteq> ?l" using assms(3) last_in_set [of "x # ys"] by (metis list.discI)
  ultimately show ?thesis using c by (simp add: chain_append)
qed

subsection \<open>Updates of one buffer\<close>

lemma upd_buf_simps [simp]:
  "disk (upd_buf i f s) = disk s" "written (upd_buf i f s) = written s" "length (bufs (upd_buf i f s)) = length (bufs s)"
  "bcache.more (upd_buf i f s) = bcache.more s"
  "bufs (upd_buf i f s) ! j = (if j = i \<and> i < length (bufs s) then f (bufs s ! i) else bufs s ! j)"
  by (cases "i < length (bufs s)"; simp add: upd_buf_def nth_list_update list_update_beyond)+

lemma links_upd [simp]:
  "next_of (set_prev i j s) = next_of s" "prev_of (set_next i j s) = prev_of s"
  "i < length (bufs s) \<Longrightarrow> next_of (set_next i j s) = (next_of s)(i := j)"
  "i < length (bufs s) \<Longrightarrow> prev_of (set_prev i j s) = (prev_of s)(i := j)"
  "length (bufs (set_next i j s)) = length (bufs s)" "length (bufs (set_prev i j s)) = length (bufs s)"
  by (auto simp: fun_eq_iff next_of_def prev_of_def set_next_def set_prev_def)

text \<open>The fields of a buffer other than its links.\<close>

definition payload :: "buffer \<Rightarrow> buffer" where
  "payload b = b\<lparr>b_prev := 0, b_next := 0\<rparr>"

lemma payload_eqD: "payload x = payload y \<Longrightarrow> b_valid x = b_valid y \<and> b_dev x = b_dev y \<and> b_blockno x = b_blockno y
   \<and> b_lock x = b_lock y \<and> b_refcnt x = b_refcnt y \<and> b_data x = b_data y"
  by (cases x; cases y) (simp add: payload_def)

lemma payload_set_link [simp]:
  "payload (bufs (set_next i j s) ! k) = payload (bufs s ! k)" "payload (bufs (set_prev i j s) ! k) = payload (bufs s ! k)"
  by (auto simp: set_next_def set_prev_def payload_def)

lemma set_link_simps [simp]:
  "disk (set_next i j s) = disk s" "written (set_next i j s) = written s" "bcache.more (set_next i j s) = bcache.more s"
  "disk (set_prev i j s) = disk s" "written (set_prev i j s) = written s" "bcache.more (set_prev i j s) = bcache.more s"
  by (simp_all add: set_next_def set_prev_def)

lemma link_front_simps [simp]:
  "disk (link_front b s) = disk s" "written (link_front b s) = written s" "bcache.more (link_front b s) = bcache.more s"
  "length (bufs (link_front b s)) = length (bufs s)" "payload (bufs (link_front b s) ! k) = payload (bufs s ! k)"
  by (simp_all add: link_front_def Let_def)

lemma lru_cong:
  "next_of s' = next_of s \<Longrightarrow> prev_of s' = prev_of s \<Longrightarrow> length (bufs s') = length (bufs s) \<Longrightarrow> lru s' xs = lru s xs"
  by (simp add: lru_def)

lemma lruD:
  assumes "lru s xs"
  shows "distinct xs" "set xs = {..<NBUF}" "length (bufs s) = Suc NBUF" "head \<notin> set xs" "length xs = NBUF"
    "chain (next_of s) head (xs @ [head])" "chain (prev_of s) head (rev xs @ [head])"
proof -
  show "distinct xs" "set xs = {..<NBUF}" "length (bufs s) = Suc NBUF"
    "chain (next_of s) head (xs @ [head])" "chain (prev_of s) head (rev xs @ [head])" using assms by (auto simp: lru_def)
  then show "head \<notin> set xs" "length xs = NBUF" using distinct_card [of xs] by auto
qed

lemma scan_next: "lru s xs \<Longrightarrow> scan (Suc NBUF) (next_of s) P (next_of s head) = Inr (find P xs)"
  by (rule scan_chain) (auto dest: lruD)

lemma scan_prev: "lru s xs \<Longrightarrow> scan (Suc NBUF) (prev_of s) P (prev_of s head) = Inr (find P (rev xs))"
  by (rule scan_chain) (auto dest: lruD)

lemma hd_last_rev: "hd (ys @ [x]) = last (x # rev ys)"
  by (cases ys) auto

lemma lru_links:
  assumes "lru s (us @ b # vs)"
  shows "next_of s b = hd (vs @ [head])" "prev_of s b = last (head # us)"
proof -
  show "next_of s b = hd (vs @ [head])" using lruD(6) [OF assms] by (cases vs) (auto simp: chain_append)
  have "chain (prev_of s) head (rev vs @ b # rev us @ [head])" using lruD(7) [OF assms] by simp
  then show "prev_of s b = last (head # us)"
    using hd_last_rev [of "rev us" head] by (cases "rev us") (auto simp: chain_append)
qed

lemma lru_link_front:
  assumes "chain (next_of s) head (ys @ [head])" "chain (prev_of s) head (rev ys @ [head])"
    and d: "distinct (b # ys)" "set (b # ys) = {..<NBUF}" and l: "length (bufs s) = Suc NBUF"
  shows "lru (link_front b s) (b # ys)"
proof -
  have b: "b < NBUF" "head \<notin> set (b # ys)" using d(2) by auto
  have f: "next_of s head = hd (ys @ [head])" using assms(1) by (cases ys) auto
  have "\<forall>y \<in> set ys. y < NBUF" using d(2) by auto
  then have fl: "next_of s head < Suc NBUF" unfolding f by (cases ys) (simp_all add: less_SucI)
  have "next_of (link_front b s) = (next_of s)(b := next_of s head, head := b)"
    "prev_of (link_front b s) = (prev_of s)(b := head, next_of s head := b)"
    using b l fl by (simp_all add: link_front_def Let_def)
  moreover have "chain ((next_of s)(b := next_of s head, head := b)) head (b # ys @ [head])"
    using assms(1) d b by (intro chain_link_front) auto
  moreover have "chain ((prev_of s)(b := head, last (head # rev ys) := b)) head (rev ys @ [b, head])"
    using assms(2) d b by (intro chain_link_back) auto
  ultimately show ?thesis using d l by (simp add: lru_def f hd_last_rev)
qed

lemma lru_move_front:
  fixes s :: "'a bcache_scheme"
  assumes lr: "lru s (us @ b # vs)"
  defines "s1 \<equiv> set_prev (next_of s b) (prev_of s b) s"
  defines "s2 \<equiv> set_next (prev_of s1 b) (next_of s1 b) s1"
  shows "lru (link_front b s2) (b # us @ vs)"
proof -
  note d = lruD [OF lr] and lk = lru_links [OF lr]
  have b: "b < NBUF" using d(2) by auto
  have n: "next_of s b < Suc NBUF" "next_of s b \<noteq> b" and p: "prev_of s b < Suc NBUF"
  proof -
    have m: "\<forall>y \<in> set (us @ b # vs). y < NBUF" using d(2) by auto
    then show "next_of s b < Suc NBUF" unfolding lk by (cases vs) (simp_all add: less_SucI)
    show "next_of s b \<noteq> b" unfolding lk using m d(1) by (cases vs) auto
    show "prev_of s b < Suc NBUF" unfolding lk using m by (cases us rule: rev_cases) (simp_all add: less_SucI)
  qed
  have nx: "next_of s2 = (next_of s)(last (head # us) := hd (vs @ [head]))"
    and pv: "prev_of s2 = (prev_of s)(last (head # rev vs) := last (head # us))"
    using n p d(3) lk by (auto simp: s1_def s2_def hd_last_rev)
  obtain k ks where k: "vs @ [head] = k # ks" by (cases "vs @ [head]") auto
  have "chain ((next_of s)(last (head # us) := k)) head (us @ k # ks)"
    using d(1,2,4,6) k by (intro chain_unlink [where vs = vs and b = b]) auto
  then have 1: "chain (next_of s2) head ((us @ vs) @ [head])" using k by (simp add: nx)
  obtain j js where j: "rev us @ [head] = j # js" by (cases "rev us @ [head]") auto
  have "chain ((prev_of s)(last (head # rev vs) := j)) head (rev vs @ j # js)"
    using d(1,2,4,7) j by (intro chain_unlink [where vs = "rev us" and b = b]) auto
  moreover have "j = last (head # us)" using j hd_last_rev [of "rev us" head] by simp
  ultimately have 2: "chain (prev_of s2) head (rev (us @ vs) @ [head])" using j by (simp add: pv)
  show ?thesis using d(1,2,3) by (intro lru_link_front 1 2) (auto simp: s1_def s2_def)
qed

subsection \<open>What the cache stands for\<close>

text \<open>The view a client has: the contents of every block, what is durable on disk, and which blocks are
  referenced (in which buffer, how often) and locked.\<close>

record view =
  content :: "u32 \<Rightarrow> block"
  durable :: "u32 \<Rightarrow> block"
  slot :: "u32 \<Rightarrow> nat option"
  refs :: "u32 \<Rightarrow> nat"
  busy :: "u32 set"

definition buf_ok :: "u32 \<Rightarrow> int \<Rightarrow> view \<Rightarrow> nat \<Rightarrow> buffer \<Rightarrow> bool" where
  "buf_ok dev pid A i b \<longleftrightarrow>
     (if b_refcnt b = 0
      then \<not> slocked (b_lock b) \<and> (b_dev b = dev \<and> b_valid b \<longrightarrow> b_data b = durable A (b_blockno b))
      else b_dev b = dev \<and> slot A (b_blockno b) = Some i \<and> b_valid b \<and> b_data b = content A (b_blockno b)
        \<and> refs A (b_blockno b) = unat (b_refcnt b) \<and> (slocked (b_lock b) \<longleftrightarrow> b_blockno b \<in> busy A)
        \<and> (slocked (b_lock b) \<longrightarrow> spid (b_lock b) = pid))"

definition idle :: "view \<Rightarrow> u32 \<Rightarrow> bool" where
  "idle A n \<longleftrightarrow> content A n = durable A n \<and> n \<notin> busy A \<and> refs A n = 0"

definition bc_rep :: "u32 \<Rightarrow> int \<Rightarrow> 'a bcache_scheme \<Rightarrow> view \<Rightarrow> bool" where
  "bc_rep dev pid s A \<longleftrightarrow>
     (\<exists>xs. lru s xs) \<and> disk s = durable A \<and> (\<forall>i<NBUF. buf_ok dev pid A i (bufs s ! i)) \<and>
     (\<forall>n i. slot A n = Some i \<longrightarrow> i < NBUF \<and> b_refcnt (bufs s ! i) \<noteq> 0 \<and> b_blockno (bufs s ! i) = n) \<and>
     (\<forall>n. slot A n = None \<longrightarrow> idle A n) \<and>
     (\<forall>i<NBUF. \<forall>j<NBUF. b_dev (bufs s ! i) = dev \<and> b_dev (bufs s ! j) = dev
        \<and> b_blockno (bufs s ! i) = b_blockno (bufs s ! j) \<longrightarrow> i = j)"

lemma bc_repD:
  assumes "bc_rep dev pid s A"
  shows "\<exists>xs. lru s xs" "disk s = durable A" "i < NBUF \<Longrightarrow> buf_ok dev pid A i (bufs s ! i)"
    "slot A n = Some i \<Longrightarrow> i < NBUF" "slot A n = Some i \<Longrightarrow> b_refcnt (bufs s ! i) \<noteq> 0"
    "slot A n = Some i \<Longrightarrow> b_blockno (bufs s ! i) = n" "slot A n = None \<Longrightarrow> idle A n"
    "i < NBUF \<Longrightarrow> j < NBUF \<Longrightarrow> b_dev (bufs s ! i) = dev \<Longrightarrow> b_dev (bufs s ! j) = dev
       \<Longrightarrow> b_blockno (bufs s ! i) = b_blockno (bufs s ! j) \<Longrightarrow> i = j"
  using assms unfolding bc_rep_def by blast+

lemma bc_rep_held:
  assumes rep: "bc_rep dev pid s A" and i: "slot A n = Some i"
  shows "i < NBUF" "i < length (bufs s)" "b_dev (bufs s ! i) = dev" "b_blockno (bufs s ! i) = n" "b_valid (bufs s ! i)"
    "b_data (bufs s ! i) = content A n" "refs A n = unat (b_refcnt (bufs s ! i))" "b_refcnt (bufs s ! i) \<noteq> 0"
    "slocked (b_lock (bufs s ! i)) \<longleftrightarrow> n \<in> busy A" "n \<in> busy A \<Longrightarrow> holdingsleep pid (b_lock (bufs s ! i))"
proof -
  note d = bc_repD [OF rep]
  have r: "b_refcnt (bufs s ! i) \<noteq> 0" "b_blockno (bufs s ! i) = n" "i < NBUF" using d(4-6) i by auto
  obtain xs where "lru s xs" using d(1) by blast
  then show "i < length (bufs s)" using r(3) lruD(3) [of s xs] by simp
  show "i < NBUF" "b_refcnt (bufs s ! i) \<noteq> 0" "b_dev (bufs s ! i) = dev" "b_blockno (bufs s ! i) = n" "b_valid (bufs s ! i)"
    "b_data (bufs s ! i) = content A n" "refs A n = unat (b_refcnt (bufs s ! i))"
    "slocked (b_lock (bufs s ! i)) \<longleftrightarrow> n \<in> busy A" "n \<in> busy A \<Longrightarrow> holdingsleep pid (b_lock (bufs s ! i))"
    using d(3) [OF r(3)] r by (auto simp: buf_ok_def holdingsleep_def)
qed

text \<open>Every operation changes one buffer, and the view at the block that buffer holds afterwards.\<close>

lemma bc_rep_change:
  fixes s :: "'a bcache_scheme" and s' :: "'b bcache_scheme"
  assumes rep: "bc_rep dev pid s A" and i: "i < NBUF"
    and sl: "slot A n = None \<and> b_refcnt (bufs s ! i) = 0 \<or> slot A n = Some i"
    and uniq: "\<And>j. j < NBUF \<Longrightarrow> j \<noteq> i \<Longrightarrow> b_dev (bufs s ! j) = dev \<Longrightarrow> b_blockno (bufs s ! j) \<noteq> n"
    and same: "\<And>m. m \<noteq> n \<Longrightarrow> content A' m = content A m \<and> durable A' m = durable A m \<and> slot A' m = slot A m
       \<and> refs A' m = refs A m \<and> (m \<in> busy A' \<longleftrightarrow> m \<in> busy A)"
    and new: "b_dev (bufs s' ! i) = dev" "b_blockno (bufs s' ! i) = n" "buf_ok dev pid A' i (bufs s' ! i)"
      "slot A' n = (if b_refcnt (bufs s' ! i) = 0 then None else Some i)" "slot A' n = None \<Longrightarrow> idle A' n"
    and rest: "\<And>j. j < NBUF \<Longrightarrow> j \<noteq> i \<Longrightarrow> payload (bufs s' ! j) = payload (bufs s ! j)"
    and lr: "lru s' xs" and dk: "disk s' = durable A'"
  shows "bc_rep dev pid s' A'"
proof -
  note d = bc_repD [OF rep]
  have other: "buf_ok dev pid A' j (bufs s' ! j)" if j: "j < NBUF" "j \<noteq> i" for j
  proof -
    note p = payload_eqD [OF rest [OF j]]
    have "b_refcnt (bufs s ! j) \<noteq> 0 \<Longrightarrow> b_blockno (bufs s ! j) \<noteq> n"
      using d(3) [OF j(1)] sl j(2) by (auto simp: buf_ok_def)
    moreover have "b_dev (bufs s ! j) = dev \<Longrightarrow> b_blockno (bufs s ! j) \<noteq> n" using uniq j by blast
    ultimately show ?thesis using d(3) [OF j(1)] same p by (auto simp: buf_ok_def)
  qed
  have "j < NBUF \<and> b_refcnt (bufs s' ! j) \<noteq> 0 \<and> b_blockno (bufs s' ! j) = m" if mj: "slot A' m = Some j" for m j
  proof (cases "m = n")
    case True
    then show ?thesis using mj new i by (auto split: if_splits)
  next
    case False
    then have o: "slot A m = Some j" using same mj by simp
    then have "j \<noteq> i" using d(5,6) [OF o] sl False d(6) by auto
    then show ?thesis using d(4-6) [OF o] payload_eqD [OF rest [of j]] by auto
  qed
  moreover have "idle A' m" if "slot A' m = None" for m
    using that new(5) same d(7) [of m] by (cases "m = n") (auto simp: idle_def)
  moreover have "j = k" if "j < NBUF" "k < NBUF" "b_dev (bufs s' ! j) = dev" "b_dev (bufs s' ! k) = dev"
      "b_blockno (bufs s' ! j) = b_blockno (bufs s' ! k)" for j k
  proof (cases "j = i \<or> k = i")
    case True
    then show ?thesis using that new(2) uniq payload_eqD [OF rest [of j]] payload_eqD [OF rest [of k]] by (cases "j = i"; cases "k = i") auto
  next
    case False
    then show ?thesis using that d(8) [of j k] payload_eqD [OF rest [of j]] payload_eqD [OF rest [of k]] by auto
  qed
  moreover have "buf_ok dev pid A' j (bufs s' ! j)" if "j < NBUF" for j
    using that other new(3) by (cases "j = i") auto
  ultimately show ?thesis using lr dk unfolding bc_rep_def by blast
qed

lemma bc_rep_uniq:
  assumes rep: "bc_rep dev pid s A" and i: "slot A n = Some i"
  shows "j < NBUF \<Longrightarrow> j \<noteq> i \<Longrightarrow> b_dev (bufs s ! j) = dev \<Longrightarrow> b_blockno (bufs s ! j) \<noteq> n"
  using bc_repD(8) [OF rep, of j i] bc_rep_held [OF rep i] by auto

lemma bc_rep_change_held:
  fixes s :: "'a bcache_scheme" and s' :: "'b bcache_scheme"
  assumes rep: "bc_rep dev pid s A" and i: "slot A n = Some i"
    and "\<And>m. m \<noteq> n \<Longrightarrow> content A' m = content A m \<and> durable A' m = durable A m \<and> slot A' m = slot A m
       \<and> refs A' m = refs A m \<and> (m \<in> busy A' \<longleftrightarrow> m \<in> busy A)"
    and "b_dev (bufs s' ! i) = dev" "b_blockno (bufs s' ! i) = n" "buf_ok dev pid A' i (bufs s' ! i)"
      "slot A' n = (if b_refcnt (bufs s' ! i) = 0 then None else Some i)" "slot A' n = None \<Longrightarrow> idle A' n"
    and "\<And>j. j < NBUF \<Longrightarrow> j \<noteq> i \<Longrightarrow> payload (bufs s' ! j) = payload (bufs s ! j)"
    and "lru s' xs" "disk s' = durable A'"
  shows "bc_rep dev pid s' A'"
  by (rule bc_rep_change [OF rep bc_rep_held(1) [OF rep i] disjI2 [OF i] bc_rep_uniq [OF rep i] assms(3-)])

lemma lru_upd:
  "(\<And>b. b_next (f b) = b_next b) \<Longrightarrow> (\<And>b. b_prev (f b) = b_prev b) \<Longrightarrow> lru (upd_buf i f s) xs = lru s xs"
  by (rule lru_cong) (auto simp: next_of_def prev_of_def fun_eq_iff)

subsection \<open>The operations on the view\<close>

definition v_bread :: "u32 \<Rightarrow> nat \<Rightarrow> view \<Rightarrow> view" where
  "v_bread n i A = A\<lparr>slot := (slot A)(n := Some i), refs := (refs A)(n := refs A n + 1), busy := insert n (busy A)\<rparr>"

definition v_set_data :: "u32 \<Rightarrow> block \<Rightarrow> view \<Rightarrow> view" where
  "v_set_data n d A = A\<lparr>content := (content A)(n := d)\<rparr>"

definition v_bwrite :: "u32 \<Rightarrow> view \<Rightarrow> view" where
  "v_bwrite n A = A\<lparr>durable := (durable A)(n := content A n)\<rparr>"

definition v_brelse :: "u32 \<Rightarrow> view \<Rightarrow> view" where
  "v_brelse n A = A\<lparr>busy := busy A - {n}, refs := (refs A)(n := refs A n - 1),
     slot := (if refs A n = 1 then (slot A)(n := None) else slot A)\<rparr>"

definition v_bpin :: "u32 \<Rightarrow> view \<Rightarrow> view" where
  "v_bpin n A = A\<lparr>refs := (refs A)(n := refs A n + 1)\<rparr>"

definition v_bunpin :: "u32 \<Rightarrow> view \<Rightarrow> view" where
  "v_bunpin n A = A\<lparr>refs := (refs A)(n := refs A n - 1)\<rparr>"

lemmas view_ops = v_bread_def v_set_data_def v_bwrite_def v_brelse_def v_bpin_def v_bunpin_def

lemma unat_succ32: "unat (r :: u32) + 1 < 4294967296 \<Longrightarrow> unat (r + 1) = unat r + 1"
  by (simp add: unat_word_ariths)

lemma unat_pred32: "(r :: u32) \<noteq> 0 \<Longrightarrow> unat (r - 1) = unat r - 1"
  by (metis unat_minus_one)

lemma set_data_rep:
  assumes rep: "bc_rep dev pid s A" and i: "slot A n = Some i"
  shows "bc_rep dev pid (set_data i d s) (v_set_data n d A)"
proof -
  note h = bc_rep_held [OF rep i]
  obtain xs where "lru s xs" using bc_repD(1) [OF rep] by blast
  then have "lru (set_data i d s) xs" by (simp add: set_data_def lru_upd)
  then show ?thesis
    using h i bc_repD(2,3) [OF rep]
    by (intro bc_rep_change_held [OF rep i])
      (auto simp: set_data_def v_set_data_def buf_ok_def)
qed

lemma bwrite_rep:
  assumes rep: "bc_rep dev pid s A" and i: "slot A n = Some i" and n: "n \<in> busy A"
  shows "\<exists>s'. bwrite pid i s = Inr s' \<and> bc_rep dev pid s' (v_bwrite n A)
     \<and> written s' = written s @ [(n, content A n)] \<and> bcache.more s' = bcache.more s"
proof -
  note h = bc_rep_held [OF rep i]
  obtain xs where lr: "lru s xs" using bc_repD(1) [OF rep] by blast
  let ?s = "virtio_disk_rw i True s"
  have "lru ?s xs" using lr by (subst lru_cong [of _ s]) (auto simp: virtio_disk_rw_def Let_def next_of_def prev_of_def fun_eq_iff)
  then have "bc_rep dev pid ?s (v_bwrite n A)"
    using h i bc_repD(2,3) [OF rep]
    by (intro bc_rep_change_held [OF rep i])
      (auto simp: virtio_disk_rw_def Let_def v_bwrite_def buf_ok_def)
  then show ?thesis using h n by (auto simp: bwrite_def virtio_disk_rw_def Let_def)
qed

lemma bpin_rep:
  assumes rep: "bc_rep dev pid s A" and i: "slot A n = Some i" and r: "refs A n + 1 < 4294967296"
  shows "bc_rep dev pid (bpin i s) (v_bpin n A)"
proof -
  note h = bc_rep_held [OF rep i]
  obtain xs where "lru s xs" using bc_repD(1) [OF rep] by blast
  then have "lru (bpin i s) xs" by (simp add: bpin_def lru_upd)
  moreover have u: "unat (b_refcnt (bufs s ! i) + 1) = refs A n + 1" using r h(7) by (simp add: unat_succ32)
  moreover have "b_refcnt (bufs s ! i) + 1 \<noteq> 0" using u by (metis add_is_0 one_neq_zero unat_0)
  ultimately show ?thesis
    using h i bc_repD(2) [OF rep] bc_repD(3) [OF rep, of i]
    by (intro bc_rep_change_held [OF rep i])
      (auto simp: bpin_def v_bpin_def buf_ok_def)
qed

lemma bunpin_rep:
  assumes rep: "bc_rep dev pid s A" and i: "slot A n = Some i" and r: "1 < refs A n"
  shows "bc_rep dev pid (bunpin i s) (v_bunpin n A)"
proof -
  note h = bc_rep_held [OF rep i]
  obtain xs where "lru s xs" using bc_repD(1) [OF rep] by blast
  then have "lru (bunpin i s) xs" by (simp add: bunpin_def lru_upd)
  moreover have u: "unat (b_refcnt (bufs s ! i) - 1) = refs A n - 1" using h(7,8) by (simp add: unat_pred32)
  moreover have "b_refcnt (bufs s ! i) - 1 \<noteq> 0" using u r by (metis diff_is_0_eq not_le unat_0)
  ultimately show ?thesis
    using h i bc_repD(2) [OF rep] bc_repD(3) [OF rep, of i]
    by (intro bc_rep_change_held [OF rep i])
      (auto simp: bunpin_def v_bunpin_def buf_ok_def)
qed

lemma brelse_rep:
  assumes rep: "bc_rep dev pid s A" and i: "slot A n = Some i" and n: "n \<in> busy A"
    and clean: "refs A n = 1 \<Longrightarrow> content A n = durable A n"
  shows "\<exists>s'. brelse pid i s = Inr s' \<and> bc_rep dev pid s' (v_brelse n A) \<and> written s' = written s \<and> bcache.more s' = bcache.more s"
proof -
  note h = bc_rep_held [OF rep i] and d = bc_repD [OF rep]
  obtain xs where lr: "lru s xs" using d(1) by blast
  define s1 where "s1 = upd_buf i (\<lambda>x. x\<lparr>b_refcnt := b_refcnt x - 1\<rparr>) (upd_buf i (\<lambda>x. x\<lparr>b_lock := releasesleep (b_lock x)\<rparr>) s)"
  have lr1: "lru s1 xs" using lr by (simp add: s1_def lru_upd)
  have b1: "bufs s1 ! i = (bufs s ! i)\<lparr>b_lock := releasesleep (b_lock (bufs s ! i)), b_refcnt := b_refcnt (bufs s ! i) - 1\<rparr>"
    "\<And>j. j \<noteq> i \<Longrightarrow> bufs s1 ! j = bufs s ! j" "disk s1 = disk s" "written s1 = written s" "bcache.more s1 = bcache.more s"
    using h(2) by (auto simp: s1_def)
  have u: "unat (b_refcnt (bufs s ! i) - 1) = refs A n - 1" using h(7,8) by (simp add: unat_pred32)
  have "0 < refs A n" using h(7,8) by (simp add: unat_gt_0)
  then have z: "b_refcnt (bufs s ! i) - 1 = 0 \<longleftrightarrow> refs A n = 1"
    using u by (metis One_nat_def Suc_pred diff_Suc_1 unat_0 unat_eq_zero)
  have rep': "bc_rep dev pid s' (v_brelse n A)"
    if p: "\<And>k. payload (bufs s' ! k) = payload (bufs s1 ! k)" and l: "lru s' ys" and k: "disk s' = disk s"
    for s' :: "'a bcache_scheme" and ys
  proof (rule bc_rep_change_held [OF rep i])
    note pi = payload_eqD [OF p [of i]]
    show "buf_ok dev pid (v_brelse n A) i (bufs s' ! i)"
      using pi b1(1) h u z clean d(2) i by (auto simp: buf_ok_def v_brelse_def releasesleep_def)
    show "idle (v_brelse n A) n" if "slot (v_brelse n A) n = None"
      using that i clean by (auto simp: idle_def v_brelse_def split: if_splits)
    show "slot (v_brelse n A) n = (if b_refcnt (bufs s' ! i) = 0 then None else Some i)"
      using pi b1(1) z i by (auto simp: v_brelse_def)
    show "payload (bufs s' ! j) = payload (bufs s ! j)" if "j \<noteq> i" for j using p b1(2) that by simp
    show "disk s' = durable (v_brelse n A)" using k d(2) by (simp add: v_brelse_def)
    show "b_dev (bufs s' ! i) = dev" "b_blockno (bufs s' ! i) = n" using pi b1(1) h by auto
  qed (use i l in \<open>auto simp: v_brelse_def\<close>)
  have hold: "holdingsleep pid (b_lock (bufs s ! i))" using h(10) n by blast
  show ?thesis
  proof (cases "refs A n = 1")
    case False
    then have "brelse pid i s = Inr s1" using hold z b1(1) by (simp add: brelse_def Let_def s1_def)
    then show ?thesis using rep' [OF _ lr1] b1 by auto
  next
    case True
    obtain us vs where xs: "xs = us @ i # vs" using lruD(2) [OF lr] h(1) by (metis lessThan_iff split_list)
    define s2 where "s2 = set_prev (next_of s1 i) (prev_of s1 i) s1"
    define s3 where "s3 = link_front i (set_next (prev_of s2 i) (next_of s2 i) s2)"
    have "brelse pid i s = Inr s3"
      using hold z True b1(1) by (simp add: brelse_def Let_def s1_def s2_def s3_def)
    moreover have "lru s3 (i # us @ vs)"
      unfolding s3_def s2_def by (rule lru_move_front) (use lr1 xs in simp)
    ultimately show ?thesis using rep' [of s3] b1 by (auto simp: s3_def s2_def)
  qed
qed

declare scan.simps [simp del]

lemma take_rep:
  fixes s s' :: "'a bcache_scheme"
  assumes rep: "bc_rep dev pid s A" and i: "i < NBUF"
    and sl: "slot A n = None \<and> b_refcnt (bufs s ! i) = 0 \<or> slot A n = Some i"
    and uniq: "\<And>j. j < NBUF \<Longrightarrow> j \<noteq> i \<Longrightarrow> b_dev (bufs s ! j) = dev \<Longrightarrow> b_blockno (bufs s ! j) \<noteq> n"
    and r: "refs A n + 1 < 4294967296"
    and new: "b_dev (bufs s' ! i) = dev" "b_blockno (bufs s' ! i) = n" "b_valid (bufs s' ! i)" "b_data (bufs s' ! i) = content A n"
      "b_refcnt (bufs s' ! i) = of_nat (refs A n + 1)" "b_lock (bufs s' ! i) = \<lparr>slocked = True, spid = pid\<rparr>"
    and rest: "\<And>j. j \<noteq> i \<Longrightarrow> bufs s' ! j = bufs s ! j" and lr: "lru s' xs" and dk: "disk s' = disk s"
  shows "bc_rep dev pid s' (v_bread n i A)"
proof (rule bc_rep_change [OF rep i sl])
  have u: "unat (of_nat (refs A n + 1) :: u32) = refs A n + 1" using r by (simp only: unat_of_nat) simp
  then have nz: "(of_nat (refs A n + 1) :: u32) \<noteq> 0" by (metis add_is_0 one_neq_zero unat_0)
  show "buf_ok dev pid (v_bread n i A) i (bufs s' ! i)"
    using new u nz by (simp add: buf_ok_def v_bread_def del: of_nat_add of_nat_Suc)
  show "slot (v_bread n i A) n = (if b_refcnt (bufs s' ! i) = 0 then None else Some i)"
    using new(5) nz by (simp add: v_bread_def del: of_nat_add of_nat_Suc)
qed (use uniq new(1,2) rest lr dk bc_repD(2) [OF rep] in \<open>auto simp: v_bread_def\<close>)

definition room :: "u32 \<Rightarrow> view \<Rightarrow> bool" where
  "room n A \<longleftrightarrow> slot A n \<noteq> None \<or> card (dom (slot A)) < NBUF"

lemma bread_hit:
  assumes rep: "bc_rep dev pid s A" and n: "n \<notin> busy A" and r: "refs A n + 1 < 4294967296"
    and lr: "lru s xs" and i: "i < NBUF" "b_dev (bufs s ! i) = dev" "b_blockno (bufs s ! i) = n"
    and hit: "find (\<lambda>i. b_dev (bufs s ! i) = dev \<and> b_blockno (bufs s ! i) = n) xs = Some i"
  shows "\<exists>s'. bread pid dev n s = Inr (i, s') \<and> bc_rep dev pid s' (v_bread n i A)
     \<and> b_data (bufs s' ! i) = content A n \<and> written s' = written s \<and> bcache.more s' = bcache.more s"
proof -
  note d = bc_repD [OF rep]
  have uniq: "b_blockno (bufs s ! j) \<noteq> n" if "j < NBUF" "j \<noteq> i" "b_dev (bufs s ! j) = dev" for j
    using d(8) [of j i] that i by auto
  have sl: "slot A n = None \<and> b_refcnt (bufs s ! i) = 0 \<or> slot A n = Some i"
  proof (cases "slot A n")
    case None
    then show ?thesis using d(3) [OF i(1)] i by (auto simp: buf_ok_def split: if_splits)
  next
    case (Some j)
    then show ?thesis using bc_rep_held(1,3,4) [OF rep Some] uniq [of j] by blast
  qed
  have ok: "\<not> slocked (b_lock (bufs s ! i))" "b_refcnt (bufs s ! i) + 1 = of_nat (refs A n + 1)"
      "b_valid (bufs s ! i) \<Longrightarrow> b_data (bufs s ! i) = content A n" "durable A n = content A n \<or> b_valid (bufs s ! i)"
    using d(3) [OF i(1)] d(7) [of n] i sl n bc_rep_held(5,6,7) [OF rep, of n i] by (auto simp: buf_ok_def idle_def split: if_splits)
  let ?l = "\<lparr>slocked = True, spid = pid\<rparr>"
  define s1 where "s1 = upd_buf i (\<lambda>x. x\<lparr>b_lock := ?l\<rparr>) (upd_buf i (\<lambda>x. x\<lparr>b_refcnt := b_refcnt x + 1\<rparr>) s)"
  define s2 where "s2 = (if \<not> b_valid (bufs s1 ! i) then upd_buf i (\<lambda>x. x\<lparr>b_valid := True\<rparr>) (virtio_disk_rw i False s1) else s1)"
  have len: "i < length (bufs s)" using lruD(3) [OF lr] i by simp
  have "bget pid dev n s = Inr (i, s1)"
    using scan_next [OF lr] hit ok(1) len by (simp add: bget_def Let_def acquiresleep_def s1_def)
  then have e: "bread pid dev n s = Inr (i, s2)" by (simp add: bread_def s2_def)
  have l2: "lru s2 xs" using lr by (simp add: s2_def s1_def lru_upd virtio_disk_rw_def Let_def)
  have f: "b_data (bufs s2 ! i) = content A n"
    using ok(3,4) d(2) i(3) len by (auto simp: s2_def s1_def virtio_disk_rw_def Let_def)
  have "bc_rep dev pid s2 (v_bread n i A)"
    by (rule take_rep [OF rep i(1) sl uniq r _ _ _ f _ _ _ l2])
      (use i len ok(2) in \<open>auto simp: s2_def s1_def virtio_disk_rw_def Let_def\<close>)
  moreover have "written s2 = written s" "bcache.more s2 = bcache.more s"
    by (simp_all add: s2_def s1_def virtio_disk_rw_def Let_def)
  ultimately show ?thesis using e f by blast
qed

lemma bread_miss:
  assumes rep: "bc_rep dev pid s A" and rm: "room n A"
    and lr: "lru s xs" and miss: "find (\<lambda>i. b_dev (bufs s ! i) = dev \<and> b_blockno (bufs s ! i) = n) xs = None"
  shows "\<exists>i s'. bread pid dev n s = Inr (i, s') \<and> slot A n = None \<and> bc_rep dev pid s' (v_bread n i A)
     \<and> b_data (bufs s' ! i) = content A n \<and> written s' = written s \<and> bcache.more s' = bcache.more s"
proof -
  note d = bc_repD [OF rep] and l = lruD [OF lr]
  have no: "b_blockno (bufs s ! j) \<noteq> n" if "j < NBUF" "b_dev (bufs s ! j) = dev" for j
    using miss that l(2) unfolding find_None_iff by auto
  have sl: "slot A n = None"
    using no bc_rep_held(1,3,4) [OF rep, of n] by (cases "slot A n") blast+
  then have id: "durable A n = content A n" "refs A n = 0" using d(7) by (auto simp: idle_def)
  have "\<exists>i. find (\<lambda>i. b_refcnt (bufs s ! i) = 0) (rev xs) = Some i"
  proof (rule ccontr)
    assume "\<not> ?thesis"
    then have all: "b_refcnt (bufs s ! i) \<noteq> 0" if "i < NBUF" for i
      using that l(2) by (auto simp: find_None_iff)
    then have "slot A (b_blockno (bufs s ! i)) = Some i" if "i < NBUF" for i
      using d(3) [OF that] that by (auto simp: buf_ok_def)
    then have "inj_on (\<lambda>i. b_blockno (bufs s ! i)) {..<NBUF}" "(\<lambda>i. b_blockno (bufs s ! i)) ` {..<NBUF} \<subseteq> dom (slot A)"
      by (auto intro!: inj_onI) (metis option.inject)
    moreover have "finite (dom (slot A))"
    proof (rule finite_subset)
      show "dom (slot A) \<subseteq> (\<lambda>i. b_blockno (bufs s ! i)) ` {..<NBUF}" using d(4,6) by force
    qed simp
    ultimately have "NBUF \<le> card (dom (slot A))" using card_inj_on_le by fastforce
    then show False using rm sl by (simp add: room_def)
  qed
  then obtain i where free: "find (\<lambda>i. b_refcnt (bufs s ! i) = 0) (rev xs) = Some i" by blast
  then have z: "b_refcnt (bufs s ! i) = 0" and "i \<in> set (rev xs)"
    unfolding find_Some_iff by (metis, metis nth_mem)
  then have i: "i < NBUF" using l(2) by simp
  have ul: "\<not> slocked (b_lock (bufs s ! i))" using d(3) [OF i] z by (simp add: buf_ok_def)
  let ?l = "\<lparr>slocked = True, spid = pid\<rparr>"
  define s1 where "s1 = upd_buf i (\<lambda>x. x\<lparr>b_lock := ?l\<rparr>)
      (upd_buf i (\<lambda>x. x\<lparr>b_dev := dev, b_blockno := n, b_valid := False, b_refcnt := 1\<rparr>) s)"
  define s2 where "s2 = upd_buf i (\<lambda>x. x\<lparr>b_valid := True\<rparr>) (virtio_disk_rw i False s1)"
  have len: "i < length (bufs s)" using l(3) i by simp
  have "bget pid dev n s = Inr (i, s1)"
    using scan_next [OF lr] scan_prev [OF lr] miss free ul len by (simp add: bget_def Let_def acquiresleep_def s1_def)
  then have e: "bread pid dev n s = Inr (i, s2)" using len by (simp add: bread_def s2_def s1_def)
  have l2: "lru s2 xs" using lr by (simp add: s2_def s1_def lru_upd virtio_disk_rw_def Let_def)
  have f: "b_data (bufs s2 ! i) = content A n"
    using id d(2) len by (simp add: s2_def s1_def virtio_disk_rw_def Let_def)
  have "bc_rep dev pid s2 (v_bread n i A)"
    by (rule take_rep [OF rep i _ no _ _ _ _ f _ _ _ l2])
      (use z sl id len in \<open>auto simp: s2_def s1_def virtio_disk_rw_def Let_def\<close>)
  moreover have "written s2 = written s" "bcache.more s2 = bcache.more s"
    by (simp_all add: s2_def s1_def virtio_disk_rw_def Let_def)
  ultimately show ?thesis using e f sl by blast
qed

lemma bread_rep:
  assumes rep: "bc_rep dev pid s A" and n: "n \<notin> busy A" and r: "refs A n + 1 < 4294967296" and rm: "room n A"
  shows "\<exists>i s'. bread pid dev n s = Inr (i, s') \<and> (slot A n = None \<or> slot A n = Some i) \<and> bc_rep dev pid s' (v_bread n i A)
     \<and> b_data (bufs s' ! i) = content A n \<and> written s' = written s \<and> bcache.more s' = bcache.more s"
proof -
  obtain xs where lr: "lru s xs" using bc_repD(1) [OF rep] by blast
  show ?thesis
  proof (cases "find (\<lambda>i. b_dev (bufs s ! i) = dev \<and> b_blockno (bufs s ! i) = n) xs")
    case None
    then show ?thesis using bread_miss [OF rep rm lr] by blast
  next
    case (Some i)
    then have i: "i < NBUF" "b_dev (bufs s ! i) = dev" "b_blockno (bufs s ! i) = n"
      using lruD(2) [OF lr] by (auto simp: find_Some_iff dest: nth_mem)
    have "slot A n = None \<or> slot A n = Some i"
      using bc_rep_uniq [OF rep, of n _ i] i by (cases "slot A n") auto
    then show ?thesis using bread_hit [OF rep n r lr i Some] by blast
  qed
qed

subsection \<open>Initialisation\<close>

text \<open>The buffers as the loader leaves them, before \<open>binit\<close>: zeroed, so no buffer is of device 1.\<close>

definition zero_buf :: buffer where
  "zero_buf = \<lparr>b_valid = False, b_dev = 0, b_blockno = 0, b_lock = \<lparr>slocked = False, spid = 0\<rparr>, b_refcnt = 0,
     b_prev = 0, b_next = 0, b_data = replicate 1024 0\<rparr>"

definition fresh_view :: "(u32 \<Rightarrow> block) \<Rightarrow> view" where
  "fresh_view d = \<lparr>content = d, durable = d, slot = (\<lambda>_. None), refs = (\<lambda>_. 0), busy = {}\<rparr>"

lemma binit_buf_link:
  assumes "length (bufs s) = Suc NBUF" "b < NBUF"
  shows "next_of (binit_buf b s) = (next_of s)(b := next_of s head, head := b)"
    "next_of s head \<le> NBUF \<Longrightarrow> prev_of (binit_buf b s) = (prev_of s)(b := head, next_of s head := b)"
    "length (bufs (binit_buf b s)) = Suc NBUF" "disk (binit_buf b s) = disk s" "written (binit_buf b s) = written s"
    "bcache.more (binit_buf b s) = bcache.more s"
proof -
  have u: "next_of (upd_buf i (\<lambda>x. x\<lparr>b_lock := l\<rparr>) t) = next_of t" "prev_of (upd_buf i (\<lambda>x. x\<lparr>b_lock := l\<rparr>) t) = prev_of t"
    for i l and t :: "'a bcache_scheme"
    by (auto simp: next_of_def prev_of_def fun_eq_iff)
  show "next_of (binit_buf b s) = (next_of s)(b := next_of s head, head := b)"
    "length (bufs (binit_buf b s)) = Suc NBUF" "disk (binit_buf b s) = disk s" "written (binit_buf b s) = written s"
    "bcache.more (binit_buf b s) = bcache.more s"
    using assms by (simp_all add: binit_buf_def Let_def u)
  show "prev_of (binit_buf b s) = (prev_of s)(b := head, next_of s head := b)" if "next_of s head \<le> NBUF"
    using assms that by (simp add: binit_buf_def Let_def u)
qed

lemma binit_fold:
  assumes "length (bufs s) = Suc NBUF" "next_of s head = head" "prev_of s head = head" "k \<le> NBUF"
  defines "t \<equiv> fold binit_buf [0..<k] s"
  shows "chain (next_of t) head (rev [0..<k] @ [head]) \<and> chain (prev_of t) head ([0..<k] @ [head])
     \<and> length (bufs t) = Suc NBUF \<and> disk t = disk s \<and> written t = written s \<and> bcache.more t = bcache.more s"
  unfolding t_def using assms(4)
proof (induction k)
  case 0
  then show ?case using assms(1-3) by simp
next
  case (Suc k)
  let ?t = "fold binit_buf [0..<k] s"
  have IH: "chain (next_of ?t) head (rev [0..<k] @ [head])" "chain (prev_of ?t) head ([0..<k] @ [head])"
    "length (bufs ?t) = Suc NBUF" "disk ?t = disk s" "written ?t = written s" "bcache.more ?t = bcache.more s"
    using Suc by auto
  have f: "next_of ?t head = last (head # [0..<k])"
    using IH(1) hd_last_rev [of "rev [0..<k]" head] by (cases "rev [0..<k]") auto
  then have "next_of ?t head \<le> NBUF" using Suc.prems by (cases k) auto
  note b = binit_buf_link [OF IH(3), of k]
  have "chain (next_of (binit_buf k ?t)) head (k # rev [0..<k] @ [head])"
    using chain_link_front [OF IH(1), of k] b(1) Suc.prems by (simp del: fun_upd_apply chain.simps)
  moreover have "chain (prev_of (binit_buf k ?t)) head ([0..<k] @ [k, head])"
    using chain_link_back [OF IH(2), of k] b(2) \<open>next_of ?t head \<le> NBUF\<close> f Suc.prems by (simp del: fun_upd_apply)
  ultimately show ?case using b(3-6) IH Suc.prems by simp
qed

lemma binit_payload:
  assumes "i < NBUF" "length (bufs s) = Suc NBUF" "\<And>j. j < NBUF \<Longrightarrow> payload (bufs s ! j) = payload zero_buf" "k \<le> NBUF"
  shows "payload (bufs (fold binit_buf [0..<k] s) ! i) = payload zero_buf \<and> length (bufs (fold binit_buf [0..<k] s)) = Suc NBUF"
  using assms(4)
proof (induction k)
  case 0
  then show ?case using assms by simp
next
  case (Suc k)
  have "payload (x\<lparr>b_lock := initsleeplock\<rparr>) = payload zero_buf" if "payload x = payload zero_buf" for x
    using that by (cases x) (simp add: payload_def zero_buf_def initsleeplock_def)
  then have "payload (bufs (binit_buf k t) ! i) = payload zero_buf" if "payload (bufs t ! i) = payload zero_buf" for t :: "'a bcache_scheme"
    using that by (auto simp: binit_buf_def Let_def)
  then show ?case using Suc binit_buf_link(3) [of "fold binit_buf [0..<k] s" k] by simp
qed

lemma binit_rep:
  fixes s :: "'a bcache_scheme"
  assumes z: "bufs s = replicate (Suc NBUF) zero_buf" and dev: "dev \<noteq> 0"
  shows "bc_rep dev pid (binit s) (fresh_view (disk s))" "written (binit s) = written s" "bcache.more (binit s) = bcache.more s"
proof -
  let ?s = "set_next head head (set_prev head head s)"
  have l: "length (bufs ?s) = Suc NBUF" using z by simp
  then have "next_of ?s head = head" "prev_of ?s head = head" using z by simp_all
  note f = binit_fold [OF l this order.refl, folded binit_def]
  then have lr: "lru (binit s) (rev [0..<NBUF])" by (auto simp: lru_def)
  have p: "payload (bufs (binit s) ! i) = payload zero_buf" if "i < NBUF" for i
    unfolding binit_def by (rule binit_payload [THEN conjunct1]) (use that l z in \<open>auto simp del: replicate.simps\<close>)
  have q: "b_refcnt (bufs (binit s) ! i) = 0" "b_dev (bufs (binit s) ! i) = 0" "\<not> slocked (b_lock (bufs (binit s) ! i))"
    if "i < NBUF" for i using payload_eqD [OF p [OF that]] by (auto simp: zero_buf_def)
  show "bc_rep dev pid (binit s) (fresh_view (disk s))"
    unfolding bc_rep_def using lr f q dev by (auto simp: buf_ok_def fresh_view_def idle_def)
  show "written (binit s) = written s" "bcache.more (binit s) = bcache.more s" using f by simp_all
qed

subsection \<open>The interface of the cache\<close>

text \<open>What the file-system log and the pager rely on: every operation, on a state that represents a view,
  returns and leaves a state that represents the view the operation promises. \<open>rest\<close> is the part of the
  state the cache does not own.\<close>

definition resting :: "view \<Rightarrow> u32 set \<Rightarrow> bool" where
  "resting A P \<longleftrightarrow> busy A = {} \<and> dom (slot A) = P \<and> (\<forall>n \<in> P. refs A n = 1)"

text \<open>\<open>settled A P c d\<close>: at rest with the blocks \<open>P\<close> pinned, contents \<open>c\<close> and disk \<open>d\<close>.\<close>

definition settled :: "view \<Rightarrow> u32 set \<Rightarrow> (u32 \<Rightarrow> block) \<Rightarrow> (u32 \<Rightarrow> block) \<Rightarrow> bool" where
  "settled A P c d \<longleftrightarrow> resting A P \<and> content A = c \<and> durable A = d"

lemma settled_dom: "settled A P c d \<Longrightarrow> slot A n = None \<longleftrightarrow> n \<notin> P"
  by (auto simp: settled_def resting_def dom_def)

locale block_cache =
  fixes rd :: "u32 \<Rightarrow> 's \<Rightarrow> kerror + (nat \<times> 's)" and wr :: "nat \<Rightarrow> 's \<Rightarrow> kerror + 's"
    and rls :: "nat \<Rightarrow> 's \<Rightarrow> kerror + 's" and pin :: "nat \<Rightarrow> 's \<Rightarrow> 's" and unpin :: "nat \<Rightarrow> 's \<Rightarrow> 's"
    and data :: "'s \<Rightarrow> nat \<Rightarrow> block" and set_dat :: "nat \<Rightarrow> block \<Rightarrow> 's \<Rightarrow> 's"
    and rep :: "'s \<Rightarrow> view \<Rightarrow> bool" and trace :: "'s \<Rightarrow> (u32 \<times> block) list" and rest :: "'s \<Rightarrow> 'r"
  assumes read_law: "rep s A \<Longrightarrow> n \<notin> busy A \<Longrightarrow> refs A n + 1 < 4294967296 \<Longrightarrow> room n A
      \<Longrightarrow> \<exists>i s'. rd n s = Inr (i, s') \<and> (slot A n = None \<or> slot A n = Some i) \<and> rep s' (v_bread n i A)
        \<and> trace s' = trace s \<and> rest s' = rest s"
    and data_law: "rep s A \<Longrightarrow> slot A n = Some i \<Longrightarrow> data s i = content A n"
    and write_law: "rep s A \<Longrightarrow> slot A n = Some i \<Longrightarrow> n \<in> busy A
      \<Longrightarrow> \<exists>s'. wr i s = Inr s' \<and> rep s' (v_bwrite n A) \<and> trace s' = trace s @ [(n, content A n)] \<and> rest s' = rest s"
    and relse_law: "rep s A \<Longrightarrow> slot A n = Some i \<Longrightarrow> n \<in> busy A \<Longrightarrow> (refs A n = 1 \<Longrightarrow> content A n = durable A n)
      \<Longrightarrow> \<exists>s'. rls i s = Inr s' \<and> rep s' (v_brelse n A) \<and> trace s' = trace s \<and> rest s' = rest s"
    and pin_law: "rep s A \<Longrightarrow> slot A n = Some i \<Longrightarrow> refs A n + 1 < 4294967296 \<Longrightarrow> rep (pin i s) (v_bpin n A)"
    and unpin_law: "rep s A \<Longrightarrow> slot A n = Some i \<Longrightarrow> 1 < refs A n \<Longrightarrow> rep (unpin i s) (v_bunpin n A)"
    and idle_law: "rep s A \<Longrightarrow> slot A n = None \<Longrightarrow> idle A n"
    and set_law: "rep s A \<Longrightarrow> slot A n = Some i \<Longrightarrow> rep (set_dat i d s) (v_set_data n d A)"
    and quiet: "trace (pin i s) = trace s" "rest (pin i s) = rest s" "trace (unpin i s) = trace s" "rest (unpin i s) = rest s"
      "trace (set_dat i d s) = trace s" "rest (set_dat i d s) = rest s"
begin

lemma settled_idle:
  assumes "rep s A" "settled A P c d" "n \<notin> P"
  shows "slot A n = None" "refs A n = 0" "c n = d n" "n \<notin> busy A"
  using idle_law [OF assms(1)] settled_dom [OF assms(2)] assms(2,3) by (auto simp: idle_def settled_def)

lemma settled_pinned:
  assumes "settled A P c d" "n \<in> P"
  shows "\<exists>i. slot A n = Some i" "refs A n = 1" "n \<notin> busy A"
  using assms by (auto simp: settled_def resting_def dom_def)

text \<open>Reading, rewriting and writing through a block that nobody else holds.\<close>

lemma rewrite_block:
  assumes rep: "rep s A" and st: "settled A P c d" and n: "n \<notin> P" "card P < NBUF"
  shows "\<exists>s' A'. bindE (rd n s) (\<lambda>(i, s). bindE (wr i (set_dat i (f (data s i)) s)) (rls i)) = Inr s'
     \<and> rep s' A' \<and> settled A' P (c(n := f (c n))) (d(n := f (c n)))
     \<and> trace s' = trace s @ [(n, f (c n))] \<and> rest s' = rest s"
proof -
  note id = settled_idle [OF rep st n(1)]
  have c: "content A = c" "durable A = d" "resting A P" using st by (auto simp: settled_def)
  have "room n A" using c(3) n by (simp add: room_def resting_def)
  then obtain i s1 where 1: "rd n s = Inr (i, s1)" "rep s1 (v_bread n i A)" "trace s1 = trace s" "rest s1 = rest s"
    using read_law [OF rep id(4)] id(2) by auto
  let ?A1 = "v_bread n i A" and ?d = "f (c n)"
  have sl: "slot ?A1 n = Some i" by (simp add: v_bread_def)
  have dt: "data s1 i = c n" using data_law [OF 1(2) sl] c by (simp add: v_bread_def)
  have 2: "rep (set_dat i ?d s1) (v_set_data n ?d ?A1)" by (rule set_law [OF 1(2) sl])
  obtain s3 where 3: "wr i (set_dat i ?d s1) = Inr s3" "rep s3 (v_bwrite n (v_set_data n ?d ?A1))"
      "trace s3 = trace s @ [(n, ?d)]" "rest s3 = rest s"
    using write_law [OF 2, of n i] 1 quiet(5,6) by (auto simp: v_bread_def v_set_data_def)
  obtain s4 where 4: "rls i s3 = Inr s4" "rep s4 (v_brelse n (v_bwrite n (v_set_data n ?d ?A1)))"
      "trace s4 = trace s3" "rest s4 = rest s3"
    using relse_law [OF 3(2), of n i] by (auto simp: v_bread_def v_set_data_def v_bwrite_def)
  have "settled (v_brelse n (v_bwrite n (v_set_data n ?d ?A1))) P (c(n := ?d)) (d(n := ?d))"
    using c id n(1) by (auto simp: view_ops settled_def resting_def)
  then show ?thesis using 1(1) 3 4 dt by auto
qed

text \<open>Looking at a block that nobody holds.\<close>

lemma peek_block:
  assumes rep: "rep s A" and st: "settled A P c d" and n: "n \<notin> P" "card P < NBUF"
  shows "\<exists>i s1 s' A'. rd n s = Inr (i, s1) \<and> data s1 i = c n \<and> rls i s1 = Inr s' \<and> rep s' A' \<and> settled A' P c d
     \<and> trace s' = trace s \<and> rest s' = rest s \<and> rest s1 = rest s"
proof -
  note id = settled_idle [OF rep st n(1)]
  have c: "content A = c" "durable A = d" "resting A P" using st by (auto simp: settled_def)
  have "room n A" using c(3) n by (simp add: room_def resting_def)
  then obtain i s1 where 1: "rd n s = Inr (i, s1)" "rep s1 (v_bread n i A)" "trace s1 = trace s" "rest s1 = rest s"
    using read_law [OF rep id(4)] id(2) by auto
  obtain s2 where 2: "rls i s1 = Inr s2" "rep s2 (v_brelse n (v_bread n i A))" "trace s2 = trace s1" "rest s2 = rest s1"
    using relse_law [OF 1(2), of n i] id(2,3) c by (auto simp: v_bread_def)
  have "settled (v_brelse n (v_bread n i A)) P c d"
    using c id n(1) by (auto simp: view_ops settled_def resting_def)
  moreover have "data s1 i = c n" using data_law [OF 1(2), of n i] c by (simp add: v_bread_def)
  ultimately show ?thesis using 1 2
    by (intro exI [of _ i] exI [of _ s1] exI [of _ s2] exI [of _ "v_brelse n (v_bread n i A)"]) simp
qed

text \<open>Two blocks open at once: \<open>a\<close>, which nobody holds, and \<open>b\<close>.\<close>

lemma open_two:
  assumes rep: "rep s A" and st: "settled A P c d" and ab: "a \<notin> P" "a \<noteq> b" and room: "card (insert b P) < NBUF" "finite P"
  shows "\<exists>i s1 j s2. rd a s = Inr (i, s1) \<and> rd b s1 = Inr (j, s2) \<and> rep s2 (v_bread b j (v_bread a i A))
     \<and> data s2 i = c a \<and> data s2 j = c b \<and> trace s2 = trace s \<and> rest s2 = rest s \<and> rest s1 = rest s"
proof -
  note id = settled_idle [OF rep st ab(1)]
  have c: "content A = c" "durable A = d" "resting A P" using st by (auto simp: settled_def)
  have cp: "card P < NBUF" using room card_insert_le [of P b] by linarith
  then have "room a A" using c(3) by (simp add: room_def resting_def)
  then obtain i s1 where 1: "rd a s = Inr (i, s1)" "rep s1 (v_bread a i A)" "trace s1 = trace s" "rest s1 = rest s"
    using read_law [OF rep id(4)] id(2) by auto
  have b: "refs A b \<le> 1" "b \<notin> busy A"
    using settled_idle [OF rep st, of b] settled_pinned [OF st, of b] by (cases "b \<in> P"; auto)+
  have "room b (v_bread a i A)"
  proof (cases "b \<in> P")
    case True
    then show ?thesis using settled_pinned(1) [OF st True] ab by (auto simp: room_def v_bread_def)
  next
    case False
    have "dom ((slot A)(a := Some i)) = insert a P" using c(3) by (simp add: resting_def)
    moreover have "card (insert a P) = card (insert b P)" using False ab room(2) by simp
    ultimately show ?thesis using room by (simp add: room_def v_bread_def)
  qed
  then obtain j s2 where 2: "rd b s1 = Inr (j, s2)" "rep s2 (v_bread b j (v_bread a i A))" "trace s2 = trace s1" "rest s2 = rest s1"
    using read_law [OF 1(2), of b] b ab by (auto simp: v_bread_def)
  have "data s2 i = c a" "data s2 j = c b"
    using data_law [OF 2(2), of a i] data_law [OF 2(2), of b j] ab c by (auto simp: v_bread_def)
  then show ?thesis using 1 2 by auto
qed

text \<open>Copying block \<open>a\<close> over block \<open>b\<close> on disk: \<open>b\<close> is either held by nobody, or pinned once and unpinned.\<close>

lemma copy_block:
  assumes rep: "rep s A" and st: "settled A P c d" and ab: "a \<notin> P" "a \<noteq> b" and room: "card (insert b P) < NBUF" "finite P"
    and pn: "unp = (b \<in> P)"
  shows "\<exists>s' A'. bindE (rd a s) (\<lambda>(i, s). bindE (rd b s) (\<lambda>(j, s).
        bindE (wr j (set_dat j (data s i) s)) (\<lambda>s.
          bindE (rls i (if unp then unpin j s else s)) (\<lambda>s. rls j s)))) = Inr s'
     \<and> rep s' A' \<and> settled A' (P - {b}) (c(b := c a)) (d(b := c a)) \<and> trace s' = trace s @ [(b, c a)] \<and> rest s' = rest s"
proof -
  note id = settled_idle [OF rep st ab(1)]
  have c: "content A = c" "durable A = d" "resting A P" using st by (auto simp: settled_def)
  obtain i s1 j s2 where 2: "rd a s = Inr (i, s1)" "rd b s1 = Inr (j, s2)" "rep s2 (v_bread b j (v_bread a i A))"
     "data s2 i = c a" "trace s2 = trace s" "rest s2 = rest s"
    using open_two [OF rep st ab room] by blast
  let ?A2 = "v_bread b j (v_bread a i A)" and ?f = "\<lambda>A. if unp then v_bunpin b A else A"
  have 3: "rep (set_dat j (c a) s2) (v_set_data b (c a) ?A2)" by (rule set_law [OF 2(3)]) (simp add: v_bread_def)
  obtain s4 where 4: "wr j (set_dat j (c a) s2) = Inr s4" "rep s4 (v_bwrite b (v_set_data b (c a) ?A2))"
      "trace s4 = trace s @ [(b, c a)]" "rest s4 = rest s"
    using write_law [OF 3, of b j] 2 quiet(5,6) by (auto simp: v_bread_def v_set_data_def)
  define A4 where "A4 = v_bwrite b (v_set_data b (c a) ?A2)"
  define A5 where "A5 = (if unp then v_bunpin b A4 else A4)"
  define s5 where "s5 = (if unp then unpin j s4 else s4)"
  have rb: "refs A b = (if b \<in> P then 1 else 0)" using settled_idle(2) [OF rep st, of b] settled_pinned(2) [OF st, of b] by auto
  have v4: "slot A4 = (slot A)(a := Some i, b := Some j)" "refs A4 a = 1" "refs A4 b = refs A b + 1"
      "\<And>x. x \<noteq> a \<Longrightarrow> x \<noteq> b \<Longrightarrow> refs A4 x = refs A x" "busy A4 = {a, b}" "content A4 = c(b := c a)" "durable A4 = d(b := c a)"
    using ab id c by (auto simp: A4_def view_ops resting_def)
  have v5: "slot A5 = slot A4" "refs A5 a = 1" "refs A5 b = 1" "\<And>x. x \<noteq> a \<Longrightarrow> x \<noteq> b \<Longrightarrow> refs A5 x = refs A x"
      "busy A5 = {a, b}" "content A5 = c(b := c a)" "durable A5 = d(b := c a)"
    using ab pn rb v4 by (auto simp: A5_def v_bunpin_def)
  have 5: "rep s5 A5" "trace s5 = trace s4" "rest s5 = rest s4"
    using unpin_law [of s4 A4 b j] 4(2) pn rb v4 quiet by (auto simp: s5_def A5_def A4_def)
  have "slot A5 a = Some i" "a \<in> busy A5" "content A5 a = durable A5 a" using v4(1) v5 ab(2) id(3) by auto
  then obtain s6 where 6: "rls i s5 = Inr s6" "rep s6 (v_brelse a A5)" "trace s6 = trace s5" "rest s6 = rest s5"
    using relse_law [OF 5(1), of a i] by blast
  have "slot (v_brelse a A5) b = Some j" "b \<in> busy (v_brelse a A5)" "content (v_brelse a A5) b = durable (v_brelse a A5) b"
    using v4(1) v5 ab(2) by (auto simp: v_brelse_def)
  then obtain s7 where 7: "rls j s6 = Inr s7" "rep s7 (v_brelse b (v_brelse a A5))" "trace s7 = trace s6" "rest s7 = rest s6"
    using relse_law [OF 6(2), of b j] by blast
  have "settled (v_brelse b (v_brelse a A5)) (P - {b}) (c(b := c a)) (d(b := c a))"
    using c(3) ab v4(1) v5 by (auto simp: v_brelse_def settled_def resting_def)
  then show ?thesis using 2 4 5 6 7 by (auto simp: s5_def)
qed

text \<open>Copying a pinned block \<open>b\<close> over block \<open>a\<close>, which nobody holds.\<close>

lemma save_block:
  assumes rep: "rep s A" and st: "settled A P c d" and ab: "a \<notin> P" "b \<in> P" and room: "card P < NBUF" "finite P"
  shows "\<exists>s' A'. bindE (rd a s) (\<lambda>(i, s). bindE (rd b s) (\<lambda>(j, s).
        bindE (wr i (set_dat i (data s j) s)) (\<lambda>s. bindE (rls j s) (\<lambda>s. rls i s)))) = Inr s'
     \<and> rep s' A' \<and> settled A' P (c(a := c b)) (d(a := c b)) \<and> trace s' = trace s @ [(a, c b)] \<and> rest s' = rest s"
proof -
  note id = settled_idle [OF rep st ab(1)]
  have c: "content A = c" "durable A = d" "resting A P" using st by (auto simp: settled_def)
  have ne: "a \<noteq> b" using ab by auto
  have ib: "insert b P = P" using ab(2) by auto
  obtain i s1 j s2 where 2: "rd a s = Inr (i, s1)" "rd b s1 = Inr (j, s2)" "rep s2 (v_bread b j (v_bread a i A))"
     "data s2 j = c b" "trace s2 = trace s" "rest s2 = rest s"
    using open_two [OF rep st ab(1) ne] room ib by auto
  let ?A2 = "v_bread b j (v_bread a i A)"
  have 3: "rep (set_dat i (c b) s2) (v_set_data a (c b) ?A2)" by (rule set_law [OF 2(3)]) (use ne in \<open>simp add: v_bread_def\<close>)
  obtain s4 where 4: "wr i (set_dat i (c b) s2) = Inr s4" "rep s4 (v_bwrite a (v_set_data a (c b) ?A2))"
      "trace s4 = trace s @ [(a, c b)]" "rest s4 = rest s"
    using write_law [OF 3, of a i] 2 ne quiet(5,6) by (auto simp: v_bread_def v_set_data_def)
  let ?A4 = "v_bwrite a (v_set_data a (c b) ?A2)"
  have rb: "refs A b = 1" using settled_pinned(2) [OF st ab(2)] .
  obtain s6 where 6: "rls j s4 = Inr s6" "rep s6 (v_brelse b ?A4)" "trace s6 = trace s4" "rest s6 = rest s4"
    using relse_law [OF 4(2), of b j] ne rb by (auto simp: view_ops)
  obtain s7 where 7: "rls i s6 = Inr s7" "rep s7 (v_brelse a (v_brelse b ?A4))" "trace s7 = trace s6" "rest s7 = rest s6"
    using relse_law [OF 6(2), of a i] ne rb by (auto simp: view_ops)
  have "settled (v_brelse a (v_brelse b ?A4)) P (c(a := c b)) (d(a := c b))"
    using c id ab rb ne by (auto simp: view_ops settled_def resting_def)
  then show ?thesis using 2 4 6 7 by auto
qed

end

interpretation bc: block_cache "bread pid dev" "bwrite pid" "brelse pid" bpin bunpin "\<lambda>s i. b_data (bufs s ! i)"
  set_data "bc_rep dev pid" written bcache.more for pid dev
proof (unfold_locales, goal_cases)
  case (1 s A n)
  then show ?case using bread_rep [of dev pid s A n] by blast
next
  case (2 s A n i)
  then show ?case by (rule bc_rep_held)
next
  case (3 s A n i)
  then show ?case by (rule bwrite_rep)
next
  case (4 s A n i)
  then show ?case by (rule brelse_rep)
next
  case (5 s A n i)
  then show ?case by (rule bpin_rep)
next
  case (6 s A n i)
  then show ?case by (rule bunpin_rep)
next
  case (7 s A n)
  then show ?case by (rule bc_repD)
next
  case (8 s A n i d)
  then show ?case by (rule set_data_rep)
qed (simp_all add: bpin_def bunpin_def set_data_def)

subsection \<open>Properties\<close>

text \<open>C24: on every state that represents a view, \<open>bread\<close> of a block that is not locked returns, without
  panic, a buffer that holds the current contents of that block (from the cache or the disk), locked and
  referenced once more, provided the block is already referenced or fewer than \<open>NBUF\<close> blocks are; the
  contents of every block, the disk and the rest of the state are unchanged, and the list of buffers
  stays a well-formed most-recently-used list.\<close>

theorem bread_refines_view:
  assumes "bc_rep dev pid s A" "n \<notin> busy A" "refs A n + 1 < 4294967296" "room n A"
  shows "\<exists>i s'. bread pid dev n s = Inr (i, s') \<and> b_data (bufs s' ! i) = content A n
     \<and> (slot A n = None \<or> slot A n = Some i)
     \<and> bc_rep dev pid s' (A\<lparr>slot := (slot A)(n := Some i), refs := (refs A)(n := refs A n + 1), busy := insert n (busy A)\<rparr>)
     \<and> bcache.more s' = bcache.more s"
  using bread_rep [OF assms] unfolding v_bread_def by blast

definition demo_cache :: bcache where
  "demo_cache = \<lparr>bufs = replicate (Suc NBUF) zero_buf, disk = (\<lambda>n. replicate 1024 (ucast n)), written = []\<rparr>"

theorem bread_refines_view_witness:
  "\<exists>i s'. bread 1 1 7 (binit demo_cache) = Inr (i, s') \<and> b_data (bufs s' ! i) = replicate 1024 7"
proof -
  have "bc_rep 1 1 (binit demo_cache) (fresh_view (disk demo_cache))"
    by (rule binit_rep) (simp_all add: demo_cache_def del: replicate.simps)
  from bread_refines_view [OF this, of 7] show ?thesis
    by (auto simp: fresh_view_def room_def NBUF_def demo_cache_def)
qed

text \<open>\<open>brelse\<close> of a locked buffer whose contents are on disk, or that is referenced elsewhere, unlocks
  it and drops one reference; a buffer nobody references any more becomes the most recently used one.
  \<open>bwrite\<close> makes exactly the contents of the buffer durable.\<close>

theorem bwrite_brelse_refine_view:
  assumes "bc_rep dev pid s A" "slot A n = Some i" "n \<in> busy A"
  shows "\<exists>s1 s2. bwrite pid i s = Inr s1 \<and> disk s1 = (disk s)(n := content A n) \<and> brelse pid i s1 = Inr s2
     \<and> bc_rep dev pid s2 (A\<lparr>durable := (durable A)(n := content A n), busy := busy A - {n},
          refs := (refs A)(n := refs A n - 1), slot := (if refs A n = 1 then (slot A)(n := None) else slot A)\<rparr>)
     \<and> (refs A n = 1 \<longrightarrow> next_of s2 head = i)"
proof -
  obtain s1 where 1: "bwrite pid i s = Inr s1" "bc_rep dev pid s1 (v_bwrite n A)" using bwrite_rep [OF assms] by blast
  have sl: "slot (v_bwrite n A) n = Some i" "n \<in> busy (v_bwrite n A)" "content (v_bwrite n A) n = durable (v_bwrite n A) n"
    using assms by (simp_all add: v_bwrite_def)
  obtain s2 where 2: "brelse pid i s1 = Inr s2" "bc_rep dev pid s2 (v_brelse n (v_bwrite n A))"
    using brelse_rep [OF 1(2) sl(1,2)] sl(3) by blast
  have "next_of s2 head = i" if r: "refs A n = 1"
  proof -
    note h = bc_rep_held [OF 1(2) sl(1)]
    have "unat (b_refcnt (bufs s1 ! i)) = 1" using h(7) r by (simp add: v_bwrite_def)
    then have "b_refcnt (bufs s1 ! i) = 1" by (simp add: word_unat_eq_iff)
    moreover obtain xs where "lru s1 xs" using bc_repD(1) [OF 1(2)] by blast
    then have "length (bufs s1) = Suc NBUF" by (rule lruD)
    ultimately show ?thesis using 2(1) h(1,2) h(10) [OF sl(2)]
      by (auto simp: brelse_def Let_def link_front_def)
  qed
  moreover have "disk s1 = (disk s)(n := content A n)"
    using bc_repD(2) [OF 1(2)] bc_repD(2) [OF assms(1)] by (simp add: v_bwrite_def)
  moreover have "bc_rep dev pid s2 (A\<lparr>durable := (durable A)(n := content A n), busy := busy A - {n},
          refs := (refs A)(n := refs A n - 1), slot := (if refs A n = 1 then (slot A)(n := None) else slot A)\<rparr>)"
    using 2(2) by (cases "refs A n = 1") (simp_all add: v_bwrite_def v_brelse_def)
  ultimately show ?thesis using 1(1) 2(1) by blast
qed

theorem bwrite_brelse_refine_view_witness:
  "\<exists>i s' s1 s2. bread 1 1 7 (binit demo_cache) = Inr (i, s')
     \<and> bwrite 1 i (set_data i (replicate 1024 9) s') = Inr s1 \<and> disk s1 7 = replicate 1024 9
     \<and> brelse 1 i s1 = Inr s2 \<and> next_of s2 head = i"
proof -
  let ?A = "fresh_view (disk demo_cache)"
  have "bc_rep 1 1 (binit demo_cache) ?A"
    by (rule binit_rep) (simp_all add: demo_cache_def del: replicate.simps)
  then obtain i s' where r: "bread 1 1 7 (binit demo_cache) = Inr (i, s')" "bc_rep 1 1 s' (v_bread 7 i ?A)"
    using bread_rep [of 1 1 "binit demo_cache" ?A 7] by (auto simp: fresh_view_def room_def NBUF_def)
  then have "bc_rep 1 1 (set_data i (replicate 1024 9) s') (v_set_data 7 (replicate 1024 9) (v_bread 7 i ?A))"
    by (intro set_data_rep) (simp_all add: v_bread_def)
  from bwrite_brelse_refine_view [OF this, of 7 i] r(1) show ?thesis
    by (auto simp: v_set_data_def v_bread_def fresh_view_def)
qed

end
