(* ===== verification/Swap.thy ===== *)
theory Swap
  imports Cow Bio
begin

text \<open>
  On-demand heap pages of Project 2: the heap tracker of a process (\<open>track_heap\<close> and \<open>growproc\<close> of
  \<open>kernel/proc.c\<close>, its reset in \<open>exec\<close>), and the page save area with eviction, retrieval and the heap
  part of the page-fault handler (\<open>kernel/pfault.c\<close>). The state is that of the running process together
  with the machine, the save area and the buffer cache. \<open>ticks\<close> is read without its lock.
\<close>

unbundle bit_operations_syntax

subsection \<open>State\<close>

definition MAXHEAP :: nat where "MAXHEAP = 1000"
definition MAXRESHEAP :: int where "MAXRESHEAP = 100"
definition PSASTART :: u32 where "PSASTART = 33"
definition PSASIZE :: nat where "PSASIZE = 4000"

record heap_page =
  hp_addr :: u64
  hp_last_load_time :: u64
  hp_loaded :: bool
  hp_startblock :: int

record swapst = vmstate +
  p_pid :: int
  p_pagetable :: u64
  p_sz :: u64
  p_ondemand :: bool
  heap_tracker :: "heap_page list"
  resident_heap_pages :: int
  ticks :: u32
  psa_tracker :: "bool list"
  psa_cache :: bcache

definition NOPAGE :: u64 where "NOPAGE = 0xFFFFFFFFFFFFFFFF"

subsection \<open>Tracking the heap\<close>

definition clear_heap :: "'a swapst_scheme \<Rightarrow> 'a swapst_scheme" where
  "clear_heap s = s\<lparr>heap_tracker := map (\<lambda>h. h\<lparr>hp_addr := NOPAGE, hp_startblock := - 1,
        hp_last_load_time := NOPAGE, hp_loaded := False\<rparr>) (heap_tracker s), resident_heap_pages := 0\<rparr>"

fun track_from :: "u64 \<Rightarrow> nat \<Rightarrow> int \<Rightarrow> heap_page list \<Rightarrow> kerror + heap_page list" where
  "track_from start i npages [] = Inl (Panic ''Error: No more process heap pages allowed.'')"
| "track_from start i npages (h # hs) =
     (if hp_addr h = NOPAGE
      then let h' = h\<lparr>hp_addr := start + of_nat i * PGSIZE, hp_loaded := False, hp_startblock := - 1\<rparr> in
        if npages - 1 = 0 then Inr (h' # hs)
        else bindE (track_from start (Suc i) (npages - 1) hs) (\<lambda>hs'. Inr (h' # hs'))
      else bindE (track_from start (Suc i) npages hs) (\<lambda>hs'. Inr (h # hs')))"

definition track_heap :: "u64 \<Rightarrow> int \<Rightarrow> 'a swapst_scheme \<Rightarrow> kerror + 'a swapst_scheme" where
  "track_heap start npages s =
     bindE (track_from start 0 npages (heap_tracker s)) (\<lambda>hs. Inr (s\<lparr>heap_tracker := hs\<rparr>))"

text \<open>\<open>n\<close> is a 32-bit int, rounded up to a whole number of pages.\<close>

definition round_int :: "u32 \<Rightarrow> u32" where "round_int n = (n + 4095) AND NOT 4095"

definition growproc :: "u64 \<Rightarrow> u32 \<Rightarrow> 'a swapst_scheme \<Rightarrow> kerror + int \<times> 'a swapst_scheme" where
  "growproc kend n0 s =
     (let n = round_int n0; sz = p_sz s; total_pages = sint n div 4096 in
      if p_ondemand s
      then bindE (track_heap sz total_pages s) (\<lambda>s. Inr (0, s\<lparr>p_sz := sz + scast n\<rparr>))
      else if 0 < sint n
      then bindE (uvmalloc kend (p_pagetable s) sz (sz + scast n) PTE_W s) (\<lambda>(sz, s).
        if sz = 0 then Inr (- 1, s) else Inr (0, s\<lparr>p_sz := sz\<rparr>))
      else if sint n < 0
      then bindE (uvmdealloc kend (p_pagetable s) sz (sz + scast n) s) (\<lambda>(sz, s). Inr (0, s\<lparr>p_sz := sz\<rparr>))
      else Inr (0, s\<lparr>p_sz := sz\<rparr>))"

subsection \<open>The page save area\<close>

definition read_current_timestamp :: "'a swapst_scheme \<Rightarrow> u64" where
  "read_current_timestamp s = ucast (ticks s)"

definition init_psa_regions :: "'a swapst_scheme \<Rightarrow> 'a swapst_scheme" where
  "init_psa_regions s = s\<lparr>psa_tracker := replicate PSASIZE False\<rparr>"

function free_block_from :: "bool list \<Rightarrow> nat \<Rightarrow> nat" where
  "free_block_from t i =
     (if i < PSASIZE
      then if \<not> t ! i \<and> \<not> t ! (i + 1) \<and> \<not> t ! (i + 2) \<and> \<not> t ! (i + 3) then i else free_block_from t (i + 4)
      else 0)"
  by pat_completeness auto
termination by (relation "measure (\<lambda>(t, i). PSASIZE - i)") auto

declare free_block_from.simps [simp del]

text \<open>The loop that picks the victim; times are signed 64-bit.\<close>

fun victim_from :: "u64 \<Rightarrow> nat \<Rightarrow> u64 \<Rightarrow> nat \<Rightarrow> heap_page list \<Rightarrow> nat" where
  "victim_from curr_time i largest_time position [] = position"
| "victim_from curr_time i largest_time position (h # hs) =
     (if hp_loaded h \<and> sint (hp_last_load_time h - curr_time) < sint largest_time
      then victim_from curr_time (Suc i) (hp_last_load_time h - curr_time) i hs
      else victim_from curr_time (Suc i) largest_time position hs)"

definition victim :: "'a swapst_scheme \<Rightarrow> nat" where
  "victim s = victim_from (read_current_timestamp s) 0 0x0FFFFFFFFFFFFFFF 0 (heap_tracker s)"

definition set_heap_page :: "nat \<Rightarrow> (heap_page \<Rightarrow> heap_page) \<Rightarrow> 'a swapst_scheme \<Rightarrow> 'a swapst_scheme" where
  "set_heap_page i f s = s\<lparr>heap_tracker := (heap_tracker s)[i := f (heap_tracker s ! i)]\<rparr>"

definition set_psa :: "int \<Rightarrow> bool \<Rightarrow> 'a swapst_scheme \<Rightarrow> kerror + 'a swapst_scheme" where
  "set_psa i v s =
     (if 0 \<le> i \<and> i < int PSASIZE then Inr (s\<lparr>psa_tracker := (psa_tracker s)[nat i := v]\<rparr>) else Inl OutOfBounds)"

definition save_block :: "nat \<Rightarrow> u64 \<Rightarrow> nat \<Rightarrow> 'a swapst_scheme \<Rightarrow> kerror + 'a swapst_scheme" where
  "save_block blockno kernel_memory i s =
     bindE (bread (p_pid s) 1 (PSASTART + of_nat blockno) (psa_cache s)) (\<lambda>(b, c).
       bindE (bwrite (p_pid s) b (set_data b (bytes_at (pmem s) kernel_memory 1024) c)) (\<lambda>c.
         bindE (brelse (p_pid s) b c) (\<lambda>c. set_psa (int blockno + int i) True (s\<lparr>psa_cache := c\<rparr>))))"

definition evict_page_to_disk :: "u64 \<Rightarrow> 'a swapst_scheme \<Rightarrow> kerror + 'a swapst_scheme" where
  "evict_page_to_disk kend s =
     (let blockno = free_block_from (psa_tracker s) 0; position = victim s;
          addr = hp_addr (heap_tracker s ! position); (kernel_memory, s) = kalloc s in
      if kernel_memory = 0 then Inl NullDeref
      else bindE (copyin (p_pagetable s) kernel_memory addr 4096 s) (\<lambda>(_, s).
        bindE (foldE (save_block blockno kernel_memory) [0..<4] s) (\<lambda>s.
          bindE (uvmunmap kend (p_pagetable s) addr 1 True s) (\<lambda>s.
            Inr (set_heap_page position (\<lambda>h. h\<lparr>hp_loaded := False, hp_startblock := int blockno\<rparr>)
                   (s\<lparr>resident_heap_pages := resident_heap_pages s - 1\<rparr>))))))"

fun find_page :: "u64 \<Rightarrow> nat \<Rightarrow> heap_page list \<Rightarrow> nat option" where
  "find_page uvaddr i [] = None"
| "find_page uvaddr i (h # hs) = (if uvaddr = hp_addr h then Some i else find_page uvaddr (Suc i) hs)"

definition load_save_block :: "int \<Rightarrow> u64 \<Rightarrow> nat \<Rightarrow> 'a swapst_scheme \<Rightarrow> kerror + 'a swapst_scheme" where
  "load_save_block startblock kernel_page i s =
     bindE (bread (p_pid s) 1 (PSASTART + of_int (startblock + int i)) (psa_cache s)) (\<lambda>(b, c).
       let s = s\<lparr>pmem := put_bytes (pmem s) (kernel_page + of_nat (i * 1024)) (b_data (bufs c ! b))\<rparr> in
       bindE (brelse (p_pid s) b c) (\<lambda>c. set_psa (startblock + int i) False (s\<lparr>psa_cache := c\<rparr>)))"

definition retrieve_page_from_disk :: "u64 \<Rightarrow> u64 \<Rightarrow> 'a swapst_scheme \<Rightarrow> kerror + 'a swapst_scheme" where
  "retrieve_page_from_disk kend uvaddr s =
     (case find_page uvaddr 0 (heap_tracker s) of
        None \<Rightarrow> Inl (Panic ''Couldnot find the page in panic mode.'')
      | Some page_location \<Rightarrow>
          (let startblock = hp_startblock (heap_tracker s ! page_location); (kernel_page, s) = kalloc s in
           if kernel_page = 0 then Inl NullDeref
           else bindE (foldE (load_save_block startblock kernel_page) [0..<4] s) (\<lambda>s.
             bindE (copyout (p_pagetable s) uvaddr kernel_page 4096 s) (\<lambda>(_, s). kfree kend kernel_page s))))"

subsection \<open>A page fault in the heap\<close>

text \<open>The code from the label \<open>heap_handle\<close>, entered with the index of the faulting page.\<close>

definition heap_handle :: "u64 \<Rightarrow> u64 \<Rightarrow> nat \<Rightarrow> bool \<Rightarrow> 'a swapst_scheme \<Rightarrow> kerror + 'a swapst_scheme" where
  "heap_handle kend faulting_addr heap_value load_from_disk s =
     bindE (if resident_heap_pages s = MAXRESHEAP then evict_page_to_disk kend s else Inr s) (\<lambda>s.
       bindE (uvmalloc kend (p_pagetable s) faulting_addr (faulting_addr + 4096) PTE_W s) (\<lambda>(r, s).
         if r = 0 then Inl (Panic ''Handled the case'')
         else let s = set_heap_page heap_value
                  (\<lambda>h. h\<lparr>hp_last_load_time := read_current_timestamp s, hp_loaded := True\<rparr>) s in
           bindE (if load_from_disk then retrieve_page_from_disk kend faulting_addr s else Inr s) (\<lambda>s.
             Inr (s\<lparr>resident_heap_pages := resident_heap_pages s + 1\<rparr>))))"

subsection \<open>The tracker\<close>

definition tracked :: "u64 \<Rightarrow> nat \<Rightarrow> heap_page \<Rightarrow> heap_page" where
  "tracked start i h = h\<lparr>hp_addr := start + of_nat i * PGSIZE, hp_loaded := False, hp_startblock := - 1\<rparr>"

lemma track_from_free:
  assumes "\<forall>h \<in> set hs. hp_addr h = NOPAGE"
  shows "track_from start i n hs =
    (if 0 < n \<and> nat n \<le> length hs
     then Inr (map (\<lambda>j. tracked start (i + j) (hs ! j)) [0..<nat n] @ drop (nat n) hs)
     else Inl (Panic ''Error: No more process heap pages allowed.''))"
  using assms
proof (induction hs arbitrary: i n)
  case (Cons h hs)
  consider "n = 1" | "n \<le> 0" | m where "n = int (Suc (Suc m))"
    by (metis add.commute nonneg_int_cases not_less of_nat_Suc old.nat.exhaust One_nat_def of_nat_1 semiring_1_class.of_nat_0 order_refl linear)
  then show ?case
  proof cases
    case (3 m)
    have n: "nat n = Suc (Suc m)" "n - 1 \<noteq> 0" "nat (n - 1) = Suc m" "0 < n - 1" "0 < n" using 3 by auto
    have "map (\<lambda>j. tracked start (i + j) ((h # hs) ! j)) [0..<Suc (Suc m)]
        = tracked start i h # map (\<lambda>j. tracked start (Suc i + j) (hs ! j)) [0..<Suc m]"
      by (subst upt_conv_Cons) (simp_all add: map_Suc_upt [symmetric] del: upt_Suc)
    then show ?thesis using Cons.IH [of "Suc i" "n - 1"] Cons.prems n
      by (simp add: tracked_def [symmetric] del: upt_Suc)
  qed (use Cons in \<open>auto simp: tracked_def\<close>)
qed simp

lemma track_from_used:
  assumes "\<forall>h \<in> set us. hp_addr h \<noteq> NOPAGE"
  shows "track_from start i n (us @ hs) = bindE (track_from start (i + length us) n hs) (\<lambda>hs'. Inr (us @ hs'))"
  using assms
proof (induction us arbitrary: i)
  case Nil
  then show ?case by (cases "track_from start i n hs") auto
next
  case (Cons u us)
  then show ?case by (cases "track_from start (Suc (i + length us)) n hs") auto
qed

lemma unat_round_int: "unat n + 4095 < 4294967296 \<Longrightarrow> unat (round_int n) = (unat n + 4095) div 4096 * 4096"
proof -
  assume n: "unat n + 4095 < 4294967296"
  let ?x = "n + 4095"
  have x: "unat ?x = unat n + 4095" using n by (simp add: unat_word_ariths)
  have "(?x AND NOT (mask 12)) + (?x AND mask 12) = ?x"
    by (subst disjunctive_add) (auto simp: bit_simps intro!: bit_word_eqI)
  then have "round_int n = ?x - (?x AND mask 12)" by (simp add: round_int_def mask_eq_exp_minus_1 algebra_simps)
  moreover have t: "unat (?x AND mask 12) = unat ?x mod 4096"
  proof -
    have "unat (take_bit 12 ?x) = take_bit 12 (unat ?x)" by (rule unsigned_take_bit_eq)
    then show ?thesis unfolding take_bit_eq_mask by (simp add: take_bit_eq_mod flip: take_bit_eq_mask)
  qed
  moreover have "unat (?x - (?x AND mask 12)) = unat ?x - unat (?x AND mask 12)"
    by (rule unat_sub) (simp add: word_le_nat_alt t)
  ultimately show ?thesis using x by (simp add: minus_mod_eq_div_mult)
qed

lemma growth:
  assumes "n \<le> 524287"
  defines "w \<equiv> of_nat (n * 4096) :: u32"
  shows "round_int w = w" "sint w = int n * 4096" "scast w = (of_nat n * PGSIZE :: u64)"
proof -
  have u: "unat w = n * 4096" using assms(1) unfolding w_def by (simp add: unat_of_nat del: of_nat_mult)
  have uw: "uint w = int n * 4096" using u by (metis of_nat_mult of_nat_numeral of_nat_unat)
  have "sint w = signed_take_bit (LENGTH(32) - Suc 0) (uint w)" by (rule sint_uint)
  also have "\<dots> = uint w" using uw assms(1) by (intro signed_take_bit_int_eq_self) simp_all
  finally show sw: "sint w = int n * 4096" using uw by simp
  show "scast w = (of_nat n * PGSIZE :: u64)"
  proof -
    have "scast w = (of_int (sint w) :: u64)" by simp
    then show ?thesis unfolding sw by (simp add: PGSIZE_def)
  qed
  have "unat (round_int w) = (n * 4096 + 4095) div 4096 * 4096" using u assms(1) by (simp add: unat_round_int)
  then show "round_int w = w" using u by (simp add: word_unat_eq_iff)
qed

subsection \<open>The victim\<close>

definition age :: "u64 \<Rightarrow> heap_page \<Rightarrow> int" where
  "age now h = sint (hp_last_load_time h - now)"

lemma victim_from_spec:
  "(victim_from now i best p hs = p \<and> (\<forall>h \<in> set hs. hp_loaded h \<longrightarrow> sint best \<le> age now h))
   \<or> (\<exists>j < length hs. victim_from now i best p hs = i + j \<and> hp_loaded (hs ! j) \<and> age now (hs ! j) < sint best
        \<and> (\<forall>h \<in> set hs. hp_loaded h \<longrightarrow> age now (hs ! j) \<le> age now h))"
proof (induction hs arbitrary: i best p)
  case (Cons h hs)
  show ?case
  proof (cases "hp_loaded h \<and> age now h < sint best")
    case True
    from Cons.IH [of "Suc i" "hp_last_load_time h - now" i] show ?thesis
    proof (elim disjE exE conjE)
      fix j assume "j < length hs" "victim_from now (Suc i) (hp_last_load_time h - now) i hs = Suc i + j" "hp_loaded (hs ! j)"
        "age now (hs ! j) < sint (hp_last_load_time h - now)" "\<forall>h \<in> set hs. hp_loaded h \<longrightarrow> age now (hs ! j) \<le> age now h"
      then show ?thesis using True by (intro disjI2 exI [of _ "Suc j"]) (auto simp: age_def)
    qed (use True in \<open>auto simp: age_def intro!: exI [of _ 0]\<close>)
  next
    case False
    then have e: "victim_from now i best p (h # hs) = victim_from now (Suc i) best p hs" by (auto simp: age_def)
    from Cons.IH [of "Suc i" best p] show ?thesis
    proof (elim disjE exE conjE)
      fix j assume "j < length hs" "victim_from now (Suc i) best p hs = Suc i + j" "hp_loaded (hs ! j)"
        "age now (hs ! j) < sint best" "\<forall>h \<in> set hs. hp_loaded h \<longrightarrow> age now (hs ! j) \<le> age now h"
      then show ?thesis using False e by (intro disjI2 exI [of _ "Suc j"]) auto
    qed (use False e in auto)
  qed
qed simp

lemma sint_small: "unat (w :: u64) < 9223372036854775808 \<Longrightarrow> sint w = int (unat w)"
proof -
  assume "unat w < 9223372036854775808"
  then have w: "uint w < 9223372036854775808" by (metis of_nat_less_iff of_nat_numeral of_nat_unat)
  have "sint w = signed_take_bit (LENGTH(64) - Suc 0) (uint w)" by (rule sint_uint)
  also have "\<dots> = uint w" using w by (intro signed_take_bit_int_eq_self) (auto intro: order_trans [OF _ uint_ge_0])
  finally show ?thesis by simp
qed

lemma age_ticks:
  assumes "unat (hp_last_load_time h) < 4294967296" "unat now < 4294967296"
  shows "age now h = int (unat (hp_last_load_time h)) - int (unat now)"
proof -
  have "age now h = signed_take_bit (LENGTH(64) - 1) (sint (hp_last_load_time h) - sint now)"
    unfolding age_def by (rule sint_word_ariths(2))
  also have "\<dots> = sint (hp_last_load_time h) - sint now"
    using assms sint_small [of "hp_last_load_time h"] sint_small [of now]
    by (intro signed_take_bit_int_eq_self) (simp_all del: of_nat_unat)
  finally show ?thesis using assms by (simp add: sint_small)
qed

subsection \<open>The save area on disk\<close>

text \<open>The cache holds the contents \<open>c\<close> over a disk \<open>d\<close>; the blocks \<open>P\<close> are in use by others.\<close>

definition swap_ok :: "'a swapst_scheme \<Rightarrow> u32 set \<Rightarrow> (u32 \<Rightarrow> block) \<Rightarrow> (u32 \<Rightarrow> block) \<Rightarrow> bool" where
  "swap_ok s P c d \<longleftrightarrow> card P < NBUF \<and> (\<exists>A. bc_rep 1 (p_pid s) (psa_cache s) A \<and> settled A P c d)"

lemma save_block_step:
  assumes ok: "swap_ok s P c d" and n: "n = PSASTART + of_nat b" "n \<notin> P" and b: "b + i < PSASIZE"
    and D: "D = bytes_at (pmem s) m 1024"
  shows "\<exists>cache. save_block b m i s = Inr (s\<lparr>psa_cache := cache, psa_tracker := (psa_tracker s)[b + i := True]\<rparr>)
     \<and> swap_ok (s\<lparr>psa_cache := cache, psa_tracker := (psa_tracker s)[b + i := True]\<rparr>) P (c(n := D)) (d(n := D))"
proof -
  obtain A where A: "bc_rep 1 (p_pid s) (psa_cache s) A" "settled A P c d" "card P < NBUF"
    using ok by (auto simp: swap_ok_def)
  from bc.rewrite_block [OF A(1,2) n(2) A(3), of "\<lambda>_. D"] obtain c' A' where
    c': "bindE (bread (p_pid s) 1 n (psa_cache s)) (\<lambda>(i, s'). bindE (bwrite (p_pid s) i (set_data i D s')) (brelse (p_pid s) i)) = Inr c'"
    "bc_rep 1 (p_pid s) c' A'" "settled A' P (c(n := D)) (d(n := D))" by blast
  have "save_block b m i s = bindE (Inr c') (\<lambda>c. set_psa (int b + int i) True (s\<lparr>psa_cache := c\<rparr>))"
    unfolding c'(1) [symmetric] save_block_def n(1) D by (auto simp: bindE_def split: sum.splits prod.splits)
  moreover have "nat (int b + int i) = b + i" by simp
  ultimately have "save_block b m i s = Inr (s\<lparr>psa_cache := c', psa_tracker := (psa_tracker s)[b + i := True]\<rparr>)"
    using b by (simp add: set_psa_def)
  then show ?thesis using c'(2,3) A(3) by (auto simp: swap_ok_def)
qed

definition mark :: "nat \<Rightarrow> nat \<Rightarrow> bool \<Rightarrow> bool list \<Rightarrow> bool list" where
  "mark b k v t = fold (\<lambda>i t. t[b + i := v]) [0..<k] t"

lemma save_blocks:
  fixes s :: "'a swapst_scheme"
  assumes ok: "swap_ok s P c d" and n: "n = PSASTART + of_nat b" "n \<notin> P" and b: "b + k \<le> PSASIZE" and k: "0 < k"
    and D: "D = bytes_at (pmem s) m 1024"
  shows "\<exists>cache. foldE (save_block b m) [0..<k] s = Inr (s\<lparr>psa_cache := cache, psa_tracker := mark b k True (psa_tracker s)\<rparr>)
     \<and> swap_ok (s\<lparr>psa_cache := cache, psa_tracker := mark b k True (psa_tracker s)\<rparr>) P (c(n := D)) (d(n := D))"
  using k b
proof (induction k)
  case (Suc k)
  show ?case
  proof (cases "k = 0")
    case True
    obtain cache where "save_block b m 0 s = Inr (s\<lparr>psa_cache := cache, psa_tracker := (psa_tracker s)[b + 0 := True]\<rparr>)"
      "swap_ok (s\<lparr>psa_cache := cache, psa_tracker := (psa_tracker s)[b + 0 := True]\<rparr>) P (c(n := D)) (d(n := D))"
      using save_block_step [OF ok n, of 0 D m] Suc.prems D by auto
    then show ?thesis using True by (intro exI [of _ cache]) (simp add: mark_def del: fun_upd_apply)
  next
    case False
    then obtain cache where c: "foldE (save_block b m) [0..<k] s = Inr (s\<lparr>psa_cache := cache, psa_tracker := mark b k True (psa_tracker s)\<rparr>)"
      "swap_ok (s\<lparr>psa_cache := cache, psa_tracker := mark b k True (psa_tracker s)\<rparr>) P (c(n := D)) (d(n := D))"
      using Suc.IH Suc.prems(2) by (metis Suc_leD add_Suc_right neq0_conv)
    from save_block_step [OF c(2) n, of k D m] Suc.prems D obtain cache' where
      "save_block b m k (s\<lparr>psa_cache := cache, psa_tracker := mark b k True (psa_tracker s)\<rparr>)
         = Inr (s\<lparr>psa_cache := cache', psa_tracker := mark b (Suc k) True (psa_tracker s)\<rparr>)"
      "swap_ok (s\<lparr>psa_cache := cache', psa_tracker := mark b (Suc k) True (psa_tracker s)\<rparr>) P (c(n := D)) (d(n := D))"
      by (auto simp: mark_def simp del: fun_upd_apply)
    then show ?thesis using c(1) by (intro exI [of _ cache']) (simp add: foldE_append del: fun_upd_apply)
  qed
qed simp

definition put_blocks :: "u64 \<Rightarrow> (nat \<Rightarrow> block) \<Rightarrow> nat \<Rightarrow> mem \<Rightarrow> mem" where
  "put_blocks p f k m = fold (\<lambda>i m. put_bytes m (p + of_nat (i * 1024)) (f i)) [0..<k] m"

lemma load_save_block_step:
  assumes ok: "swap_ok s P c d" and n: "n = PSASTART + of_nat (b + i)" "n \<notin> P" and b: "b + i < PSASIZE"
  shows "\<exists>cache. load_save_block (int b) p i s =
        Inr (s\<lparr>pmem := put_bytes (pmem s) (p + of_nat (i * 1024)) (c n), psa_cache := cache, psa_tracker := (psa_tracker s)[b + i := False]\<rparr>)
     \<and> swap_ok (s\<lparr>pmem := put_bytes (pmem s) (p + of_nat (i * 1024)) (c n), psa_cache := cache, psa_tracker := (psa_tracker s)[b + i := False]\<rparr>) P c d"
proof -
  obtain A where A: "bc_rep 1 (p_pid s) (psa_cache s) A" "settled A P c d" "card P < NBUF"
    using ok by (auto simp: swap_ok_def)
  from bc.peek_block [OF A(1,2) n(2) A(3)] obtain j c1 c' A' where
    c': "bread (p_pid s) 1 n (psa_cache s) = Inr (j, c1)" "b_data (bufs c1 ! j) = c n" "brelse (p_pid s) j c1 = Inr c'"
    "bc_rep 1 (p_pid s) c' A'" "settled A' P c d" by blast
  have e: "PSASTART + of_int (int b + int i) = n" "nat (int b + int i) = b + i" using n(1) by simp_all
  have "load_save_block (int b) p i s =
        Inr (s\<lparr>pmem := put_bytes (pmem s) (p + of_nat (i * 1024)) (c n), psa_cache := c', psa_tracker := (psa_tracker s)[b + i := False]\<rparr>)"
    unfolding load_save_block_def e(1) using c'(1-3) b e(2) by (simp add: set_psa_def Let_def)
  then show ?thesis using c'(4,5) A(3) by (auto simp: swap_ok_def)
qed

lemma load_save_blocks:
  fixes s :: "'a swapst_scheme"
  assumes ok: "swap_ok s P c d" and n: "\<And>i. i < k \<Longrightarrow> PSASTART + of_nat (b + i) \<notin> P" and b: "b + k \<le> PSASIZE"
  defines "f \<equiv> \<lambda>i. c (PSASTART + of_nat (b + i))"
  shows "\<exists>cache. foldE (load_save_block (int b) p) [0..<k] s =
       Inr (s\<lparr>pmem := put_blocks p f k (pmem s), psa_cache := cache, psa_tracker := mark b k False (psa_tracker s)\<rparr>)
     \<and> swap_ok (s\<lparr>pmem := put_blocks p f k (pmem s), psa_cache := cache, psa_tracker := mark b k False (psa_tracker s)\<rparr>) P c d"
  using n b
proof (induction k)
  case 0
  show ?case using ok by (auto simp: mark_def put_blocks_def intro!: exI [of _ "psa_cache s"])
next
  case (Suc k)
  then obtain cache where 1: "foldE (load_save_block (int b) p) [0..<k] s =
       Inr (s\<lparr>pmem := put_blocks p f k (pmem s), psa_cache := cache, psa_tracker := mark b k False (psa_tracker s)\<rparr>)"
     "swap_ok (s\<lparr>pmem := put_blocks p f k (pmem s), psa_cache := cache, psa_tracker := mark b k False (psa_tracker s)\<rparr>) P c d" by auto
  have nk: "PSASTART + of_nat (b + k) \<notin> P" "b + k < PSASIZE" using Suc.prems by auto
  from load_save_block_step [OF 1(2) refl nk, of p] show ?case
    using 1(1) by (auto simp: foldE_append mark_def put_blocks_def f_def)
qed

lemma bytes_at_add: "bytes_at m p (a + b) = bytes_at m p a @ bytes_at m (p + of_nat a) b"
  by (rule nth_equalityI) (auto simp: bytes_at_def nth_append)

lemma bytes_at_put_blocks:
  assumes "\<And>i. i < k \<Longrightarrow> length (f i) = 1024" "unat p + k * 1024 \<le> 18446744073709551616"
  shows "bytes_at (put_blocks p f k m) p (k * 1024) = concat (map f [0..<k])"
  using assms
proof (induction k)
  case (Suc k)
  let ?m = "put_blocks p f k m"
  define q where "q = p + of_nat (k * 1024)"
  have l: "length (f k) = 1024" using Suc.prems by simp
  have q: "unat q = unat p + k * 1024" unfolding q_def using Suc.prems by (subst unat_add64) (auto simp: unat_of_nat simp del: of_nat_mult)
  have pb: "put_blocks p f (Suc k) m = put_bytes ?m q (f k)" by (simp add: put_blocks_def q_def)
  have ap: "put_bytes ?m q (f k) x = (if in_range x q 1024 then f k ! unat (x - q) else ?m x)" for x
    using put_bytes_apply [of "f k" ?m q x] l by simp
  have "bytes_at (put_bytes ?m q (f k)) q 1024 = f k"
    by (rule nth_equalityI) (auto simp: l bytes_at_def ap unat_of_nat)
  moreover have "bytes_at (put_bytes ?m q (f k)) p (k * 1024) = bytes_at ?m p (k * 1024)"
  proof (rule nth_equalityI)
    fix i assume "i < length (bytes_at (put_bytes ?m q (f k)) p (k * 1024))"
    then have i: "i < k * 1024" by simp
    have u: "unat (p + of_nat i) = unat p + i" using Suc.prems i by (subst unat_add64) (auto simp: unat_of_nat)
    have "\<not> in_range (p + of_nat i) q 1024"
      using in_range_nowrap [of q 1024 "p + of_nat i"] q u i Suc.prems by simp
    then show "bytes_at (put_bytes ?m q (f k)) p (k * 1024) ! i = bytes_at ?m p (k * 1024) ! i"
      using i by (simp add: bytes_at_def ap)
  qed simp
  ultimately show ?case using Suc bytes_at_add [of "put_bytes ?m q (f k)" p "k * 1024" 1024, folded q_def]
    by (simp add: pb add.commute [of 1024] del: of_nat_mult)
qed simp

subsection \<open>Properties\<close>

text \<open>C37: growing the heap of an on-demand process whose tracker has \<open>length us\<close> entries in use allocates
  no memory; it registers \<open>n\<close> pages and panics when the growth is zero or the tracker is full. The pages
  registered start at \<open>length us\<close> pages above the old size, because the index of the tracker is used as
  the page offset: only the first growth registers the pages the process was given.\<close>

theorem growproc_tracks_heap:
  fixes s :: "'a swapst_scheme"
  assumes "p_ondemand s" "heap_tracker s = us @ fs" "n \<le> 524287"
    and "\<forall>h \<in> set us. hp_addr h \<noteq> NOPAGE" "\<forall>h \<in> set fs. hp_addr h = NOPAGE"
  shows "if 0 < n \<and> n \<le> length fs
    then \<exists>s'. growproc kend (of_nat (n * 4096)) s = Inr (0, s') \<and> p_sz s' = p_sz s + of_nat n * PGSIZE
       \<and> map hp_addr (heap_tracker s') = map hp_addr us @ map (\<lambda>j. p_sz s + of_nat (length us + j) * PGSIZE) [0..<n]
            @ replicate (length fs - n) NOPAGE
       \<and> pmem s' = pmem s \<and> freelist s' = freelist s
    else growproc kend (of_nat (n * 4096)) s = Inl (Panic ''Error: No more process heap pages allowed.'')"
proof -
  let ?hs = "map (\<lambda>j. tracked (p_sz s) (length us + j) (fs ! j)) [0..<n] @ drop n fs"
  have d: "sint (of_nat (n * 4096) :: u32) div 4096 = int n" using growth(2) [OF assms(3)] by simp
  have t: "track_heap (p_sz s) (int n) s = (if 0 < n \<and> n \<le> length fs then Inr (s\<lparr>heap_tracker := us @ ?hs\<rparr>)
      else Inl (Panic ''Error: No more process heap pages allowed.''))"
    using track_from_used [OF assms(4), of "p_sz s" 0 "int n" fs] track_from_free [OF assms(5), of "p_sz s" "length us" "int n"]
    by (simp add: track_heap_def assms(2))
  have g: "growproc kend (of_nat (n * 4096)) s = bindE (track_heap (p_sz s) (int n) s)
      (\<lambda>s'. Inr (0, s'\<lparr>p_sz := p_sz s + of_nat n * PGSIZE\<rparr>))"
    unfolding growproc_def Let_def growth(1,3) [OF assms(3)] d using assms(1) by simp
  have "map hp_addr (drop n fs) = replicate (length fs - n) NOPAGE"
    using assms(5) by (intro replicate_eqI) (auto dest: in_set_dropD)
  moreover have "map hp_addr (map (\<lambda>j. tracked (p_sz s) (length us + j) (fs ! j)) [0..<n])
      = map (\<lambda>j. p_sz s + of_nat (length us + j) * PGSIZE) [0..<n]" by (simp add: tracked_def)
  ultimately show ?thesis unfolding g t by (simp del: map_map)
qed

definition idle_page :: heap_page where
  "idle_page = \<lparr>hp_addr = NOPAGE, hp_last_load_time = NOPAGE, hp_loaded = False, hp_startblock = - 1\<rparr>"

definition demo_swap :: "heap_page list \<Rightarrow> swapst" where
  "demo_swap hs = \<lparr>pmem = (\<lambda>_. 0), freelist = 0, cow_groups = [], p_cow_enabled = 0, p_cow_group = - 1,
     p_pid = 3, p_pagetable = 0, p_sz = 0x3000, p_ondemand = True, heap_tracker = hs, resident_heap_pages = 0,
     ticks = 9, psa_tracker = replicate PSASIZE False, psa_cache = binit demo_cache\<rparr>"

theorem growproc_tracks_heap_witness:
  "\<exists>s'. growproc 0x87FF0000 0x1000 (demo_swap (idle_page\<lparr>hp_addr := 0x2000\<rparr> # replicate 999 idle_page)) = Inr (0, s')
     \<and> map hp_addr (heap_tracker s') = 0x2000 # 0x4000 # replicate 998 NOPAGE \<and> p_sz s' = 0x4000"
  using growproc_tracks_heap [of "demo_swap (idle_page\<lparr>hp_addr := 0x2000\<rparr> # replicate 999 idle_page)"
      "[idle_page\<lparr>hp_addr := 0x2000\<rparr>]" "replicate 999 idle_page" 1 "0x87FF0000"]
  by (auto simp: demo_swap_def idle_page_def NOPAGE_def PGSIZE_def)

text \<open>C38: eviction is first-in first-out: the victim is a loaded heap page with the earliest load time.
  Times are tick counts, which fit 32 bits.\<close>

theorem victim_is_oldest:
  assumes "\<exists>h \<in> set (heap_tracker s). hp_loaded h"
    and "\<forall>h \<in> set (heap_tracker s). hp_loaded h \<longrightarrow> unat (hp_last_load_time h) < 4294967296"
  shows "victim s < length (heap_tracker s) \<and> hp_loaded (heap_tracker s ! victim s)
     \<and> (\<forall>h \<in> set (heap_tracker s). hp_loaded h \<longrightarrow> hp_last_load_time (heap_tracker s ! victim s) \<le> hp_last_load_time h)"
proof -
  let ?now = "read_current_timestamp s" and ?hs = "heap_tracker s"
  have now: "unat ?now < 4294967296"
    using unsigned_less [of "ticks s", where 'a = nat]
    by (simp add: read_current_timestamp_def)
  have big: "sint (0x0FFFFFFFFFFFFFFF :: u64) = 1152921504606846975" by (subst sint_small) simp_all
  have a: "age ?now h = int (unat (hp_last_load_time h)) - int (unat ?now)" if "h \<in> set ?hs" "hp_loaded h" for h
    using age_ticks [OF _ now] assms(2) that by blast
  obtain h where h: "h \<in> set ?hs" "hp_loaded h" using assms(1) by blast
  moreover have "unat (hp_last_load_time h) < 4294967296" using assms(2) h by blast
  ultimately have "age ?now h < 1152921504606846975" using a [OF h] by linarith
  then obtain j where j: "j < length ?hs" "victim s = j" "hp_loaded (?hs ! j)"
      "\<forall>h \<in> set ?hs. hp_loaded h \<longrightarrow> age ?now (?hs ! j) \<le> age ?now h"
    using victim_from_spec [of ?now 0 "0x0FFFFFFFFFFFFFFF" 0 ?hs] h unfolding big victim_def by force
  then show ?thesis using a [of "?hs ! j"] a by (auto simp: word_le_def)
qed

definition demo_heap :: "heap_page list" where
  "demo_heap = [idle_page, idle_page\<lparr>hp_loaded := True, hp_last_load_time := 7\<rparr>,
     idle_page\<lparr>hp_loaded := True, hp_last_load_time := 4\<rparr>]"

theorem victim_is_oldest_witness:
  "victim (demo_swap demo_heap) < 3 \<and> hp_last_load_time (demo_heap ! victim (demo_swap demo_heap)) \<le> 4"
  using victim_is_oldest [of "demo_swap demo_heap"] by (simp add: demo_swap_def demo_heap_def idle_page_def)

text \<open>C39: a page that is evicted and brought back is not the same page. The four iterations of the
  eviction all write the first kilobyte to the first block of the group; retrieval reads the four blocks, so
  the page comes back as its first kilobyte followed by whatever the other three blocks held, and the group
  is marked free again.\<close>

theorem evicted_page_comes_back_truncated:
  fixes s :: "'a swapst_scheme"
  assumes "swap_ok s P c d" "b + 4 \<le> PSASIZE" "\<forall>i < 4. PSASTART + of_nat (b + i) \<notin> P"
    and "\<forall>n. length (c n) = 1024" "aligned 4096 q"
  shows "\<exists>s1 s2. foldE (save_block b m) [0..<4] s = Inr s1 \<and> foldE (load_save_block (int b) q) [0..<4] s1 = Inr s2
     \<and> bytes_at (pmem s2) q 4096 = bytes_at (pmem s) m 1024 @ c (PSASTART + of_nat (b + 1))
          @ c (PSASTART + of_nat (b + 2)) @ c (PSASTART + of_nat (b + 3))
     \<and> psa_tracker s1 = mark b 4 True (psa_tracker s) \<and> psa_tracker s2 = mark b 4 False (psa_tracker s1)
     \<and> disk (psa_cache s2) = d(PSASTART + of_nat b := bytes_at (pmem s) m 1024)"
proof -
  let ?D = "bytes_at (pmem s) m 1024" and ?n = "PSASTART + of_nat b"
  let ?c = "c(?n := ?D)" and ?d = "d(?n := ?D)"
  have nP: "?n \<notin> P" using assms(3) [rule_format, of 0] by simp
  obtain c1 where 1: "foldE (save_block b m) [0..<4] s = Inr (s\<lparr>psa_cache := c1, psa_tracker := mark b 4 True (psa_tracker s)\<rparr>)"
      "swap_ok (s\<lparr>psa_cache := c1, psa_tracker := mark b 4 True (psa_tracker s)\<rparr>) P ?c ?d"
    using save_blocks [OF assms(1) refl nP assms(2) _ refl, of m] by auto
  let ?s1 = "s\<lparr>psa_cache := c1, psa_tracker := mark b 4 True (psa_tracker s)\<rparr>"
  let ?f = "\<lambda>i. ?c (PSASTART + of_nat (b + i))"
  obtain c2 where 2: "foldE (load_save_block (int b) q) [0..<4] ?s1 =
       Inr (?s1\<lparr>pmem := put_blocks q ?f 4 (pmem ?s1), psa_cache := c2, psa_tracker := mark b 4 False (psa_tracker ?s1)\<rparr>)"
     "swap_ok (?s1\<lparr>pmem := put_blocks q ?f 4 (pmem ?s1), psa_cache := c2, psa_tracker := mark b 4 False (psa_tracker ?s1)\<rparr>) P ?c ?d"
    using load_save_blocks [OF 1(2), of 4 b q] assms(2,3) by blast
  have f: "?f i = c (PSASTART + of_nat (b + i))" if "0 < i" "i < 4" for i :: nat
  proof -
    have "unat (of_nat (b + i) :: u32) = b + i" "unat (of_nat b :: u32) = b"
      using that assms(2) by (simp_all add: PSASIZE_def unat_of_nat del: of_nat_add)
    then have "of_nat (b + i) \<noteq> (of_nat b :: u32)" using that(1) by force
    then show "?f i = c (PSASTART + of_nat (b + i))" by simp
  qed
  obtain k where "unat q = 4096 * k" using assms(5) by (auto simp: aligned_def)
  then have "unat q + 4 * 1024 \<le> 18446744073709551616" using unat_lt64 [of q] by simp
  then have "bytes_at (put_blocks q ?f 4 (pmem ?s1)) q (4 * 1024) = concat (map ?f [0..<4])"
    using assms(4) by (intro bytes_at_put_blocks) auto
  also have "concat (map ?f [0..<4]) = ?f 0 @ ?f 1 @ ?f 2 @ ?f 3" by (simp add: upt_rec add.commute)
  also have "?f 1 = c (PSASTART + of_nat (b + 1))" by (rule f) simp_all
  also have "?f 2 = c (PSASTART + of_nat (b + 2))" by (rule f) simp_all
  also have "?f 3 = c (PSASTART + of_nat (b + 3))" by (rule f) simp_all
  also have "?f 0 = ?D" by simp
  finally have bt: "bytes_at (put_blocks q ?f 4 (pmem ?s1)) q (4 * 1024) = ?D @ c (PSASTART + of_nat (b + 1))
          @ c (PSASTART + of_nat (b + 2)) @ c (PSASTART + of_nat (b + 3))"
    .
  have dk: "disk c2 = ?d" using 2(2) bc_repD(2) by (force simp: swap_ok_def settled_def)
  define s2 where "s2 = ?s1\<lparr>pmem := put_blocks q ?f 4 (pmem ?s1), psa_cache := c2, psa_tracker := mark b 4 False (psa_tracker ?s1)\<rparr>"
  have p: "pmem s2 = put_blocks q ?f 4 (pmem ?s1)" "psa_tracker s2 = mark b 4 False (psa_tracker ?s1)" "psa_cache s2 = c2"
    by (simp_all add: s2_def)
  show ?thesis
  proof (intro exI conjI)
    show "foldE (load_save_block (int b) q) [0..<4] ?s1 = Inr s2" unfolding s2_def by (rule 2(1))
    show "bytes_at (pmem s2) q 4096 = ?D @ c (PSASTART + of_nat (b + 1)) @ c (PSASTART + of_nat (b + 2)) @ c (PSASTART + of_nat (b + 3))"
      using bt unfolding p(1) [symmetric] by simp
  qed (use 1(1) dk p in \<open>simp_all only: p\<close>, simp_all)
qed

theorem evicted_page_comes_back_truncated_witness:
  "\<exists>s1 s2. foldE (save_block 0 0x80001000) [0..<4] (demo_swap [idle_page]) = Inr s1
     \<and> foldE (load_save_block 0 0x80002000) [0..<4] s1 = Inr s2
     \<and> bytes_at (pmem s2) 0x80002000 4096 = bytes_at (\<lambda>_. 0) 0x80001000 1024 @ replicate 1024 34 @ replicate 1024 35 @ replicate 1024 36"
proof -
  have "bc_rep 1 3 (binit demo_cache) (fresh_view (disk demo_cache))"
    by (rule binit_rep) (simp_all add: demo_cache_def del: replicate.simps)
  then have "swap_ok (demo_swap [idle_page]) {} (disk demo_cache) (disk demo_cache)"
    unfolding swap_ok_def by (auto simp: demo_swap_def NBUF_def settled_def resting_def fresh_view_def)
  from evicted_page_comes_back_truncated [OF this, of 0 "0x80002000" "0x80001000"] show ?thesis
    by (auto simp: PSASIZE_def aligned_def demo_cache_def PSASTART_def demo_swap_def simp del: replicate.simps)
qed

end
