(* ===== verification/Log.thy ===== *)
theory Log
  imports Bio
begin

text \<open>
  The write-ahead log of the file system, \<open>kernel/log.c\<close> (Project 2), on the buffer cache. \<open>log.lock\<close>
  makes each critical section atomic; a \<open>sleep\<close> is the error value \<open>WouldSleep\<close>. The header block
  holds the C struct \<open>logheader\<close>: the count, then the block numbers, as little-endian 32-bit integers.
  A count read from disk that exceeds the array \<open>block\<close> makes \<open>read_head\<close> write outside it.

  The theorems at the end are about crashes: the disk after any prefix of the writes of \<open>commit\<close>,
  recovered by \<open>initlog\<close> on a fresh cache, has all of the transaction or nothing of it.
\<close>

unbundle bit_operations_syntax

subsection \<open>State\<close>

definition MAXOPBLOCKS :: int where "MAXOPBLOCKS = 10"

definition LOGSIZE :: nat where "LOGSIZE = 30"

record logst = bcache +
  l_start :: int
  l_size :: int
  l_outstanding :: int
  l_committing :: bool
  l_dev :: u32
  lh_n :: int
  lh_block :: "u32 list"

text \<open>A 32-bit integer in a block.\<close>

definition get32 :: "block \<Rightarrow> nat \<Rightarrow> u32" where
  "get32 d k = ucast (d ! k) OR push_bit 8 (ucast (d ! (k + 1)) OR push_bit 8 (ucast (d ! (k + 2))
     OR push_bit 8 (ucast (d ! (k + 3)))))"

definition put32 :: "block \<Rightarrow> nat \<Rightarrow> u32 \<Rightarrow> block" where
  "put32 d k v = d[k := ucast v, k + 1 := ucast (drop_bit 8 v), k + 2 := ucast (drop_bit 16 v), k + 3 := ucast (drop_bit 24 v)]"

subsection \<open>Reading and writing the header\<close>

definition read_head :: "int \<Rightarrow> 'a logst_scheme \<Rightarrow> kerror + 'a logst_scheme" where
  "read_head pid s =
     bindE (bread pid (l_dev s) (of_int (l_start s)) s) (\<lambda>(b, s).
       let d = b_data (bufs s ! b); n = sint (get32 d 0) in
       if int LOGSIZE < n then Inl OutOfBounds
       else let s = s\<lparr>lh_n := n, lh_block := fold (\<lambda>i bs. bs[i := get32 d (4 + 4 * i)]) [0..<nat n] (lh_block s)\<rparr> in
         brelse pid b s)"

definition header_data :: "int \<Rightarrow> u32 list \<Rightarrow> block \<Rightarrow> block" where
  "header_data n bs d = fold (\<lambda>i d. put32 d (4 + 4 * i) (bs ! i)) [0..<nat n] (put32 d 0 (of_int n))"

definition write_head :: "int \<Rightarrow> 'a logst_scheme \<Rightarrow> kerror + 'a logst_scheme" where
  "write_head pid s =
     bindE (bread pid (l_dev s) (of_int (l_start s)) s) (\<lambda>(b, s).
       bindE (bwrite pid b (set_data b (header_data (lh_n s) (lh_block s) (b_data (bufs s ! b))) s)) (\<lambda>s. brelse pid b s))"

subsection \<open>Installing and recovering\<close>

definition log_block :: "'a logst_scheme \<Rightarrow> nat \<Rightarrow> u32" where
  "log_block s tail = of_int (l_start s) + of_nat tail + 1"

definition install_one :: "int \<Rightarrow> bool \<Rightarrow> nat \<Rightarrow> 'a logst_scheme \<Rightarrow> kerror + 'a logst_scheme" where
  "install_one pid recovering tail s =
     bindE (bread pid (l_dev s) (log_block s tail) s) (\<lambda>(lbuf, s).
       bindE (bread pid (l_dev s) (lh_block s ! tail) s) (\<lambda>(dbuf, s).
         bindE (bwrite pid dbuf (set_data dbuf (b_data (bufs s ! lbuf)) s)) (\<lambda>s.
           bindE (brelse pid lbuf (if \<not> recovering then bunpin dbuf s else s)) (\<lambda>s. brelse pid dbuf s))))"

definition install_trans :: "int \<Rightarrow> bool \<Rightarrow> 'a logst_scheme \<Rightarrow> kerror + 'a logst_scheme" where
  "install_trans pid recovering s = foldE (install_one pid recovering) [0..<nat (lh_n s)] s"

definition recover_from_log :: "int \<Rightarrow> 'a logst_scheme \<Rightarrow> kerror + 'a logst_scheme" where
  "recover_from_log pid s =
     bindE (read_head pid s) (\<lambda>s. bindE (install_trans pid True s) (\<lambda>s. write_head pid (s\<lparr>lh_n := 0\<rparr>)))"

text \<open>\<open>initlog\<close>: \<open>struct logheader\<close> has 124 bytes, less than a block.\<close>

definition initlog :: "int \<Rightarrow> u32 \<Rightarrow> u32 \<Rightarrow> u32 \<Rightarrow> 'a logst_scheme \<Rightarrow> kerror + 'a logst_scheme" where
  "initlog pid dev logstart nlog s =
     (if 1024 \<le> 4 + 4 * LOGSIZE then Inl (Panic ''initlog: too big logheader'')
      else recover_from_log pid (s\<lparr>l_start := sint logstart, l_size := sint nlog, l_dev := dev\<rparr>))"

subsection \<open>Transactions\<close>

definition begin_op :: "'a logst_scheme \<Rightarrow> kerror + 'a logst_scheme" where
  "begin_op s =
     (if l_committing s then Inl WouldSleep
      else if lh_n s + (l_outstanding s + 1) * MAXOPBLOCKS > int LOGSIZE then Inl WouldSleep
      else Inr (s\<lparr>l_outstanding := l_outstanding s + 1\<rparr>))"

definition write_one :: "int \<Rightarrow> nat \<Rightarrow> 'a logst_scheme \<Rightarrow> kerror + 'a logst_scheme" where
  "write_one pid tail s =
     bindE (bread pid (l_dev s) (log_block s tail) s) (\<lambda>(to, s).
       bindE (bread pid (l_dev s) (lh_block s ! tail) s) (\<lambda>(from, s).
         bindE (bwrite pid to (set_data to (b_data (bufs s ! from)) s)) (\<lambda>s.
           bindE (brelse pid from s) (\<lambda>s. brelse pid to s))))"

definition write_log :: "int \<Rightarrow> 'a logst_scheme \<Rightarrow> kerror + 'a logst_scheme" where
  "write_log pid s = foldE (write_one pid) [0..<nat (lh_n s)] s"

definition commit :: "int \<Rightarrow> 'a logst_scheme \<Rightarrow> kerror + 'a logst_scheme" where
  "commit pid s =
     (if 0 < lh_n s
      then bindE (write_log pid s) (\<lambda>s. bindE (write_head pid s) (\<lambda>s.
             bindE (install_trans pid False s) (\<lambda>s. write_head pid (s\<lparr>lh_n := 0\<rparr>))))
      else Inr s)"

definition end_op :: "int \<Rightarrow> 'a logst_scheme \<Rightarrow> kerror + 'a logst_scheme" where
  "end_op pid s =
     (let s = s\<lparr>l_outstanding := l_outstanding s - 1\<rparr> in
      if l_committing s then Inl (Panic ''log.committing'')
      else if l_outstanding s = 0
      then bindE (commit pid (s\<lparr>l_committing := True\<rparr>)) (\<lambda>s. Inr (s\<lparr>l_committing := False\<rparr>))
      else Inr s)"

text \<open>The index the loop of \<open>log_write\<close> stops at.\<close>

fun absorb :: "u32 list \<Rightarrow> u32 \<Rightarrow> nat \<Rightarrow> nat \<Rightarrow> nat" where
  "absorb bs blockno i 0 = i"
| "absorb bs blockno i (Suc k) = (if bs ! i = blockno then i else absorb bs blockno (Suc i) k)"

definition log_write :: "nat \<Rightarrow> 'a logst_scheme \<Rightarrow> kerror + 'a logst_scheme" where
  "log_write b s =
     (if int LOGSIZE \<le> lh_n s \<or> l_size s - 1 \<le> lh_n s then Inl (Panic ''too big a transaction'')
      else if l_outstanding s < 1 then Inl (Panic ''log_write outside of trans'')
      else let blockno = b_blockno (bufs s ! b); i = absorb (lh_block s) blockno 0 (nat (lh_n s));
               s = s\<lparr>lh_block := (lh_block s)[i := blockno]\<rparr> in
        Inr (if int i = lh_n s then (bpin b s)\<lparr>lh_n := lh_n s + 1\<rparr> else s))"

subsection \<open>The header block\<close>

lemma length_put32 [simp]: "length (put32 d k v) = length d"
  by (simp add: put32_def)

lemma get32_put32 [simp]:
  assumes "k + 3 < length d"
  shows "get32 (put32 d k v) k = v"
proof -
  have "get32 (put32 d k v) k = ucast (ucast v :: u8) OR push_bit 8 (ucast (ucast (drop_bit 8 v) :: u8)
      OR push_bit 8 (ucast (ucast (drop_bit 16 v) :: u8) OR push_bit 8 (ucast (ucast (drop_bit 24 v) :: u8))))"
    using assms by (simp add: get32_def put32_def)
  also have "\<dots> = v"
  proof (rule bit_word_eqI)
    fix n assume "n < LENGTH(32)"
    then consider "n < 8" | "8 \<le> n" "n < 16" | "16 \<le> n" "n < 24" | "24 \<le> n" "n < 32" by fastforce
    then show "bit (ucast (ucast v :: u8) OR push_bit 8 (ucast (ucast (drop_bit 8 v) :: u8)
      OR push_bit 8 (ucast (ucast (drop_bit 16 v) :: u8) OR push_bit 8 (ucast (ucast (drop_bit 24 v) :: u8)))) :: u32) n \<longleftrightarrow> bit v n"
      by cases (auto simp: bit_simps)
  qed
  finally show ?thesis .
qed

lemma get32_put32_other:
  "j + 4 \<le> k \<or> k + 4 \<le> j \<Longrightarrow> get32 (put32 d k v) j = get32 d j"
  by (auto simp: get32_def put32_def)

lemma header_fold:
  fixes bs :: "u32 list"
  assumes "length d = 1024" "n \<le> LOGSIZE"
  defines "h \<equiv> fold (\<lambda>i d. put32 d (4 + 4 * i) (bs ! i)) [0..<n] d"
  shows "length h = 1024 \<and> get32 h 0 = get32 d 0 \<and> (\<forall>i<n. get32 h (4 + 4 * i) = bs ! i)"
  unfolding h_def using assms(2)
proof (induction n)
  case (Suc n)
  let ?h = "fold (\<lambda>i d. put32 d (4 + 4 * i) (bs ! i)) [0..<n] d"
  have IH: "length ?h = 1024" "get32 ?h 0 = get32 d 0" "\<And>i. i < n \<Longrightarrow> get32 ?h (4 + 4 * i) = bs ! i"
    using Suc by auto
  have "get32 (put32 ?h (4 + 4 * n) (bs ! n)) (4 + 4 * i) = bs ! i" if "i < Suc n" for i
    using that IH(1,3) Suc.prems by (cases "i = n") (auto simp: get32_put32_other LOGSIZE_def)
  then show ?case using IH by (simp add: get32_put32_other)
qed (simp add: assms(1))

lemma header_data_spec:
  assumes "length d = 1024" "n \<le> LOGSIZE"
  shows "length (header_data (int n) bs d) = 1024" "sint (get32 (header_data (int n) bs d) 0) = int n"
    "i < n \<Longrightarrow> get32 (header_data (int n) bs d) (4 + 4 * i) = bs ! i"
proof -
  note h = header_fold [of "put32 d 0 (of_nat n)" n bs]
  show "length (header_data (int n) bs d) = 1024" "i < n \<Longrightarrow> get32 (header_data (int n) bs d) (4 + 4 * i) = bs ! i"
    using h assms by (simp_all add: header_data_def)
  have "sint (of_nat n :: u32) = int n" using assms(2) by (simp add: LOGSIZE_def signed_of_nat signed_take_bit_int_eq_self)
  then show "sint (get32 (header_data (int n) bs d) 0) = int n" using h assms by (simp add: header_data_def)
qed

lemma read_entries:
  assumes "length bl = LOGSIZE" "n \<le> LOGSIZE"
  shows "length (fold (\<lambda>i bs. bs[i := f i]) [0..<n] bl) = LOGSIZE \<and> (\<forall>i<n. fold (\<lambda>i bs. bs[i := f i]) [0..<n] bl ! i = f i)"
  using assms(2)
proof (induction n)
  case (Suc n)
  then show ?case by (auto simp: nth_list_update less_Suc_eq)
qed (simp add: assms(1))

subsection \<open>Sequences of disk writes\<close>

definition puts :: "('k \<times> 'v) list \<Rightarrow> ('k \<Rightarrow> 'v) \<Rightarrow> 'k \<Rightarrow> 'v" where
  "puts ws f = fold (\<lambda>(k, v) f. f(k := v)) ws f"

lemma puts_simps [simp]: "puts [] f = f" "puts (ws @ vs) f = puts vs (puts ws f)" "puts ((k, v) # ws) f = puts ws (f(k := v))"
  by (simp_all add: puts_def)

lemma puts_other: "k \<notin> fst ` set ws \<Longrightarrow> puts ws f k = f k"
  by (induction ws rule: rev_induct) auto

lemma puts_map:
  assumes "distinct (map g is)" "i \<in> set is"
  shows "puts (map (\<lambda>i. (g i, v i)) is) f (g i) = v i"
  using assms
proof (induction "is" rule: rev_induct)
  case (snoc x xs)
  then show ?case by (cases "i = x") (auto simp: image_iff)
qed simp

lemma puts_take_old:
  assumes "\<And>k v. (k, v) \<in> set ws \<Longrightarrow> k = b \<Longrightarrow> v = f b"
  shows "puts ws f b = f b"
  using assms
proof (induction ws rule: rev_induct)
  case (snoc w ws)
  then show ?case by (cases w) auto
qed simp

subsection \<open>Fields of the log\<close>

lemma log_more:
  fixes s s' :: "'a logst_scheme"
  assumes "bcache.more s' = bcache.more s"
  shows "l_start s' = l_start s" "l_dev s' = l_dev s" "lh_n s' = lh_n s" "lh_block s' = lh_block s" "l_size s' = l_size s"
    "l_outstanding s' = l_outstanding s" "l_committing s' = l_committing s"
  using assms by (cases s; cases s'; simp)+

lemma log_upd_buf [simp]:
  fixes s :: "'a logst_scheme"
  shows "l_start (upd_buf i f s) = l_start s" "l_dev (upd_buf i f s) = l_dev s" "lh_n (upd_buf i f s) = lh_n s"
    "lh_block (upd_buf i f s) = lh_block s" "l_size (upd_buf i f s) = l_size s"
    "l_outstanding (upd_buf i f s) = l_outstanding s" "l_committing (upd_buf i f s) = l_committing s"
  by (simp_all add: upd_buf_def)

lemma bread_more: "bread pid dev n s = Inr (i, s') \<Longrightarrow> bcache.more s' = bcache.more s"
  by (auto simp: bread_def bget_def Let_def virtio_disk_rw_def split: option.splits if_splits)

lemma bc_rep_log [simp]:
  fixes s :: "'a logst_scheme"
  shows "bc_rep dev pid (s\<lparr>lh_n := n\<rparr>) A = bc_rep dev pid s A" "bc_rep dev pid (s\<lparr>lh_block := bl\<rparr>) A = bc_rep dev pid s A"
    "bc_rep dev pid (s\<lparr>l_start := x\<rparr>) A = bc_rep dev pid s A" "bc_rep dev pid (s\<lparr>l_size := x\<rparr>) A = bc_rep dev pid s A"
    "bc_rep dev pid (s\<lparr>l_dev := y\<rparr>) A = bc_rep dev pid s A" "bc_rep dev pid (s\<lparr>l_outstanding := x\<rparr>) A = bc_rep dev pid s A"
    "bc_rep dev pid (s\<lparr>l_committing := z\<rparr>) A = bc_rep dev pid s A"
  by (simp_all add: bc_rep_def lru_def next_of_def [abs_def] prev_of_def [abs_def])

subsection \<open>The steps of the log on a settled cache\<close>

definition la :: "int \<Rightarrow> nat \<Rightarrow> u32" where
  "la st i = of_int st + of_nat i"

definition log_area :: "int \<Rightarrow> u32 set" where
  "log_area st = la st ` {..LOGSIZE}"

lemma la_inj: "i \<le> LOGSIZE \<Longrightarrow> j \<le> LOGSIZE \<Longrightarrow> la st i = la st j \<longleftrightarrow> i = j"
proof -
  assume "i \<le> LOGSIZE" "j \<le> LOGSIZE"
  then have "(of_nat i :: u32) = of_nat j \<longleftrightarrow> i = j" by (simp add: LOGSIZE_def word_unat_eq_iff unat_of_nat)
  then show ?thesis by (simp add: la_def)
qed

lemma bread_log:
  fixes s s' :: "'a logst_scheme"
  assumes "bread pid dev n s = Inr (i, s')"
  shows "l_start s' = l_start s \<and> l_dev s' = l_dev s \<and> lh_n s' = lh_n s \<and> lh_block s' = lh_block s"
  using log_more [OF bread_more [OF assms]] by simp

lemma la_area [simp]: "i \<le> LOGSIZE \<Longrightarrow> la st i \<in> log_area st"
  by (auto simp: log_area_def)

lemma log_block_la: "log_block s tail = la (l_start s) (Suc tail)"
  by (simp add: log_block_def la_def)

lemma install_one_eq:
  fixes s :: "'a logst_scheme"
  shows "install_one pid recovering tail s =
     bindE (bread pid (l_dev s) (log_block s tail) s) (\<lambda>(i, s1). bindE (bread pid (l_dev s) (lh_block s ! tail) s1) (\<lambda>(j, s).
       bindE (bwrite pid j (set_data j (b_data (bufs s ! i)) s)) (\<lambda>s.
         bindE (brelse pid i (if \<not> recovering then bunpin j s else s)) (\<lambda>s. brelse pid j s))))"
  unfolding install_one_def by (rule bindE_cong) (auto dest!: bread_log)

lemma write_one_eq:
  fixes s :: "'a logst_scheme"
  shows "write_one pid tail s =
     bindE (bread pid (l_dev s) (log_block s tail) s) (\<lambda>(i, s1). bindE (bread pid (l_dev s) (lh_block s ! tail) s1) (\<lambda>(j, s).
       bindE (bwrite pid i (set_data i (b_data (bufs s ! j)) s)) (\<lambda>s. bindE (brelse pid j s) (\<lambda>s. brelse pid i s))))"
  unfolding write_one_def by (rule bindE_cong) (auto dest!: bread_log)

lemma write_head_eq:
  fixes s :: "'a logst_scheme"
  shows "write_head pid s =
     bindE (bread pid (l_dev s) (la (l_start s) 0) s) (\<lambda>(i, s1).
       bindE (bwrite pid i (set_data i (header_data (lh_n s) (lh_block s) (b_data (bufs s1 ! i))) s1)) (brelse pid i))"
  unfolding write_head_def la_def by (simp, rule bindE_cong) (auto dest!: bread_log)

text \<open>\<open>at_rest dev pid s P c d\<close>: the cache of \<open>s\<close> is settled with the blocks \<open>P\<close> pinned, contents \<open>c\<close>
  and disk \<open>d\<close>.\<close>

definition at_rest :: "u32 \<Rightarrow> int \<Rightarrow> 'a bcache_scheme \<Rightarrow> u32 set \<Rightarrow> (u32 \<Rightarrow> block) \<Rightarrow> (u32 \<Rightarrow> block) \<Rightarrow> bool" where
  "at_rest dev pid s P c d \<longleftrightarrow> (\<exists>A. bc_rep dev pid s A \<and> settled A P c d)"

lemma at_rest_log [simp]:
  fixes s :: "'a logst_scheme"
  shows "at_rest dev pid (s\<lparr>lh_n := n\<rparr>) P c d = at_rest dev pid s P c d"
    "at_rest dev pid (s\<lparr>lh_block := bl\<rparr>) P c d = at_rest dev pid s P c d"
    "at_rest dev pid (s\<lparr>l_start := x\<rparr>) P c d = at_rest dev pid s P c d"
    "at_rest dev pid (s\<lparr>l_size := x\<rparr>) P c d = at_rest dev pid s P c d"
    "at_rest dev pid (s\<lparr>l_dev := y\<rparr>) P c d = at_rest dev pid s P c d"
    "at_rest dev pid (s\<lparr>l_outstanding := x\<rparr>) P c d = at_rest dev pid s P c d"
    "at_rest dev pid (s\<lparr>l_committing := z\<rparr>) P c d = at_rest dev pid s P c d"
  by (simp_all add: at_rest_def)

lemma at_rest_disk: "at_rest dev pid s P c d \<Longrightarrow> disk s = d"
  by (auto simp: at_rest_def settled_def dest: bc_repD(2))

lemma at_rest_idle: "at_rest dev pid s P c d \<Longrightarrow> b \<notin> P \<Longrightarrow> c b = d b"
  by (auto simp: at_rest_def dest: bc.settled_idle(3))

lemma install_one_ok:
  assumes st: "at_rest (l_dev s) pid s P c d" and P: "finite P" "card (insert b P) < NBUF"
    and b: "b = lh_block s ! tail" "b \<notin> log_area (l_start s)" "P \<inter> log_area (l_start s) = {}" and t: "tail < LOGSIZE"
    and pn: "recovering = (b \<notin> P)"
  shows "\<exists>s'. install_one pid recovering tail s = Inr s' \<and> at_rest (l_dev s) pid s' (P - {b})
       (c(b := c (la (l_start s) (Suc tail)))) (d(b := c (la (l_start s) (Suc tail))))
     \<and> written s' = written s @ [(b, c (la (l_start s) (Suc tail)))] \<and> bcache.more s' = bcache.more s"
proof -
  obtain A where A: "bc_rep (l_dev s) pid s A" "settled A P c d" using st by (auto simp: at_rest_def)
  let ?a = "la (l_start s) (Suc tail)"
  have la: "?a \<in> log_area (l_start s)" using t by simp
  then have pr: "?a \<notin> P" "?a \<noteq> b" using b(2,3) by blast+
  have pn': "(\<not> recovering) = (b \<in> P)" using pn by blast
  show ?thesis unfolding install_one_eq log_block_la at_rest_def b(1) [symmetric]
    using bc.copy_block [OF A pr P(2,1) pn'] by blast
qed

lemma write_one_ok:
  assumes st: "at_rest (l_dev s) pid s P c d" and P: "finite P" "card P < NBUF"
    and b: "b = lh_block s ! tail" "b \<in> P" "P \<inter> log_area (l_start s) = {}" and t: "tail < LOGSIZE"
  shows "\<exists>s'. write_one pid tail s = Inr s' \<and> at_rest (l_dev s) pid s' P
       (c(la (l_start s) (Suc tail) := c b)) (d(la (l_start s) (Suc tail) := c b))
     \<and> written s' = written s @ [(la (l_start s) (Suc tail), c b)] \<and> bcache.more s' = bcache.more s"
proof -
  obtain A where A: "bc_rep (l_dev s) pid s A" "settled A P c d" using st by (auto simp: at_rest_def)
  let ?a = "la (l_start s) (Suc tail)"
  have "?a \<in> log_area (l_start s)" using t by simp
  then have "?a \<notin> P" using b(3) by blast
  then show ?thesis unfolding write_one_eq log_block_la at_rest_def
    b(1) [symmetric] using bc.save_block [OF A _ b(2) P(2,1), of ?a] by blast
qed

lemma write_head_ok:
  assumes st: "at_rest (l_dev s) pid s P c d" and P: "card P < NBUF" "P \<inter> log_area (l_start s) = {}"
  defines "h \<equiv> header_data (lh_n s) (lh_block s) (c (la (l_start s) 0))"
  shows "\<exists>s'. write_head pid s = Inr s' \<and> at_rest (l_dev s) pid s' P (c(la (l_start s) 0 := h)) (d(la (l_start s) 0 := h))
     \<and> written s' = written s @ [(la (l_start s) 0, h)] \<and> bcache.more s' = bcache.more s"
proof -
  obtain A where A: "bc_rep (l_dev s) pid s A" "settled A P c d" using st by (auto simp: at_rest_def)
  have "la (l_start s) 0 \<in> log_area (l_start s)" by simp
  then have "la (l_start s) 0 \<notin> P" using P(2) by blast
  then show ?thesis unfolding write_head_eq at_rest_def h_def
    using bc.rewrite_block [OF A _ P(1), of "la (l_start s) 0" "header_data (lh_n s) (lh_block s)"] by blast
qed

text \<open>The two loops.\<close>

lemma write_log_ok:
  fixes s :: "'a logst_scheme"
  assumes st: "at_rest (l_dev s) pid s P c d" and P: "finite P" "card P < NBUF" "P \<inter> log_area (l_start s) = {}"
    and bs: "\<forall>i<n. lh_block s ! i \<in> P" and n: "n \<le> LOGSIZE"
  defines "w \<equiv> \<lambda>i. (la (l_start s) (Suc i), c (lh_block s ! i))"
  shows "\<exists>s'. foldE (write_one pid) [0..<n] s = Inr s' \<and> at_rest (l_dev s) pid s' P (puts (map w [0..<n]) c) (puts (map w [0..<n]) d)
     \<and> written s' = written s @ map w [0..<n] \<and> bcache.more s' = bcache.more s"
  using bs n
proof (induction n)
  case 0
  then show ?case using st by simp
next
  case (Suc n)
  then obtain s1 where s1: "foldE (write_one pid) [0..<n] s = Inr s1"
      "at_rest (l_dev s) pid s1 P (puts (map w [0..<n]) c) (puts (map w [0..<n]) d)"
      "written s1 = written s @ map w [0..<n]" "bcache.more s1 = bcache.more s" by auto
  note m = log_more [OF s1(4)]
  let ?b = "lh_block s ! n"
  have "?b \<notin> fst ` set (map w [0..<n])"
  proof
    assume "?b \<in> fst ` set (map w [0..<n])"
    then have "?b \<in> log_area (l_start s)" using Suc.prems(2) by (auto simp: w_def)
    then show False using Suc.prems(1) P(3) by auto
  qed
  then have c: "puts (map w [0..<n]) c ?b = c ?b" by (rule puts_other)
  obtain s2 where s2: "write_one pid n s1 = Inr s2"
      "at_rest (l_dev s) pid s2 P ((puts (map w [0..<n]) c)(la (l_start s) (Suc n) := c ?b)) ((puts (map w [0..<n]) d)(la (l_start s) (Suc n) := c ?b))"
      "written s2 = written s1 @ [(la (l_start s) (Suc n), c ?b)]" "bcache.more s2 = bcache.more s1"
    using write_one_ok [of s1 pid P "puts (map w [0..<n]) c" "puts (map w [0..<n]) d" ?b n, unfolded m c] s1(2) P Suc.prems by auto
  moreover have "w n = (la (l_start s) (Suc n), c ?b)" by (simp add: w_def)
  ultimately show ?case using s1 by (simp add: foldE_append del: fun_upd_apply)
qed

lemma install_ok:
  fixes s :: "'a logst_scheme"
  assumes st: "at_rest (l_dev s) pid s (if recovering then {} else set (take n (lh_block s))) c d"
    and bs: "\<forall>i<n. lh_block s ! i \<notin> log_area (l_start s)" "\<not> recovering \<Longrightarrow> distinct (take n (lh_block s))"
    and n: "n \<le> LOGSIZE" "n < NBUF" "length (lh_block s) = LOGSIZE"
  defines "w \<equiv> \<lambda>i. (lh_block s ! i, c (la (l_start s) (Suc i)))"
  assumes k: "k \<le> n"
  shows "\<exists>s'. foldE (install_one pid recovering) [0..<k] s = Inr s'
     \<and> at_rest (l_dev s) pid s' (if recovering then {} else set (drop k (take n (lh_block s))))
         (puts (map w [0..<k]) c) (puts (map w [0..<k]) d)
     \<and> written s' = written s @ map w [0..<k] \<and> bcache.more s' = bcache.more s"
  using k
proof (induction k)
  case 0
  then show ?case using st by (cases recovering) simp_all
next
  case (Suc k)
  let ?P = "\<lambda>k. if recovering then {} else set (drop k (take n (lh_block s)))"
  obtain s1 where s1: "foldE (install_one pid recovering) [0..<k] s = Inr s1"
      "at_rest (l_dev s) pid s1 (?P k) (puts (map w [0..<k]) c) (puts (map w [0..<k]) d)"
      "written s1 = written s @ map w [0..<k]" "bcache.more s1 = bcache.more s" using Suc by auto
  note m = log_more [OF s1(4)]
  let ?b = "lh_block s ! k" and ?a = "la (l_start s) (Suc k)"
  have "?a \<notin> fst ` set (map w [0..<k])"
  proof
    assume "?a \<in> fst ` set (map w [0..<k])"
    then obtain i where "i < k" "?a = lh_block s ! i" by (auto simp: w_def)
    moreover have "?a \<in> log_area (l_start s)" using Suc.prems n(1) by simp
    ultimately show False using bs(1) Suc.prems by auto
  qed
  then have c: "puts (map w [0..<k]) c ?a = c ?a" by (rule puts_other)
  have dr: "drop k (take n (lh_block s)) = ?b # drop (Suc k) (take n (lh_block s))"
    using Suc.prems n by (subst Cons_nth_drop_Suc [symmetric]) auto
  have P: "finite (?P k)" "?P k \<inter> log_area (l_start s) = {}" "?P k - {?b} = ?P (Suc k)" "recovering = (?b \<notin> ?P k)"
    using bs(1) n dr bs(2) Suc.prems distinct_drop [of "take n (lh_block s)" k] by (auto simp: in_set_conv_nth set_drop_subset)
  have "card (insert ?b (?P k)) < NBUF"
  proof (cases recovering)
    case False
    then have "insert ?b (?P k) \<subseteq> set (take n (lh_block s))" using dr set_drop_subset [of k "take n (lh_block s)"] by auto
    then have "card (insert ?b (?P k)) \<le> length (take n (lh_block s))" using card_mono card_length by (meson List.finite_set le_trans)
    then show ?thesis using n by simp
  qed (simp add: NBUF_def)
  then obtain s2 where s2: "install_one pid recovering k s1 = Inr s2"
      "at_rest (l_dev s) pid s2 (?P (Suc k)) ((puts (map w [0..<k]) c)(?b := c ?a)) ((puts (map w [0..<k]) d)(?b := c ?a))"
      "written s2 = written s1 @ [(?b, c ?a)]" "bcache.more s2 = bcache.more s1"
    using install_one_ok [of s1 pid "?P k" "puts (map w [0..<k]) c" "puts (map w [0..<k]) d" ?b k recovering, unfolded m c P(3)]
      s1(2) P(1,2,4) bs(1) Suc.prems n(1) by auto
  moreover have "w k = (?b, c ?a)" by (simp add: w_def)
  ultimately show ?case using s1 by (cases recovering) (simp_all add: foldE_append del: fun_upd_apply)
qed

subsection \<open>Commit\<close>

text \<open>A transaction in progress: the logged blocks \<open>bs\<close> are pinned with contents \<open>c\<close>, nothing else is
  referenced, the disk is \<open>d\<close> and the header on disk says the log is empty.\<close>

definition transaction :: "int \<Rightarrow> 'a logst_scheme \<Rightarrow> u32 list \<Rightarrow> (u32 \<Rightarrow> block) \<Rightarrow> (u32 \<Rightarrow> block) \<Rightarrow> bool" where
  "transaction pid s bs c d \<longleftrightarrow>
     at_rest (l_dev s) pid s (set bs) c d \<and> lh_n s = int (length bs) \<and> length bs < LOGSIZE
     \<and> length (lh_block s) = LOGSIZE \<and> take (length bs) (lh_block s) = bs \<and> distinct bs
     \<and> set bs \<inter> log_area (l_start s) = {} \<and> length (d (la (l_start s) 0)) = 1024 \<and> get32 (d (la (l_start s) 0)) 0 = 0"

definition log_writes :: "int \<Rightarrow> u32 list \<Rightarrow> (u32 \<Rightarrow> block) \<Rightarrow> (u32 \<times> block) list" where
  "log_writes st bs c = map (\<lambda>i. (la st (Suc i), c (bs ! i))) [0..<length bs]"

definition home_writes :: "u32 list \<Rightarrow> (u32 \<Rightarrow> block) \<Rightarrow> (u32 \<times> block) list" where
  "home_writes bs c = map (\<lambda>i. (bs ! i, c (bs ! i))) [0..<length bs]"

lemma transactionD:
  assumes "transaction pid s bs c d"
  shows "at_rest (l_dev s) pid s (set bs) c d" "lh_n s = int (length bs)" "length bs < LOGSIZE"
     "length (lh_block s) = LOGSIZE" "take (length bs) (lh_block s) = bs" "distinct bs"
     "set bs \<inter> log_area (l_start s) = {}" "length (d (la (l_start s) 0)) = 1024" "get32 (d (la (l_start s) 0)) 0 = 0"
     "i < length bs \<Longrightarrow> lh_block s ! i = bs ! i"
proof -
  show t: "at_rest (l_dev s) pid s (set bs) c d" "lh_n s = int (length bs)" "length bs < LOGSIZE"
     "length (lh_block s) = LOGSIZE" "take (length bs) (lh_block s) = bs" "distinct bs"
     "set bs \<inter> log_area (l_start s) = {}" "length (d (la (l_start s) 0)) = 1024" "get32 (d (la (l_start s) 0)) 0 = 0"
    using assms by (auto simp: transaction_def)
  show "i < length bs \<Longrightarrow> lh_block s ! i = bs ! i" using t(5) by (metis nth_take)
qed

lemma NBUF_LOGSIZE: "NBUF = LOGSIZE"
  by (simp add: NBUF_def LOGSIZE_def)

lemma puts_log_writes:
  assumes "length bs \<le> LOGSIZE"
  shows "i < length bs \<Longrightarrow> puts (log_writes st bs c) f (la st (Suc i)) = c (bs ! i)"
    "b \<notin> log_area st \<or> b = la st 0 \<Longrightarrow> puts (log_writes st bs c) f b = f b"
proof -
  show "puts (log_writes st bs c) f (la st (Suc i)) = c (bs ! i)" if i: "i < length bs"
    unfolding log_writes_def
  proof (rule puts_map)
    show "distinct (map (\<lambda>i. la st (Suc i)) [0..<length bs])"
      using assms by (auto simp: distinct_map inj_on_def la_inj)
  qed (use i in simp)
  show "puts (log_writes st bs c) f b = f b" if "b \<notin> log_area st \<or> b = la st 0"
    using that assms by (intro puts_other) (auto simp: log_writes_def la_inj)
qed

lemma puts_home_writes:
  assumes "distinct bs"
  shows "puts (home_writes bs c) f b = (if b \<in> set bs then c b else f b)"
proof (cases "b \<in> set bs")
  case True
  then obtain i where i: "i < length bs" "b = bs ! i" by (auto simp: in_set_conv_nth)
  have "puts (home_writes bs c) f (bs ! i) = c (bs ! i)"
    unfolding home_writes_def using assms i by (intro puts_map) (auto simp: distinct_map inj_on_def nth_eq_iff_index_eq)
  then show ?thesis using i True by simp
qed (auto simp: home_writes_def intro!: puts_other)

lemma commit_ok:
  fixes s :: "'a logst_scheme"
  assumes t: "transaction pid s bs c d" and ne: "bs \<noteq> []"
  defines "st \<equiv> l_start s"
  shows "\<exists>s' H H0. commit pid s = Inr s' \<and> H = header_data (int (length bs)) (lh_block s) (d (la st 0))
     \<and> H0 = header_data 0 (lh_block s) H
     \<and> written s' = written s @ (log_writes st bs c @ [(la st 0, H)] @ home_writes bs c @ [(la st 0, H0)])
     \<and> at_rest (l_dev s) pid s' {} (puts (log_writes st bs c @ [(la st 0, H)] @ home_writes bs c @ [(la st 0, H0)]) c)
         (puts (log_writes st bs c @ [(la st 0, H)] @ home_writes bs c @ [(la st 0, H0)]) d)
     \<and> bcache.more s' = bcache.more (s\<lparr>lh_n := 0\<rparr>)"
proof -
  note T = transactionD [OF t]
  let ?n = "length bs" and ?W1 = "log_writes st bs c" and ?W2 = "home_writes bs c"
  have P: "finite (set bs)" "card (set bs) < NBUF" using T(3) card_length [of bs] by (auto simp: NBUF_LOGSIZE)
  have w1: "map (\<lambda>i. (la (l_start s) (Suc i), c (lh_block s ! i))) [0..<?n] = ?W1"
    using T(10) by (simp add: log_writes_def st_def)
  obtain s1 where s1: "write_log pid s = Inr s1" "at_rest (l_dev s) pid s1 (set bs) (puts ?W1 c) (puts ?W1 d)"
      "written s1 = written s @ ?W1" "bcache.more s1 = bcache.more s"
    using write_log_ok [OF T(1) P T(7), of ?n] T(2,3,10) unfolding w1 by (auto simp: write_log_def)
  note m1 = log_more [OF s1(4)]
  have lan: "la st 0 \<in> log_area st" "la st 0 \<notin> set bs" using T(7) la_area [of 0 st] by (auto simp: st_def)
  have h0: "puts ?W1 c (la st 0) = d (la st 0)"
    using puts_log_writes(2) [of bs "la st 0" st c c] T(3) at_rest_idle [OF T(1) lan(2)] by simp
  define H where "H = header_data (int ?n) (lh_block s) (d (la st 0))"
  obtain s2 where s2: "write_head pid s1 = Inr s2"
      "at_rest (l_dev s) pid s2 (set bs) ((puts ?W1 c)(la st 0 := H)) ((puts ?W1 d)(la st 0 := H))"
      "written s2 = written s1 @ [(la st 0, H)]" "bcache.more s2 = bcache.more s1"
    using write_head_ok [of s1 pid "set bs" "puts ?W1 c" "puts ?W1 d", unfolded m1 T(2), folded st_def, unfolded h0, folded H_def]
      s1(2) P(2) T(7) by (auto simp: st_def)
  note m2 = log_more [OF trans [OF s2(4) s1(4)]]
  let ?c2 = "(puts ?W1 c)(la st 0 := H)"
  have w2: "map (\<lambda>i. (lh_block s2 ! i, ?c2 (la (l_start s2) (Suc i)))) [0..<?n] = ?W2"
    unfolding m2 home_writes_def st_def [symmetric]
  proof (rule map_cong [OF refl])
    fix i assume "i \<in> set [0..<?n]"
    then have i: "i < ?n" by simp
    then have "?c2 (la st (Suc i)) = c (bs ! i)" using puts_log_writes(1) [of bs i st c c] T(3) by (simp add: la_inj)
    then show "(lh_block s ! i, ?c2 (la st (Suc i))) = (bs ! i, c (bs ! i))" using T(10) [OF i] by simp
  qed
  obtain s3 where s3: "install_trans pid False s2 = Inr s3" "at_rest (l_dev s) pid s3 {} (puts ?W2 ?c2) (puts ?W2 ((puts ?W1 d)(la st 0 := H)))"
      "written s3 = written s2 @ ?W2" "bcache.more s3 = bcache.more s2"
  proof -
    have a: "\<forall>i<?n. lh_block s2 ! i \<notin> log_area (l_start s2)" using T(7,10) by (force simp: m2)
    have "\<exists>s'. foldE (install_one pid False) [0..<?n] s2 = Inr s'
       \<and> at_rest (l_dev s2) pid s' (if False then {} else set (drop ?n (take ?n (lh_block s2))))
         (puts (map (\<lambda>i. (lh_block s2 ! i, ?c2 (la (l_start s2) (Suc i)))) [0..<?n]) ?c2)
         (puts (map (\<lambda>i. (lh_block s2 ! i, ?c2 (la (l_start s2) (Suc i)))) [0..<?n]) ((puts ?W1 d)(la st 0 := H)))
       \<and> written s' = written s2 @ map (\<lambda>i. (lh_block s2 ! i, ?c2 (la (l_start s2) (Suc i)))) [0..<?n] \<and> bcache.more s' = bcache.more s2"
      by (rule install_ok [OF _ a]) (use s2(2) T(3-6) in \<open>simp_all add: m2 NBUF_LOGSIZE fun_upd_def\<close>)
    then show ?thesis using that T(2,5) unfolding w2 by (auto simp: install_trans_def m2)
  qed
  note m3 = log_more [OF trans [OF s3(4) trans [OF s2(4) s1(4)]]]
  have h3: "puts ?W2 ?c2 (la st 0) = H" using lan(2) T(6) by (simp add: puts_home_writes)
  define H0 where "H0 = header_data 0 (lh_block s) H"
  obtain s4 where s4: "write_head pid (s3\<lparr>lh_n := 0\<rparr>) = Inr s4"
      "at_rest (l_dev s) pid s4 {} ((puts ?W2 ?c2)(la st 0 := H0)) ((puts ?W2 ((puts ?W1 d)(la st 0 := H)))(la st 0 := H0))"
      "written s4 = written s3 @ [(la st 0, H0)]" "bcache.more s4 = bcache.more (s3\<lparr>lh_n := 0\<rparr>)"
    using write_head_ok [of "s3\<lparr>lh_n := 0\<rparr>" pid "{}" "puts ?W2 ?c2" "puts ?W2 ((puts ?W1 d)(la st 0 := H))"] s3(2)
    by (auto simp: m3 st_def [symmetric] h3 H0_def NBUF_def)
  have "bcache.more (s3\<lparr>lh_n := 0\<rparr>) = bcache.more (s\<lparr>lh_n := 0\<rparr>)"
    using trans [OF s3(4) trans [OF s2(4) s1(4)]] by (cases s; cases s3; simp)
  moreover have "commit pid s = Inr s4" using s1(1) s2(1) s3(1) s4(1) T(2) ne by (simp add: commit_def)
  ultimately show ?thesis using s1(3) s2(3) s3(3) s4(2,3,4)
    by - (rule exI [of _ s4], rule exI [of _ H], rule exI [of _ H0], simp add: H_def H0_def del: fun_upd_apply)
qed

subsection \<open>Recovery\<close>

lemma read_head_ok:
  fixes s :: "'a logst_scheme"
  assumes st: "at_rest (l_dev s) pid s {} e e" and bl: "length (lh_block s) = LOGSIZE"
    and n: "sint (get32 (e (la (l_start s) 0)) 0) = int n" "n \<le> LOGSIZE"
  shows "\<exists>s'. read_head pid s = Inr s' \<and> at_rest (l_dev s) pid s' {} e e \<and> lh_n s' = int n \<and> l_start s' = l_start s
     \<and> l_dev s' = l_dev s \<and> length (lh_block s') = LOGSIZE \<and> (\<forall>i<n. lh_block s' ! i = get32 (e (la (l_start s) 0)) (4 + 4 * i))"
proof -
  let ?h = "e (la (l_start s) 0)"
  obtain A where A: "bc_rep (l_dev s) pid s A" "settled A {} e e" using st by (auto simp: at_rest_def)
  obtain i s1 s2 A2 where r: "bread pid (l_dev s) (la (l_start s) 0) s = Inr (i, s1)" "b_data (bufs s1 ! i) = ?h"
      "bcache.more s1 = bcache.more s"
    using bc.peek_block [OF A, of "la (l_start s) 0"] by (auto simp: NBUF_def)
  note m1 = log_more [OF r(3)]
  let ?bl = "fold (\<lambda>i bs. bs[i := get32 ?h (4 + 4 * i)]) [0..<n] (lh_block s)"
  let ?s1 = "s1\<lparr>lh_n := int n, lh_block := ?bl\<rparr>"
  have rep1: "bc_rep (l_dev s) pid s1 (v_bread (la (l_start s) 0) i A)"
    using bread_rep [OF A(1), of "la (l_start s) 0"] r(1) bc.settled_idle [OF A, of "la (l_start s) 0"] A(2)
    by (auto simp: room_def settled_def resting_def NBUF_def)
  have "\<exists>s'. brelse pid i ?s1 = Inr s' \<and> bc_rep (l_dev s) pid s' (v_brelse (la (l_start s) 0) (v_bread (la (l_start s) 0) i A))
     \<and> written s' = written ?s1 \<and> bcache.more s' = bcache.more ?s1"
    by (rule brelse_rep) (use rep1 A(2) in \<open>simp_all add: v_bread_def settled_def\<close>)
  then obtain s2 where s2: "brelse pid i ?s1 = Inr s2" "bcache.more s2 = bcache.more ?s1"
      "bc_rep (l_dev s) pid s2 (v_brelse (la (l_start s) 0) (v_bread (la (l_start s) 0) i A))" by blast
  note m2 = log_more [OF s2(2)]
  have "settled (v_brelse (la (l_start s) 0) (v_bread (la (l_start s) 0) i A)) {} e e"
    using A bc.settled_idle [OF A, of "la (l_start s) 0"] by (auto simp: view_ops settled_def resting_def)
  then have "at_rest (l_dev s) pid s2 {} e e" using s2(3) by (auto simp: at_rest_def)
  moreover have "read_head pid s = Inr s2"
    using r(1,2) n s2(1) m1 by (simp add: read_head_def la_def Let_def)
  ultimately show ?thesis using m1 m2 read_entries [OF bl n(2), of "\<lambda>i. get32 ?h (4 + 4 * i)"] by simp
qed

lemma recover_ok:
  fixes s :: "'a logst_scheme"
  assumes st: "at_rest (l_dev s) pid s {} e e" and bl: "length (lh_block s) = LOGSIZE"
    and n: "sint (get32 (e (la (l_start s) 0)) 0) = int n" "n < LOGSIZE"
    and bs: "\<forall>i<n. get32 (e (la (l_start s) 0)) (4 + 4 * i) \<notin> log_area (l_start s)"
  shows "\<exists>s'. recover_from_log pid s = Inr s' \<and> lh_n s' = 0
     \<and> (\<forall>b. b \<notin> log_area (l_start s) \<longrightarrow> disk s' b =
          puts (map (\<lambda>i. (get32 (e (la (l_start s) 0)) (4 + 4 * i), e (la (l_start s) (Suc i)))) [0..<n]) e b)"
proof -
  let ?st = "l_start s" and ?R = "map (\<lambda>i. (get32 (e (la (l_start s) 0)) (4 + 4 * i), e (la (l_start s) (Suc i)))) [0..<n]"
  obtain s1 where s1: "read_head pid s = Inr s1" "at_rest (l_dev s) pid s1 {} e e" "lh_n s1 = int n" "l_start s1 = ?st"
      "l_dev s1 = l_dev s" "length (lh_block s1) = LOGSIZE" "\<forall>i<n. lh_block s1 ! i = get32 (e (la ?st 0)) (4 + 4 * i)"
    using read_head_ok [OF st bl n(1)] n(2) by auto
  have R: "map (\<lambda>i. (lh_block s1 ! i, e (la (l_start s1) (Suc i)))) [0..<n] = ?R" using s1(4,7) by simp
  have "\<exists>s'. foldE (install_one pid True) [0..<n] s1 = Inr s'
       \<and> at_rest (l_dev s1) pid s' (if True then {} else set (drop n (take n (lh_block s1))))
         (puts (map (\<lambda>i. (lh_block s1 ! i, e (la (l_start s1) (Suc i)))) [0..<n]) e)
         (puts (map (\<lambda>i. (lh_block s1 ! i, e (la (l_start s1) (Suc i)))) [0..<n]) e)
       \<and> written s' = written s1 @ map (\<lambda>i. (lh_block s1 ! i, e (la (l_start s1) (Suc i)))) [0..<n] \<and> bcache.more s' = bcache.more s1"
    by (rule install_ok [where n = n]) (use s1 bs n in \<open>simp_all add: NBUF_LOGSIZE\<close>)
  then obtain s2 where s2: "install_trans pid True s1 = Inr s2" "at_rest (l_dev s) pid s2 {} (puts ?R e) (puts ?R e)"
      "bcache.more s2 = bcache.more s1"
    unfolding R by (auto simp: install_trans_def s1(3,5))
  note m2 = log_more [OF s2(3)]
  obtain s3 H where s3: "write_head pid (s2\<lparr>lh_n := 0\<rparr>) = Inr s3"
      "at_rest (l_dev s) pid s3 {} ((puts ?R e)(la ?st 0 := H)) ((puts ?R e)(la ?st 0 := H))" "bcache.more s3 = bcache.more (s2\<lparr>lh_n := 0\<rparr>)"
    using write_head_ok [of "s2\<lparr>lh_n := 0\<rparr>" pid "{}" "puts ?R e" "puts ?R e"] s2(2) s1(4,5)
    by (auto simp: m2 NBUF_def)
  have "recover_from_log pid s = Inr s3" using s1(1) s2(1) s3(1) by (simp add: recover_from_log_def)
  moreover have "disk s3 b = puts ?R e b" if "b \<notin> log_area ?st" for b
  proof -
    have "b \<noteq> la ?st 0" using that la_area [of 0 ?st] by auto
    then show ?thesis using at_rest_disk [OF s3(2)] by simp
  qed
  moreover have "lh_n s3 = 0" using log_more(3) [OF s3(3)] by simp
  ultimately show ?thesis by blast
qed

text \<open>The machine after a crash: the disk survives, the cache starts again from zeroed memory.\<close>

definition reboot :: "(u32 \<Rightarrow> block) \<Rightarrow> 'a logst_scheme \<Rightarrow> 'a logst_scheme" where
  "reboot e s = binit (s\<lparr>bufs := replicate (Suc NBUF) zero_buf, disk := e, lh_n := 0, lh_block := replicate LOGSIZE 0,
     l_outstanding := 0, l_committing := False\<rparr>)"

lemma reboot_at_rest:
  fixes s :: "'a logst_scheme"
  assumes "dev \<noteq> 0"
  shows "at_rest dev pid (reboot e s) {} e e" "lh_block (reboot e s) = replicate LOGSIZE 0"
proof -
  let ?s = "s\<lparr>bufs := replicate (Suc NBUF) zero_buf, disk := e, lh_n := 0, lh_block := replicate LOGSIZE 0,
     l_outstanding := 0, l_committing := False\<rparr>"
  have b: "bufs ?s = replicate (Suc NBUF) zero_buf" by simp
  have "settled (fresh_view e) {} e e" by (auto simp: settled_def resting_def fresh_view_def)
  then show "at_rest dev pid (reboot e s) {} e e"
    using binit_rep(1) [OF b assms, of pid] by (auto simp: reboot_def at_rest_def)
  show "lh_block (reboot e s) = replicate LOGSIZE 0"
    using log_more(4) [OF binit_rep(3) [OF b assms]] by (simp add: reboot_def)
qed

lemma initlog_recovers:
  fixes s :: "'a logst_scheme"
  assumes dev: "dev \<noteq> 0"
    and n: "sint (get32 (e (la (sint ls) 0)) 0) = int n" "n < LOGSIZE"
    and bs: "\<forall>i<n. get32 (e (la (sint ls) 0)) (4 + 4 * i) \<notin> log_area (sint ls)"
  shows "\<exists>s'. initlog pid dev ls nlog (reboot e s) = Inr s'
     \<and> (\<forall>b. b \<notin> log_area (sint ls) \<longrightarrow> disk s' b =
          puts (map (\<lambda>i. (get32 (e (la (sint ls) 0)) (4 + 4 * i), e (la (sint ls) (Suc i)))) [0..<n]) e b)"
proof -
  let ?t = "(reboot e s)\<lparr>l_start := sint ls, l_size := sint nlog, l_dev := dev\<rparr>"
  have "\<exists>s'. recover_from_log pid ?t = Inr s' \<and> lh_n s' = 0
     \<and> (\<forall>b. b \<notin> log_area (l_start ?t) \<longrightarrow> disk s' b =
          puts (map (\<lambda>i. (get32 (e (la (l_start ?t) 0)) (4 + 4 * i), e (la (l_start ?t) (Suc i)))) [0..<n]) e b)"
    by (rule recover_ok) (use reboot_at_rest(1) [OF dev, of pid e s] reboot_at_rest(2) [OF dev, of e s] n bs in simp_all)
  then show ?thesis by (auto simp: initlog_def LOGSIZE_def)
qed

subsection \<open>Crashes\<close>

lemma take_parts:
  assumes "k \<le> length (a @ [x] @ b @ [y])"
  obtains "take k (a @ [x] @ b @ [y]) = take k a" "k \<le> length a"
  | j where "take k (a @ [x] @ b @ [y]) = a @ [x] @ take j b" "j \<le> length b"
  | "take k (a @ [x] @ b @ [y]) = a @ [x] @ b @ [y]"
proof -
  consider "k \<le> length a" | "length a < k" "k \<le> length a + 1 + length b" | "k = length a + 2 + length b"
    using assms by fastforce
  then show ?thesis
  proof cases
    case 2
    then obtain j where "k = Suc (length a + j)" "j \<le> length b"
      by (metis add_Suc_right add_Suc_shift add_le_cancel_left less_iff_Suc_add plus_1_eq_Suc add.commute)
    then show ?thesis using that(2) [of j] by simp
  qed (use that in auto)
qed

lemma crash_state:
  fixes s :: "'a logst_scheme"
  assumes t: "transaction pid s bs c d" and e: "e = puts (take k W) d" and k: "k \<le> length W"
  defines "st \<equiv> l_start s"
  defines "H \<equiv> header_data (int (length bs)) (lh_block s) (d (la st 0))"
  defines "H0 \<equiv> header_data 0 (lh_block s) H"
  assumes W: "W = log_writes st bs c @ [(la st 0, H)] @ home_writes bs c @ [(la st 0, H0)]"
  shows "sint (get32 (e (la st 0)) 0) = 0 \<and> ((\<forall>b. b \<notin> log_area st \<longrightarrow> e b = d b) \<or> (\<forall>b. b \<notin> log_area st \<longrightarrow> e b = c b))
     \<or> e (la st 0) = H \<and> (\<forall>i<length bs. e (la st (Suc i)) = c (bs ! i)) \<and> (\<forall>b. b \<notin> log_area st \<longrightarrow> b \<notin> set bs \<longrightarrow> e b = c b)"
proof -
  note T = transactionD [OF t]
  have le: "length bs \<le> LOGSIZE" using T(3) by simp
  have lan: "la st 0 \<notin> set bs" "\<And>i. i < length bs \<Longrightarrow> la st (Suc i) \<notin> set bs"
    using T(3,7) la_area [of 0 st] la_area [of "Suc i" st for i] by (force simp: st_def)+
  have id: "c b = d b" if "b \<notin> set bs" for b using at_rest_idle [OF T(1) that] .
  have hk: "length H = 1024" "sint (get32 H0 0) = 0"
    using header_data_spec [where d = "d (la st 0)" and n = "length bs" and bs = "lh_block s"]
      header_data_spec(2) [where d = H and n = 0 and bs = "lh_block s"] T(8) le
    by (auto simp: H_def H0_def st_def LOGSIZE_def)
  from k [unfolded W] show ?thesis
  proof (cases rule: take_parts)
    case 1
    have "fst ` set (take k (log_writes st bs c)) \<subseteq> log_area st - {la st 0}"
      using le by (auto simp: log_writes_def la_inj dest!: in_set_takeD)
    then have "e b = d b" if "b \<notin> log_area st \<or> b = la st 0" for b
      using that unfolding e W 1(1) by (intro puts_other) auto
    then show ?thesis using T(9) by (simp add: st_def)
  next
    case (2 j)
    have f: "fst ` set (take j (home_writes bs c)) \<subseteq> set bs"
      by (auto simp: home_writes_def dest!: in_set_takeD)
    have eq: "e b = ((puts (log_writes st bs c) d)(la st 0 := H)) b" if "b \<notin> set bs" for b
      using that f unfolding e W 2(1) by (simp add: puts_other subset_iff del: fun_upd_apply) (rule puts_other; auto)
    have "e (la st 0) = H" using eq [OF lan(1)] by simp
    moreover have "e (la st (Suc i)) = c (bs ! i)" if "i < length bs" for i
      using eq [OF lan(2) [OF that]] that puts_log_writes(1) [OF le that] T(3) by (simp add: la_inj)
    moreover have "e b = c b" if b: "b \<notin> log_area st" "b \<notin> set bs" for b
    proof -
      have "b \<noteq> la st 0" using b la_area [of 0 st] by auto
      then show ?thesis using eq [OF b(2)] id [OF b(2)] puts_log_writes(2) [OF le, of b st c d] b by simp
    qed
    ultimately show ?thesis by blast
  next
    case 3
    have "e (la st 0) = H0" unfolding e W 3 by simp
    moreover have "e b = c b" if b: "b \<notin> log_area st" for b
    proof -
      have "b \<noteq> la st 0" using b la_area [of 0 st] by auto
      then have "e b = (if b \<in> set bs then c b else d b)"
        unfolding e W 3 using puts_log_writes(2) [OF le, of b st c d] b by (simp add: puts_home_writes [OF T(6)])
      then show ?thesis using id by simp
    qed
    ultimately show ?thesis using hk(2) by simp
  qed
qed

lemma crash_recovery:
  fixes s t :: "'a logst_scheme"
  assumes tr: "transaction pid s bs c d" and ls: "l_start s = sint ls" and dev: "l_dev s \<noteq> 0"
    and e: "e = puts (take k W) d" and k: "k \<le> length W"
  defines "H \<equiv> header_data (int (length bs)) (lh_block s) (d (la (sint ls) 0))"
  assumes W: "W = log_writes (sint ls) bs c @ [(la (sint ls) 0, H)] @ home_writes bs c @ [(la (sint ls) 0, header_data 0 (lh_block s) H)]"
  shows "\<exists>t'. initlog p (l_dev s) ls nlog (reboot e t) = Inr t'
     \<and> ((\<forall>b. b \<notin> log_area (sint ls) \<longrightarrow> disk t' b = d b) \<or> (\<forall>b. b \<notin> log_area (sint ls) \<longrightarrow> disk t' b = c b))"
proof -
  note T = transactionD [OF tr]
  let ?st = "sint ls" and ?h = "e (la (sint ls) 0)"
  consider "sint (get32 ?h 0) = 0" "(\<forall>b. b \<notin> log_area ?st \<longrightarrow> e b = d b) \<or> (\<forall>b. b \<notin> log_area ?st \<longrightarrow> e b = c b)"
    | "?h = H" "\<forall>i<length bs. e (la ?st (Suc i)) = c (bs ! i)" "\<forall>b. b \<notin> log_area ?st \<longrightarrow> b \<notin> set bs \<longrightarrow> e b = c b"
    using crash_state [OF tr e k] W unfolding H_def ls by blast
  then show ?thesis
  proof cases
    case 1
    then show ?thesis using initlog_recovers [OF dev, of e ls 0 p nlog t] by (auto simp: LOGSIZE_def)
  next
    case 2
    have le: "length bs \<le> LOGSIZE" using T(3) by simp
    note hd = header_data_spec [where d = "d (la ?st 0)" and n = "length bs" and bs = "lh_block s"]
    have h: "sint (get32 ?h 0) = int (length bs)" "\<And>i. i < length bs \<Longrightarrow> get32 ?h (4 + 4 * i) = bs ! i"
      using hd(2,3) T(8,10) le 2(1) by (auto simp: H_def ls)
    have R: "map (\<lambda>i. (get32 ?h (4 + 4 * i), e (la ?st (Suc i)))) [0..<length bs] = home_writes bs c"
      using h(2) 2(2) by (simp add: home_writes_def)
    have "\<forall>i<length bs. get32 ?h (4 + 4 * i) \<notin> log_area ?st" using T(7) h(2) by (force simp: ls)
    from initlog_recovers [of "l_dev s" e ls "length bs" p nlog t, OF dev h(1) T(3) this] obtain t' where
      t': "initlog p (l_dev s) ls nlog (reboot e t) = Inr t'" "\<And>b. b \<notin> log_area ?st \<Longrightarrow> disk t' b = puts (home_writes bs c) e b"
      unfolding R by blast
    then have "disk t' b = c b" if "b \<notin> log_area ?st" for b
      using that 2(3) by (simp add: puts_home_writes [OF T(6)])
    then show ?thesis using t'(1) by blast
  qed
qed

subsection \<open>Logging a block\<close>

lemma absorb_spec:
  "i + k \<le> length bs \<Longrightarrow> absorb bs x i k =
     (if x \<in> set (take k (drop i bs)) then LEAST j. i \<le> j \<and> bs ! j = x else i + k)"
proof (induction k arbitrary: i)
  case (Suc k)
  have dr: "drop i bs = bs ! i # drop (Suc i) bs" using Suc.prems by (simp add: Cons_nth_drop_Suc)
  show ?case
  proof (cases "bs ! i = x")
    case True
    then have "(LEAST j. i \<le> j \<and> bs ! j = x) = i" by (intro Least_equality) auto
    then show ?thesis using True dr by simp
  next
    case False
    then have "(i \<le> j \<and> bs ! j = x) = (Suc i \<le> j \<and> bs ! j = x)" for j by (cases "i = j") auto
    then show ?thesis using False dr Suc.IH [of "Suc i"] Suc.prems by simp
  qed
qed simp

lemma absorb_hit:
  assumes "n \<le> length bs" "x \<in> set (take n bs)"
  shows "absorb bs x 0 n < n" "bs ! absorb bs x 0 n = x"
proof -
  obtain j where j: "j < n" "bs ! j = x" using assms by (auto simp: in_set_conv_nth)
  have a: "absorb bs x 0 n = (LEAST j. bs ! j = x)" using absorb_spec [of 0 n bs x] assms by simp
  show "bs ! absorb bs x 0 n = x" unfolding a by (rule LeastI [of "\<lambda>j. bs ! j = x", OF j(2)])
  show "absorb bs x 0 n < n" unfolding a using Least_le [of "\<lambda>j. bs ! j = x", OF j(2)] j(1) by simp
qed

lemma absorb_miss: "n \<le> length bs \<Longrightarrow> x \<notin> set (take n bs) \<Longrightarrow> absorb bs x 0 n = n"
  using absorb_spec [of 0 n bs x] by simp

subsection \<open>Operations inside a transaction\<close>

text \<open>\<open>tx pid s H bs c d\<close>: the transaction with blocks \<open>bs\<close> over contents \<open>c\<close> and disk \<open>d\<close>, with the blocks
  of \<open>H\<close> read and not released, each in the buffer \<open>H\<close> gives it.\<close>

definition tx :: "int \<Rightarrow> 'a logst_scheme \<Rightarrow> (u32 \<rightharpoonup> nat) \<Rightarrow> u32 list \<Rightarrow> (u32 \<Rightarrow> block) \<Rightarrow> (u32 \<Rightarrow> block) \<Rightarrow> bool" where
  "tx pid s H bs c d \<longleftrightarrow>
     (\<exists>A. bc_rep (l_dev s) pid s A \<and> busy A = dom H \<and> (\<forall>n i. H n = Some i \<longrightarrow> slot A n = Some i)
        \<and> dom (slot A) = set bs \<union> dom H \<and> (\<forall>n. refs A n = of_bool (n \<in> set bs) + of_bool (n \<in> dom H))
        \<and> content A = c \<and> durable A = d)
     \<and> finite (dom H) \<and> (\<forall>n. n \<notin> set bs \<longrightarrow> c n = d n) \<and> lh_n s = int (length bs) \<and> length bs < LOGSIZE
     \<and> length (lh_block s) = LOGSIZE \<and> take (length bs) (lh_block s) = bs \<and> distinct bs
     \<and> set bs \<inter> log_area (l_start s) = {} \<and> length (d (la (l_start s) 0)) = 1024 \<and> get32 (d (la (l_start s) 0)) 0 = 0"

lemma txD:
  assumes "tx pid s H bs c d"
  obtains A where "bc_rep (l_dev s) pid s A" "busy A = dom H" "\<And>n i. H n = Some i \<Longrightarrow> slot A n = Some i"
    "dom (slot A) = set bs \<union> dom H" "\<And>n. refs A n = of_bool (n \<in> set bs) + of_bool (n \<in> dom H)"
    "content A = c" "durable A = d" "finite (dom H)" "\<And>n. n \<notin> set bs \<Longrightarrow> c n = d n" "lh_n s = int (length bs)" "length bs < LOGSIZE"
    "length (lh_block s) = LOGSIZE" "take (length bs) (lh_block s) = bs" "distinct bs"
    "set bs \<inter> log_area (l_start s) = {}" "length (d (la (l_start s) 0)) = 1024" "get32 (d (la (l_start s) 0)) 0 = 0"
  using assms unfolding tx_def by blast

lemma transaction_tx: "transaction pid s bs c d \<longleftrightarrow> tx pid s Map.empty bs c d"
proof
  assume t: "transaction pid s bs c d"
  note T = transactionD [OF t]
  obtain A where A: "bc_rep (l_dev s) pid s A" "settled A (set bs) c d" using T(1) by (auto simp: at_rest_def)
  note id = bc.settled_idle [OF A] and pin = bc.settled_pinned [OF A(2)]
  have "refs A n = of_bool (n \<in> set bs)" for n using id(2) pin(2) by (cases "n \<in> set bs") auto
  then show "tx pid s Map.empty bs c d"
    unfolding tx_def using T A id(3) by (auto simp: settled_def resting_def)
next
  assume "tx pid s Map.empty bs c d"
  then show "transaction pid s bs c d"
    by (rule txD) (auto simp: transaction_def at_rest_def settled_def resting_def)
qed

text \<open>What the operations on buffers keep: the log's parameters, the trace of disk writes and everything
  outside the cache and the log.\<close>

definition framed :: "'a logst_scheme \<Rightarrow> 'a logst_scheme \<Rightarrow> bool" where
  "framed s s' \<longleftrightarrow> l_start s' = l_start s \<and> l_dev s' = l_dev s \<and> l_size s' = l_size s \<and> l_outstanding s' = l_outstanding s
     \<and> l_committing s' = l_committing s \<and> written s' = written s \<and> logst.more s' = logst.more s"

lemma framed_refl [simp]: "framed s s"
  by (simp add: framed_def)

lemma framed_trans [trans]: "framed s t \<Longrightarrow> framed t u \<Longrightarrow> framed s u"
  by (simp add: framed_def)

lemma framed_more:
  fixes s s' :: "'a logst_scheme"
  assumes "bcache.more s' = bcache.more s" "written s' = written s"
  shows "framed s s'"
  using assms by (cases s; cases s'; simp add: framed_def)

lemma tx_bread:
  fixes s :: "'a logst_scheme"
  assumes t: "tx pid s H bs c d" and n: "n \<notin> dom H" and rm: "length bs + card (dom H) < NBUF"
  obtains b s' where "bread pid (l_dev s) n s = Inr (b, s')" "tx pid s' (H(n \<mapsto> b)) bs c d" "framed s s'"
proof -
  obtain A where A: "bc_rep (l_dev s) pid s A" "busy A = dom H" "\<And>n i. H n = Some i \<Longrightarrow> slot A n = Some i"
    "dom (slot A) = set bs \<union> dom H" "\<And>n. refs A n = of_bool (n \<in> set bs) + of_bool (n \<in> dom H)"
    "content A = c" "durable A = d" "finite (dom H)"
    using t by (rule txD) blast
  have "card (set bs \<union> dom H) < NBUF" using card_Un_le [of "set bs" "dom H"] card_length [of bs] rm by linarith
  then have "room n A" using A(4) by (simp add: room_def)
  moreover have "refs A n + 1 < 4294967296" "n \<notin> busy A" using n A(2,5) by (cases "n \<in> set bs"; simp)+
  ultimately obtain b s1 where 1: "bread pid (l_dev s) n s = Inr (b, s1)" "bc_rep (l_dev s) pid s1 (v_bread n b A)"
      "written s1 = written s" "bcache.more s1 = bcache.more s"
    using bread_rep [OF A(1), of n] by blast
  note m = log_more [OF 1(4)]
  have "tx pid s1 (H(n \<mapsto> b)) bs c d"
    unfolding tx_def
    by (intro conjI exI [of _ "v_bread n b A"])
      (use t A 1(2) n in \<open>auto simp: tx_def m v_bread_def\<close>)
  then show ?thesis using that [OF 1(1)] framed_more [OF 1(4,3)] by blast
qed

lemma tx_data: "tx pid s H bs c d \<Longrightarrow> H n = Some b \<Longrightarrow> b_data (bufs s ! b) = c n"
  by (elim txD) (metis bc_rep_held(6))

lemma tx_brelse:
  fixes s :: "'a logst_scheme"
  assumes t: "tx pid s H bs c d" and n: "H n = Some b"
  obtains s' where "brelse pid b s = Inr s'" "tx pid s' (H(n := None)) bs c d" "framed s s'"
proof -
  obtain A where A: "bc_rep (l_dev s) pid s A" "busy A = dom H" "\<And>n i. H n = Some i \<Longrightarrow> slot A n = Some i"
    "dom (slot A) = set bs \<union> dom H" "\<And>n. refs A n = of_bool (n \<in> set bs) + of_bool (n \<in> dom H)"
    "content A = c" "durable A = d" "finite (dom H)" "\<And>n. n \<notin> set bs \<Longrightarrow> c n = d n"
    using t by (rule txD) blast
  have "n \<in> busy A" "refs A n = 1 \<Longrightarrow> content A n = durable A n"
    using n A(2,6,7,9) A(5) [of n] by (auto simp: dom_def split: if_splits)
  then obtain s1 where 1: "brelse pid b s = Inr s1" "bc_rep (l_dev s) pid s1 (v_brelse n A)"
      "written s1 = written s" "bcache.more s1 = bcache.more s"
    using brelse_rep [OF A(1) A(3) [OF n]] by auto
  note m = log_more [OF 1(4)]
  have r: "refs A n = of_bool (n \<in> set bs) + 1" using A(5) [of n] n by (simp add: dom_def)
  have "tx pid s1 (H(n := None)) bs c d"
    unfolding tx_def
    by (intro conjI exI [of _ "v_brelse n A"])
      (use t A 1(2) n r in \<open>auto simp: tx_def m v_brelse_def split: if_splits\<close>)
  then show ?thesis using that [OF 1(1)] framed_more [OF 1(4,3)] by blast
qed

lemma tx_log_write:
  fixes s :: "'a logst_scheme"
  assumes t: "tx pid s H bs c d" and h: "H n = Some b" and n: "n \<notin> log_area (l_start s)"
    and sz: "int (length bs) < l_size s - 1" "Suc (length bs) < LOGSIZE \<or> n \<in> set bs" and out: "1 \<le> l_outstanding s"
  defines "bs' \<equiv> (if n \<in> set bs then bs else bs @ [n])"
  obtains s' where "log_write b (set_data b x s) = Inr s'" "tx pid s' H bs' (c(n := x)) d" "framed s s'"
proof -
  obtain A where A: "bc_rep (l_dev s) pid s A" "busy A = dom H" "\<And>n i. H n = Some i \<Longrightarrow> slot A n = Some i"
    "dom (slot A) = set bs \<union> dom H" "\<And>n. refs A n = of_bool (n \<in> set bs) + of_bool (n \<in> dom H)"
    "content A = c" "durable A = d" "finite (dom H)" "\<And>n. n \<notin> set bs \<Longrightarrow> c n = d n" "lh_n s = int (length bs)" "length bs < LOGSIZE"
    "length (lh_block s) = LOGSIZE" "take (length bs) (lh_block s) = bs"
    using t by (rule txD) blast
  define s2 where "s2 = set_data b x s"
  define A2 where "A2 = v_set_data n x A"
  have sl: "slot A2 n = Some b" using A(3) [OF h] by (simp add: A2_def v_set_data_def)
  have 2: "bc_rep (l_dev s) pid s2 A2" unfolding s2_def A2_def by (rule set_data_rep [OF A(1) A(3) [OF h]])
  have m2: "bcache.more s2 = bcache.more s" "written s2 = written s" by (simp_all add: s2_def set_data_def)
  note l2 = log_more [OF m2(1)]
  have bn: "b_blockno (bufs s2 ! b) = n" by (rule bc_rep_held(4) [OF 2 sl])
  let ?i = "absorb (lh_block s2) n 0 (length bs)"
  define s3 where "s3 = (let s = s2\<lparr>lh_block := (lh_block s2)[?i := n]\<rparr> in
      if int ?i = lh_n s2 then (bpin b s)\<lparr>lh_n := lh_n s2 + 1\<rparr> else s)"
  have w: "log_write b s2 = Inr s3"
    using A(10,11) sz(1) out bn by (simp add: log_write_def Let_def l2 s3_def)
  define A3 where "A3 = (if n \<in> set bs then A2 else v_bpin n A2)"
  have 3: "bc_rep (l_dev s) pid s3 A3 \<and> lh_n s3 = int (length bs') \<and> length (lh_block s3) = LOGSIZE
     \<and> take (length bs') (lh_block s3) = bs' \<and> framed s2 s3"
  proof (cases "n \<in> set bs")
    case True
    have hit: "?i < length bs" "lh_block s2 ! ?i = n" using absorb_hit [of "length bs" "lh_block s2" n] True A(11-13) l2 by simp_all
    then have "(lh_block s2)[?i := n] = lh_block s2" by (metis list_update_id)
    then show ?thesis using hit True 2 l2 A(10,12,13) by (simp add: s3_def A3_def bs'_def framed_def)
  next
    case False
    have hit: "?i = length bs" using absorb_miss [of "length bs" "lh_block s2" n] False A(11-13) l2 by simp
    have p: "bc_rep (l_dev s) pid (bpin b (s2\<lparr>lh_block := (lh_block s2)[?i := n]\<rparr>)) (v_bpin n A2)"
      by (rule bpin_rep) (use 2 sl A(5) [of n] in \<open>auto simp: A2_def v_set_data_def\<close>)
    have "take (Suc (length bs)) ((lh_block s2)[length bs := n]) = bs @ [n]"
      using l2 A(11-13) by (simp add: take_Suc_conv_app_nth)
    then show ?thesis using hit False p l2 A(10,12)
      by (simp add: s3_def A3_def bs'_def Let_def bpin_def framed_def upd_buf_def)
  qed
  have f: "framed s s3" using framed_trans [OF framed_more [OF m2]] 3 by blast
  have "tx pid s3 H bs' (c(n := x)) d"
    unfolding tx_def
    by (intro conjI exI [of _ A3])
      (use t 3 A sz(2) n f h in \<open>auto simp: tx_def framed_def A3_def A2_def view_ops bs'_def split: if_splits\<close>)
  then show ?thesis using that w f by (simp add: s2_def)
qed

text \<open>The pattern of every file-system update: read the block, change it, \<open>log_write\<close> and release it.\<close>

definition log_update :: "int \<Rightarrow> u32 \<Rightarrow> block \<Rightarrow> 'a logst_scheme \<Rightarrow> kerror + 'a logst_scheme" where
  "log_update pid n x s =
     bindE (bread pid (l_dev s) n s) (\<lambda>(b, s). bindE (log_write b (set_data b x s)) (\<lambda>s. brelse pid b s))"

lemma log_update_ok:
  fixes s :: "'a logst_scheme"
  assumes t: "transaction pid s bs c d" and n: "n \<notin> log_area (l_start s)"
    and sz: "int (length bs) < l_size s - 1" "Suc (length bs) < LOGSIZE \<or> n \<in> set bs" and out: "1 \<le> l_outstanding s"
  defines "bs' \<equiv> (if n \<in> set bs then bs else bs @ [n])"
  shows "\<exists>s'. log_update pid n x s = Inr s' \<and> transaction pid s' bs' (c(n := x)) d
     \<and> l_outstanding s' = l_outstanding s \<and> l_start s' = l_start s \<and> l_dev s' = l_dev s \<and> l_size s' = l_size s
     \<and> l_committing s' = l_committing s \<and> written s' = written s"
proof -
  note T = t [unfolded transaction_tx]
  obtain b s1 where 1: "bread pid (l_dev s) n s = Inr (b, s1)" "tx pid s1 [n \<mapsto> b] bs c d" "framed s s1"
    using tx_bread [OF T] transactionD(3) [OF t] by (auto simp: NBUF_LOGSIZE)
  note f = 1(3) [unfolded framed_def]
  obtain s2 where 2: "log_write b (set_data b x s1) = Inr s2" "tx pid s2 [n \<mapsto> b] bs' (c(n := x)) d" "framed s1 s2"
    unfolding bs'_def by (rule tx_log_write [OF 1(2), of n b]) (use n sz out f in auto)
  obtain s3 where 3: "brelse pid b s2 = Inr s3" "tx pid s3 Map.empty bs' (c(n := x)) d" "framed s2 s3"
    using tx_brelse [OF 2(2), of n b] by auto
  show ?thesis
    using 1(1) 2(1) 3 framed_trans [OF 1(3) framed_trans [OF 2(3) 3(3)]]
    by (intro exI [of _ s3]) (simp add: log_update_def transaction_tx framed_def)
qed

lemma transaction_log [simp]:
  fixes s :: "'a logst_scheme"
  shows "transaction pid (s\<lparr>l_outstanding := x\<rparr>) bs c d = transaction pid s bs c d"
    "transaction pid (s\<lparr>l_committing := z\<rparr>) bs c d = transaction pid s bs c d"
  by (simp_all add: transaction_def)

lemma commit_crash:
  fixes s t :: "'a logst_scheme"
  assumes tr: "transaction pid s bs c d" and ls: "l_start s = sint ls" and dev: "l_dev s \<noteq> 0"
  shows "\<exists>s' new. commit pid s = Inr s' \<and> written s' = written s @ new \<and> bcache.more s' = bcache.more (s\<lparr>lh_n := 0\<rparr>)
     \<and> (\<forall>b. b \<notin> log_area (sint ls) \<longrightarrow> disk s' b = c b)
     \<and> (\<forall>k \<le> length new. \<exists>t'. initlog p (l_dev s) ls nlog (reboot (puts (take k new) d) t) = Inr t'
          \<and> ((\<forall>b. b \<notin> log_area (sint ls) \<longrightarrow> disk t' b = d b) \<or> (\<forall>b. b \<notin> log_area (sint ls) \<longrightarrow> disk t' b = c b)))"
proof (cases "bs = []")
  case True
  note T = transactionD [OF tr]
  have "c = d" using at_rest_idle [OF T(1)] True by auto
  moreover have "bcache.more s = bcache.more (s\<lparr>lh_n := 0\<rparr>)" using T(2) True by (cases s) simp
  moreover have "\<exists>t'. initlog p (l_dev s) ls nlog (reboot d t) = Inr t' \<and> (\<forall>b. b \<notin> log_area (sint ls) \<longrightarrow> disk t' b = d b)"
    using initlog_recovers [OF dev, of d ls 0 p nlog t] T(9) by (auto simp: ls LOGSIZE_def)
  ultimately show ?thesis using T(2) True at_rest_disk [OF T(1)] by (intro exI [of _ s] exI [of _ "[]"]) (auto simp: commit_def)
next
  case False
  define H where "H = header_data (int (length bs)) (lh_block s) (d (la (sint ls) 0))"
  define W where "W = log_writes (sint ls) bs c @ [(la (sint ls) 0, H)] @ home_writes bs c @ [(la (sint ls) 0, header_data 0 (lh_block s) H)]"
  obtain s' where s': "commit pid s = Inr s'" "written s' = written s @ W" "at_rest (l_dev s) pid s' {} (puts W c) (puts W d)"
      "bcache.more s' = bcache.more (s\<lparr>lh_n := 0\<rparr>)"
    using commit_ok [OF tr False] unfolding ls W_def H_def by blast
  have "disk s' b = c b" if b: "b \<notin> log_area (sint ls)" for b
  proof -
    have "b \<noteq> la (sint ls) 0" using b la_area [of 0 "sint ls"] by auto
    then have "puts W d b = (if b \<in> set bs then c b else d b)"
      using transactionD(3,6) [OF tr] puts_log_writes(2) [of bs b "sint ls" c d] b by (simp add: W_def puts_home_writes)
    then show ?thesis using at_rest_disk [OF s'(3)] at_rest_idle [OF transactionD(1) [OF tr], of b] by auto
  qed
  then show ?thesis using s' crash_recovery [OF tr ls dev refl _ W_def [unfolded H_def], of _ p nlog t]
    by (intro exI [of _ s'] exI [of _ W]) blast
qed

subsection \<open>Properties\<close>

text \<open>C1: \<open>end_op\<close> of the last system call of a transaction makes all of its blocks durable in their home
  locations and leaves an empty log; and whenever the machine stops during it, after any number of
  its disk writes, booting again with \<open>initlog\<close> recovers a disk that, outside the log, has either
  everything the transaction wrote or nothing of it.\<close>

theorem end_op_crash_atomic:
  fixes s t :: "'a logst_scheme"
  assumes "transaction pid s bs c d" "l_start s = sint ls" "l_dev s \<noteq> 0" "l_outstanding s = 1" "\<not> l_committing s"
  shows "\<exists>s' new. end_op pid s = Inr s' \<and> lh_n s' = 0 \<and> l_outstanding s' = 0 \<and> \<not> l_committing s'
     \<and> (\<forall>b. b \<notin> log_area (sint ls) \<longrightarrow> disk s' b = c b) \<and> written s' = written s @ new
     \<and> (\<forall>k \<le> length new. \<exists>t'. initlog p (l_dev s) ls nlog (reboot (puts (take k new) (disk s)) t) = Inr t'
          \<and> ((\<forall>b. b \<notin> log_area (sint ls) \<longrightarrow> disk t' b = disk s b) \<or> (\<forall>b. b \<notin> log_area (sint ls) \<longrightarrow> disk t' b = c b)))"
proof -
  let ?s = "s\<lparr>l_outstanding := 0, l_committing := True\<rparr>"
  have d: "disk s = d" using at_rest_disk [OF transactionD(1) [OF assms(1)]] .
  have tr: "transaction pid ?s bs c d" "l_start ?s = sint ls" "l_dev ?s \<noteq> 0" using assms by simp_all
  obtain s' new where s': "commit pid ?s = Inr s'" "written s' = written s @ new" "bcache.more s' = bcache.more (?s\<lparr>lh_n := 0\<rparr>)"
      "\<forall>b. b \<notin> log_area (sint ls) \<longrightarrow> disk s' b = c b"
      "\<forall>k \<le> length new. \<exists>t'. initlog p (l_dev s) ls nlog (reboot (puts (take k new) d) t) = Inr t'
          \<and> ((\<forall>b. b \<notin> log_area (sint ls) \<longrightarrow> disk t' b = d b) \<or> (\<forall>b. b \<notin> log_area (sint ls) \<longrightarrow> disk t' b = c b))"
    using commit_crash [OF tr, of p nlog t] by auto
  note m = log_more [OF s'(3)]
  have "end_op pid s = Inr (s'\<lparr>l_committing := False\<rparr>)" using s'(1) assms(4,5) by (simp add: end_op_def)
  then show ?thesis using s' m d by (intro exI [of _ "s'\<lparr>l_committing := False\<rparr>"] exI [of _ new]) simp
qed

text \<open>A freshly booted log at block 2 of device 1, with one system call in progress.\<close>

definition demo_log :: logst where
  "demo_log = (reboot (\<lambda>_. replicate 1024 0)
     \<lparr>bufs = [], disk = (\<lambda>_. []), written = [], l_start = 2, l_size = 30, l_outstanding = 0, l_committing = False,
      l_dev = 1, lh_n = 0, lh_block = []\<rparr>)\<lparr>l_outstanding := 1\<rparr>"

lemma demo_log_transaction:
  "transaction 1 demo_log [] (\<lambda>_. replicate 1024 0) (\<lambda>_. replicate 1024 0)"
  "l_start demo_log = 2" "l_size demo_log = 30" "l_outstanding demo_log = 1" "l_dev demo_log = 1" "\<not> l_committing demo_log"
proof -
  let ?s = "\<lparr>bufs = replicate (Suc NBUF) zero_buf, disk = (\<lambda>_. replicate 1024 0), written = [], l_start = 2, l_size = 30,
      l_outstanding = 0, l_committing = False, l_dev = 1, lh_n = 0, lh_block = replicate LOGSIZE 0\<rparr> :: logst"
  have e: "demo_log = (binit ?s)\<lparr>l_outstanding := 1\<rparr>" by (simp add: demo_log_def reboot_def)
  have b: "bufs ?s = replicate (Suc NBUF) zero_buf" "(1 :: u32) \<noteq> 0" by simp_all
  note m = log_more [OF binit_rep(3) [OF b]]
  show f: "l_start demo_log = 2" "l_size demo_log = 30" "l_outstanding demo_log = 1" "l_dev demo_log = 1" "\<not> l_committing demo_log"
    using m by (simp_all add: e)
  have "at_rest 1 1 demo_log {} (\<lambda>_. replicate 1024 0) (\<lambda>_. replicate 1024 0)"
    unfolding demo_log_def using reboot_at_rest(1) [of 1 1] by simp
  moreover have "get32 (replicate 1024 0) 0 = 0" by (simp add: get32_def nth_replicate del: replicate.simps)
  moreover have "lh_n demo_log = 0" "lh_block demo_log = replicate LOGSIZE 0" using m by (simp_all add: e)
  ultimately show "transaction 1 demo_log [] (\<lambda>_. replicate 1024 0) (\<lambda>_. replicate 1024 0)"
    using f by (simp add: transaction_def LOGSIZE_def del: replicate.simps)
qed

lemma demo_log_area: "(50 :: u32) \<notin> log_area 2" "(60 :: u32) \<notin> log_area 2"
proof -
  have "unat b \<le> 32" if "b \<in> log_area 2" for b
  proof -
    obtain i where i: "i \<le> 30" "b = of_nat (i + 2)" using \<open>b \<in> log_area 2\<close> by (auto simp: log_area_def la_def LOGSIZE_def add.commute)
    show ?thesis unfolding i(2) unat_of_nat using i(1) by simp
  qed
  from this [of 50] this [of 60] show "(50 :: u32) \<notin> log_area 2" "(60 :: u32) \<notin> log_area 2" by auto
qed

text \<open>Reading a block, changing its contents and \<open>log_write\<close> adds the block to the transaction (once,
  however often it is logged) and pins it; the disk is not touched before the commit.\<close>

theorem log_update_extends_transaction:
  fixes s :: "'a logst_scheme"
  assumes "transaction pid s bs c d" "n \<notin> log_area (l_start s)"
    and "int (length bs) < l_size s - 1" "Suc (length bs) < LOGSIZE \<or> n \<in> set bs" "1 \<le> l_outstanding s"
  shows "\<exists>s'. bindE (bread pid (l_dev s) n s) (\<lambda>(b, s). bindE (log_write b (set_data b x s)) (\<lambda>s. brelse pid b s)) = Inr s'
     \<and> transaction pid s' (if n \<in> set bs then bs else bs @ [n]) (c(n := x)) d \<and> written s' = written s \<and> disk s' = disk s"
proof -
  obtain s' where s': "log_update pid n x s = Inr s'" "transaction pid s' (if n \<in> set bs then bs else bs @ [n]) (c(n := x)) d"
      "written s' = written s"
    using log_update_ok [OF assms] by blast
  have "disk s' = disk s"
    using at_rest_disk [OF transactionD(1) [OF s'(2)]] at_rest_disk [OF transactionD(1) [OF assms(1)]] by simp
  then show ?thesis using s' by (intro exI [of _ s'] conjI) (simp_all only: log_update_def)
qed

theorem log_update_extends_transaction_witness:
  "\<exists>s'. bindE (bread 1 1 50 demo_log) (\<lambda>(b, s). bindE (log_write b (set_data b (replicate 1024 7) s)) (\<lambda>s. brelse 1 b s)) = Inr s'
     \<and> transaction 1 s' [50] ((\<lambda>_. replicate 1024 0)(50 := replicate 1024 7)) (\<lambda>_. replicate 1024 0)"
  using log_update_extends_transaction [OF demo_log_transaction(1), of 50 "replicate 1024 7"]
    demo_log_transaction(2-) demo_log_area
  by (auto simp: LOGSIZE_def simp del: replicate.simps)

theorem end_op_crash_atomic_witness:
  "\<exists>(s :: logst) s'. transaction 1 s [50] ((\<lambda>_. replicate 1024 0)(50 := replicate 1024 7)) (\<lambda>_. replicate 1024 0)
     \<and> end_op 1 s = Inr s' \<and> disk s' 50 = replicate 1024 7 \<and> disk s' 60 = replicate 1024 0 \<and> lh_n s' = 0"
proof -
  obtain s :: logst where s: "transaction 1 s [50] ((\<lambda>_. replicate 1024 0)(50 := replicate 1024 7)) (\<lambda>_. replicate 1024 0)"
      "l_outstanding s = 1" "l_start s = 2" "l_dev s = 1" "\<not> l_committing s"
    using log_update_ok [OF demo_log_transaction(1), of 50 "replicate 1024 7"] demo_log_transaction(2-) demo_log_area
    by (auto simp: LOGSIZE_def simp del: replicate.simps)
  have two: "l_start s = sint (2 :: u32)" "sint (2 :: u32) = 2" using s(3) by simp_all
  show ?thesis
    using end_op_crash_atomic [OF s(1) two(1) _ s(2,5), of 1 30 demo_log] s(1,4) demo_log_area
    unfolding two(2) by (auto simp del: replicate.simps)
qed

end
