(* ===== verification/Fs.thy ===== *)
theory Fs
  imports Log Vm
begin

text \<open>
  The file system proper, \<open>kernel/fs.c\<close> (the same file in Projects 2 and 3): block allocation, inodes,
  file contents, directories and path names, on the buffer cache and the log. A pointer to an in-memory
  inode is its index in \<open>itable.inode\<close>; a null result is \<open>None\<close>. \<open>itable.lock\<close> makes the table operations
  atomic. A path is the list of its bytes before the terminating NUL, a name the array of \<open>DIRSIZ\<close> bytes.
  A buffer given to \<open>readi\<close> or \<open>writei\<close> is a user address, a kernel address, or a local variable of the
  caller, whose bytes are \<open>fs_local\<close>. The process id and the current directory are arguments.
\<close>

unbundle bit_operations_syntax

subsection \<open>State\<close>

definition ROOTINO :: u32 where "ROOTINO = 1"
definition ROOTDEV :: u32 where "ROOTDEV = 1"
definition FSMAGIC :: u32 where "FSMAGIC = 0x10203040"
definition NDIRECT :: nat where "NDIRECT = 12"
definition NINDIRECT :: nat where "NINDIRECT = 256"
definition MAXFILE :: nat where "MAXFILE = NDIRECT + NINDIRECT"
definition IPB :: u32 where "IPB = 16"
definition BPB :: nat where "BPB = 8192"
definition DIRSIZ :: nat where "DIRSIZ = 14"
definition NINODE :: nat where "NINODE = 50"
definition T_DIR :: u16 where "T_DIR = 1"
definition T_FILE :: u16 where "T_FILE = 2"
definition T_DEVICE :: u16 where "T_DEVICE = 3"

record superblock =
  sb_magic :: u32
  sb_size :: u32
  sb_nblocks :: u32
  sb_ninodes :: u32
  sb_nlog :: u32
  sb_logstart :: u32
  sb_inodestart :: u32
  sb_bmapstart :: u32
  sb_nswap :: u32
  sb_swapstart :: u32

record inode =
  i_dev :: u32
  i_inum :: u32
  i_ref :: int
  i_lock :: sleeplock
  i_valid :: bool
  i_type :: u16
  i_major :: u16
  i_minor :: u16
  i_nlink :: u16
  i_size :: u32
  i_addrs :: "u32 list"

record fsst = logst +
  sb :: superblock
  itable :: "inode list"
  fs_pagetable :: u64
  fs_mach :: machine
  fs_local :: "u8 list"

datatype place = UserAddr u64 | KernelAddr u64 | Local

definition upd_inode :: "nat \<Rightarrow> (inode \<Rightarrow> inode) \<Rightarrow> 'a fsst_scheme \<Rightarrow> 'a fsst_scheme" where
  "upd_inode ip f s = s\<lparr>itable := (itable s)[ip := f (itable s ! ip)]\<rparr>"

definition IBLOCK :: "u32 \<Rightarrow> 'a fsst_scheme \<Rightarrow> u32" where "IBLOCK i s = i div IPB + sb_inodestart (sb s)"
definition BBLOCK :: "nat \<Rightarrow> 'a fsst_scheme \<Rightarrow> u32" where "BBLOCK b s = of_nat (b div BPB) + sb_bmapstart (sb s)"

subsection \<open>The super block and the free map\<close>

definition readsb :: "int \<Rightarrow> u32 \<Rightarrow> 'a fsst_scheme \<Rightarrow> kerror + 'a fsst_scheme" where
  "readsb pid dev s =
     bindE (bread pid dev 1 s) (\<lambda>(bp, s).
       let d = b_data (bufs s ! bp) in
       brelse pid bp (s\<lparr>sb := \<lparr>sb_magic = get32 d 0, sb_size = get32 d 4, sb_nblocks = get32 d 8, sb_ninodes = get32 d 12,
         sb_nlog = get32 d 16, sb_logstart = get32 d 20, sb_inodestart = get32 d 24, sb_bmapstart = get32 d 28,
         sb_nswap = get32 d 32, sb_swapstart = get32 d 36\<rparr>\<rparr>))"

definition fsinit :: "int \<Rightarrow> u32 \<Rightarrow> 'a fsst_scheme \<Rightarrow> kerror + 'a fsst_scheme" where
  "fsinit pid dev s =
     bindE (readsb pid dev s) (\<lambda>s.
       if sb_magic (sb s) \<noteq> FSMAGIC then Inl (Panic ''invalid file system'')
       else initlog pid dev (sb_logstart (sb s)) (sb_nlog (sb s)) s)"

definition bzero :: "int \<Rightarrow> u32 \<Rightarrow> u32 \<Rightarrow> 'a fsst_scheme \<Rightarrow> kerror + 'a fsst_scheme" where
  "bzero pid dev bno s =
     bindE (bread pid dev bno s) (\<lambda>(bp, s).
       bindE (log_write bp (set_data bp (replicate 1024 0) s)) (\<lambda>s. brelse pid bp s))"

text \<open>Bit \<open>bi\<close> of a block of the free map.\<close>

definition in_use :: "block \<Rightarrow> nat \<Rightarrow> bool" where
  "in_use d bi \<longleftrightarrow> d ! (bi div 8) AND push_bit (bi mod 8) 1 \<noteq> 0"

definition mark_used :: "nat \<Rightarrow> block \<Rightarrow> block" where
  "mark_used bi d = d[bi div 8 := d ! (bi div 8) OR push_bit (bi mod 8) 1]"

definition mark_free :: "nat \<Rightarrow> block \<Rightarrow> block" where
  "mark_free bi d = d[bi div 8 := d ! (bi div 8) AND NOT (push_bit (bi mod 8) 1)]"

fun balloc_from :: "int \<Rightarrow> u32 \<Rightarrow> nat list \<Rightarrow> 'a fsst_scheme \<Rightarrow> kerror + u32 \<times> 'a fsst_scheme" where
  "balloc_from pid dev [] s = Inr (0, s)"
| "balloc_from pid dev (b # bs) s =
     bindE (bread pid dev (BBLOCK b s) s) (\<lambda>(bp, s).
       let d = b_data (bufs s ! bp) in
       case find (\<lambda>bi. \<not> in_use d bi) [0..<min BPB (unat (sb_size (sb s)) - b)] of
         Some bi \<Rightarrow>
           bindE (log_write bp (set_data bp (mark_used bi d) s)) (\<lambda>s.
             bindE (brelse pid bp s) (\<lambda>s.
               bindE (bzero pid dev (of_nat (b + bi)) s) (\<lambda>s. Inr (of_nat (b + bi), s))))
       | None \<Rightarrow> bindE (brelse pid bp s) (\<lambda>s. balloc_from pid dev bs s))"

definition balloc :: "int \<Rightarrow> u32 \<Rightarrow> 'a fsst_scheme \<Rightarrow> kerror + u32 \<times> 'a fsst_scheme" where
  "balloc pid dev s = balloc_from pid dev (map (\<lambda>i. i * BPB) [0..<(unat (sb_size (sb s)) + (BPB - 1)) div BPB]) s"

definition bfree :: "int \<Rightarrow> u32 \<Rightarrow> u32 \<Rightarrow> 'a fsst_scheme \<Rightarrow> kerror + 'a fsst_scheme" where
  "bfree pid dev b s =
     bindE (bread pid dev (BBLOCK (unat b) s) s) (\<lambda>(bp, s).
       let d = b_data (bufs s ! bp); bi = unat b mod BPB in
       if \<not> in_use d bi then Inl (Panic ''freeing free block'')
       else bindE (log_write bp (set_data bp (mark_free bi d) s)) (\<lambda>s. brelse pid bp s))"

subsection \<open>Inodes\<close>

definition get16 :: "block \<Rightarrow> nat \<Rightarrow> u16" where
  "get16 d k = ucast (d ! k) OR push_bit 8 (ucast (d ! (k + 1)))"

definition put16 :: "block \<Rightarrow> nat \<Rightarrow> u16 \<Rightarrow> block" where
  "put16 d k v = d[k := ucast v, k + 1 := ucast (drop_bit 8 v)]"

text \<open>Where \<open>struct dinode\<close> number \<open>inum\<close> starts in its block: 64 bytes each.\<close>

definition dinode_at :: "u32 \<Rightarrow> nat" where "dinode_at inum = unat (inum mod IPB) * 64"

definition load_dinode :: "block \<Rightarrow> nat \<Rightarrow> inode \<Rightarrow> inode" where
  "load_dinode d k ip = ip\<lparr>i_type := get16 d k, i_major := get16 d (k + 2), i_minor := get16 d (k + 4),
     i_nlink := get16 d (k + 6), i_size := get32 d (k + 8), i_addrs := map (\<lambda>j. get32 d (k + 12 + 4 * j)) [0..<NDIRECT + 1]\<rparr>"

definition store_dinode :: "inode \<Rightarrow> nat \<Rightarrow> block \<Rightarrow> block" where
  "store_dinode ip k d = fold (\<lambda>j d. put32 d (k + 12 + 4 * j) (i_addrs ip ! j)) [0..<NDIRECT + 1]
     (put32 (put16 (put16 (put16 (put16 d k (i_type ip)) (k + 2) (i_major ip)) (k + 4) (i_minor ip)) (k + 6) (i_nlink ip))
       (k + 8) (i_size ip))"

definition iinit :: "'a fsst_scheme \<Rightarrow> 'a fsst_scheme" where
  "iinit s = s\<lparr>itable := map (\<lambda>ip. ip\<lparr>i_lock := initsleeplock\<rparr>) (itable s)\<rparr>"

text \<open>\<open>iget\<close>: the first loop index that holds the inode, and the first empty one before it.\<close>

definition iget :: "u32 \<Rightarrow> u32 \<Rightarrow> 'a fsst_scheme \<Rightarrow> kerror + nat \<times> 'a fsst_scheme" where
  "iget dev inum s =
     (case find (\<lambda>i. 0 < i_ref (itable s ! i) \<and> i_dev (itable s ! i) = dev \<and> i_inum (itable s ! i) = inum) [0..<NINODE] of
        Some i \<Rightarrow> Inr (i, upd_inode i (\<lambda>ip. ip\<lparr>i_ref := i_ref ip + 1\<rparr>) s)
      | None \<Rightarrow>
          (case find (\<lambda>i. i_ref (itable s ! i) = 0) [0..<NINODE] of
             None \<Rightarrow> Inl (Panic ''iget: no inodes'')
           | Some i \<Rightarrow> Inr (i, upd_inode i (\<lambda>ip. ip\<lparr>i_dev := dev, i_inum := inum, i_ref := 1, i_valid := False\<rparr>) s)))"

fun ialloc_from :: "int \<Rightarrow> u32 \<Rightarrow> u16 \<Rightarrow> nat list \<Rightarrow> 'a fsst_scheme \<Rightarrow> kerror + nat option \<times> 'a fsst_scheme" where
  "ialloc_from pid dev type [] s = Inr (None, s)"
| "ialloc_from pid dev type (n # ns) s =
     (let inum = of_nat n in
      bindE (bread pid dev (IBLOCK inum s) s) (\<lambda>(bp, s).
        let d = b_data (bufs s ! bp); k = dinode_at inum in
        if get16 d k = 0
        then bindE (log_write bp (set_data bp (put16 (fold (\<lambda>j d. d[k + j := 0]) [0..<64] d) k type) s)) (\<lambda>s.
          bindE (brelse pid bp s) (\<lambda>s. bindE (iget dev inum s) (\<lambda>(ip, s). Inr (Some ip, s))))
        else bindE (brelse pid bp s) (\<lambda>s. ialloc_from pid dev type ns s)))"

definition ialloc :: "int \<Rightarrow> u32 \<Rightarrow> u16 \<Rightarrow> 'a fsst_scheme \<Rightarrow> kerror + nat option \<times> 'a fsst_scheme" where
  "ialloc pid dev type s = ialloc_from pid dev type [1..<unat (sb_ninodes (sb s))] s"

definition iupdate :: "int \<Rightarrow> nat \<Rightarrow> 'a fsst_scheme \<Rightarrow> kerror + 'a fsst_scheme" where
  "iupdate pid ip s =
     bindE (bread pid (i_dev (itable s ! ip)) (IBLOCK (i_inum (itable s ! ip)) s) s) (\<lambda>(bp, s).
       let i = itable s ! ip; d = store_dinode i (dinode_at (i_inum i)) (b_data (bufs s ! bp)) in
       bindE (log_write bp (set_data bp d s)) (\<lambda>s. brelse pid bp s))"

definition idup :: "nat \<Rightarrow> 'a fsst_scheme \<Rightarrow> 'a fsst_scheme" where
  "idup ip s = upd_inode ip (\<lambda>i. i\<lparr>i_ref := i_ref i + 1\<rparr>) s"

definition ilock :: "int \<Rightarrow> nat \<Rightarrow> 'a fsst_scheme \<Rightarrow> kerror + 'a fsst_scheme" where
  "ilock pid ip s =
     (if i_ref (itable s ! ip) < 1 then Inl (Panic ''ilock'')
      else bindE (acquiresleep pid (i_lock (itable s ! ip))) (\<lambda>lk.
        let s = upd_inode ip (\<lambda>i. i\<lparr>i_lock := lk\<rparr>) s; i = itable s ! ip in
        if \<not> i_valid i
        then bindE (bread pid (i_dev i) (IBLOCK (i_inum i) s) s) (\<lambda>(bp, s).
          let d = b_data (bufs s ! bp); s = upd_inode ip (load_dinode d (dinode_at (i_inum i))) s in
          bindE (brelse pid bp s) (\<lambda>s.
            let s = upd_inode ip (\<lambda>i. i\<lparr>i_valid := True\<rparr>) s in
            if i_type (itable s ! ip) = 0 then Inl (Panic ''ilock: no type'') else Inr s))
        else Inr s))"

definition iunlock :: "int \<Rightarrow> nat \<Rightarrow> 'a fsst_scheme \<Rightarrow> kerror + 'a fsst_scheme" where
  "iunlock pid ip s =
     (if \<not> holdingsleep pid (i_lock (itable s ! ip)) \<or> i_ref (itable s ! ip) < 1 then Inl (Panic ''iunlock'')
      else Inr (upd_inode ip (\<lambda>i. i\<lparr>i_lock := releasesleep (i_lock i)\<rparr>) s))"

subsection \<open>The blocks of a file\<close>

definition bmap_direct :: "int \<Rightarrow> nat \<Rightarrow> nat \<Rightarrow> 'a fsst_scheme \<Rightarrow> kerror + u32 \<times> 'a fsst_scheme" where
  "bmap_direct pid ip bn s =
     (let addr = i_addrs (itable s ! ip) ! bn in
      if addr = 0
      then bindE (balloc pid (i_dev (itable s ! ip)) s) (\<lambda>(addr, s).
        if addr = 0 then Inr (0, s) else Inr (addr, upd_inode ip (\<lambda>i. i\<lparr>i_addrs := (i_addrs i)[bn := addr]\<rparr>) s))
      else Inr (addr, s))"

definition bmap :: "int \<Rightarrow> nat \<Rightarrow> u32 \<Rightarrow> 'a fsst_scheme \<Rightarrow> kerror + u32 \<times> 'a fsst_scheme" where
  "bmap pid ip bn0 s =
     (if unat bn0 < NDIRECT then bmap_direct pid ip (unat bn0) s
      else let bn = unat bn0 - NDIRECT in
        if bn < NINDIRECT
        then bindE (bmap_direct pid ip NDIRECT s) (\<lambda>(addr, s).
          if addr = 0 then Inr (0, s)
          else let dev = i_dev (itable s ! ip) in
            bindE (bread pid dev addr s) (\<lambda>(bp, s).
              let addr = get32 (b_data (bufs s ! bp)) (4 * bn) in
              bindE (if addr = 0
                     then bindE (balloc pid dev s) (\<lambda>(addr, s).
                       if addr \<noteq> 0
                       then bindE (log_write bp (set_data bp (put32 (b_data (bufs s ! bp)) (4 * bn) addr) s)) (\<lambda>s. Inr (addr, s))
                       else Inr (addr, s))
                     else Inr (addr, s)) (\<lambda>(addr, s).
                bindE (brelse pid bp s) (\<lambda>s. Inr (addr, s)))))
        else Inl (Panic ''bmap: out of range''))"

definition itrunc :: "int \<Rightarrow> nat \<Rightarrow> 'a fsst_scheme \<Rightarrow> kerror + 'a fsst_scheme" where
  "itrunc pid ip s =
     bindE (foldE (\<lambda>i s. let a = i_addrs (itable s ! ip) ! i in
         if a \<noteq> 0
         then bindE (bfree pid (i_dev (itable s ! ip)) a s) (\<lambda>s. Inr (upd_inode ip (\<lambda>x. x\<lparr>i_addrs := (i_addrs x)[i := 0]\<rparr>) s))
         else Inr s) [0..<NDIRECT] s) (\<lambda>s.
       bindE (let a = i_addrs (itable s ! ip) ! NDIRECT; dev = i_dev (itable s ! ip) in
              if a \<noteq> 0
              then bindE (bread pid dev a s) (\<lambda>(bp, s).
                bindE (foldE (\<lambda>j s. let e = get32 (b_data (bufs s ! bp)) (4 * j) in
                    if e \<noteq> 0 then bfree pid dev e s else Inr s) [0..<NINDIRECT] s) (\<lambda>s.
                  bindE (brelse pid bp s) (\<lambda>s.
                    bindE (bfree pid dev a s) (\<lambda>s.
                      Inr (upd_inode ip (\<lambda>x. x\<lparr>i_addrs := (i_addrs x)[NDIRECT := 0]\<rparr>) s)))))
              else Inr s) (\<lambda>s.
         iupdate pid ip (upd_inode ip (\<lambda>x. x\<lparr>i_size := 0\<rparr>) s)))"

definition iput :: "int \<Rightarrow> nat \<Rightarrow> 'a fsst_scheme \<Rightarrow> kerror + 'a fsst_scheme" where
  "iput pid ip s =
     (let i = itable s ! ip in
      bindE (if i_ref i = 1 \<and> i_valid i \<and> i_nlink i = 0
             then bindE (acquiresleep pid (i_lock i)) (\<lambda>lk.
               bindE (itrunc pid ip (upd_inode ip (\<lambda>x. x\<lparr>i_lock := lk\<rparr>) s)) (\<lambda>s.
                 bindE (iupdate pid ip (upd_inode ip (\<lambda>x. x\<lparr>i_type := 0\<rparr>) s)) (\<lambda>s.
                   Inr (upd_inode ip (\<lambda>x. x\<lparr>i_valid := False, i_lock := releasesleep (i_lock x)\<rparr>) s))))
             else Inr s) (\<lambda>s.
        Inr (upd_inode ip (\<lambda>x. x\<lparr>i_ref := i_ref x - 1\<rparr>) s)))"

definition iunlockput :: "int \<Rightarrow> nat \<Rightarrow> 'a fsst_scheme \<Rightarrow> kerror + 'a fsst_scheme" where
  "iunlockput pid ip s = bindE (iunlock pid ip s) (\<lambda>s. iput pid ip s)"

record stat =
  st_dev :: u32
  st_ino :: u32
  st_type :: u16
  st_nlink :: u16
  st_size :: u64

definition stati :: "nat \<Rightarrow> 'a fsst_scheme \<Rightarrow> stat" where
  "stati ip s = (let i = itable s ! ip in
     \<lparr>st_dev = i_dev i, st_ino = i_inum i, st_type = i_type i, st_nlink = i_nlink i, st_size = ucast (i_size i)\<rparr>)"

subsection \<open>Reading and writing\<close>

text \<open>\<open>copyout\<close> and \<open>copyin\<close> of \<open>vm.c\<close> with a disk buffer at the kernel end.\<close>

function copyout_data :: "u64 \<Rightarrow> u64 \<Rightarrow> u8 list \<Rightarrow> 'a machine_scheme \<Rightarrow> kerror + int \<times> 'a machine_scheme" where
  "copyout_data pagetable dstva bs s =
     (if bs \<noteq> []
      then let va0 = PGROUNDDOWN dstva in
        bindE (walkaddr pagetable va0 s) (\<lambda>pa0.
          if pa0 = 0 then Inr (- 1, s)
          else let n = min (length bs) (4096 - unat (dstva - va0)) in
            copyout_data pagetable (va0 + PGSIZE) (drop n bs)
              (s\<lparr>pmem := put_bytes (pmem s) (pa0 + (dstva - va0)) (take n bs)\<rparr>))
      else Inr (0, s))"
  by pat_completeness auto
termination by (relation "measure (\<lambda>(pt, d, bs, s). length bs)") (auto simp: unat_page_offset_of)

declare copyout_data.simps [simp del]

function copyin_data :: "u64 \<Rightarrow> u64 \<Rightarrow> u64 \<Rightarrow> 'a machine_scheme \<Rightarrow> kerror + int \<times> u8 list" where
  "copyin_data pagetable srcva len s =
     (if 0 < len
      then let va0 = PGROUNDDOWN srcva in
        bindE (walkaddr pagetable va0 s) (\<lambda>pa0.
          if pa0 = 0 then Inr (- 1, [])
          else let n = chunk srcva len in
            bindE (copyin_data pagetable (va0 + PGSIZE) (len - n) s) (\<lambda>(r, bs).
              Inr (r, bytes_at (pmem s) (pa0 + (srcva - va0)) (unat n) @ bs)))
      else Inr (0, []))"
  by pat_completeness auto
termination
proof (relation "measure (\<lambda>(pt, src, len, s). unat len)", goal_cases)
  case (2 pt srcva len s va0 pa0 n)
  then show ?case using chunk_positive [of len srcva] by (simp add: unat_sub64)
qed simp

declare copyin_data.simps [simp del]

definition patch :: "nat \<Rightarrow> u8 list \<Rightarrow> u8 list \<Rightarrow> u8 list" where
  "patch k bs d = take k d @ bs @ drop (k + length bs) d"

definition either_copyout :: "place \<Rightarrow> nat \<Rightarrow> u8 list \<Rightarrow> 'a fsst_scheme \<Rightarrow> kerror + int \<times> 'a fsst_scheme" where
  "either_copyout dst tot bs s =
     (case dst of
        UserAddr a \<Rightarrow> bindE (copyout_data (fs_pagetable s) (a + of_nat tot) bs (fs_mach s)) (\<lambda>(r, m). Inr (r, s\<lparr>fs_mach := m\<rparr>))
      | KernelAddr a \<Rightarrow> Inr (0, s\<lparr>fs_mach := (fs_mach s)\<lparr>pmem := put_bytes (pmem (fs_mach s)) (a + of_nat tot) bs\<rparr>\<rparr>)
      | Local \<Rightarrow> Inr (0, s\<lparr>fs_local := patch tot bs (fs_local s)\<rparr>))"

definition either_copyin :: "place \<Rightarrow> nat \<Rightarrow> nat \<Rightarrow> 'a fsst_scheme \<Rightarrow> kerror + int \<times> u8 list" where
  "either_copyin src tot m s =
     (case src of
        UserAddr a \<Rightarrow> copyin_data (fs_pagetable s) (a + of_nat tot) (of_nat m) (fs_mach s)
      | KernelAddr a \<Rightarrow> Inr (0, bytes_at (pmem (fs_mach s)) (a + of_nat tot) m)
      | Local \<Rightarrow> Inr (0, take m (drop tot (fs_local s))))"

text \<open>How many bytes of a request the current block holds.\<close>

definition in_block :: "u32 \<Rightarrow> u32 \<Rightarrow> u32" where
  "in_block off left = min left (1024 - off mod 1024)"

lemma in_block_pos:
  assumes "tot < n"
  shows "unat (n - (tot + in_block off (n - tot))) < unat (n - tot)"
proof -
  have m: "unat (off mod 1024) < 1024" by (simp add: unat_mod_distrib)
  then have "unat (1024 - off mod 1024) = unat (1024::u32) - unat (off mod 1024)" by (intro unat_sub) (simp add: word_le_nat_alt)
  moreover have nt: "unat (n - tot) = unat n - unat tot" "unat tot < unat n"
    using assms by (auto intro: unat_sub simp: word_less_nat_alt word_le_nat_alt)
  ultimately have b: "0 < unat (in_block off (n - tot))" "unat (in_block off (n - tot)) \<le> unat (n - tot)"
    using m by (auto simp: in_block_def min_def word_le_nat_alt)
  have "n - (tot + in_block off (n - tot)) = (n - tot) - in_block off (n - tot)" by simp
  then have "unat (n - (tot + in_block off (n - tot))) = unat (n - tot) - unat (in_block off (n - tot))"
    using b(2) by (simp only:) (intro unat_sub, simp add: word_le_nat_alt)
  then show ?thesis using b by simp
qed

function readi_from :: "int \<Rightarrow> nat \<Rightarrow> place \<Rightarrow> u32 \<Rightarrow> u32 \<Rightarrow> u32 \<Rightarrow> 'a fsst_scheme \<Rightarrow> kerror + int \<times> 'a fsst_scheme" where
  "readi_from pid ip dst off n tot s =
     (if tot < n
      then bindE (bmap pid ip (off div 1024) s) (\<lambda>(addr, s).
        if addr = 0 then Inr (sint tot, s)
        else bindE (bread pid (i_dev (itable s ! ip)) addr s) (\<lambda>(bp, s).
          let m = in_block off (n - tot) in
          bindE (either_copyout dst (unat tot) (take (unat m) (drop (unat (off mod 1024)) (b_data (bufs s ! bp)))) s) (\<lambda>(r, s).
            bindE (brelse pid bp s) (\<lambda>s.
              if r = - 1 then Inr (- 1, s) else readi_from pid ip dst (off + m) n (tot + m) s))))
      else Inr (sint tot, s))"
  by pat_completeness auto
termination by (relation "measure (\<lambda>(pid, ip, dst, off, n, tot, s). unat (n - tot))") (auto intro: in_block_pos)

declare readi_from.simps [simp del]

definition readi :: "int \<Rightarrow> nat \<Rightarrow> place \<Rightarrow> u32 \<Rightarrow> u32 \<Rightarrow> 'a fsst_scheme \<Rightarrow> kerror + int \<times> 'a fsst_scheme" where
  "readi pid ip dst off n s =
     (let sz = i_size (itable s ! ip) in
      if sz < off \<or> off + n < off then Inr (0, s)
      else readi_from pid ip dst off (if sz < off + n then sz - off else n) 0 s)"

text \<open>The loop of \<open>writei\<close> returns the offset it stopped at and the bytes written.\<close>

function writei_from :: "int \<Rightarrow> nat \<Rightarrow> place \<Rightarrow> u32 \<Rightarrow> u32 \<Rightarrow> u32 \<Rightarrow> 'a fsst_scheme \<Rightarrow> kerror + u32 \<times> u32 \<times> 'a fsst_scheme" where
  "writei_from pid ip src off n tot s =
     (if tot < n
      then bindE (bmap pid ip (off div 1024) s) (\<lambda>(addr, s).
        if addr = 0 then Inr (off, tot, s)
        else bindE (bread pid (i_dev (itable s ! ip)) addr s) (\<lambda>(bp, s).
          let m = in_block off (n - tot) in
          bindE (either_copyin src (unat tot) (unat m) s) (\<lambda>(r, bs).
            let s = set_data bp (patch (unat (off mod 1024)) bs (b_data (bufs s ! bp))) s in
            if r = - 1 then bindE (brelse pid bp s) (\<lambda>s. Inr (off, tot, s))
            else bindE (log_write bp s) (\<lambda>s.
              bindE (brelse pid bp s) (\<lambda>s. writei_from pid ip src (off + m) n (tot + m) s)))))
      else Inr (off, tot, s))"
  by pat_completeness auto
termination by (relation "measure (\<lambda>(pid, ip, src, off, n, tot, s). unat (n - tot))") (auto intro: in_block_pos)

declare writei_from.simps [simp del]

definition writei :: "int \<Rightarrow> nat \<Rightarrow> place \<Rightarrow> u32 \<Rightarrow> u32 \<Rightarrow> 'a fsst_scheme \<Rightarrow> kerror + int \<times> 'a fsst_scheme" where
  "writei pid ip src off n s =
     (if i_size (itable s ! ip) < off \<or> off + n < off then Inr (- 1, s)
      else if of_nat (MAXFILE * 1024) < off + n then Inr (- 1, s)
      else bindE (writei_from pid ip src off n 0 s) (\<lambda>(off, tot, s).
        let s = (if i_size (itable s ! ip) < off then upd_inode ip (\<lambda>i. i\<lparr>i_size := off\<rparr>) s else s) in
        bindE (iupdate pid ip s) (\<lambda>s. Inr (sint tot, s))))"

subsection \<open>Directories\<close>

text \<open>\<open>strncmp\<close> on strings that end with their list or at a NUL.\<close>

fun namecmp_from :: "nat \<Rightarrow> u8 list \<Rightarrow> u8 list \<Rightarrow> int" where
  "namecmp_from 0 p q = 0"
| "namecmp_from (Suc n) p q =
     (let a = (if p = [] then 0 else hd p); b = (if q = [] then 0 else hd q) in
      if a \<noteq> 0 \<and> a = b then namecmp_from n (tl p) (tl q) else uint a - uint b)"

definition namecmp :: "u8 list \<Rightarrow> u8 list \<Rightarrow> int" where
  "namecmp s t = namecmp_from DIRSIZ s t"

text \<open>\<open>struct dirent\<close>: a 16-bit inode number and the name.\<close>

definition de_inum :: "u8 list \<Rightarrow> u16" where "de_inum de = get16 de 0"
definition de_name :: "u8 list \<Rightarrow> u8 list" where "de_name de = take DIRSIZ (drop 2 de)"

definition offsets :: "u32 \<Rightarrow> u32 list" where
  "offsets sz = map (\<lambda>i. of_nat (16 * i)) [0..<(unat sz + 15) div 16]"

fun dirlookup_from :: "int \<Rightarrow> nat \<Rightarrow> u8 list \<Rightarrow> u32 list \<Rightarrow> 'a fsst_scheme \<Rightarrow> kerror + (nat \<times> u32) option \<times> 'a fsst_scheme" where
  "dirlookup_from pid dp name [] s = Inr (None, s)"
| "dirlookup_from pid dp name (off # offs) s =
     bindE (readi pid dp Local off 16 s) (\<lambda>(r, s).
       if r \<noteq> 16 then Inl (Panic ''dirlookup read'')
       else let de = fs_local s in
         if de_inum de = 0 then dirlookup_from pid dp name offs s
         else if namecmp name (de_name de) = 0
         then bindE (iget (i_dev (itable s ! dp)) (ucast (de_inum de)) s) (\<lambda>(ip, s). Inr (Some (ip, off), s))
         else dirlookup_from pid dp name offs s)"

definition dirlookup :: "int \<Rightarrow> nat \<Rightarrow> u8 list \<Rightarrow> 'a fsst_scheme \<Rightarrow> kerror + (nat \<times> u32) option \<times> 'a fsst_scheme" where
  "dirlookup pid dp name s =
     (if i_type (itable s ! dp) \<noteq> T_DIR then Inl (Panic ''dirlookup not DIR'')
      else dirlookup_from pid dp name (offsets (i_size (itable s ! dp))) (s\<lparr>fs_local := replicate 16 0\<rparr>))"

fun dirlink_slot :: "int \<Rightarrow> nat \<Rightarrow> u32 list \<Rightarrow> u32 \<Rightarrow> 'a fsst_scheme \<Rightarrow> kerror + u32 \<times> 'a fsst_scheme" where
  "dirlink_slot pid dp [] last_off s = Inr (last_off, s)"
| "dirlink_slot pid dp (off # offs) last_off s =
     bindE (readi pid dp Local off 16 s) (\<lambda>(r, s).
       if r \<noteq> 16 then Inl (Panic ''dirlink read'')
       else if de_inum (fs_local s) = 0 then Inr (off, s) else dirlink_slot pid dp offs (off + 16) s)"

definition dirlink :: "int \<Rightarrow> nat \<Rightarrow> u8 list \<Rightarrow> u32 \<Rightarrow> 'a fsst_scheme \<Rightarrow> kerror + int \<times> 'a fsst_scheme" where
  "dirlink pid dp name inum s =
     bindE (dirlookup pid dp name s) (\<lambda>(found, s).
       case found of
         Some (ip, _) \<Rightarrow> bindE (iput pid ip s) (\<lambda>s. Inr (- 1, s))
       | None \<Rightarrow>
           bindE (dirlink_slot pid dp (offsets (i_size (itable s ! dp))) 0 (s\<lparr>fs_local := replicate 16 0\<rparr>)) (\<lambda>(off, s).
             let de = put16 (replicate 2 0 @ take DIRSIZ (takeWhile (\<lambda>b. b \<noteq> 0) name @ replicate DIRSIZ 0)) 0 (ucast inum) in
             bindE (writei pid dp Local off 16 (s\<lparr>fs_local := de\<rparr>)) (\<lambda>(r, s).
               Inr (if r \<noteq> 16 then - 1 else 0, s))))"

subsection \<open>Path names\<close>

definition SLASH :: u8 where "SLASH = 47"

text \<open>The rest of the path after its first element, and the element in the array \<open>name\<close>.\<close>

definition skipelem :: "u8 list \<Rightarrow> u8 list \<Rightarrow> (u8 list \<times> u8 list) option" where
  "skipelem path name =
     (let path = dropWhile (\<lambda>b. b = SLASH) path in
      if path = [] then None
      else let elem = takeWhile (\<lambda>b. b \<noteq> SLASH) path; len = length elem;
               name = (if DIRSIZ \<le> len then take DIRSIZ elem else (patch 0 elem name)[len := 0]) in
        Some (dropWhile (\<lambda>b. b = SLASH) (drop len path), name))"

lemma skipelem_shorter: "skipelem path name = Some (rest, nm) \<Longrightarrow> length rest < length path"
proof -
  assume s: "skipelem path name = Some (rest, nm)"
  let ?p = "dropWhile (\<lambda>b. b = SLASH) path"
  have p: "?p \<noteq> []" "hd ?p \<noteq> SLASH" using s hd_dropWhile [of "\<lambda>b. b = SLASH" path]
    by (auto simp: skipelem_def Let_def split: if_splits)
  then have "0 < length (takeWhile (\<lambda>b. b \<noteq> SLASH) ?p)" by (cases ?p) auto
  moreover have "length rest \<le> length ?p - length (takeWhile (\<lambda>b. b \<noteq> SLASH) ?p)"
    using s length_dropWhile_le [of "\<lambda>b. b = SLASH" "drop (length (takeWhile (\<lambda>b. b \<noteq> SLASH) ?p)) ?p"]
    by (auto simp: skipelem_def Let_def split: if_splits)
  moreover have "length ?p \<le> length path" "0 < length ?p" using p(1) by (simp_all add: length_dropWhile_le)
  ultimately show ?thesis by linarith
qed

function namex_from :: "int \<Rightarrow> bool \<Rightarrow> nat \<Rightarrow> u8 list \<Rightarrow> u8 list \<Rightarrow> 'a fsst_scheme
    \<Rightarrow> kerror + nat option \<times> u8 list \<times> 'a fsst_scheme" where
  "namex_from pid nameiparent ip path name s =
     (case skipelem path name of
        None \<Rightarrow> if nameiparent then bindE (iput pid ip s) (\<lambda>s. Inr (None, name, s)) else Inr (Some ip, name, s)
      | Some (path', name') \<Rightarrow>
          bindE (ilock pid ip s) (\<lambda>s.
            if i_type (itable s ! ip) \<noteq> T_DIR then bindE (iunlockput pid ip s) (\<lambda>s. Inr (None, name', s))
            else if nameiparent \<and> path' = [] then bindE (iunlock pid ip s) (\<lambda>s. Inr (Some ip, name', s))
            else bindE (dirlookup pid ip name' s) (\<lambda>(next, s).
              bindE (iunlockput pid ip s) (\<lambda>s.
                case next of None \<Rightarrow> Inr (None, name', s)
                | Some (nx, _) \<Rightarrow> namex_from pid nameiparent nx path' name' s))))"
  by pat_completeness auto
termination by (relation "measure (\<lambda>(pid, np, ip, path, name, s). length path)") (auto dest: skipelem_shorter)

declare namex_from.simps [simp del]

definition namex :: "int \<Rightarrow> nat \<Rightarrow> u8 list \<Rightarrow> bool \<Rightarrow> u8 list \<Rightarrow> 'a fsst_scheme \<Rightarrow> kerror + nat option \<times> u8 list \<times> 'a fsst_scheme" where
  "namex pid cwd path nameiparent name s =
     bindE (if path \<noteq> [] \<and> hd path = SLASH then iget ROOTDEV ROOTINO s else Inr (cwd, idup cwd s)) (\<lambda>(ip, s).
       namex_from pid nameiparent ip path name s)"

definition namei :: "int \<Rightarrow> nat \<Rightarrow> u8 list \<Rightarrow> 'a fsst_scheme \<Rightarrow> kerror + nat option \<times> 'a fsst_scheme" where
  "namei pid cwd path s = bindE (namex pid cwd path False (replicate DIRSIZ 0) s) (\<lambda>(r, _, s). Inr (r, s))"

definition nameiparent :: "int \<Rightarrow> nat \<Rightarrow> u8 list \<Rightarrow> u8 list \<Rightarrow> 'a fsst_scheme \<Rightarrow> kerror + nat option \<times> u8 list \<times> 'a fsst_scheme" where
  "nameiparent pid cwd path name s = namex pid cwd path True name s"

subsection \<open>Names\<close>

text \<open>The string a name array or a directory entry stands for.\<close>

definition name_str :: "u8 list \<Rightarrow> u8 list" where
  "name_str b = takeWhile (\<lambda>x. x \<noteq> 0) (take DIRSIZ b)"

lemma namecmp_from_0:
  "namecmp_from n p q = 0 \<longleftrightarrow> takeWhile (\<lambda>x. x \<noteq> 0) (take n p) = takeWhile (\<lambda>x. x \<noteq> 0) (take n q)"
proof (induction n arbitrary: p q)
  case (Suc n)
  show ?case using Suc.IH [of "tl p" "tl q"] by (cases p; cases q) (auto simp: Let_def uint_0_iff word_uint_eq_iff [symmetric])
qed simp

lemma namecmp_0: "namecmp p q = 0 \<longleftrightarrow> name_str p = name_str q"
  by (simp add: namecmp_def namecmp_from_0 name_str_def)

lemma name_str_idem [simp]: "name_str (name_str b) = name_str b"
proof -
  have "length (name_str b) \<le> DIRSIZ"
    using length_takeWhile_le [of "\<lambda>x. x \<noteq> 0" "take DIRSIZ b"] by (simp add: name_str_def)
  then show ?thesis by (simp add: name_str_def)
qed

lemma dirlookup_cong:
  fixes s :: "'a fsst_scheme"
  assumes e: "name_str p = name_str q"
  shows "dirlookup pid dp p s = dirlookup pid dp q s"
proof -
  have "dirlookup_from pid dp p offs s = dirlookup_from pid dp q offs s" for offs and s :: "'a fsst_scheme"
    by (induction offs arbitrary: s) (auto simp: namecmp_0 e Let_def bindE_def split: sum.splits)
  then show ?thesis by (simp add: dirlookup_def)
qed

subsection \<open>Elements of a path\<close>

text \<open>The reference: split at every slash, drop the empty pieces.\<close>

fun split_path :: "u8 list \<Rightarrow> u8 list list" where
  "split_path [] = [[]]"
| "split_path (b # bs) = (if b = SLASH then [] # split_path bs else (b # hd (split_path bs)) # tl (split_path bs))"

definition path_elements :: "u8 list \<Rightarrow> u8 list list" where
  "path_elements path = filter (\<lambda>e. e \<noteq> []) (split_path path)"

lemma split_path_ne [simp]: "split_path p \<noteq> []"
  by (cases p) auto

lemma split_path_element:
  "split_path p = takeWhile (\<lambda>b. b \<noteq> SLASH) p #
     (case dropWhile (\<lambda>b. b \<noteq> SLASH) p of [] \<Rightarrow> [] | _ # q \<Rightarrow> split_path q)"
  by (induction p) auto

lemma path_elements_slashes: "path_elements (dropWhile (\<lambda>b. b = SLASH) p) = path_elements p"
  by (induction p) (auto simp: path_elements_def)

lemma path_elements_Nil: "path_elements [] = []"
  by (simp add: path_elements_def)

lemma path_elements_Cons:
  assumes "p \<noteq> []" "hd p \<noteq> SLASH"
  shows "path_elements p = takeWhile (\<lambda>b. b \<noteq> SLASH) p # path_elements (dropWhile (\<lambda>b. b \<noteq> SLASH) p)"
proof -
  have "takeWhile (\<lambda>b. b \<noteq> SLASH) p \<noteq> []" using assms by (cases p) auto
  moreover have "(case dropWhile (\<lambda>b. b \<noteq> SLASH) p of [] \<Rightarrow> [] | _ # q \<Rightarrow> filter (\<lambda>e. e \<noteq> []) (split_path q))
      = path_elements (dropWhile (\<lambda>b. b \<noteq> SLASH) p)"
    using hd_dropWhile [of "\<lambda>b. b \<noteq> SLASH" p]
    by (cases "dropWhile (\<lambda>b. b \<noteq> SLASH) p") (auto simp: path_elements_def simp del: dropWhile_eq_Nil_conv)
  moreover have "path_elements p = filter (\<lambda>e. e \<noteq> []) (takeWhile (\<lambda>b. b \<noteq> SLASH) p #
     (case dropWhile (\<lambda>b. b \<noteq> SLASH) p of [] \<Rightarrow> [] | _ # q \<Rightarrow> split_path q))"
    by (simp only: path_elements_def split_path_element [symmetric])
  ultimately show ?thesis
    by (cases "dropWhile (\<lambda>b. b \<noteq> SLASH) p") (simp_all del: dropWhile_eq_Nil_conv)
qed

lemma name_of_element:
  assumes "length name = DIRSIZ" "0 \<notin> set e"
  shows "name_str (if DIRSIZ \<le> length e then take DIRSIZ e else (patch 0 e name)[length e := 0]) = take DIRSIZ e"
proof (cases "DIRSIZ \<le> length e")
  case True
  then show ?thesis using assms(2) by (auto simp: name_str_def takeWhile_eq_all_conv dest: in_set_takeD)
next
  case False
  then have "drop (length e) name \<noteq> []" using assms(1) by simp
  then obtain x r where r: "drop (length e) name = x # r" by (cases "drop (length e) name") auto
  then have "(patch 0 e name)[length e := 0] = e @ 0 # r" by (simp add: patch_def list_update_append)
  then have "name_str ((patch 0 e name)[length e := 0]) = takeWhile (\<lambda>x. x \<noteq> 0) (e @ take (DIRSIZ - length e) (0 # r))"
    using False by (simp add: name_str_def)
  also have "\<dots> = e" using assms(2) False by (cases "DIRSIZ - length e") (auto simp: takeWhile_append)
  finally show ?thesis using False by simp
qed

lemma skipelem_elements:
  assumes "0 \<notin> set path" "length name = DIRSIZ"
  shows "case skipelem path name of
       None \<Rightarrow> path_elements path = []
     | Some (rest, nm) \<Rightarrow> (\<exists>e. path_elements path = e # path_elements rest \<and> name_str nm = take DIRSIZ e)
         \<and> length nm = DIRSIZ \<and> set rest \<subseteq> set path \<and> (rest = [] \<longleftrightarrow> path_elements rest = [])"
proof -
  let ?p = "dropWhile (\<lambda>b. b = SLASH) path"
  show ?thesis
  proof (cases "?p = []")
    case True
    then have "path_elements path = []" using path_elements_slashes [of path] path_elements_Nil by metis
    then show ?thesis using True by (simp add: skipelem_def)
  next
    case False
    define e where "e = takeWhile (\<lambda>b. b \<noteq> SLASH) ?p"
    define rest where "rest = dropWhile (\<lambda>b. b = SLASH) (drop (length e) ?p)"
    define nm where "nm = (if DIRSIZ \<le> length e then take DIRSIZ e else (patch 0 e name)[length e := 0])"
    have hd: "hd ?p \<noteq> SLASH" using hd_dropWhile [OF False] by simp
    have dw: "drop (length e) ?p = dropWhile (\<lambda>b. b \<noteq> SLASH) ?p" by (simp only: e_def dropWhile_eq_drop)
    have k: "skipelem path name = Some (rest, nm)" using False by (simp add: skipelem_def Let_def rest_def nm_def e_def)
    have "path_elements path = e # path_elements rest"
      unfolding rest_def path_elements_slashes dw using path_elements_Cons [OF False hd]
      by (simp add: path_elements_slashes e_def)
    moreover have "0 \<notin> set e" using assms(1) by (auto simp: e_def dest!: set_takeWhileD set_dropWhileD)
    then have "name_str nm = take DIRSIZ e" unfolding nm_def by (rule name_of_element [OF assms(2)])
    moreover have "length nm = DIRSIZ" using assms(2) by (simp add: nm_def patch_def)
    moreover have "set rest \<subseteq> set path" by (auto simp: rest_def dest!: set_dropWhileD in_set_dropD)
    moreover have "path_elements rest \<noteq> []" if "rest \<noteq> []"
      using path_elements_Cons [OF that] hd_dropWhile [OF that [unfolded rest_def]] by (simp add: rest_def)
    ultimately show ?thesis using k path_elements_Nil by auto
  qed
qed

text \<open>Walking a list of names from a directory: each inode but the last is locked, must be a directory,
  and is released once the next one is found.\<close>

fun resolve :: "int \<Rightarrow> nat \<Rightarrow> u8 list list \<Rightarrow> 'a fsst_scheme \<Rightarrow> kerror + nat option \<times> 'a fsst_scheme" where
  "resolve pid ip [] s = Inr (Some ip, s)"
| "resolve pid ip (e # es) s =
     bindE (ilock pid ip s) (\<lambda>s.
       if i_type (itable s ! ip) \<noteq> T_DIR then bindE (iunlockput pid ip s) (\<lambda>s. Inr (None, s))
       else bindE (dirlookup pid ip (take DIRSIZ e) s) (\<lambda>(nx, s).
         bindE (iunlockput pid ip s) (\<lambda>s.
           case nx of None \<Rightarrow> Inr (None, s) | Some (nip, _) \<Rightarrow> resolve pid nip es s)))"

definition enter_dir :: "int \<Rightarrow> nat \<Rightarrow> 'a fsst_scheme \<Rightarrow> kerror + nat option \<times> 'a fsst_scheme" where
  "enter_dir pid ip s =
     bindE (ilock pid ip s) (\<lambda>s.
       if i_type (itable s ! ip) \<noteq> T_DIR then bindE (iunlockput pid ip s) (\<lambda>s. Inr (None, s))
       else bindE (iunlock pid ip s) (\<lambda>s. Inr (Some ip, s)))"

definition resolve_parent :: "int \<Rightarrow> nat \<Rightarrow> u8 list list \<Rightarrow> 'a fsst_scheme \<Rightarrow> kerror + nat option \<times> u8 list \<times> 'a fsst_scheme" where
  "resolve_parent pid ip es s =
     (if es = [] then bindE (iput pid ip s) (\<lambda>s. Inr (None, [], s))
      else bindE (resolve pid ip (butlast es) s) (\<lambda>(r, s). case r of
          None \<Rightarrow> Inr (None, [], s)
        | Some dp \<Rightarrow> bindE (enter_dir pid dp s) (\<lambda>(r, s). Inr (r, if r = None then [] else take DIRSIZ (last es), s))))"

definition start_dir :: "nat \<Rightarrow> u8 list \<Rightarrow> 'a fsst_scheme \<Rightarrow> kerror + nat \<times> 'a fsst_scheme" where
  "start_dir cwd path s = (if path \<noteq> [] \<and> hd path = SLASH then iget ROOTDEV ROOTINO s else Inr (cwd, idup cwd s))"

lemma namex_from_resolve:
  fixes s :: "'a fsst_scheme"
  assumes "0 \<notin> set path" "length name = DIRSIZ"
  shows "bindE (namex_from pid False ip path name s) (\<lambda>(r, _, s). Inr (r, s)) = resolve pid ip (path_elements path) s"
  using assms
proof (induction path arbitrary: ip name s rule: length_induct)
  case (1 path)
  note k = skipelem_elements [OF 1(2,3)]
  show ?case
  proof (cases "skipelem path name")
    case None
    then show ?thesis using k by (subst namex_from.simps) simp
  next
    case (Some z)
    obtain rest nm where z: "z = (rest, nm)" by (cases z)
    obtain e where e: "path_elements path = e # path_elements rest" "name_str nm = take DIRSIZ e" "length nm = DIRSIZ" "0 \<notin> set rest"
      using k Some z 1(2) by auto
    have "name_str nm = name_str (take DIRSIZ e)" using name_str_idem [of nm] e(2) by simp
    then have dl: "dirlookup pid ip nm s = dirlookup pid ip (take DIRSIZ e) s" for ip and s :: "'a fsst_scheme"
      by (rule dirlookup_cong)
    have IH: "bindE (namex_from pid False ip rest nm s) (\<lambda>(r, _, s). Inr (r, s)) = resolve pid ip (path_elements rest) s"
      for ip and s :: "'a fsst_scheme"
      using 1(1) skipelem_shorter [OF Some [unfolded z]] e(3,4) by blast
    show ?thesis
      using Some z by (subst namex_from.simps) (auto simp: e(1) dl bindE_assoc IH split: prod.splits option.splits intro!: bindE_cong)
  qed
qed

lemma namex_from_parent:
  fixes s :: "'a fsst_scheme"
  assumes "0 \<notin> set path" "length name = DIRSIZ"
  shows "bindE (namex_from pid True ip path name s) (\<lambda>(r, nm, s). Inr (r, if r = None then [] else name_str nm, s))
     = resolve_parent pid ip (path_elements path) s"
  using assms
proof (induction path arbitrary: ip name s rule: length_induct)
  case (1 path)
  note k = skipelem_elements [OF 1(2,3)]
  show ?case
  proof (cases "skipelem path name")
    case None
    then show ?thesis using k by (subst namex_from.simps) (simp add: resolve_parent_def bindE_assoc)
  next
    case (Some z)
    obtain rest nm where z: "z = (rest, nm)" by (cases z)
    obtain e where e: "path_elements path = e # path_elements rest" "name_str nm = take DIRSIZ e" "length nm = DIRSIZ" "0 \<notin> set rest"
      using k Some z 1(2) by auto
    have rest: "rest = [] \<longleftrightarrow> path_elements rest = []" using k Some z by auto
    have "name_str nm = name_str (take DIRSIZ e)" using name_str_idem [of nm] e(2) by simp
    then have dl: "dirlookup pid ip nm s = dirlookup pid ip (take DIRSIZ e) s" for ip and s :: "'a fsst_scheme"
      by (rule dirlookup_cong)
    have IH: "bindE (namex_from pid True ip rest nm s) (\<lambda>(r, nm, s). Inr (r, if r = None then [] else name_str nm, s))
        = resolve_parent pid ip (path_elements rest) s" for ip and s :: "'a fsst_scheme"
      using 1(1) skipelem_shorter [OF Some [unfolded z]] e(3,4) by blast
    show ?thesis
    proof (cases "path_elements rest = []")
      case True
      then show ?thesis using Some z rest
        by (subst namex_from.simps) (auto simp: e(1,2) resolve_parent_def enter_dir_def bindE_assoc intro!: bindE_cong)
    next
      case False
      then have "resolve_parent pid ip (e # path_elements rest) s =
        bindE (ilock pid ip s) (\<lambda>s.
          if i_type (itable s ! ip) \<noteq> T_DIR then bindE (iunlockput pid ip s) (\<lambda>s. Inr (None, [], s))
          else bindE (dirlookup pid ip (take DIRSIZ e) s) (\<lambda>(nx, s).
            bindE (iunlockput pid ip s) (\<lambda>s.
              case nx of None \<Rightarrow> Inr (None, [], s) | Some (nip, _) \<Rightarrow> resolve_parent pid nip (path_elements rest) s)))"
        by (auto simp: resolve_parent_def bindE_assoc split: prod.splits option.splits intro!: bindE_cong)
      then show ?thesis using Some z rest False
        by (subst namex_from.simps)
          (auto simp: e(1) dl bindE_assoc IH split: prod.splits option.splits intro!: bindE_cong)
    qed
  qed
qed

text \<open>C26: path names. \<open>namei\<close> walks the non-empty pieces of the path between slashes, each cut to \<open>DIRSIZ\<close>
  bytes, from the root or the current directory; \<open>nameiparent\<close> walks all but the last piece, enters the
  directory it gets to, and hands back the last piece. A path has no NUL byte.
\<close>

theorem namei_walks_path_elements:
  fixes s :: "'a fsst_scheme"
  assumes "0 \<notin> set path" "length name = DIRSIZ"
  shows "namei pid cwd path s = bindE (start_dir cwd path s) (\<lambda>(ip, s). resolve pid ip (path_elements path) s)
    \<and> bindE (nameiparent pid cwd path name s) (\<lambda>(r, nm, s). Inr (r, if r = None then [] else name_str nm, s))
       = bindE (start_dir cwd path s) (\<lambda>(ip, s). resolve_parent pid ip (path_elements path) s)"
proof
  show "namei pid cwd path s = bindE (start_dir cwd path s) (\<lambda>(ip, s). resolve pid ip (path_elements path) s)"
    unfolding namei_def namex_def start_dir_def [symmetric]
    using namex_from_resolve [OF assms(1), of "replicate DIRSIZ 0" pid]
    by (auto simp: bindE_assoc split: prod.splits intro!: bindE_cong)
  show "bindE (nameiparent pid cwd path name s) (\<lambda>(r, nm, s). Inr (r, if r = None then [] else name_str nm, s))
       = bindE (start_dir cwd path s) (\<lambda>(ip, s). resolve_parent pid ip (path_elements path) s)"
    unfolding nameiparent_def namex_def start_dir_def [symmetric]
    using namex_from_parent [OF assms, of pid]
    by (auto simp: bindE_assoc split: prod.splits intro!: bindE_cong)
qed

subsection \<open>The inode table\<close>

text \<open>The references the table counts to an inode of a device, and the invariant: one entry per inode.\<close>

definition holds :: "u32 \<Rightarrow> u32 \<Rightarrow> inode \<Rightarrow> bool" where
  "holds dev inum i \<longleftrightarrow> 0 < i_ref i \<and> i_dev i = dev \<and> i_inum i = inum"

definition inode_refs :: "inode list \<Rightarrow> u32 \<Rightarrow> u32 \<Rightarrow> int" where
  "inode_refs tab dev inum = sum_list (map (\<lambda>i. if i_dev i = dev \<and> i_inum i = inum then i_ref i else 0) tab)"

definition itable_ok :: "inode list \<Rightarrow> bool" where
  "itable_ok tab \<longleftrightarrow> length tab = NINODE \<and> (\<forall>i \<in> set tab. 0 \<le> i_ref i)
     \<and> (\<forall>a < NINODE. \<forall>b < NINODE. \<forall>dev inum. holds dev inum (tab ! a) \<and> holds dev inum (tab ! b) \<longrightarrow> a = b)"

lemma sum_list_update_int:
  fixes f :: "'x \<Rightarrow> int"
  assumes "k < length xs"
  shows "sum_list (map f (xs[k := v])) = sum_list (map f xs) - f (xs ! k) + f v"
  using assms by (induction xs arbitrary: k) (auto split: nat.splits)

lemma inode_refs_update:
  assumes "k < length tab"
  shows "inode_refs (tab[k := v]) dev inum = inode_refs tab dev inum
     - (if i_dev (tab ! k) = dev \<and> i_inum (tab ! k) = inum then i_ref (tab ! k) else 0)
     + (if i_dev v = dev \<and> i_inum v = inum then i_ref v else 0)"
  unfolding inode_refs_def by (rule sum_list_update_int [OF assms])

lemma itable_ok_unique:
  "itable_ok tab \<Longrightarrow> a < NINODE \<Longrightarrow> b < NINODE \<Longrightarrow> holds dev inum (tab ! a) \<Longrightarrow> holds dev inum (tab ! b) \<Longrightarrow> a = b"
  unfolding itable_ok_def by blast

text \<open>Changing an entry keeps the invariant when no other entry holds the inode.\<close>

lemma itable_ok_update:
  assumes ok: "itable_ok tab" and "0 \<le> i_ref v"
    and only: "\<And>a dev inum. a < NINODE \<Longrightarrow> a \<noteq> k \<Longrightarrow> holds dev inum v \<Longrightarrow> \<not> holds dev inum (tab ! a)"
  shows "itable_ok (tab[k := v])"
proof -
  have l: "length tab = NINODE" using ok by (simp add: itable_ok_def)
  have "a = b" if ab: "a < NINODE" "b < NINODE" "holds dev inum (tab[k := v] ! a)" "holds dev inum (tab[k := v] ! b)" for a b dev inum
    using ab only [of a dev inum] only [of b dev inum] l itable_ok_unique [OF ok ab(1,2)]
    by (cases "a = k"; cases "b = k") auto
  moreover have "\<forall>i \<in> set (tab[k := v]). 0 \<le> i_ref i"
    using ok assms(2) by (auto simp: itable_ok_def dest!: set_update_subset_insert [THEN subsetD])
  ultimately show ?thesis using l unfolding itable_ok_def by auto
qed

lemma itable_ok_same:
  assumes ok: "itable_ok tab" and k: "k < NINODE" and v: "i_dev v = i_dev (tab ! k)" "i_inum v = i_inum (tab ! k)"
    "0 \<le> i_ref v" "0 < i_ref (tab ! k) \<or> i_ref v = 0"
  shows "itable_ok (tab[k := v])"
proof (rule itable_ok_update [OF ok v(3)])
  fix a dev inum
  assume a: "a < NINODE" "a \<noteq> k" "holds dev inum v"
  then have "holds dev inum (tab ! k)" using v by (auto simp: holds_def)
  then show "\<not> holds dev inum (tab ! a)" using itable_ok_unique [OF ok a(1) k] a(2) by blast
qed

lemma find_range: "find P [0..<n] = Some i \<longleftrightarrow> i < n \<and> P i \<and> (\<forall>j<i. \<not> P j)"
  by (auto simp: find_Some_iff)

text \<open>\<open>iget\<close> finds the entry of the inode or takes the first free one.\<close>

lemma iget_table:
  fixes s :: "'a fsst_scheme"
  assumes ok: "itable_ok (itable s)" and g: "iget dev inum s = Inr (ip, s')"
  shows "ip < NINODE \<and> itable_ok (itable s') \<and> holds dev inum (itable s' ! ip)
    \<and> inode_refs (itable s') d n = inode_refs (itable s) d n + of_bool (d = dev \<and> n = inum)
    \<and> (holds dev inum (itable s ! a) \<and> a < NINODE \<longrightarrow> a = ip)
    \<and> (holds dev inum (itable s ! ip) \<longrightarrow> itable s' = (itable s)[ip := (itable s ! ip)\<lparr>i_ref := i_ref (itable s ! ip) + 1\<rparr>])"
proof -
  have l: "length (itable s) = NINODE" using ok by (simp add: itable_ok_def)
  let ?P = "\<lambda>i. 0 < i_ref (itable s ! i) \<and> i_dev (itable s ! i) = dev \<and> i_inum (itable s ! i) = inum"
  show ?thesis
  proof (cases "find ?P [0..<NINODE]")
    case (Some k)
    then have k: "k < NINODE" "?P k" by (auto simp: find_range)
    have e: "ip = k" "itable s' = (itable s)[k := (itable s ! k)\<lparr>i_ref := i_ref (itable s ! k) + 1\<rparr>]"
      using g Some by (auto simp: iget_def upd_inode_def)
    have "itable_ok (itable s')" unfolding e(2) by (rule itable_ok_same [OF ok k(1)]) (use k in auto)
    moreover have "holds dev inum (itable s ! a) \<Longrightarrow> a < NINODE \<Longrightarrow> a = k"
      using itable_ok_unique [OF ok _ k(1)] k(2) by (auto simp: holds_def)
    ultimately show ?thesis
      using k e l by (auto simp: holds_def inode_refs_update)
  next
    case None
    then have none: "\<And>a. a < NINODE \<Longrightarrow> \<not> holds dev inum (itable s ! a)" by (auto simp: find_None_iff holds_def)
    obtain k where k: "k < NINODE" "i_ref (itable s ! k) = 0" "ip = k"
      "itable s' = (itable s)[k := (itable s ! k)\<lparr>i_dev := dev, i_inum := inum, i_ref := 1, i_valid := False\<rparr>]"
      using g None by (auto simp: iget_def upd_inode_def find_range split: option.splits)
    have "itable_ok (itable s')"
      unfolding k(4) by (rule itable_ok_update [OF ok]) (use none in \<open>auto simp: holds_def\<close>)
    then show ?thesis
      using k none l by (auto simp: holds_def inode_refs_update)
  qed
qed

lemma iget_panics_iff:
  "(\<exists>r. iget dev inum s = Inr r) \<longleftrightarrow> (\<exists>i<NINODE. holds dev inum (itable s ! i) \<or> i_ref (itable s ! i) = 0)"
  by (auto simp: iget_def holds_def find_range find_None_iff split: option.splits)

text \<open>The part of an entry the table lock protects.\<close>

definition core :: "inode \<Rightarrow> u32 \<times> u32 \<times> int" where
  "core i = (i_dev i, i_inum i, i_ref i)"

lemma core_table:
  assumes "map core t = map core t'"
  shows "itable_ok t = itable_ok t'" "inode_refs t = inode_refs t'"
proof -
  have l: "length t = length t'" using assms by (metis length_map)
  have c: "i_dev (t ! a) = i_dev (t' ! a) \<and> i_inum (t ! a) = i_inum (t' ! a) \<and> i_ref (t ! a) = i_ref (t' ! a)" if "a < length t'" for a
    using arg_cong [OF assms, of "\<lambda>xs. xs ! a"] that l by (simp add: core_def)
  then show "itable_ok t = itable_ok t'" by (auto simp: itable_ok_def l holds_def all_set_conv_all_nth)
  have "map (\<lambda>i. if i_dev i = dev \<and> i_inum i = n then i_ref i else 0) t = map (\<lambda>i. if i_dev i = dev \<and> i_inum i = n then i_ref i else 0) t'" for dev n
    using c l by (intro nth_equalityI) auto
  then show "inode_refs t = inode_refs t'" by (simp add: inode_refs_def fun_eq_iff)
qed

lemma itable_upd [simp]:
  fixes s :: "'a fsst_scheme"
  shows "itable (upd_buf i f s) = itable s" "itable (set_next i n s) = itable s" "itable (set_prev i n s) = itable s"
    "itable (link_front i s) = itable s"
  by (simp_all add: upd_buf_def set_next_def set_prev_def link_front_def Let_def)

lemma brelse_table:
  fixes s :: "'a fsst_scheme"
  shows "brelse pid b s = Inr s' \<Longrightarrow> itable s' = itable s"
  by (auto simp: brelse_def Let_def split: if_splits)

lemma log_write_table:
  fixes s :: "'a fsst_scheme"
  shows "log_write b s = Inr s' \<Longrightarrow> itable s' = itable s"
  by (auto simp: log_write_def Let_def bpin_def split: if_splits)

lemma bread_table:
  fixes s :: "'a fsst_scheme"
  shows "bread pid dev n s = Inr (b, s') \<Longrightarrow> itable s' = itable s"
  by (auto simp: bread_def bget_def Let_def virtio_disk_rw_def split: option.splits if_splits)

lemma set_data_table [simp]:
  fixes s :: "'a fsst_scheme"
  shows "itable (set_data b d s) = itable s"
  by (simp add: set_data_def)

lemma bfree_table:
  fixes s :: "'a fsst_scheme"
  shows "bfree pid dev b s = Inr s' \<Longrightarrow> itable s' = itable s"
  by (auto simp: bfree_def Let_def dest!: bread_table log_write_table brelse_table split: if_splits)

lemma iupdate_table:
  fixes s :: "'a fsst_scheme"
  shows "iupdate pid ip s = Inr s' \<Longrightarrow> itable s' = itable s"
  by (auto simp: iupdate_def Let_def dest!: bread_table log_write_table brelse_table)

lemma core_simps [simp]:
  "core (i\<lparr>i_addrs := as\<rparr>) = core i" "core (i\<lparr>i_size := n\<rparr>) = core i" "core (i\<lparr>i_type := t\<rparr>) = core i"
  "core (i\<lparr>i_lock := l\<rparr>) = core i" "core (i\<lparr>i_valid := v\<rparr>) = core i"
  by (simp_all add: core_def)

lemma core_upd_inode:
  "(\<And>i. core (f i) = core i) \<Longrightarrow> map core (itable (upd_inode ip f s)) = map core (itable s)"
  by (simp add: upd_inode_def map_update) (metis list_update_beyond list_update_id map_update not_le)

lemma itrunc_table:
  fixes s :: "'a fsst_scheme"
  assumes "itrunc pid ip s = Inr s'"
  shows "map core (itable s') = map core (itable s)"
proof -
  have "map core (itable u) = map core (itable t)"
    if "foldE (\<lambda>i s. let a = i_addrs (itable s ! ip) ! i in
         if a \<noteq> 0
         then bindE (bfree pid (i_dev (itable s ! ip)) a s) (\<lambda>s. Inr (upd_inode ip (\<lambda>x. x\<lparr>i_addrs := (i_addrs x)[i := 0]\<rparr>) s))
         else Inr s) [0..<NDIRECT] t = Inr u" for t u :: "'a fsst_scheme"
    by (rule foldE_invariant [OF that])
      (auto simp: Let_def core_upd_inode dest!: bfree_table split: if_splits)
  moreover have "itable u = itable t"
    if "foldE (\<lambda>j s. let e = get32 (b_data (bufs s ! bp)) (4 * j) in
          if e \<noteq> 0 then bfree pid dev e s else Inr s) [0..<NINDIRECT] t = Inr u" for bp dev and t u :: "'a fsst_scheme"
    by (rule foldE_invariant [OF that]) (auto simp: Let_def dest!: bfree_table split: if_splits)
  ultimately show ?thesis
    using assms unfolding itrunc_def
    by (auto simp: Let_def core_upd_inode dest!: bfree_table iupdate_table bread_table brelse_table split: if_splits)
qed


lemma iput_table:
  fixes s :: "'a fsst_scheme"
  assumes "iput pid ip s = Inr s'"
  shows "map core (itable s') = map core ((itable s)[ip := (itable s ! ip)\<lparr>i_ref := i_ref (itable s ! ip) - 1\<rparr>])"
proof -
  have "map core (itable t) = map core (itable s)"
    if "(if i_ref (itable s ! ip) = 1 \<and> i_valid (itable s ! ip) \<and> i_nlink (itable s ! ip) = 0
         then bindE (acquiresleep pid (i_lock (itable s ! ip))) (\<lambda>lk.
           bindE (itrunc pid ip (upd_inode ip (\<lambda>x. x\<lparr>i_lock := lk\<rparr>) s)) (\<lambda>s.
             bindE (iupdate pid ip (upd_inode ip (\<lambda>x. x\<lparr>i_type := 0\<rparr>) s)) (\<lambda>s.
               Inr (upd_inode ip (\<lambda>x. x\<lparr>i_valid := False, i_lock := releasesleep (i_lock x)\<rparr>) s))))
         else Inr s) = Inr t" for t
    using that by (auto simp: core_upd_inode dest!: itrunc_table iupdate_table split: if_splits)
  then obtain t where t: "map core (itable t) = map core (itable s)" "s' = upd_inode ip (\<lambda>x. x\<lparr>i_ref := i_ref x - 1\<rparr>) t"
    using assms unfolding iput_def Let_def by (auto simp only: bindE_eq_Inr sum.inject)
  have l: "length (itable t) = length (itable s)" using arg_cong [OF t(1), of length] by simp
  show ?thesis
  proof (cases "ip < length (itable s)")
    case True
    then have "core (itable t ! ip) = core (itable s ! ip)" using arg_cong [OF t(1), of "\<lambda>xs. xs ! ip"] l by simp
    then show ?thesis using t by (simp add: upd_inode_def map_update core_def)
  qed (use t l in \<open>simp add: upd_inode_def list_update_beyond\<close>)
qed

text \<open>C14: the inode table. At most one entry holds a given inode, and the entries' counts sum to the number of
  references handed out: \<open>iget\<close> returns an entry holding the inode asked for (the one already there, if any)
  and adds one reference to it and to no other, \<open>idup\<close> adds one, \<open>iput\<close> drops one, also when it truncates and
  frees the inode. \<open>iget\<close> panics exactly when no entry holds the inode and none is free.
\<close>

theorem inode_table_counts:
  fixes s :: "'a fsst_scheme"
  assumes ok: "itable_ok (itable s)"
  shows "((\<exists>r. iget dev inum s = Inr r) \<longleftrightarrow> (\<exists>i<NINODE. holds dev inum (itable s ! i) \<or> i_ref (itable s ! i) = 0))
    \<and> (\<forall>ip s'. iget dev inum s = Inr (ip, s') \<longrightarrow> itable_ok (itable s') \<and> ip < NINODE \<and> holds dev inum (itable s' ! ip)
         \<and> (\<forall>a < NINODE. holds dev inum (itable s ! a) \<longrightarrow> ip = a)
         \<and> inode_refs (itable s') = (inode_refs (itable s))(dev := (inode_refs (itable s) dev)(inum := inode_refs (itable s) dev inum + 1)))
    \<and> (ip < NINODE \<and> holds dev inum (itable s ! ip) \<longrightarrow> itable_ok (itable (idup ip s))
         \<and> inode_refs (itable (idup ip s)) = (inode_refs (itable s))(dev := (inode_refs (itable s) dev)(inum := inode_refs (itable s) dev inum + 1)))
    \<and> (\<forall>s'. ip < NINODE \<and> holds dev inum (itable s ! ip) \<and> iput pid ip s = Inr s' \<longrightarrow> itable_ok (itable s')
         \<and> inode_refs (itable s') = (inode_refs (itable s))(dev := (inode_refs (itable s) dev)(inum := inode_refs (itable s) dev inum - 1)))"
proof -
  let ?upd = "\<lambda>k. (inode_refs (itable s))(dev := (inode_refs (itable s) dev)(inum := inode_refs (itable s) dev inum + k))"
  have l: "length (itable s) = NINODE" using ok by (simp add: itable_ok_def)
  have get: "itable_ok (itable s') \<and> ip < NINODE \<and> holds dev inum (itable s' ! ip) \<and> (\<forall>a < NINODE. holds dev inum (itable s ! a) \<longrightarrow> ip = a)
      \<and> inode_refs (itable s') = ?upd 1" if "iget dev inum s = Inr (ip, s')" for ip s'
    using iget_table [OF ok that] by (auto simp: fun_eq_iff)
  have ref: "itable_ok t \<and> inode_refs t = ?upd k"
    if "ip < NINODE" "holds dev inum (itable s ! ip)" "t = (itable s)[ip := (itable s ! ip)\<lparr>i_ref := i_ref (itable s ! ip) + k\<rparr>]" "- 1 \<le> k" for t k
  proof
    show "itable_ok t" unfolding that(3) by (rule itable_ok_same [OF ok that(1)]) (use that(2,4) in \<open>auto simp: holds_def\<close>)
    show "inode_refs t = ?upd k"
      using that(1,2) l by (auto simp: that(3) fun_eq_iff inode_refs_update holds_def)
  qed
  have dup: "itable_ok (itable (idup ip s)) \<and> inode_refs (itable (idup ip s)) = ?upd 1" if "ip < NINODE" "holds dev inum (itable s ! ip)"
    by (rule ref [OF that]) (simp_all add: idup_def upd_inode_def)
  have put: "itable_ok (itable s') \<and> inode_refs (itable s') = ?upd (- 1)"
    if "ip < NINODE" "holds dev inum (itable s ! ip)" "iput pid ip s = Inr s'" for s'
    using ref [OF that(1,2) refl, of "- 1"] core_table [OF iput_table [OF that(3)]] by simp
  show ?thesis using iget_panics_iff [of dev inum s] get dup put by simp
qed

subsection \<open>A small file system\<close>

text \<open>A disk of 100 blocks for the examples: the log in blocks 2 to 32, inodes from block 40, the free map in
  block 45 with the first 64 blocks used, and a root directory in block 60 with the entry \<open>a\<close>.\<close>

definition demo_disk :: "u32 \<Rightarrow> block" where
  "demo_disk b = (if b = 45 then replicate 8 255 @ replicate 1016 0
     else if b = 60 then replicate 16 0 @ [5, 0, 97] @ replicate 1005 0 else replicate 1024 0)"

definition free_entry :: inode where
  "free_entry = \<lparr>i_dev = 0, i_inum = 0, i_ref = 0, i_lock = initsleeplock, i_valid = False, i_type = 0, i_major = 0,
     i_minor = 0, i_nlink = 0, i_size = 0, i_addrs = replicate 13 0\<rparr>"

definition root_entry :: inode where
  "root_entry = \<lparr>i_dev = 1, i_inum = 1, i_ref = 1, i_lock = initsleeplock, i_valid = True, i_type = T_DIR, i_major = 0,
     i_minor = 0, i_nlink = 1, i_size = 32, i_addrs = 60 # replicate 12 0\<rparr>"

definition demo_boot :: fsst where
  "demo_boot = \<lparr>bufs = replicate (Suc NBUF) zero_buf, disk = demo_disk, written = [], l_start = 2, l_size = 30,
     l_outstanding = 1, l_committing = False, l_dev = 1, lh_n = 0, lh_block = replicate LOGSIZE 0,
     sb = \<lparr>sb_magic = FSMAGIC, sb_size = 100, sb_nblocks = 30, sb_ninodes = 16, sb_nlog = 30, sb_logstart = 2,
       sb_inodestart = 40, sb_bmapstart = 45, sb_nswap = 0, sb_swapstart = 0\<rparr>,
     itable = root_entry # replicate 49 free_entry, fs_pagetable = 0, fs_mach = \<lparr>pmem = (\<lambda>_. 7), freelist = 0\<rparr>,
     fs_local = replicate 16 0\<rparr>"

definition demo_fs :: fsst where
  "demo_fs = binit demo_boot"

subsection \<open>Examples\<close>

lemma fields_of_more:
  fixes s :: fsst
  assumes "bcache.more s = \<lparr>l_start = a, l_size = b, l_outstanding = c, l_committing = e, l_dev = f, lh_n = g, lh_block = h,
     sb = k, itable = l, fs_pagetable = m, fs_mach = n, fs_local = p\<rparr>"
  shows "l_start s = a" "l_size s = b" "l_outstanding s = c" "l_dev s = f" "lh_n s = g" "lh_block s = h" "sb s = k" "itable s = l"
    "fs_mach s = n" "fs_local s = p"
  using assms by (cases s; simp)+

lemma demo_fs_fields:
  "l_start demo_fs = 2" "l_size demo_fs = 30" "l_outstanding demo_fs = 1" "l_dev demo_fs = 1" "lh_n demo_fs = 0"
  "lh_block demo_fs = replicate LOGSIZE 0" "sb_size (sb demo_fs) = 100" "sb_inodestart (sb demo_fs) = 40" "sb_bmapstart (sb demo_fs) = 45"
  "itable demo_fs = root_entry # replicate 49 free_entry" "fs_local demo_fs = replicate 16 0" "fs_mach demo_fs = \<lparr>pmem = (\<lambda>_. 7), freelist = 0\<rparr>"
proof -
  have "bcache.more demo_fs = \<lparr>l_start = 2, l_size = 30, l_outstanding = 1, l_committing = False, l_dev = 1, lh_n = 0, lh_block = replicate LOGSIZE 0,
     sb = \<lparr>sb_magic = FSMAGIC, sb_size = 100, sb_nblocks = 30, sb_ninodes = 16, sb_nlog = 30, sb_logstart = 2,
       sb_inodestart = 40, sb_bmapstart = 45, sb_nswap = 0, sb_swapstart = 0\<rparr>,
     itable = root_entry # replicate 49 free_entry, fs_pagetable = 0, fs_mach = \<lparr>pmem = (\<lambda>_. 7), freelist = 0\<rparr>,
     fs_local = replicate 16 0\<rparr>"
    unfolding demo_fs_def by (subst binit_rep(3) [of _ 1]) (simp_all add: demo_boot_def)
  note f = fields_of_more [OF this]
  show "l_start demo_fs = 2" "l_size demo_fs = 30" "l_outstanding demo_fs = 1" "l_dev demo_fs = 1" "lh_n demo_fs = 0"
    "lh_block demo_fs = replicate LOGSIZE 0" "sb_size (sb demo_fs) = 100" "sb_inodestart (sb demo_fs) = 40" "sb_bmapstart (sb demo_fs) = 45"
    "itable demo_fs = root_entry # replicate 49 free_entry" "fs_local demo_fs = replicate 16 0" "fs_mach demo_fs = \<lparr>pmem = (\<lambda>_. 7), freelist = 0\<rparr>"
    by (simp_all only: f superblock.simps)
qed

lemma demo_entry: "a < NINODE \<Longrightarrow> itable demo_fs ! a = (if a = 0 then root_entry else free_entry)"
  unfolding demo_fs_fields(10) by (cases a) (simp_all add: NINODE_def del: replicate.simps)

theorem namei_walks_path_elements_witness:
  "namei 1 0 [47, 97, 47, 47, 98] demo_fs = bindE (start_dir 0 [47, 97, 47, 47, 98] demo_fs) (\<lambda>(ip, s). resolve 1 ip [[97], [98]] s)"
  using namei_walks_path_elements [of "[47, 97, 47, 47, 98]" "replicate DIRSIZ 0" 1 0 demo_fs] by (simp add: path_elements_def SLASH_def)

lemma demo_table: "itable_ok (itable demo_fs)"
proof -
  have l: "length (itable demo_fs) = NINODE" by (simp add: demo_fs_fields(10) NINODE_def)
  have "0 \<le> i_ref i" if "i \<in> set (itable demo_fs)" for i
    using that demo_entry l by (auto simp: in_set_conv_nth root_entry_def free_entry_def)
  moreover have "a = b" if "a < NINODE" "b < NINODE" "holds dev inum (itable demo_fs ! a)" "holds dev inum (itable demo_fs ! b)" for a b dev inum
    using that by (auto simp: demo_entry holds_def free_entry_def split: if_splits)
  ultimately show ?thesis using l by (auto simp: itable_ok_def)
qed

theorem inode_table_counts_witness:
  "inode_refs (itable (idup 0 demo_fs)) 1 1 = inode_refs (itable demo_fs) 1 1 + 1 \<and> (\<exists>r. iget 1 5 demo_fs = Inr r)"
proof
  have N: "0 < NINODE" "1 < NINODE" by (simp_all add: NINODE_def)
  have h: "holds 1 1 (itable demo_fs ! 0)" "i_ref (itable demo_fs ! 1) = 0"
    using demo_entry [OF N(1)] demo_entry [OF N(2)] by (simp_all add: holds_def root_entry_def free_entry_def)
  have "0 < NINODE \<and> holds 1 1 (itable demo_fs ! 0) \<longrightarrow> itable_ok (itable (idup 0 demo_fs)) \<and> inode_refs (itable (idup 0 demo_fs)) =
      (inode_refs (itable demo_fs))(1 := (inode_refs (itable demo_fs) 1)(1 := inode_refs (itable demo_fs) 1 1 + 1))"
    using inode_table_counts [OF demo_table, of 1 1 0 1] by (elim conjE) assumption
  then show "inode_refs (itable (idup 0 demo_fs)) 1 1 = inode_refs (itable demo_fs) 1 1 + 1" using N(1) h(1) by simp
  have "(\<exists>r. iget 1 5 demo_fs = Inr r) \<longleftrightarrow> (\<exists>i<NINODE. holds 1 5 (itable demo_fs ! i) \<or> i_ref (itable demo_fs ! i) = 0)"
    using inode_table_counts [OF demo_table, of 1 5 0 1] by (elim conjE) assumption
  then show "\<exists>r. iget 1 5 demo_fs = Inr r" using N(2) h(2) by blast
qed

end
