(* ===== verification/Inode.thy ===== *)
theory Inode
  imports Fs
begin

text \<open>
  Blocks and inodes of \<open>kernel/fs.c\<close> inside a transaction of the log. Every lemma says what an operation
  makes of the contents of the blocks (the map \<open>c\<close> of \<open>tx\<close>) and that nothing else of the state changes
  (\<open>framed\<close>). The theorems: an inode written by \<open>iupdate\<close> is read back by \<open>ilock\<close>, and \<open>balloc\<close> takes the
  lowest free block.
\<close>

unbundle bit_operations_syntax

subsection \<open>The file system on an open transaction\<close>

lemma bc_rep_fs [simp]:
  fixes s :: "'a fsst_scheme"
  shows "bc_rep dev pid (s\<lparr>sb := v\<rparr>) A = bc_rep dev pid s A" "bc_rep dev pid (s\<lparr>itable := w\<rparr>) A = bc_rep dev pid s A"
    "bc_rep dev pid (s\<lparr>fs_pagetable := x\<rparr>) A = bc_rep dev pid s A" "bc_rep dev pid (s\<lparr>fs_mach := y\<rparr>) A = bc_rep dev pid s A"
    "bc_rep dev pid (s\<lparr>fs_local := z\<rparr>) A = bc_rep dev pid s A"
  by (simp_all add: bc_rep_def lru_def next_of_def [abs_def] prev_of_def [abs_def])

lemma tx_fs [simp]:
  fixes s :: "'a fsst_scheme"
  shows "tx pid (s\<lparr>sb := v\<rparr>) H bs c d = tx pid s H bs c d" "tx pid (s\<lparr>itable := w\<rparr>) H bs c d = tx pid s H bs c d"
    "tx pid (s\<lparr>fs_pagetable := x\<rparr>) H bs c d = tx pid s H bs c d" "tx pid (s\<lparr>fs_mach := y\<rparr>) H bs c d = tx pid s H bs c d"
    "tx pid (s\<lparr>fs_local := z\<rparr>) H bs c d = tx pid s H bs c d" "tx pid (upd_inode ip f s) H bs c d = tx pid s H bs c d"
  by (simp_all add: tx_def upd_inode_def)

lemma framed_fs:
  fixes s s' :: "'a fsst_scheme"
  assumes "framed s s'"
  shows "sb s' = sb s" "itable s' = itable s" "fs_pagetable s' = fs_pagetable s" "fs_mach s' = fs_mach s" "fs_local s' = fs_local s"
    "l_dev s' = l_dev s" "l_start s' = l_start s" "l_size s' = l_size s" "l_outstanding s' = l_outstanding s"
    "IBLOCK k s' = IBLOCK k s" "BBLOCK b s' = BBLOCK b s"
  using assms by (cases s; cases s'; simp add: framed_def IBLOCK_def BBLOCK_def)+

lemma framed_upd:
  fixes s s' :: "'a fsst_scheme"
  assumes "framed s s'"
  shows "framed (s\<lparr>fs_local := z\<rparr>) (s'\<lparr>fs_local := z\<rparr>)" "framed (s\<lparr>fs_mach := y\<rparr>) (s'\<lparr>fs_mach := y\<rparr>)"
    "framed (upd_inode ip f s) (upd_inode ip f s')"
  using assms by (cases s; cases s'; simp add: framed_def upd_inode_def)+

text \<open>Reading a block and releasing it leaves the transaction as it was; rewriting it through the log
  adds it.\<close>

lemma peek:
  fixes s :: "'a fsst_scheme"
  assumes t: "tx pid s H bs c d" and n: "n \<notin> dom H" and rm: "length bs + card (dom H) < NBUF" and dev: "dev = l_dev s"
  obtains b s1 where "bread pid dev n s = Inr (b, s1)" "tx pid s1 (H(n \<mapsto> b)) bs c d" "framed s s1"
    "b_data (bufs s1 ! b) = c n"
proof -
  obtain b s1 where 1: "bread pid dev n s = Inr (b, s1)" "tx pid s1 (H(n \<mapsto> b)) bs c d" "framed s s1"
    using tx_bread [OF t n rm] dev by metis
  then show ?thesis using that tx_data [OF 1(2), of n b] by simp
qed

lemma drop_held:
  fixes s :: "'a fsst_scheme"
  assumes "tx pid s (H(n \<mapsto> b)) bs c d" "n \<notin> dom H"
  obtains s' where "brelse pid b s = Inr s'" "tx pid s' H bs c d" "framed s s'"
proof -
  have "(H(n \<mapsto> b))(n := None) = H" using assms(2) by (auto simp: fun_eq_iff)
  then show ?thesis using tx_brelse [OF assms(1), of n b] that by auto
qed

subsection \<open>Addresses of the blocks of a file\<close>

definition file_addr :: "(u32 \<Rightarrow> block) \<Rightarrow> inode \<Rightarrow> nat \<Rightarrow> u32" where
  "file_addr c i bn = (if bn < NDIRECT then i_addrs i ! bn else get32 (c (i_addrs i ! NDIRECT)) (4 * (bn - NDIRECT)))"

text \<open>Block \<open>bn\<close> of the file is there.\<close>

definition has_block :: "(u32 \<Rightarrow> block) \<Rightarrow> inode \<Rightarrow> nat \<Rightarrow> bool" where
  "has_block c i bn \<longleftrightarrow> bn < MAXFILE \<and> file_addr c i bn \<noteq> 0 \<and> (NDIRECT \<le> bn \<longrightarrow> i_addrs i ! NDIRECT \<noteq> 0)
     \<and> length (c (file_addr c i bn)) = 1024"

lemma bmap_existing:
  fixes s :: "'a fsst_scheme"
  assumes t: "tx pid s Map.empty bs c d" and h: "has_block c (itable s ! ip) (unat bn)" and dev: "i_dev (itable s ! ip) = l_dev s"
  obtains s' where "bmap pid ip bn s = Inr (file_addr c (itable s ! ip) (unat bn), s')" "tx pid s' Map.empty bs c d" "framed s s'"
proof (cases "unat bn < NDIRECT")
  case True
  then show ?thesis using that [of s] t h by (simp add: bmap_def bmap_direct_def file_addr_def has_block_def)
next
  case False
  let ?i = "itable s ! ip"
  have len: "length bs + card (dom (Map.empty :: u32 \<rightharpoonup> nat)) < NBUF" using t by (auto elim!: txD simp: NBUF_LOGSIZE)
  obtain b s1 where 1: "bread pid (i_dev ?i) (i_addrs ?i ! NDIRECT) s = Inr (b, s1)" "tx pid s1 [i_addrs ?i ! NDIRECT \<mapsto> b] bs c d"
      "framed s s1" "b_data (bufs s1 ! b) = c (i_addrs ?i ! NDIRECT)"
    using peek [OF t _ len dev] by auto
  obtain s2 where 2: "brelse pid b s1 = Inr s2" "tx pid s2 Map.empty bs c d" "framed s1 s2" using drop_held [OF 1(2)] by auto
  show ?thesis
    using that [OF _ 2(2) framed_trans [OF 1(3) 2(3)]] False h 1 2(1)
    by (simp add: bmap_def bmap_direct_def file_addr_def has_block_def MAXFILE_def less_diff_conv2 Let_def)
qed

subsection \<open>Reading a file\<close>

definition file_byte :: "(u32 \<Rightarrow> block) \<Rightarrow> inode \<Rightarrow> nat \<Rightarrow> u8" where
  "file_byte c i k = c (file_addr c i (k div 1024)) ! (k mod 1024)"

definition file_slice :: "(u32 \<Rightarrow> block) \<Rightarrow> inode \<Rightarrow> nat \<Rightarrow> nat \<Rightarrow> u8 list" where
  "file_slice c i off n = map (\<lambda>j. file_byte c i (off + j)) [0..<n]"

lemma length_file_slice [simp]: "length (file_slice c i off n) = n"
  by (simp add: file_slice_def)

lemma file_slice_0 [simp]: "file_slice c i off 0 = []"
  by (simp add: file_slice_def)

lemma file_slice_add: "file_slice c i off (m + n) = file_slice c i off m @ file_slice c i (off + m) n"
  by (rule nth_equalityI) (auto simp: file_slice_def nth_append)

lemma same_block:
  fixes off j :: nat
  assumes "off mod 1024 + j < 1024"
  shows "(off + j) div 1024 = off div 1024" "(off + j) mod 1024 = off mod 1024 + j"
proof -
  define q r where "q = off div 1024" and "r = off mod 1024"
  have e: "off + j = (r + j) + q * 1024" and l: "r + j < 1024" using assms by (simp_all add: q_def r_def)
  have "(off + j) div 1024 = q" unfolding e using l by simp
  moreover have "(off + j) mod 1024 = (r + j) mod 1024" unfolding e by (rule mod_mult_self1)
  ultimately show "(off + j) div 1024 = off div 1024" "(off + j) mod 1024 = off mod 1024 + j"
    using l by (simp_all add: q_def r_def)
qed

lemma file_slice_block:
  assumes "length (c (file_addr c i (off div 1024))) = 1024" "off mod 1024 + m \<le> 1024"
  shows "take m (drop (off mod 1024) (c (file_addr c i (off div 1024)))) = file_slice c i off m"
proof (rule nth_equalityI)
  fix j assume "j < length (take m (drop (off mod 1024) (c (file_addr c i (off div 1024)))))"
  then have j: "j < m" by simp
  then have "off mod 1024 + j < 1024" using assms(2) by simp
  then have "(off + j) div 1024 = off div 1024" "(off + j) mod 1024 = off mod 1024 + j" by (simp_all add: same_block)
  then show "take m (drop (off mod 1024) (c (file_addr c i (off div 1024)))) ! j = file_slice c i off m ! j"
    using j assms by (simp add: file_slice_def file_byte_def)
qed (use assms in simp)

text \<open>Delivery to a kernel address or a local variable, which cannot fail.\<close>

definition deliver :: "place \<Rightarrow> nat \<Rightarrow> u8 list \<Rightarrow> 'a fsst_scheme \<Rightarrow> 'a fsst_scheme" where
  "deliver dst tot bs s = (case dst of
       KernelAddr a \<Rightarrow> s\<lparr>fs_mach := (fs_mach s)\<lparr>pmem := put_bytes (pmem (fs_mach s)) (a + of_nat tot) bs\<rparr>\<rparr>
     | _ \<Rightarrow> s\<lparr>fs_local := patch tot bs (fs_local s)\<rparr>)"

definition in_kernel :: "place \<Rightarrow> nat \<Rightarrow> 'a fsst_scheme \<Rightarrow> bool" where
  "in_kernel dst n s = (case dst of UserAddr _ \<Rightarrow> False | KernelAddr _ \<Rightarrow> n < 2^32 | Local \<Rightarrow> n \<le> length (fs_local s))"

lemma either_copyout_deliver: "in_kernel dst n s \<Longrightarrow> either_copyout dst tot bs s = Inr (0, deliver dst tot bs s)"
  by (simp add: either_copyout_def deliver_def in_kernel_def split: place.splits)

lemma deliver_simps [simp]:
  "itable (deliver dst tot bs s) = itable s" "l_dev (deliver dst tot bs s) = l_dev s" "bufs (deliver dst tot bs s) = bufs s"
  "tx pid (deliver dst tot bs s) H ns c d = tx pid s H ns c d"
  by (simp_all add: deliver_def split: place.splits)

lemma framed_deliver: "framed s s' \<Longrightarrow> framed (deliver dst tot bs s) (deliver dst tot bs s')"
  using framed_upd [of s s'] framed_fs [of s s'] by (auto simp: deliver_def split: place.splits)

lemma length_patch [simp]: "k + length bs \<le> length d \<Longrightarrow> length (patch k bs d) = length d"
  by (simp add: patch_def)

lemma patch_append: "k \<le> length d \<Longrightarrow> patch (k + length xs) ys (patch k xs d) = patch k (xs @ ys) d"
  by (simp add: patch_def ac_simps)

lemma deliver_append:
  assumes "in_kernel dst n s" "tot \<le> n"
  shows "deliver dst (tot + length xs) ys (deliver dst tot xs s) = deliver dst tot (xs @ ys) s"
proof (cases dst)
  case (KernelAddr a)
  then show ?thesis using put_bytes_append [of "pmem (fs_mach s)" "a + of_nat tot" xs ys]
    by (simp add: deliver_def add.assoc)
qed (use assms in \<open>simp_all add: deliver_def in_kernel_def patch_append\<close>)

lemma in_kernel_deliver: "in_kernel dst n s \<Longrightarrow> tot + length bs \<le> n \<Longrightarrow> in_kernel dst n (deliver dst tot bs s)"
  by (auto simp: in_kernel_def deliver_def split: place.splits)

lemma in_kernel_framed: "framed s s' \<Longrightarrow> in_kernel dst n s' = in_kernel dst n s"
  by (simp add: in_kernel_def framed_fs split: place.splits)

lemma deliver_nil [simp]: "deliver dst tot [] s = s"
  by (cases s) (simp add: deliver_def patch_def put_bytes_def split: place.splits)

lemma unat_in_block: "unat (in_block off left) = min (unat left) (1024 - unat off mod 1024)"
proof -
  have m: "unat (off mod 1024) = unat off mod 1024" by (simp add: unat_mod_distrib)
  have "unat (1024 - off mod 1024) = unat (1024 :: u32) - unat (off mod 1024)"
    by (rule unat_sub) (simp add: word_le_nat_alt m less_imp_le)
  then show ?thesis by (auto simp: in_block_def min_def word_le_nat_alt m)
qed

lemma sint_small32:
  assumes "unat (x :: u32) < 2 ^ 31"
  shows "sint x = int (unat x)"
proof -
  have "uint x = int (unat x)" by simp
  then have "- (2 ^ 31) \<le> uint x" "uint x < 2 ^ 31" using assms by (simp_all del: of_nat_unat)
  then show ?thesis by (simp add: sint_uint signed_take_bit_int_eq_self)
qed

lemma readi_from_reads:
  fixes s :: "'a fsst_scheme"
  assumes "tx pid s Map.empty bs c d" "i_dev (itable s ! ip) = l_dev s" "itable s ! ip = i"
    and hb: "\<And>bn. bn * 1024 < sz \<Longrightarrow> has_block c i bn" and n: "unat n < 2 ^ 31" "sz < 2 ^ 31"
    and "unat tot \<le> unat n" "unat off + (unat n - unat tot) \<le> sz" "in_kernel dst (unat n) s"
  shows "\<exists>s'. readi_from pid ip dst off n tot s = Inr (int (unat n), s') \<and> tx pid s' Map.empty bs c d
     \<and> framed (deliver dst (unat tot) (file_slice c i (unat off) (unat n - unat tot)) s) s'"
  using assms(1-3,7-9)
proof (induction "unat n - unat tot" arbitrary: off tot s rule: less_induct)
  case less
  show ?case
  proof (cases "tot < n")
    case False
    then have "tot = n" using less.prems(4) by (simp add: word_le_nat_alt word_less_nat_alt word_unat_eq_iff)
    then show ?thesis using False less.prems n by (subst readi_from.simps) (simp add: sint_small32)
  next
    case True
    then have lt: "unat tot < unat n" by (simp add: word_less_nat_alt)
    let ?m = "in_block off (n - tot)"
    have nt: "unat (n - tot) = unat n - unat tot" using lt by (intro unat_sub) (simp add: word_le_nat_alt)
    have m: "unat ?m = min (unat n - unat tot) (1024 - unat off mod 1024)" by (simp add: unat_in_block nt)
    have m': "0 < unat ?m" "unat ?m \<le> unat n - unat tot" "unat off mod 1024 + unat ?m \<le> 1024" using lt by (auto simp: m)
    have b: "unat (off div 1024) = unat off div 1024" "unat (off mod 1024) = unat off mod 1024"
      by (simp_all add: unat_div_distrib unat_mod_distrib)
    have "unat off div 1024 * 1024 < sz" using less.prems(5) lt by (metis div_times_less_eq_dividend le_less_trans less_le_trans less_add_same_cancel1 zero_less_diff)
    then have h: "has_block c i (unat (off div 1024))" using hb b by simp
    obtain s1 where 1: "bmap pid ip (off div 1024) s = Inr (file_addr c i (unat off div 1024), s1)" "tx pid s1 Map.empty bs c d" "framed s s1"
      using bmap_existing [OF less.prems(1), of ip "off div 1024"] h less.prems(2,3) b by auto
    note f1 = framed_fs [OF 1(3)]
    have len: "length bs + card (dom (Map.empty :: u32 \<rightharpoonup> nat)) < NBUF" using 1(2) by (auto elim!: txD simp: NBUF_LOGSIZE)
    let ?a = "file_addr c i (unat off div 1024)"
    obtain b s2 where 2: "bread pid (i_dev (itable s1 ! ip)) ?a s1 = Inr (b, s2)" "tx pid s2 [?a \<mapsto> b] bs c d" "framed s1 s2"
        "b_data (bufs s2 ! b) = c ?a"
      using peek [OF 1(2) _ len, of ?a "i_dev (itable s1 ! ip)"] less.prems(2) f1 by auto
    let ?x = "file_slice c i (unat off) (unat ?m)"
    have x: "take (unat ?m) (drop (unat (off mod 1024)) (b_data (bufs s2 ! b))) = ?x"
      using file_slice_block m'(3) h 2(4) b by (simp add: has_block_def)
    have f2: "framed s s2" using 1(3) 2(3) by (rule framed_trans)
    then have k: "in_kernel dst (unat n) s2" using less.prems(6) by (simp add: in_kernel_framed)
    let ?s3 = "deliver dst (unat tot) ?x s2"
    have 3: "either_copyout dst (unat tot) ?x s2 = Inr (0, ?s3)" by (rule either_copyout_deliver [OF k])
    obtain s4 where 4: "brelse pid b ?s3 = Inr s4" "tx pid s4 Map.empty bs c d" "framed ?s3 s4"
      using drop_held [of pid ?s3 Map.empty ?a b bs c d] 2(2) by auto
    have f4: "framed (deliver dst (unat tot) ?x s) s4" using framed_trans [OF framed_deliver [OF f2] 4(3)] .
    note g = framed_fs [OF f4]
    have tm: "unat (tot + ?m) = unat tot + unat ?m" "unat (off + ?m) = unat off + unat ?m"
      using m'(2) less.prems(4,5) n by (simp_all add: unat_word_ariths)
    have "\<exists>s'. readi_from pid ip dst (off + ?m) n (tot + ?m) s4 = Inr (int (unat n), s') \<and> tx pid s' Map.empty bs c d
      \<and> framed (deliver dst (unat (tot + ?m)) (file_slice c i (unat (off + ?m)) (unat n - unat (tot + ?m))) s4) s'"
      by (rule less.hyps [OF _ 4(2)]) (use less.prems g m' tm lt in_kernel_framed [OF f4] in \<open>auto intro: in_kernel_deliver\<close>)
    then obtain s' where 5: "readi_from pid ip dst (off + ?m) n (tot + ?m) s4 = Inr (int (unat n), s')" "tx pid s' Map.empty bs c d"
      "framed (deliver dst (unat tot + unat ?m) (file_slice c i (unat off + unat ?m) (unat n - unat tot - unat ?m)) s4) s'"
      unfolding tm by (auto simp: diff_diff_left)
    have "framed (deliver dst (unat tot) (file_slice c i (unat off) (unat n - unat tot)) s) s'"
      using framed_trans [OF framed_deliver [OF f4] 5(3)] m'(2) less.prems(4,6)
        deliver_append [of dst "unat n" s "unat tot" ?x] file_slice_add [of c i "unat off" "unat ?m" "unat n - unat tot - unat ?m"]
      by simp
    then show ?thesis using 1(1) 2(1) x 3 4(1) 5(1,2) True h b
      by (subst readi_from.simps) (simp add: Let_def has_block_def)
  qed
qed

subsection \<open>Inodes on disk\<close>

lemma length_put16 [simp]: "length (put16 d k v) = length d"
  by (simp add: put16_def)

lemma get16_put16:
  assumes "k + 1 < length d"
  shows "get16 (put16 d k v) k = v"
proof -
  have "get16 (put16 d k v) k = ucast (ucast v :: u8) OR push_bit 8 (ucast (ucast (drop_bit 8 v) :: u8))"
    using assms by (simp add: get16_def put16_def)
  also have "\<dots> = v"
    by (rule bit_word_eqI) (auto simp: bit_simps)
  finally show ?thesis .
qed

lemma put_nth:
  "x < k \<or> k + 2 \<le> x \<Longrightarrow> put16 d k v ! x = d ! x" "x < k \<or> k + 4 \<le> x \<Longrightarrow> put32 d k w ! x = d ! x"
  by (auto simp: put16_def put32_def)

lemma get_cong:
  "(\<And>x. k \<le> x \<Longrightarrow> x < k + 2 \<Longrightarrow> d ! x = e ! x) \<Longrightarrow> get16 d k = get16 e k"
  "(\<And>x. k \<le> x \<Longrightarrow> x < k + 4 \<Longrightarrow> d ! x = e ! x) \<Longrightarrow> get32 d k = get32 e k"
  by (simp_all add: get16_def get32_def)

lemma get16_other:
  "j + 2 \<le> k \<or> k + 2 \<le> j \<Longrightarrow> get16 (put16 d k v) j = get16 d j" "j + 2 \<le> k \<or> k + 4 \<le> j \<Longrightarrow> get16 (put32 d k w) j = get16 d j"
  by (intro get_cong(1); auto simp: put_nth)+

lemma fold_put32:
  fixes v :: "nat \<Rightarrow> u32"
  assumes "a + 4 * n \<le> length d"
  defines "h \<equiv> fold (\<lambda>j d. put32 d (a + 4 * j) (v j)) [0..<n] d"
  shows "length h = length d \<and> (\<forall>x. x < a \<or> a + 4 * n \<le> x \<longrightarrow> h ! x = d ! x) \<and> (\<forall>i<n. get32 h (a + 4 * i) = v i)"
  unfolding h_def using assms(1)
proof (induction n)
  case (Suc n)
  let ?h = "fold (\<lambda>j d. put32 d (a + 4 * j) (v j)) [0..<n] d"
  have IH: "length ?h = length d" "\<And>x. x < a \<or> a + 4 * n \<le> x \<Longrightarrow> ?h ! x = d ! x" "\<And>i. i < n \<Longrightarrow> get32 ?h (a + 4 * i) = v i"
    using Suc by auto
  have "get32 (put32 ?h (a + 4 * n) (v n)) (a + 4 * i) = v i" if "i < Suc n" for i
    using that IH(1,3) Suc.prems by (cases "i = n") (auto simp: get32_put32_other)
  then show ?case using IH(1,2) by (simp add: put_nth)
qed simp

lemma store_dinode_spec:
  assumes "k + 64 \<le> length d" "length (i_addrs i) = Suc NDIRECT"
  shows "length (store_dinode i k d) = length d" "x < k \<or> k + 64 \<le> x \<Longrightarrow> store_dinode i k d ! x = d ! x"
    "load_dinode (store_dinode i k d) k j = j\<lparr>i_type := i_type i, i_major := i_major i, i_minor := i_minor i,
       i_nlink := i_nlink i, i_size := i_size i, i_addrs := i_addrs i\<rparr>"
proof -
  let ?b = "put32 (put16 (put16 (put16 (put16 d k (i_type i)) (k + 2) (i_major i)) (k + 4) (i_minor i)) (k + 6) (i_nlink i)) (k + 8) (i_size i)"
  have fld: "length (store_dinode i k d) = length ?b" "\<And>x. x < k + 12 \<or> k + 64 \<le> x \<Longrightarrow> store_dinode i k d ! x = ?b ! x"
    "\<And>j. j < 13 \<Longrightarrow> get32 (store_dinode i k d) (k + 12 + 4 * j) = i_addrs i ! j"
    using fold_put32 [of "k + 12" 13 ?b "\<lambda>j. i_addrs i ! j"] assms(1) by (auto simp: store_dinode_def NDIRECT_def)
  show "length (store_dinode i k d) = length d" using fld(1) by simp
  show "x < k \<or> k + 64 \<le> x \<Longrightarrow> store_dinode i k d ! x = d ! x" using fld(2) [of x] by (auto simp: put_nth)
  have b: "get16 ?b k = i_type i" "get16 ?b (k + 2) = i_major i" "get16 ?b (k + 4) = i_minor i" "get16 ?b (k + 6) = i_nlink i"
    "get32 ?b (k + 8) = i_size i"
    using assms(1) by (simp_all add: get16_other get16_put16)
  have a: "map (\<lambda>j. get32 (store_dinode i k d) (k + 12 + 4 * j)) [0..<NDIRECT + 1] = i_addrs i"
    using assms(2) fld(3) by (intro nth_equalityI) (simp_all add: NDIRECT_def)
  have "get16 (store_dinode i k d) x = get16 ?b x" if "x + 2 \<le> k + 12" for x using that fld(2) by (intro get_cong(1)) auto
  moreover have "get32 (store_dinode i k d) (k + 8) = get32 ?b (k + 8)" using fld(2) by (intro get_cong(2)) auto
  ultimately show "load_dinode (store_dinode i k d) k j = j\<lparr>i_type := i_type i, i_major := i_major i, i_minor := i_minor i,
       i_nlink := i_nlink i, i_size := i_size i, i_addrs := i_addrs i\<rparr>"
    unfolding load_dinode_def a using b by simp
qed

subsection \<open>Rewriting a block through the log\<close>

definition add_block :: "u32 \<Rightarrow> u32 list \<Rightarrow> u32 list" where
  "add_block n bs = (if n \<in> set bs then bs else bs @ [n])"

text \<open>The log has room for \<open>k\<close> more blocks.\<close>

definition log_room :: "nat \<Rightarrow> 'a logst_scheme \<Rightarrow> u32 list \<Rightarrow> bool" where
  "log_room k s bs \<longleftrightarrow> int (length bs + k) < l_size s \<and> length bs + k < LOGSIZE \<and> 1 \<le> l_outstanding s"

lemma log_room_step:
  assumes "log_room k s bs" "framed s s'" "length bs' + k' \<le> length bs + k"
  shows "log_room k' s' bs'"
  using assms by (simp add: log_room_def framed_def)

lemma length_add_block: "length (add_block n bs) \<le> Suc (length bs)"
  by (simp add: add_block_def)

lemma rewrite:
  fixes s :: "'a fsst_scheme"
  assumes t: "tx pid s H bs c d" and n: "n \<notin> dom H" and rm: "length bs + card (dom H) < NBUF" and dev: "dev = l_dev s"
    and a: "n \<notin> log_area (l_start s)" and lr: "log_room 1 s bs"
  obtains b s1 s2 s3 where "bread pid dev n s = Inr (b, s1)" "framed s s1" "b_data (bufs s1 ! b) = c n"
    "log_write b (set_data b x s1) = Inr s2" "brelse pid b s2 = Inr s3" "tx pid s3 H (add_block n bs) (c(n := x)) d" "framed s s3"
    "framed s s2"
proof -
  obtain b s1 where 1: "bread pid dev n s = Inr (b, s1)" "tx pid s1 (H(n \<mapsto> b)) bs c d" "framed s s1" "b_data (bufs s1 ! b) = c n"
    using peek [OF t n rm dev] .
  note f = framed_fs [OF 1(3)]
  obtain s2 where 2: "log_write b (set_data b x s1) = Inr s2" "tx pid s2 (H(n \<mapsto> b)) (add_block n bs) (c(n := x)) d" "framed s1 s2"
    unfolding add_block_def by (rule tx_log_write [OF 1(2), of n b]) (use a lr f in \<open>auto simp: log_room_def\<close>)
  obtain s3 where 3: "brelse pid b s2 = Inr s3" "tx pid s3 H (add_block n bs) (c(n := x)) d" "framed s2 s3"
    using drop_held [OF 2(2) n] .
  show ?thesis
    using that [OF 1(1,3,4) 2(1) 3(1,2)] framed_trans [OF 1(3) framed_trans [OF 2(3) 3(3)]] framed_trans [OF 1(3) 2(3)] by blast
qed

lemma log_room_NBUF: "log_room k s bs \<Longrightarrow> length bs + card (dom (Map.empty :: u32 \<rightharpoonup> nat)) < NBUF"
  by (simp add: log_room_def NBUF_LOGSIZE)

lemma iupdate_ok:
  fixes s :: "'a fsst_scheme"
  assumes t: "tx pid s Map.empty bs c d" and i: "i = itable s ! ip" "i_dev i = l_dev s"
    and a: "IBLOCK (i_inum i) s \<notin> log_area (l_start s)" and lr: "log_room 1 s bs"
  obtains s' where "iupdate pid ip s = Inr s'" "framed s s'"
    "tx pid s' Map.empty (add_block (IBLOCK (i_inum i) s) bs)
      (c(IBLOCK (i_inum i) s := store_dinode i (dinode_at (i_inum i)) (c (IBLOCK (i_inum i) s)))) d"
proof -
  let ?n = "IBLOCK (i_inum i) s"
  have nd: "?n \<notin> dom Map.empty" by simp
  obtain b s1 s2 s3 where r: "bread pid (i_dev i) ?n s = Inr (b, s1)" "framed s s1" "b_data (bufs s1 ! b) = c ?n"
    "log_write b (set_data b (store_dinode i (dinode_at (i_inum i)) (c ?n)) s1) = Inr s2" "brelse pid b s2 = Inr s3"
    "tx pid s3 Map.empty (add_block ?n bs) (c(?n := store_dinode i (dinode_at (i_inum i)) (c ?n))) d" "framed s s3"
    using rewrite [OF t nd log_room_NBUF [OF lr] i(2) a lr] by metis
  show ?thesis
    by (rule that [OF _ r(7,6)]) (use r(1,3-5) framed_fs(2) [OF r(2)] i(1) in \<open>simp add: iupdate_def Let_def\<close>)
qed

lemma load_dinode_lock: "load_dinode d k (j\<lparr>i_lock := l\<rparr>) = (load_dinode d k j)\<lparr>i_lock := l\<rparr>"
  by (cases j) (simp add: load_dinode_def)

lemma ilock_reads:
  fixes s :: "'a fsst_scheme"
  assumes t: "tx pid s Map.empty bs c d" and j: "j = itable s ! jp" "jp < length (itable s)" "i_dev j = l_dev s"
    and ok: "1 \<le> i_ref j" "\<not> slocked (i_lock j)" "\<not> i_valid j"
    and ty: "get16 (c (IBLOCK (i_inum j) s)) (dinode_at (i_inum j)) \<noteq> 0"
  obtains s' where "ilock pid jp s = Inr s'" "tx pid s' Map.empty bs c d"
    "framed (upd_inode jp (\<lambda>j. (load_dinode (c (IBLOCK (i_inum j) s)) (dinode_at (i_inum j)) j)
        \<lparr>i_lock := \<lparr>slocked = True, spid = pid\<rparr>, i_valid := True\<rparr>) s) s'"
proof -
  let ?lk = "\<lparr>slocked = True, spid = pid\<rparr>" and ?n = "IBLOCK (i_inum j) s"
  define s0 where "s0 = upd_inode jp (\<lambda>i. i\<lparr>i_lock := ?lk\<rparr>) s"
  have t0: "tx pid s0 Map.empty bs c d" "IBLOCK (i_inum j) s0 = ?n" "l_dev s0 = l_dev s" "itable s0 ! jp = j\<lparr>i_lock := ?lk\<rparr>"
    "jp < length (itable s0)"
    using t j by (simp_all add: s0_def upd_inode_def IBLOCK_def)
  have rm: "length bs + card (dom (Map.empty :: u32 \<rightharpoonup> nat)) < NBUF" using t by (auto elim!: txD simp: NBUF_LOGSIZE)
  obtain b s1 where 1: "bread pid (i_dev j) ?n s0 = Inr (b, s1)" "tx pid s1 [?n \<mapsto> b] bs c d" "framed s0 s1" "b_data (bufs s1 ! b) = c ?n"
    using peek [OF t0(1) _ rm, of ?n "i_dev j"] j(3) t0(3) by auto
  note f1 = framed_fs [OF 1(3)]
  define s2 where "s2 = upd_inode jp (load_dinode (c ?n) (dinode_at (i_inum j))) s1"
  obtain s3 where 3: "brelse pid b s2 = Inr s3" "tx pid s3 Map.empty bs c d" "framed s2 s3"
    using drop_held [of pid s2 Map.empty ?n b bs c d] 1(2) by (auto simp: s2_def)
  note f3 = framed_fs [OF 3(3)]
  define s4 where "s4 = upd_inode jp (\<lambda>i. i\<lparr>i_valid := True\<rparr>) s3"
  have lk: "acquiresleep pid (i_lock j) = Inr ?lk" using ok(2) by (simp add: acquiresleep_def)
  have ty4: "i_type (itable s4 ! jp) \<noteq> 0"
    using ty f1 f3 t0(4,5) by (simp add: s4_def s2_def upd_inode_def load_dinode_def)
  have e: "ilock pid jp s = Inr s4"
    using ok j(3) 1(1,4) 3(1) lk t0 ty4
    by (simp add: ilock_def Let_def j(1) [symmetric] s0_def [symmetric] s2_def [symmetric] s4_def [symmetric])
  have "upd_inode jp (\<lambda>j. (load_dinode (c (IBLOCK (i_inum j) s)) (dinode_at (i_inum j)) j)\<lparr>i_lock := ?lk, i_valid := True\<rparr>) s
      = upd_inode jp (\<lambda>i. i\<lparr>i_valid := True\<rparr>) (upd_inode jp (load_dinode (c ?n) (dinode_at (i_inum j))) s0)"
    using j by (simp add: upd_inode_def s0_def load_dinode_lock)
  moreover have "framed (upd_inode jp (\<lambda>i. i\<lparr>i_valid := True\<rparr>) (upd_inode jp (load_dinode (c ?n) (dinode_at (i_inum j))) s0)) s4"
    unfolding s4_def by (rule framed_upd(3) [OF framed_trans [OF _ 3(3)]]) (simp add: s2_def framed_upd(3) [OF 1(3)])
  ultimately show ?thesis using that [OF e] 3(2) by (simp add: s4_def)
qed

lemma dinode_at_room: "dinode_at n + 64 \<le> 1024"
proof -
  have "unat (n mod 16) < 16" by (simp add: unat_mod_distrib)
  then show ?thesis by (simp add: dinode_at_def IPB_def)
qed

lemma dinode_apart:
  assumes "IBLOCK m s = IBLOCK n s" "m \<noteq> n"
  shows "dinode_at m + 64 \<le> dinode_at n \<or> dinode_at n + 64 \<le> dinode_at m"
proof -
  have "m div 16 = n div 16" using assms(1) by (simp add: IBLOCK_def IPB_def)
  then have "m mod 16 \<noteq> n mod 16" using assms(2) by (metis div_mult_mod_eq)
  then have "unat (m mod 16) \<noteq> unat (n mod 16)" by (simp add: word_unat_eq_iff)
  then show ?thesis by (simp add: dinode_at_def IPB_def) linarith
qed

lemma load_dinode_cong: "(\<And>x. k \<le> x \<Longrightarrow> x < k + 64 \<Longrightarrow> d ! x = e ! x) \<Longrightarrow> load_dinode d k j = load_dinode e k j"
proof -
  assume a: "\<And>x. k \<le> x \<Longrightarrow> x < k + 64 \<Longrightarrow> d ! x = e ! x"
  have a16: "get16 d (k + m) = get16 e (k + m)" if "m \<le> 62" for m using that a by (intro get_cong(1)) simp
  have a32: "get32 d (k + m) = get32 e (k + m)" if "m \<le> 60" for m using that a by (intro get_cong(2)) simp
  have g: "get16 d k = get16 e k" "get16 d (k + 2) = get16 e (k + 2)" "get16 d (k + 4) = get16 e (k + 4)"
    "get16 d (k + 6) = get16 e (k + 6)" "\<And>m. m \<le> 60 \<Longrightarrow> get32 d (k + m) = get32 e (k + m)"
    using a16 [of 0] a16 [of 2] a16 [of 4] a16 [of 6] a32 by simp_all
  have "map (\<lambda>j. get32 d (k + 12 + 4 * j)) [0..<NDIRECT + 1] = map (\<lambda>j. get32 e (k + 12 + 4 * j)) [0..<NDIRECT + 1]"
    using g(5) by (simp only: add.assoc) (auto simp: NDIRECT_def simp del: upt_Suc)
  then show ?thesis using g by (simp only: load_dinode_def)
qed

text \<open>An inode goes to disk and comes back. \<open>iupdate\<close> writes the entry into its block inside the transaction
  and changes no other block and no other inode of that block; whatever entry \<open>ilock\<close> later fills from that
  block has the type, device numbers, link count, size and block addresses that were written.
\<close>

theorem iupdate_ilock_roundtrip:
  fixes s :: "'a fsst_scheme"
  assumes "transaction pid s bs c d" "i = itable s ! ip" "i_dev i = l_dev s" "B = IBLOCK (i_inum i) s" "B \<notin> log_area (l_start s)"
    "log_room 1 s bs" "length (i_addrs i) = Suc NDIRECT" "length (c B) = 1024" "i_type i \<noteq> 0"
  shows "\<exists>s' bs' c'. iupdate pid ip s = Inr s' \<and> transaction pid s' bs' c' d \<and> framed s s' \<and> (\<forall>n. n \<noteq> B \<longrightarrow> c' n = c n)
     \<and> (\<forall>m j. IBLOCK m s = B \<and> m \<noteq> i_inum i \<longrightarrow> load_dinode (c' B) (dinode_at m) j = load_dinode (c B) (dinode_at m) j)
     \<and> (\<forall>(t :: 'a fsst_scheme) bs2 c2 d2 jp j. transaction pid t bs2 c2 d2 \<and> sb t = sb s \<and> l_dev t = l_dev s \<and> c2 B = c' B
           \<and> jp < length (itable t) \<and> j = itable t ! jp \<and> i_dev j = i_dev i \<and> i_inum j = i_inum i \<and> 1 \<le> i_ref j
           \<and> \<not> i_valid j \<and> \<not> slocked (i_lock j)
         \<longrightarrow> (\<exists>t'. ilock pid jp t = Inr t' \<and> transaction pid t' bs2 c2 d2
               \<and> itable t' ! jp = j\<lparr>i_lock := \<lparr>slocked = True, spid = pid\<rparr>, i_valid := True, i_type := i_type i, i_major := i_major i,
                   i_minor := i_minor i, i_nlink := i_nlink i, i_size := i_size i, i_addrs := i_addrs i\<rparr>))"
proof -
  note t = assms(1) [unfolded transaction_tx]
  let ?k = "dinode_at (i_inum i)" and ?x = "store_dinode i (dinode_at (i_inum i)) (c B)"
  obtain s' where s': "iupdate pid ip s = Inr s'" "framed s s'" "tx pid s' Map.empty (add_block B bs) (c(B := ?x)) d"
    using iupdate_ok [OF t assms(2,3)] assms(4-6) by metis
  have room: "?k + 64 \<le> length (c B)" using dinode_at_room assms(8) by simp
  note st = store_dinode_spec [OF room assms(7)]
  have other: "load_dinode ?x (dinode_at m) j = load_dinode (c B) (dinode_at m) j" if "IBLOCK m s = B" "m \<noteq> i_inum i" for m j
    using dinode_apart [of m s "i_inum i"] that assms(4) by (intro load_dinode_cong st(2)) auto
  have reload: "\<exists>t'. ilock pid jp t = Inr t' \<and> transaction pid t' bs2 c2 d2
       \<and> itable t' ! jp = j\<lparr>i_lock := \<lparr>slocked = True, spid = pid\<rparr>, i_valid := True, i_type := i_type i, i_major := i_major i,
           i_minor := i_minor i, i_nlink := i_nlink i, i_size := i_size i, i_addrs := i_addrs i\<rparr>"
    if a: "transaction pid t bs2 c2 d2" "sb t = sb s" "l_dev t = l_dev s" "c2 B = ?x" "jp < length (itable t)" "j = itable t ! jp"
      "i_dev j = i_dev i" "i_inum j = i_inum i" "1 \<le> i_ref j" "\<not> i_valid j" "\<not> slocked (i_lock j)"
    for t :: "'a fsst_scheme" and bs2 c2 d2 jp j
  proof -
    have B: "IBLOCK (i_inum j) t = B" using a(2,8) assms(4) by (simp add: IBLOCK_def)
    have ty: "get16 (c2 (IBLOCK (i_inum j) t)) (dinode_at (i_inum j)) \<noteq> 0"
      using arg_cong [OF st(3), of i_type] assms(9) a(4,8) B by (simp add: load_dinode_def)
    obtain t' where t': "ilock pid jp t = Inr t'" "tx pid t' Map.empty bs2 c2 d2"
        "framed (upd_inode jp (\<lambda>j. (load_dinode (c2 (IBLOCK (i_inum j) t)) (dinode_at (i_inum j)) j)
           \<lparr>i_lock := \<lparr>slocked = True, spid = pid\<rparr>, i_valid := True\<rparr>) t) t'"
      using ilock_reads [OF a(1) [unfolded transaction_tx] a(6,5) _ a(9,11,10) ty] a(3,7) assms(3) by auto
    have "itable t' ! jp = (load_dinode ?x ?k j)\<lparr>i_lock := \<lparr>slocked = True, spid = pid\<rparr>, i_valid := True\<rparr>"
      using framed_fs(2) [OF t'(3)] a(4-6,8) B by (simp add: upd_inode_def)
    then show ?thesis using t'(1,2) st(3) by (intro exI [of _ t']) (simp add: transaction_tx)
  qed
  show ?thesis
    using s' other reload
    by (intro exI [of _ s'] exI [of _ "add_block B bs"] exI [of _ "c(B := ?x)"]) (simp add: transaction_tx)
qed

subsection \<open>Block allocation\<close>

definition blk_used :: "(u32 \<Rightarrow> block) \<Rightarrow> 'a fsst_scheme \<Rightarrow> nat \<Rightarrow> bool" where
  "blk_used c s b = in_use (c (BBLOCK b s)) (b mod BPB)"

lemma in_use_bit: "in_use d bi \<longleftrightarrow> bit (d ! (bi div 8)) (bi mod 8)"
  unfolding in_use_def push_bit_of_1 using and_exp_eq_0_iff_not_bit [of "d ! (bi div 8)" "bi mod 8"] by blast

lemma same_bit: "bj div 8 = bi div 8 \<Longrightarrow> bj mod 8 = bi mod 8 \<Longrightarrow> bj = (bi :: nat)"
  by (metis div_mult_mod_eq)

lemma in_use_mark:
  assumes "bi div 8 < length d"
  shows "in_use (mark_used bi d) bj \<longleftrightarrow> bj = bi \<or> in_use d bj" "in_use (mark_free bi d) bj \<longleftrightarrow> bj \<noteq> bi \<and> in_use d bj"
  using assms same_bit [of bj bi]
  by (auto simp: in_use_bit mark_used_def mark_free_def nth_list_update bit_simps push_bit_of_1 bit_exp_iff split: if_splits)

lemma find_map_image: "find P (map f xs) = map_option f (find (P \<circ> f) xs)"
  by (induction xs) auto

lemma find_shift: "find P [b..<b + m] = map_option (\<lambda>i. b + i) (find (\<lambda>i. P (b + i)) [0..<m])"
proof -
  have "[b..<b + m] = map (\<lambda>i. b + i) [0..<m]" by (rule nth_equalityI) simp_all
  then show ?thesis by (simp add: find_map_image comp_def)
qed

lemma find_append: "find P (xs @ ys) = (case find P xs of None \<Rightarrow> find P ys | Some x \<Rightarrow> Some x)"
  by (induction xs) auto

lemma find_cong_list: "(\<And>x. x \<in> set xs \<Longrightarrow> P x = Q x) \<Longrightarrow> find P xs = find Q xs"
  by (induction xs) auto

text \<open>One block of the free map.\<close>

lemma find_in_block:
  fixes s :: "'a fsst_scheme"
  assumes "k * BPB < N" "N \<le> 2 ^ 31"
  shows "find (\<lambda>b. \<not> blk_used c s b) [k * BPB..<N] =
     (case find (\<lambda>bi. \<not> in_use (c (BBLOCK (k * BPB) s)) bi) [0..<min BPB (N - k * BPB)] of
        Some bi \<Rightarrow> Some (k * BPB + bi) | None \<Rightarrow> find (\<lambda>b. \<not> blk_used c s b) [Suc k * BPB..<N])"
proof -
  let ?m = "min BPB (N - k * BPB)"
  have u: "blk_used c s (k * BPB + bi) = in_use (c (BBLOCK (k * BPB) s)) bi" if "bi < ?m" for bi
    using that by (simp add: blk_used_def BBLOCK_def BPB_def)
  have f: "find (\<lambda>b. \<not> blk_used c s b) [k * BPB..<k * BPB + ?m] =
      map_option (\<lambda>i. k * BPB + i) (find (\<lambda>bi. \<not> in_use (c (BBLOCK (k * BPB) s)) bi) [0..<?m])"
    unfolding find_shift by (rule arg_cong [OF find_cong_list]) (simp add: u)
  have "[k * BPB..<N] = [k * BPB..<k * BPB + ?m] @ [k * BPB + ?m..<N]"
    using upt_add_eq_append [of "k * BPB" "k * BPB + ?m" "N - (k * BPB + ?m)"] assms(1) by simp
  moreover have "[k * BPB + ?m..<N] = [Suc k * BPB..<N]" by (cases "N - k * BPB \<le> BPB") (auto simp: min_def add.commute)
  ultimately show ?thesis using f by (simp add: find_append split: option.splits)
qed

lemma bzero_ok:
  fixes s :: "'a fsst_scheme"
  assumes t: "tx pid s H bs c d" and n: "n \<notin> dom H" and rm: "length bs + card (dom H) < NBUF" and dev: "dev = l_dev s"
    and a: "n \<notin> log_area (l_start s)" and lr: "log_room 1 s bs"
  obtains s' where "bzero pid dev n s = Inr s'" "tx pid s' H (add_block n bs) (c(n := replicate 1024 0)) d" "framed s s'"
proof (rule rewrite [OF assms, where x = "replicate 1024 0"])
  fix b s1 s2 s3
  assume "bread pid dev n s = Inr (b, s1)" "log_write b (set_data b (replicate 1024 0) s1) = Inr s2"
    "brelse pid b s2 = Inr s3" "tx pid s3 H (add_block n bs) (c(n := replicate 1024 0)) d" "framed s s3"
  then show thesis by (intro that [of s3]) (simp_all add: bzero_def del: replicate.simps)
qed

text \<open>What \<open>balloc\<close> does to the contents and the transaction when it takes block \<open>b\<close>.\<close>

definition take_block :: "'a fsst_scheme \<Rightarrow> nat \<Rightarrow> (u32 \<Rightarrow> block) \<Rightarrow> u32 \<Rightarrow> block" where
  "take_block s b c = c(BBLOCK b s := mark_used (b mod BPB) (c (BBLOCK b s)), of_nat b := replicate 1024 0)"

definition can_alloc :: "'a fsst_scheme \<Rightarrow> (u32 \<rightharpoonup> nat) \<Rightarrow> nat \<Rightarrow> bool" where
  "can_alloc s H b \<longleftrightarrow> BBLOCK b s \<notin> log_area (l_start s) \<union> dom H \<and> of_nat b \<notin> log_area (l_start s) \<union> dom H"

lemma balloc_from_ok:
  fixes s :: "'a fsst_scheme"
  assumes "tx pid s H bs c d" "N = unat (sb_size (sb s))" "dev = l_dev s" "log_room 2 s bs" "\<And>b. b < N \<Longrightarrow> BBLOCK b s \<notin> dom H"
    and N: "N \<le> 2 ^ 31" "card (dom H) \<le> 1" and K: "K = (N + (BPB - 1)) div BPB" "k \<le> K"
    and can: "\<And>b. find (\<lambda>b. \<not> blk_used c s b) [k * BPB..<N] = Some b \<Longrightarrow> can_alloc s H b"
  shows "\<exists>s'. framed s s' \<and> (case find (\<lambda>b. \<not> blk_used c s b) [k * BPB..<N] of
       None \<Rightarrow> balloc_from pid dev (map (\<lambda>i. i * BPB) [k..<K]) s = Inr (0, s') \<and> tx pid s' H bs c d
     | Some b \<Rightarrow> balloc_from pid dev (map (\<lambda>i. i * BPB) [k..<K]) s = Inr (of_nat b, s')
         \<and> tx pid s' H (add_block (of_nat b) (add_block (BBLOCK b s) bs)) (take_block s b c) d)"
  using assms(1-5) K(2) can
proof (induction "K - k" arbitrary: k s)
  case 0
  then have "N \<le> k * BPB" using K(1) by (simp add: BPB_def)
  then show ?case using 0 by (intro exI [of _ s]) simp
next
  case (Suc x)
  have xk: "x = K - Suc k" using Suc.hyps(2) by simp
  have kK: "k < K" using Suc.hyps(2) by simp
  then have kN: "k * BPB < N" using K(1) by (simp add: BPB_def)
  let ?n = "BBLOCK (k * BPB) s" and ?f = "find (\<lambda>bi. \<not> in_use (c (BBLOCK (k * BPB) s)) bi) [0..<min BPB (N - k * BPB)]"
  have split: "map (\<lambda>i. i * BPB) [k..<K] = k * BPB # map (\<lambda>i. i * BPB) [Suc k..<K]" using kK by (simp add: upt_conv_Cons)
  note fb = find_in_block [OF kN N(1), of c s]
  have nd: "?n \<notin> dom H" using Suc.prems(5) kN by blast
  have rm: "length bs + card (dom H) < NBUF" using Suc.prems(4) N(2) by (simp add: log_room_def NBUF_LOGSIZE)
  show ?case
  proof (cases ?f)
    case None
    obtain b s1 where 1: "bread pid dev ?n s = Inr (b, s1)" "tx pid s1 (H(?n \<mapsto> b)) bs c d" "framed s s1" "b_data (bufs s1 ! b) = c ?n"
      using peek [OF Suc.prems(1) nd rm Suc.prems(3)] .
    obtain s2 where 2: "brelse pid b s1 = Inr s2" "tx pid s2 H bs c d" "framed s1 s2" using drop_held [OF 1(2) nd] .
    have f: "framed s s2" using framed_trans [OF 1(3) 2(3)] .
    note g = framed_fs [OF f]
    have eq: "blk_used c s2 = blk_used c s" "can_alloc s2 H = can_alloc s H" "take_block s2 = take_block s"
      using g by (simp_all add: blk_used_def fun_eq_iff can_alloc_def take_block_def)
    have fN: "find (\<lambda>b. \<not> blk_used c s b) [k * BPB..<N] = find (\<lambda>b. \<not> blk_used c s b) [Suc k * BPB..<N]" using fb None by simp
    obtain s' where s': "framed s2 s'" "case find (\<lambda>b. \<not> blk_used c s2 b) [Suc k * BPB..<N] of
       None \<Rightarrow> balloc_from pid dev (map (\<lambda>i. i * BPB) [Suc k..<K]) s2 = Inr (0, s') \<and> tx pid s' H bs c d
     | Some b \<Rightarrow> balloc_from pid dev (map (\<lambda>i. i * BPB) [Suc k..<K]) s2 = Inr (of_nat b, s')
         \<and> tx pid s' H (add_block (of_nat b) (add_block (BBLOCK b s2) bs)) (take_block s2 b c) d"
      using Suc.hyps(1) [OF xk 2(2)] Suc.prems(2,3,5,7) g kK log_room_step [OF Suc.prems(4) f] eq fN by auto
    have st: "balloc_from pid dev (map (\<lambda>i. i * BPB) [k..<K]) s = balloc_from pid dev (map (\<lambda>i. i * BPB) [Suc k..<K]) s2"
      unfolding split using 1(1,4) 2(1) None framed_fs(1) [OF 1(3)] Suc.prems(2) by (simp add: Let_def)
    show ?thesis using s' framed_trans [OF f s'(1)] unfolding eq fN g st by (intro exI [of _ s']) simp
  next
    case (Some bi)
    then have bi: "bi < BPB" "k * BPB + bi < N" by (auto simp: find_Some_iff)
    define b0 where "b0 = k * BPB + bi"
    have f0: "find (\<lambda>b. \<not> blk_used c s b) [k * BPB..<N] = Some b0" using fb Some by (simp add: b0_def)
    have b0: "BBLOCK b0 s = ?n" "b0 mod BPB = bi" using bi(1) by (simp_all add: b0_def BBLOCK_def BPB_def)
    have al: "can_alloc s H b0" using Suc.prems(7) f0 by blast
    then have na: "?n \<notin> log_area (l_start s)" and n0: "of_nat b0 \<notin> dom H" "of_nat b0 \<notin> log_area (l_start s)"
      using b0(1) by (simp_all add: can_alloc_def)
    let ?c1 = "c(?n := mark_used bi (c ?n))"
    have lr: "log_room 1 s bs" using log_room_step [OF Suc.prems(4) framed_refl] by simp
    obtain b s1 s2 s3 where r: "bread pid dev ?n s = Inr (b, s1)" "framed s s1" "b_data (bufs s1 ! b) = c ?n"
      "log_write b (set_data b (mark_used bi (c ?n)) s1) = Inr s2" "brelse pid b s2 = Inr s3" "tx pid s3 H (add_block ?n bs) ?c1 d" "framed s s3"
      using rewrite [OF Suc.prems(1) nd rm Suc.prems(3) na lr] by metis
    note g3 = framed_fs [OF r(7)]
    have rm3: "length (add_block ?n bs) + card (dom H) < NBUF"
      using length_add_block [of ?n bs] Suc.prems(4) N(2) by (simp add: log_room_def NBUF_LOGSIZE)
    have lr3: "log_room 1 s3 (add_block ?n bs)"
      using length_add_block [of ?n bs] by (intro log_room_step [OF Suc.prems(4) r(7)]) simp
    have d3: "dev = l_dev s3" and a3: "of_nat b0 \<notin> log_area (l_start s3)" using Suc.prems(3) n0(2) g3 by simp_all
    obtain s4 where 4: "bzero pid dev (of_nat b0) s3 = Inr s4" "tx pid s4 H (add_block (of_nat b0) (add_block ?n bs)) (?c1(of_nat b0 := replicate 1024 0)) d"
        "framed s3 s4"
      using bzero_ok [OF r(6) n0(1) rm3 d3 a3 lr3] by metis
    have "balloc_from pid dev (map (\<lambda>i. i * BPB) [k..<K]) s = Inr (of_nat b0, s4)"
      unfolding split using r(1,3-5) 4(1) Some framed_fs(1) [OF r(2)] Suc.prems(2) by (simp add: Let_def b0_def)
    then show ?thesis using 4(2) framed_trans [OF r(7) 4(3)] b0 by (intro exI [of _ s4]) (simp add: f0 take_block_def)
  qed
qed

lemma balloc_ok:
  fixes s :: "'a fsst_scheme"
  assumes "tx pid s H bs c d" "N = unat (sb_size (sb s))" "dev = l_dev s" "log_room 2 s bs" "\<And>b. b < N \<Longrightarrow> BBLOCK b s \<notin> dom H"
    "N \<le> 2 ^ 31" "card (dom H) \<le> 1" "\<And>b. find (\<lambda>b. \<not> blk_used c s b) [0..<N] = Some b \<Longrightarrow> can_alloc s H b"
  shows "\<exists>s'. framed s s' \<and> (case find (\<lambda>b. \<not> blk_used c s b) [0..<N] of
       None \<Rightarrow> balloc pid dev s = Inr (0, s') \<and> tx pid s' H bs c d
     | Some b \<Rightarrow> balloc pid dev s = Inr (of_nat b, s')
         \<and> tx pid s' H (add_block (of_nat b) (add_block (BBLOCK b s) bs)) (take_block s b c) d)"
  using balloc_from_ok [OF assms(1-7) refl, of 0] assms(8) unfolding balloc_def assms(2) [symmetric] by simp

lemma BBLOCK_eq:
  assumes "a < 2 ^ 32" "b < 2 ^ 32"
  shows "BBLOCK a s = BBLOCK b s \<longleftrightarrow> a div BPB = b div BPB"
proof -
  have "a div BPB < 2 ^ 32" "b div BPB < 2 ^ 32" using assms by (simp_all add: BPB_def)
  then have "(of_nat (a div BPB) :: u32) = of_nat (b div BPB) \<longleftrightarrow> a div BPB = b div BPB"
    by (simp add: word_unat_eq_iff unat_of_nat)
  then show ?thesis by (simp add: BBLOCK_def)
qed

lemma take_block_used:
  assumes "length (c (BBLOCK b s)) = 1024" "b < 2 ^ 32" "b' < 2 ^ 32" "BBLOCK b' s \<noteq> of_nat b"
  shows "blk_used (take_block s b c) s b' \<longleftrightarrow> b' = b \<or> blk_used c s b'"
proof (cases "BBLOCK b' s = BBLOCK b s")
  case True
  then have "b' div BPB = b div BPB" using BBLOCK_eq assms(2,3) by blast
  then have "b' mod BPB = b mod BPB \<longleftrightarrow> b' = b" by (metis div_mult_mod_eq)
  moreover have "b mod BPB div 8 < 1024" by (simp add: BPB_def)
  ultimately show ?thesis using True assms(1,4) in_use_mark(1) [of "b mod BPB" "c (BBLOCK b s)"]
    by (simp add: blk_used_def take_block_def)
next
  case False
  then show ?thesis using assms(4) by (auto simp: blk_used_def take_block_def)
qed

text \<open>C20: block allocation. \<open>balloc\<close> returns the lowest block the free map shows free, marks exactly that block
  as used and zeroes it, inside the transaction and touching no other block; when no block is free it returns
  0 and changes nothing. Hypotheses: the log has room for two blocks, and the blocks the free map offers are
  neither log nor free-map blocks.
\<close>

theorem balloc_takes_first_free:
  fixes s :: "'a fsst_scheme"
  assumes "transaction pid s bs c d" "N = unat (sb_size (sb s))" "N \<le> 2 ^ 31" "log_room 2 s bs"
    and "\<And>b. b < N \<Longrightarrow> \<not> blk_used c s b \<Longrightarrow> can_alloc s Map.empty b \<and> length (c (BBLOCK b s)) = 1024 \<and> (\<forall>b'<N. BBLOCK b' s \<noteq> of_nat b)"
  shows "\<exists>s' bs' c'. framed s s' \<and> transaction pid s' bs' c' d \<and> (case find (\<lambda>b. \<not> blk_used c s b) [0..<N] of
       None \<Rightarrow> balloc pid (l_dev s) s = Inr (0, s') \<and> c' = c
     | Some b \<Rightarrow> balloc pid (l_dev s) s = Inr (of_nat b, s') \<and> c' (of_nat b) = replicate 1024 0
         \<and> (\<forall>b'<N. blk_used c' s' b' \<longleftrightarrow> b' = b \<or> blk_used c s b')
         \<and> (\<forall>n. n \<noteq> of_nat b \<and> n \<noteq> BBLOCK b s \<longrightarrow> c' n = c n))"
proof -
  have found: "b < N \<and> \<not> blk_used c s b" if "find (\<lambda>b. \<not> blk_used c s b) [0..<N] = Some b" for b
    using that by (auto simp: find_Some_iff)
  obtain s' where s': "framed s s'" "case find (\<lambda>b. \<not> blk_used c s b) [0..<N] of
       None \<Rightarrow> balloc pid (l_dev s) s = Inr (0, s') \<and> tx pid s' Map.empty bs c d
     | Some b \<Rightarrow> balloc pid (l_dev s) s = Inr (of_nat b, s')
         \<and> tx pid s' Map.empty (add_block (of_nat b) (add_block (BBLOCK b s) bs)) (take_block s b c) d"
    using balloc_ok [OF assms(1) [unfolded transaction_tx] assms(2) refl assms(4) _ assms(3)] found assms(5) by auto
  show ?thesis
  proof (cases "find (\<lambda>b. \<not> blk_used c s b) [0..<N]")
    case None
    then show ?thesis using s' by (intro exI [of _ s'] exI [of _ bs] exI [of _ c]) (simp add: transaction_tx)
  next
    case (Some b)
    note b = found [OF Some]
    have "blk_used (take_block s b c) s' b' \<longleftrightarrow> b' = b \<or> blk_used c s b'" if "b' < N" for b'
    proof -
      have "blk_used (take_block s b c) s' b' = blk_used (take_block s b c) s b'"
        using framed_fs(11) [OF s'(1)] by (simp add: blk_used_def)
      then show ?thesis using take_block_used [of c b s b'] b that assms(3) assms(5) [of b] by simp
    qed
    then show ?thesis using s' Some
      by (intro exI [of _ s'] exI [of _ "add_block (of_nat b) (add_block (BBLOCK b s) bs)"] exI [of _ "take_block s b c"])
        (simp add: transaction_tx, simp add: take_block_def)
  qed
qed

subsection \<open>Examples\<close>

lemma fresh_tx:
  fixes s :: "'a logst_scheme"
  assumes "bufs s = replicate (Suc NBUF) zero_buf" "l_dev s \<noteq> 0" "lh_n s = 0" "length (lh_block s) = LOGSIZE"
    "length (disk s (la (l_start s) 0)) = 1024" "get32 (disk s (la (l_start s) 0)) 0 = 0"
  shows "tx pid (binit s) Map.empty [] (disk s) (disk s)"
proof -
  note r = binit_rep [OF assms(1,2)]
  note m = log_more [OF r(3)]
  show ?thesis
    unfolding tx_def
    by (intro conjI exI [of _ "fresh_view (disk s)"]) (use r(1) m assms in \<open>auto simp: fresh_view_def LOGSIZE_def\<close>)
qed

lemma demo_area: "b \<in> log_area 2 \<Longrightarrow> unat b \<le> 32"
proof -
  assume "b \<in> log_area 2"
  then obtain i where i: "i \<le> 30" "b = of_nat (i + 2)" by (auto simp: log_area_def la_def LOGSIZE_def add.commute)
  show ?thesis unfolding i(2) unat_of_nat using i(1) by simp
qed

lemma demo_tx: "tx pid demo_fs Map.empty [] demo_disk demo_disk"
proof -
  have "demo_disk (la 2 0) = replicate 1024 0" by (simp add: la_def demo_disk_def del: replicate.simps)
  then have "length (demo_disk (la 2 0)) = 1024" "get32 (demo_disk (la 2 0)) 0 = 0"
    by (simp_all add: get32_def nth_replicate del: replicate.simps)
  then show ?thesis
    using fresh_tx [of demo_boot pid] by (simp add: demo_boot_def demo_fs_def del: replicate.simps)
qed

lemma demo_room: "k \<le> 25 \<Longrightarrow> log_room k demo_fs []"
  by (simp add: log_room_def demo_fs_fields LOGSIZE_def)

theorem iupdate_ilock_roundtrip_witness:
  "\<exists>s' t'. iupdate 1 0 demo_fs = Inr s' \<and> ilock 1 1 (upd_inode 1 (\<lambda>_. root_entry\<lparr>i_valid := False, i_size := 0\<rparr>) s') = Inr t'
     \<and> i_size (itable t' ! 1) = 32"
proof -
  have B: "(40 :: u32) = IBLOCK (i_inum root_entry) demo_fs" by (simp add: IBLOCK_def demo_fs_fields root_entry_def IPB_def)
  have r: "root_entry = itable demo_fs ! 0" by (simp add: demo_entry NINODE_def)
  have l: "(40 :: u32) \<notin> log_area (l_start demo_fs)" using demo_area [of 40] by (auto simp: demo_fs_fields)
  have d: "length (demo_disk 40) = 1024" by (simp add: demo_disk_def del: replicate.simps)
  obtain s' bs' c' where s': "iupdate 1 0 demo_fs = Inr s'" "transaction 1 s' bs' c' demo_disk" "framed demo_fs s'"
     and reload: "\<And>(t :: fsst) bs2 c2 d2 jp j. transaction 1 t bs2 c2 d2 \<and> sb t = sb demo_fs \<and> l_dev t = l_dev demo_fs \<and> c2 40 = c' 40
           \<and> jp < length (itable t) \<and> j = itable t ! jp \<and> i_dev j = i_dev root_entry \<and> i_inum j = i_inum root_entry \<and> 1 \<le> i_ref j
           \<and> \<not> i_valid j \<and> \<not> slocked (i_lock j)
         \<Longrightarrow> \<exists>t'. ilock 1 jp t = Inr t' \<and> transaction 1 t' bs2 c2 d2
               \<and> itable t' ! jp = j\<lparr>i_lock := \<lparr>slocked = True, spid = 1\<rparr>, i_valid := True, i_type := i_type root_entry, i_major := i_major root_entry,
                   i_minor := i_minor root_entry, i_nlink := i_nlink root_entry, i_size := i_size root_entry, i_addrs := i_addrs root_entry\<rparr>"
    using iupdate_ilock_roundtrip [OF demo_tx [folded transaction_tx] r _ B l demo_room _ d, of 1]
    by (auto simp: root_entry_def NDIRECT_def demo_fs_fields T_DIR_def)
  let ?j = "root_entry\<lparr>i_valid := False, i_size := 0\<rparr>"
  let ?t = "upd_inode 1 (\<lambda>_. ?j) s'"
  have "length (itable ?t) = 50" "itable ?t ! 1 = ?j" using framed_fs(2) [OF s'(3)] by (simp_all add: upd_inode_def demo_fs_fields)
  moreover have "transaction 1 ?t bs' c' demo_disk" using s'(2) by (simp add: transaction_tx)
  moreover have "sb ?t = sb demo_fs" "l_dev ?t = l_dev demo_fs" using framed_fs(1,6) [OF s'(3)] by (simp_all add: upd_inode_def)
  ultimately obtain t' where "ilock 1 1 ?t = Inr t'" "itable t' ! 1 = ?j\<lparr>i_lock := \<lparr>slocked = True, spid = 1\<rparr>, i_valid := True, i_type := i_type root_entry, i_major := i_major root_entry,
                   i_minor := i_minor root_entry, i_nlink := i_nlink root_entry, i_size := i_size root_entry, i_addrs := i_addrs root_entry\<rparr>"
    using reload [of ?t bs' c' demo_disk 1 ?j] by (auto simp: root_entry_def initsleeplock_def)
  then show ?thesis using s'(1) by (intro exI [of _ s'] exI [of _ t']) (simp add: root_entry_def)
qed

lemma demo_used: "b < 100 \<Longrightarrow> blk_used demo_disk demo_fs b \<longleftrightarrow> b < 64"
proof -
  assume b: "b < 100"
  have B: "BBLOCK b demo_fs = 45" using b by (simp add: BBLOCK_def BPB_def demo_fs_fields)
  have one: "bit (255 :: u8) m" if "m < 8" for m
  proof -
    have "m = 0 \<or> m = 1 \<or> m = 2 \<or> m = 3 \<or> m = 4 \<or> m = 5 \<or> m = 6 \<or> m = 7" using that by linarith
    then show ?thesis by (elim disjE) simp_all
  qed
  have "(replicate 8 255 @ replicate 1016 0 :: block) ! (b div 8) = (if b < 64 then 255 else 0)"
    using b by (auto simp: nth_append nth_replicate simp del: replicate.simps)
  then show ?thesis using b one by (simp add: blk_used_def B demo_disk_def in_use_bit BPB_def del: replicate.simps)
qed

theorem balloc_takes_first_free_witness:
  "\<exists>s' bs' c'. balloc 1 1 demo_fs = Inr (64, s') \<and> transaction 1 s' bs' c' demo_disk \<and> blk_used c' s' 64 \<and> \<not> blk_used c' s' 65"
proof -
  have N: "(100 :: nat) = unat (sb_size (sb demo_fs))" by (simp add: demo_fs_fields)
  have B: "BBLOCK b demo_fs = 45" if "b < 100" for b using that by (simp add: BBLOCK_def BPB_def demo_fs_fields)
  have ok: "can_alloc demo_fs Map.empty b \<and> length (demo_disk (BBLOCK b demo_fs)) = 1024 \<and> (\<forall>b'<100. BBLOCK b' demo_fs \<noteq> of_nat b)"
    if "b < 100" "\<not> blk_used demo_disk demo_fs b" for b
  proof -
    have u: "64 \<le> unat (of_nat b :: u32)" using that demo_used by (simp add: unat_of_nat)
    have "of_nat b \<noteq> (45 :: u32)" using u by auto
    then show ?thesis using that(1) u demo_area [of "of_nat b"] demo_area [of 45] B
      by (auto simp: can_alloc_def demo_fs_fields demo_disk_def simp del: replicate.simps)
  qed
  have f: "find (\<lambda>b. \<not> blk_used demo_disk demo_fs b) [0..<100] = Some 64"
    by (simp add: find_range demo_used)
  have N2: "(100 :: nat) \<le> 2 ^ 31" and room: "log_room 2 demo_fs []" and n64: "(of_nat 64 :: u32) = 64" by (simp_all add: demo_room)
  obtain s' bs' c' where "transaction 1 s' bs' c' demo_disk" "balloc 1 1 demo_fs = Inr (64, s')"
      "\<forall>b'<100. blk_used c' s' b' = (b' = 64 \<or> blk_used demo_disk demo_fs b')"
    using balloc_takes_first_free [OF demo_tx [where pid = 1, folded transaction_tx] N N2 room ok] unfolding f option.case demo_fs_fields(4) n64
    by blast
  then show ?thesis by (intro exI [of _ s'] exI [of _ bs'] exI [of _ c']) (simp add: demo_used)
qed

end
