(* ===== verification/FileIO.thy ===== *)
theory FileIO
  imports Inode
begin

text \<open>
  The contents of files and directories of \<open>kernel/fs.c\<close>. A file is the sequence of bytes of its blocks, found
  through the direct addresses and the block of indirect ones (\<open>file_byte\<close>); \<open>readi\<close> delivers a piece of it,
  \<open>writei\<close> replaces one, and \<open>dirlookup\<close> searches it as a list of entries.
\<close>

definition file_ok :: "(u32 \<Rightarrow> block) \<Rightarrow> inode \<Rightarrow> bool" where
  "file_ok c i \<longleftrightarrow> (\<forall>bn. bn * 1024 < unat (i_size i) \<longrightarrow> has_block c i bn)"

lemma file_ok_size: "file_ok c i \<Longrightarrow> unat (i_size i) \<le> 274432"
proof (rule ccontr)
  assume ok: "file_ok c i" and big: "\<not> unat (i_size i) \<le> 274432"
  have "(268 :: nat) * 1024 < unat (i_size i)" using big by simp
  then have "has_block c i 268" using ok unfolding file_ok_def by blast
  then show False by (simp add: has_block_def MAXFILE_def NDIRECT_def NINDIRECT_def)
qed

lemma in_kernel_mono: "in_kernel dst n s \<Longrightarrow> m \<le> n \<Longrightarrow> in_kernel dst m s"
  by (auto simp: in_kernel_def split: place.splits)

text \<open>C13: reading a file. For an inode whose blocks are allocated up to its size, \<open>readi\<close> into kernel memory or a
  local variable returns the number of bytes between the offset and the end of the file, at most \<open>n\<close>, and
  delivers exactly those bytes of the file, through direct and indirect blocks alike. Nothing else changes:
  neither the blocks nor the inode table nor the transaction.
\<close>

theorem readi_reads_file:
  fixes s :: "'a fsst_scheme"
  assumes "transaction pid s bs c d" "i = itable s ! ip" "i_dev i = l_dev s" "file_ok c i"
    and "in_kernel dst (unat n) s" "unat off + unat n < 2 ^ 31" "m = min (unat n) (unat (i_size i) - unat off)"
  shows "\<exists>s'. readi pid ip dst off n s = Inr (int m, s') \<and> transaction pid s' bs c d
     \<and> framed (deliver dst 0 (file_slice c i (unat off) m) s) s'"
proof -
  let ?sz = "i_size i"
  have sz: "unat ?sz < 2 ^ 31" using file_ok_size [OF assms(4)] by simp
  have on: "unat (off + n) = unat off + unat n" using assms(6) by (simp add: unat_word_ariths)
  then have no: "\<not> off + n < off" by (simp add: word_less_nat_alt)
  show ?thesis
  proof (cases "?sz < off")
    case True
    then have "m = 0" using assms(7) by (simp add: word_less_nat_alt)
    then show ?thesis using True assms(1,2) by (intro exI [of _ s]) (simp add: readi_def Let_def)
  next
    case False
    then have os: "unat off \<le> unat ?sz" by (simp add: word_less_nat_alt)
    let ?n = "if ?sz < off + n then ?sz - off else n"
    have n: "unat ?n = m"
      using os assms(7) on unat_sub [of off ?sz] by (auto simp: word_less_nat_alt word_le_nat_alt)
    have "\<exists>s'. readi_from pid ip dst off ?n 0 s = Inr (int (unat ?n), s') \<and> tx pid s' Map.empty bs c d
      \<and> framed (deliver dst (unat (0 :: u32)) (file_slice c i (unat off) (unat ?n - unat (0 :: u32))) s) s'"
      by (rule readi_from_reads [where sz = "unat ?sz", OF assms(1) [unfolded transaction_tx]])
        (use assms sz os n in \<open>auto simp: file_ok_def intro: in_kernel_mono\<close>)
    from this [unfolded n] show ?thesis using False no
      by (simp add: readi_def Let_def transaction_tx assms(2) [symmetric])
  qed
qed

subsection \<open>Directories\<close>

definition dir_entry :: "(u32 \<Rightarrow> block) \<Rightarrow> inode \<Rightarrow> nat \<Rightarrow> u8 list" where
  "dir_entry c i k = file_slice c i (16 * k) 16"

definition names :: "(u32 \<Rightarrow> block) \<Rightarrow> inode \<Rightarrow> u8 list \<Rightarrow> nat \<Rightarrow> bool" where
  "names c i name k \<longleftrightarrow> de_inum (dir_entry c i k) \<noteq> 0 \<and> name_str (de_name (dir_entry c i k)) = name_str name"

lemma read_entry:
  fixes s :: "'a fsst_scheme"
  assumes t: "tx pid s Map.empty bs c d" and i: "i = itable s ! dp" "i_dev i = l_dev s" "file_ok c i"
    and l: "length (fs_local s) = 16" and k: "16 * k + 16 \<le> unat (i_size i)"
  obtains s' where "readi pid dp Local (of_nat (16 * k)) 16 s = Inr (16, s')" "tx pid s' Map.empty bs c d"
    "framed (s\<lparr>fs_local := dir_entry c i k\<rparr>) s'"
proof -
  have k': "16 * k < 2 ^ 30" using k file_ok_size [OF i(3)] by simp
  then have u: "unat (of_nat (16 * k) :: u32) = 16 * k" unfolding unat_of_nat by (intro mod_less) simp
  have "\<exists>s'. readi pid dp Local (of_nat (16 * k)) 16 s = Inr (int 16, s') \<and> transaction pid s' bs c d
     \<and> framed (deliver Local 0 (file_slice c i (unat (of_nat (16 * k) :: u32)) 16) s) s'"
    by (rule readi_reads_file [OF t [folded transaction_tx] i])
      (unfold u, use l k k' in \<open>simp_all add: in_kernel_def\<close>)
  moreover have "deliver Local 0 (file_slice c i (16 * k) 16) s = s\<lparr>fs_local := dir_entry c i k\<rparr>"
    using l by (simp add: deliver_def patch_def dir_entry_def)
  ultimately show ?thesis using that u by (auto simp: transaction_tx)
qed

lemma length_dir_entry [simp]: "length (dir_entry c i k) = 16"
  by (simp add: dir_entry_def)

lemma dirlookup_from_finds:
  fixes s :: "'a fsst_scheme"
  assumes "tx pid s Map.empty bs c d" "i = itable s ! dp" "i_dev i = l_dev s" "length (fs_local s) = 16"
    and ok: "file_ok c i" "16 * K \<le> unat (i_size i)" and "k \<le> K"
  shows "\<exists>s' z. tx pid s' Map.empty bs c d \<and> framed (s\<lparr>fs_local := z\<rparr>) s'
     \<and> dirlookup_from pid dp name (map (\<lambda>i. of_nat (16 * i)) [k..<K]) s =
       (case find (names c i name) [k..<K] of
          None \<Rightarrow> Inr (None, s')
        | Some k \<Rightarrow> bindE (iget (i_dev i) (ucast (de_inum (dir_entry c i k))) s') (\<lambda>(ip, s). Inr (Some (ip, of_nat (16 * k)), s)))"
  using assms(1-4,7)
proof (induction "K - k" arbitrary: k s)
  case 0
  then show ?case by (intro exI [of _ s] exI [of _ "fs_local s"]) simp
next
  case (Suc x)
  have xk: "x = K - Suc k" "k < K" using Suc.hyps(2) by simp_all
  have sp: "[k..<K] = k # [Suc k..<K]" using xk(2) by (rule upt_conv_Cons)
  obtain s1 where 1: "readi pid dp Local (of_nat (16 * k)) 16 s = Inr (16, s1)" "tx pid s1 Map.empty bs c d"
      "framed (s\<lparr>fs_local := dir_entry c i k\<rparr>) s1"
    using read_entry [OF Suc.prems(1-3) ok(1) Suc.prems(4), of k] ok(2) xk(2) by auto
  note f = framed_fs [OF 1(3)]
  show ?case
  proof (cases "names c i name k")
    case True
    then show ?thesis using 1 f Suc.prems(2) unfolding sp
      by (intro exI [of _ s1] exI [of _ "dir_entry c i k"]) (simp add: names_def namecmp_0 Let_def)
  next
    case False
    obtain s' z where s': "tx pid s' Map.empty bs c d" "framed (s1\<lparr>fs_local := z\<rparr>) s'"
      "dirlookup_from pid dp name (map (\<lambda>i. of_nat (16 * i)) [Suc k..<K]) s1 =
       (case find (names c i name) [Suc k..<K] of
          None \<Rightarrow> Inr (None, s')
        | Some k \<Rightarrow> bindE (iget (i_dev i) (ucast (de_inum (dir_entry c i k))) s') (\<lambda>(ip, s). Inr (Some (ip, of_nat (16 * k)), s)))"
      using Suc.hyps(1) [OF xk(1) 1(2)] f Suc.prems(2,3) xk(2) by auto
    have "framed (s\<lparr>fs_local := z\<rparr>) s'"
      using framed_trans [OF framed_upd(1) [OF 1(3), of z] s'(2)] by simp
    moreover have "dirlookup_from pid dp name (map (\<lambda>i. of_nat (16 * i)) [k..<K]) s
        = dirlookup_from pid dp name (map (\<lambda>i. of_nat (16 * i)) [Suc k..<K]) s1"
      unfolding sp using 1(1) f False by (auto simp: names_def namecmp_0 Let_def)
    ultimately show ?thesis using s' False unfolding sp by (intro exI [of _ s'] exI [of _ z]) simp
  qed
qed

text \<open>C25: directories. In a directory, a sequence of 16-byte entries, \<open>dirlookup\<close> finds the first entry that is
  in use and whose name equals the name sought (as strings of at most 14 bytes), and returns the table entry of
  its inode together with its offset; when there is none it returns null. Up to that point only the
  local variable has changed.
\<close>

theorem dirlookup_finds_first:
  fixes s :: "'a fsst_scheme"
  assumes "transaction pid s bs c d" "i = itable s ! dp" "i_dev i = l_dev s" "file_ok c i" "i_type i = T_DIR"
    and "unat (i_size i) = 16 * K"
  shows "\<exists>s' z. transaction pid s' bs c d \<and> framed (s\<lparr>fs_local := z\<rparr>) s'
     \<and> dirlookup pid dp name s =
       (case find (\<lambda>k. de_inum (dir_entry c i k) \<noteq> 0 \<and> name_str (de_name (dir_entry c i k)) = name_str name) [0..<K] of
          None \<Rightarrow> Inr (None, s')
        | Some k \<Rightarrow> bindE (iget (l_dev s) (ucast (de_inum (dir_entry c i k))) s') (\<lambda>(ip, s). Inr (Some (ip, of_nat (16 * k)), s)))"
proof -
  let ?s = "s\<lparr>fs_local := replicate 16 0\<rparr>"
  have n: "names c i name = (\<lambda>k. de_inum (dir_entry c i k) \<noteq> 0 \<and> name_str (de_name (dir_entry c i k)) = name_str name)"
    by (simp add: names_def fun_eq_iff)
  have o: "offsets (i_size i) = map (\<lambda>i. of_nat (16 * i)) [0..<K]" using assms(6) by (simp add: offsets_def)
  have "tx pid ?s Map.empty bs c d" using assms(1) by (simp add: transaction_tx)
  from dirlookup_from_finds [OF this, of i dp K 0 name] assms(2-6) obtain s' z where
    s': "tx pid s' Map.empty bs c d" "framed (?s\<lparr>fs_local := z\<rparr>) s'"
       "dirlookup_from pid dp name (map (\<lambda>i. of_nat (16 * i)) [0..<K]) ?s =
       (case find (names c i name) [0..<K] of
          None \<Rightarrow> Inr (None, s')
        | Some k \<Rightarrow> bindE (iget (i_dev i) (ucast (de_inum (dir_entry c i k))) s') (\<lambda>(ip, s). Inr (Some (ip, of_nat (16 * k)), s)))"
    by auto
  then show ?thesis using assms(5) o unfolding n assms(3)
    by (intro exI [of _ s'] exI [of _ z]) (simp add: dirlookup_def transaction_tx assms(2) [symmetric] assms(3))
qed

subsection \<open>Writing a file\<close>

text \<open>The first \<open>N\<close> blocks of the file are there, are different blocks, and are neither log blocks nor the block
  of indirect addresses nor the block of the inode.\<close>

definition apart :: "(u32 \<Rightarrow> block) \<Rightarrow> inode \<Rightarrow> nat \<Rightarrow> u32 set \<Rightarrow> bool" where
  "apart c i N X \<longleftrightarrow> N \<le> MAXFILE \<and> (\<forall>bn < N. has_block c i bn \<and> file_addr c i bn \<notin> X) \<and> inj_on (file_addr c i) {..<N}
     \<and> (NDIRECT < N \<longrightarrow> i_addrs i ! NDIRECT \<in> X)"

definition file_data :: "(u32 \<Rightarrow> block) \<Rightarrow> inode \<Rightarrow> nat \<Rightarrow> u8 list" where
  "file_data c i N = file_slice c i 0 (N * 1024)"

lemma nth_patch:
  "k + length xs \<le> length d \<Longrightarrow> patch k xs d ! j = (if j < k then d ! j else if j < k + length xs then xs ! (j - k) else d ! j)"
  by (auto simp: patch_def nth_append)

lemma patch_nil [simp]: "patch k [] d = d"
  by (simp add: patch_def)

lemma file_addr_upd:
  assumes "apart c i N X" "bn < N" "a = file_addr c i bm" "bm < N"
  shows "file_addr (c(a := x)) i bn = file_addr c i bn"
  using assms by (auto simp: apart_def file_addr_def)

lemma apart_upd:
  assumes "apart c i N X" "a = file_addr c i bm" "bm < N" "length x = 1024"
  shows "apart (c(a := x)) i N X"
proof -
  have f: "\<And>bn. bn < N \<Longrightarrow> file_addr (c(a := x)) i bn = file_addr c i bn" by (rule file_addr_upd [OF assms(1) _ assms(2,3)])
  then have "inj_on (file_addr (c(a := x)) i) {..<N}" using assms(1) by (simp add: apart_def inj_on_def)
  then show ?thesis using assms f by (auto simp: apart_def has_block_def)
qed

text \<open>A position as block and offset.\<close>

lemma in_span:
  fixes q r u v l :: nat
  assumes "r + l \<le> 1024" "v < 1024"
  shows "q * 1024 + r \<le> u * 1024 + v \<and> u * 1024 + v < q * 1024 + r + l \<longleftrightarrow> u = q \<and> r \<le> v \<and> v < r + l"
proof -
  consider "u = q" | "u + 1 \<le> q" | "q + 1 \<le> u" by linarith
  then show ?thesis
  proof cases
    case 2
    then show ?thesis using assms by auto
  next
    case 3
    then show ?thesis using assms by auto
  qed auto
qed

lemma span_limit:
  fixes q r l N :: nat
  assumes "r + l \<le> 1024" "q < N"
  shows "q * 1024 + r + l \<le> N * 1024"
proof -
  have "q + 1 \<le> N" using assms(2) by simp
  then show ?thesis using assms(1) by linarith
qed

lemma file_data_upd:
  assumes ap: "apart c i N X" and bn: "off div 1024 < N" "off mod 1024 + length xs \<le> 1024" and a: "a = file_addr c i (off div 1024)"
  shows "file_data (c(a := patch (off mod 1024) xs (c a))) i N = patch off xs (file_data c i N)"
proof (rule nth_equalityI)
  have la: "length (c a) = 1024" using ap bn(1) by (simp add: apart_def has_block_def a)
  have lim: "off + length xs \<le> N * 1024"
    using span_limit [OF bn(2,1)] by (simp only: div_mult_mod_eq)
  then show "length (file_data (c(a := patch (off mod 1024) xs (c a))) i N) = length (patch off xs (file_data c i N))"
    by (simp add: file_data_def)
  fix k
  assume "k < length (file_data (c(a := patch (off mod 1024) xs (c a))) i N)"
  then have k: "k < N * 1024" "k div 1024 < N" by (simp_all add: file_data_def)
  have fa: "file_addr (c(a := patch (off mod 1024) xs (c a))) i (k div 1024) = file_addr c i (k div 1024)"
    by (rule file_addr_upd [OF ap k(2) a bn(1)])
  have inj: "file_addr c i (k div 1024) = a \<longleftrightarrow> k div 1024 = off div 1024"
    using ap bn(1) k(2) by (auto simp: apart_def a inj_on_def)
  have sp: "off \<le> k \<and> k < off + length xs \<longleftrightarrow> k div 1024 = off div 1024 \<and> off mod 1024 \<le> k mod 1024 \<and> k mod 1024 < off mod 1024 + length xs"
    using in_span [OF bn(2), of "k mod 1024" "off div 1024" "k div 1024"] by (simp only: div_mult_mod_eq)
  have df: "k mod 1024 - off mod 1024 = k - off" if "k div 1024 = off div 1024"
    using that by (metis add_diff_cancel_left div_mult_mod_eq)
  have "file_byte (c(a := patch (off mod 1024) xs (c a))) i k =
      (if off \<le> k \<and> k < off + length xs then xs ! (k - off) else file_byte c i k)"
    unfolding sp using inj la bn(2) df by (auto simp: file_byte_def fa nth_patch)
  then show "file_data (c(a := patch (off mod 1024) xs (c a))) i N ! k = patch off xs (file_data c i N) ! k"
    using k lim by (simp add: file_data_def nth_patch) (simp add: file_slice_def)
qed

text \<open>The bytes a source in the kernel stands for.\<close>

definition source :: "place \<Rightarrow> nat \<Rightarrow> 'a fsst_scheme \<Rightarrow> u8 list" where
  "source src n s = (case src of KernelAddr a \<Rightarrow> bytes_at (pmem (fs_mach s)) a n | _ \<Rightarrow> take n (fs_local s))"

lemma length_source: "in_kernel src n s \<Longrightarrow> length (source src n s) = n"
  by (auto simp: in_kernel_def source_def bytes_at_def split: place.splits)

lemma either_copyin_source:
  assumes "in_kernel src n s" "tot + m \<le> n"
  shows "either_copyin src tot m s = Inr (0, take m (drop tot (source src n s)))"
proof (cases src)
  case (KernelAddr a)
  have "bytes_at (pmem (fs_mach s)) (a + of_nat tot) m = take m (drop tot (bytes_at (pmem (fs_mach s)) a n))"
    by (rule nth_equalityI) (use assms(2) in \<open>auto simp: bytes_at_def add.assoc\<close>)
  then show ?thesis by (simp add: either_copyin_def source_def KernelAddr)
qed (use assms in \<open>simp_all add: either_copyin_def source_def in_kernel_def take_drop min_def\<close>)

definition blocks_touched :: "nat \<Rightarrow> nat \<Rightarrow> nat" where
  "blocks_touched off r = (if r = 0 then 0 else (off mod 1024 + r + 1023) div 1024)"

lemma blocks_touched_step:
  assumes "0 < r" "m = min r (1024 - off mod 1024)"
  shows "blocks_touched off r = Suc (blocks_touched (off + m) (r - m))"
proof -
  define q p where "q = off div 1024" and "p = off mod 1024"
  have off: "off = q * 1024 + p" and p: "p < 1024" by (simp_all add: q_def p_def)
  show ?thesis
  proof (cases "r \<le> 1024 - p")
    case True
    then have "1024 \<le> p + r + 1023" "p + r + 1023 < 2048" using assms(1) p by linarith+
    then have "(p + r + 1023) div 1024 = 1" by (simp add: div_nat_eqI)
    then show ?thesis using assms True by (simp add: blocks_touched_def p_def [symmetric])
  next
    case False
    have m: "m = 1024 - p" using assms(2) False by (simp add: p_def)
    then have "off + m = (q + 1) * 1024" using off p by simp
    then have z: "(off + m) mod 1024 = 0" by (simp only: mod_mult_self2_is_0)
    have e: "p + r + 1023 = (r - m + 1023) + 1024" and pos: "0 < r - m" using m False p by simp_all
    have "blocks_touched off r = (p + r + 1023) div 1024" using assms(1) by (simp add: blocks_touched_def p_def)
    also have "\<dots> = Suc ((r - m + 1023) div 1024)" unfolding e by simp
    also have "(r - m + 1023) div 1024 = blocks_touched (off + m) (r - m)"
      unfolding blocks_touched_def z using pos by simp
    finally show ?thesis .
  qed
qed

lemma framed_source: "framed s s' \<Longrightarrow> source src n s' = source src n s"
  by (simp add: source_def framed_fs split: place.splits)

lemma patch_drop:
  assumes "off \<le> length f" "m \<le> length xs - t"
  shows "patch (off + m) (drop (t + m) xs) (patch off (take m (drop t xs)) f) = patch off (drop t xs) f"
proof -
  have "length (take m (drop t xs)) = m" using assms(2) by simp
  then have "patch (off + m) (drop (t + m) xs) (patch off (take m (drop t xs)) f) = patch off (take m (drop t xs) @ drop (t + m) xs) f"
    using patch_append [OF assms(1), of "take m (drop t xs)"] by simp
  then show ?thesis using append_take_drop_id [of m "drop t xs"] by (simp add: add.commute)
qed

lemma writei_from_writes:
  fixes s :: "'a fsst_scheme"
  assumes "tx pid s Map.empty bs c d" "itable s ! ip = i" "i_dev i = l_dev s" "apart c i N X" "log_area (l_start s) \<subseteq> X"
    "in_kernel src (unat n) s" "unat tot \<le> unat n" "unat off + (unat n - unat tot) \<le> N * 1024"
    "log_room (blocks_touched (unat off) (unat n - unat tot) + j) s bs" "data = source src (unat n) s"
  shows "\<exists>s' bs' c'. writei_from pid ip src off n tot s = Inr (off + (n - tot), n, s') \<and> tx pid s' Map.empty bs' c' d \<and> framed s s'
     \<and> apart c' i N X \<and> log_room j s' bs' \<and> file_data c' i N = patch (unat off) (drop (unat tot) data) (file_data c i N)
     \<and> (\<forall>a. a \<notin> file_addr c i ` {..<N} \<longrightarrow> c' a = c a) \<and> (\<forall>bn < N. file_addr c' i bn = file_addr c i bn)"
  using assms
proof (induction "unat n - unat tot" arbitrary: off tot s bs c rule: less_induct)
  case less
  show ?case
  proof (cases "tot < n")
    case False
    then have e: "tot = n" using less.prems(7) by (simp add: word_less_nat_alt word_unat_eq_iff)
    have "length data = unat n" using length_source [OF less.prems(6)] less.prems(10) by simp
    then show ?thesis using e less.prems
      by (intro exI [of _ s] exI [of _ bs] exI [of _ c]) (subst writei_from.simps, simp add: blocks_touched_def)
  next
    case True
    then have lt: "unat tot < unat n" by (simp add: word_less_nat_alt)
    let ?m = "in_block off (n - tot)" and ?r = "unat n - unat tot"
    have nt: "unat (n - tot) = ?r" using lt by (intro unat_sub) (simp add: word_le_nat_alt)
    have m: "unat ?m = min ?r (1024 - unat off mod 1024)" by (simp add: unat_in_block nt)
    have m': "0 < unat ?m" "unat ?m \<le> ?r" "unat off mod 1024 + unat ?m \<le> 1024" using lt by (auto simp: m)
    have b: "unat (off div 1024) = unat off div 1024" "unat (off mod 1024) = unat off mod 1024"
      by (simp_all add: unat_div_distrib unat_mod_distrib)
    have N: "N * 1024 \<le> 274432" using less.prems(4) by (simp add: apart_def MAXFILE_def NDIRECT_def NINDIRECT_def)
    have bN: "unat off div 1024 < N" using less.prems(8) lt by (simp add: div_less_iff_less_mult)
    let ?a = "file_addr c i (unat off div 1024)"
    have h: "has_block c i (unat (off div 1024))" "?a \<notin> X" using less.prems(4) bN b by (simp_all add: apart_def)
    obtain s1 where 1: "bmap pid ip (off div 1024) s = Inr (?a, s1)" "tx pid s1 Map.empty bs c d" "framed s s1"
      using bmap_existing [OF less.prems(1), of ip "off div 1024"] h(1) less.prems(2,3) b by auto
    note f1 = framed_fs [OF 1(3)]
    have lr: "log_room (Suc (blocks_touched (unat off + unat ?m) (?r - unat ?m) + j)) s bs"
      using less.prems(9) blocks_touched_step [of ?r "unat ?m" "unat off"] m lt by simp
    have lr1: "log_room 1 s1 bs" by (rule log_room_step [OF lr 1(3)]) simp
    let ?x = "take (unat ?m) (drop (unat tot) data)"
    let ?d = "patch (unat off mod 1024) ?x (c ?a)"
    have lx: "length ?x = unat ?m" using length_source [OF less.prems(6)] less.prems(10) m' by simp
    have na: "?a \<notin> dom Map.empty" "i_dev i = l_dev s1" "?a \<notin> log_area (l_start s1)" using less.prems(3,5) h(2) f1 by auto
    obtain bp s2 s3 s4 where r: "bread pid (i_dev i) ?a s1 = Inr (bp, s2)" "framed s1 s2" "b_data (bufs s2 ! bp) = c ?a"
      "log_write bp (set_data bp ?d s2) = Inr s3" "brelse pid bp s3 = Inr s4" "tx pid s4 Map.empty (add_block ?a bs) (c(?a := ?d)) d" "framed s1 s4"
      using rewrite [OF 1(2) na(1) log_room_NBUF [OF lr1] na(2,3) lr1] by metis
    have f2: "framed s s2" "framed s s4" using framed_trans [OF 1(3)] r(2,7) by blast+
    have ci: "either_copyin src (unat tot) (unat ?m) s2 = Inr (0, ?x)"
      using either_copyin_source [of src "unat n" s2 "unat tot" "unat ?m"] less.prems(6,10) in_kernel_framed [OF f2(1)]
        framed_source [OF f2(1)] m' lt by simp
    have tm: "unat (tot + ?m) = unat tot + unat ?m" "unat (off + ?m) = unat off + unat ?m"
      using m'(2) less.prems(7,8) N unsigned_less [where w = n and ?'a = nat] by (simp_all add: unat_word_ariths)
    let ?c = "c(?a := ?d)"
    have ld: "length ?d = 1024" using h(1) m'(3) b lx by (simp add: has_block_def)
    have ap: "apart ?c i N X" by (rule apart_upd [OF less.prems(4) refl bN ld])
    have fa: "\<And>bn. bn < N \<Longrightarrow> file_addr ?c i bn = file_addr c i bn" by (rule file_addr_upd [OF less.prems(4) _ refl bN])
    have fd: "file_data ?c i N = patch (unat off) ?x (file_data c i N)"
      using file_data_upd [OF less.prems(4) bN _ refl, of ?x] lx m'(3) by simp
    note g = framed_fs [OF f2(2)]
    have lr4: "log_room (blocks_touched (unat (off + ?m)) (unat n - unat (tot + ?m)) + j) s4 (add_block ?a bs)"
      using length_add_block [of ?a bs] by (intro log_room_step [OF lr f2(2)]) (simp add: tm diff_diff_left)
    have "\<exists>s' bs' c'. writei_from pid ip src (off + ?m) n (tot + ?m) s4 = Inr (off + ?m + (n - (tot + ?m)), n, s') \<and> tx pid s' Map.empty bs' c' d \<and> framed s4 s'
     \<and> apart c' i N X \<and> log_room j s' bs' \<and> file_data c' i N = patch (unat (off + ?m)) (drop (unat (tot + ?m)) data) (file_data ?c i N)
     \<and> (\<forall>a. a \<notin> file_addr ?c i ` {..<N} \<longrightarrow> c' a = ?c a) \<and> (\<forall>bn < N. file_addr c' i bn = file_addr ?c i bn)"
      by (rule less.hyps [OF _ r(6) _ _ ap _ _ _ _ lr4])
        (use less.prems g m' lt tm in_kernel_framed [OF f2(2)] framed_source [OF f2(2)] in auto)
    then obtain s' bs' c' where 5: "writei_from pid ip src (off + ?m) n (tot + ?m) s4 = Inr (off + (n - tot), n, s')" "tx pid s' Map.empty bs' c' d"
     "framed s4 s'" "apart c' i N X" "log_room j s' bs'" "file_data c' i N = patch (unat off + unat ?m) (drop (unat tot + unat ?m) data) (file_data ?c i N)"
     "\<And>a. a \<notin> file_addr ?c i ` {..<N} \<Longrightarrow> c' a = ?c a" "\<And>bn. bn < N \<Longrightarrow> file_addr c' i bn = file_addr ?c i bn"
      unfolding tm by auto
    have ol: "unat off \<le> length (file_data c i N)" using less.prems(8) by (simp add: file_data_def)
    have fd': "file_data c' i N = patch (unat off) (drop (unat tot) data) (file_data c i N)"
      unfolding 5(6) fd using patch_drop [OF ol, of "unat ?m" data "unat tot"] m'(2) length_source [OF less.prems(6)] less.prems(10) by simp
    have im: "file_addr ?c i ` {..<N} = file_addr c i ` {..<N}" using fa by (intro image_cong) simp_all
    then have "c' a = c a" if "a \<notin> file_addr c i ` {..<N}" for a using 5(7) [of a] that bN by auto
    moreover have "writei_from pid ip src off n tot s = Inr (off + (n - tot), n, s')"
      using 1(1) r(1,3-5) ci 5(1) True h(1) b f1 less.prems(2)
      by (subst writei_from.simps) (simp add: Let_def has_block_def)
    ultimately show ?thesis using 5(2,4,5,8) fd' fa framed_trans [OF f2(2) 5(3)]
      by (intro exI [of _ s'] exI [of _ bs'] exI [of _ c']) simp
  qed
qed

lemma file_data_other:
  assumes "apart c i N X" "a \<in> X" "NDIRECT < N \<Longrightarrow> a \<noteq> i_addrs i ! NDIRECT" "i_addrs j = i_addrs i"
  shows "file_data (c(a := x)) j N = file_data c i N"
proof -
  have "file_addr (c(a := x)) j bn = file_addr c i bn \<and> file_addr c i bn \<noteq> a" if "bn < N" for bn
    using assms that by (auto simp: apart_def file_addr_def)
  moreover have "k div 1024 < N" if "k < N * 1024" for k using that by (simp add: div_less_iff_less_mult)
  ultimately have "file_byte (c(a := x)) j k = file_byte c i k" if "k < N * 1024" for k
    using that by (simp add: file_byte_def)
  then show ?thesis by (simp add: file_data_def file_slice_def)
qed

text \<open>C2: writing a file. For an inode whose first \<open>N\<close> blocks are allocated, \<open>writei\<close> of \<open>n\<close> bytes from kernel
  memory or a local variable, starting inside the file and ending in those blocks, writes all of them: the
  file then holds the bytes at that offset and is otherwise as before, its size is the larger of the old size
  and the end of the write, and the inode with that size is in its block. All of it is part of the transaction
  and no other block changes, so \<open>end_op\<close> makes it durable as a whole or not at all. The log must have room for
  the blocks touched and the inode.
\<close>

theorem writei_writes_file:
  fixes s :: "'a fsst_scheme"
  assumes "transaction pid s bs c d" "i = itable s ! ip" "ip < length (itable s)" "i_dev i = l_dev s" "length (i_addrs i) = Suc NDIRECT"
    and "B = IBLOCK (i_inum i) s" "B \<notin> log_area (l_start s)" "length (c B) = 1024" "log_area (l_start s) \<union> {B} \<subseteq> X" "apart c i N X"
      "NDIRECT < N \<longrightarrow> B \<noteq> i_addrs i ! NDIRECT"
    and "in_kernel src (unat n) s" "off \<le> i_size i" "unat off + unat n \<le> N * 1024"
      "log_room (Suc (blocks_touched (unat off) (unat n))) s bs"
    and "i' = i\<lparr>i_size := max (i_size i) (off + n)\<rparr>"
  shows "\<exists>s' bs' c'. writei pid ip src off n s = Inr (int (unat n), s') \<and> transaction pid s' bs' c' d
     \<and> framed (upd_inode ip (\<lambda>_. i') s) s'
     \<and> file_data c' i' N = patch (unat off) (source src (unat n) s) (file_data c i N)
     \<and> load_dinode (c' B) (dinode_at (i_inum i)) i' = i'
     \<and> (\<forall>a. a \<notin> file_addr c i ` {..<N} \<and> a \<noteq> B \<longrightarrow> c' a = c a)"
proof -
  have N: "N * 1024 \<le> 274432" using assms(10) by (simp add: apart_def MAXFILE_def NDIRECT_def NINDIRECT_def)
  have on: "unat (off + n) = unat off + unat n" using N assms(14) by (simp add: unat_word_ariths)
  have chk: "\<not> (i_size i < off \<or> off + n < off)" "\<not> of_nat (MAXFILE * 1024) < off + n"
    using assms(13,14) N on by (simp_all add: word_less_nat_alt not_less MAXFILE_def NDIRECT_def NINDIRECT_def word_le_nat_alt)
  have X: "log_area (l_start s) \<subseteq> X" "B \<in> X" using assms(9) by auto
  have lr: "log_room (blocks_touched (unat off) (unat n - unat (0 :: u32)) + 1) s bs" using assms(15) by simp
  obtain s1 bs1 c1 where 1: "writei_from pid ip src off n 0 s = Inr (off + n, n, s1)" "tx pid s1 Map.empty bs1 c1 d" "framed s s1"
     "apart c1 i N X" "log_room 1 s1 bs1" "file_data c1 i N = patch (unat off) (source src (unat n) s) (file_data c i N)"
     "\<And>a. a \<notin> file_addr c i ` {..<N} \<Longrightarrow> c1 a = c a"
    using writei_from_writes [OF assms(1) [unfolded transaction_tx] assms(2) [symmetric] assms(4,10) X(1) assms(12) _ _ lr refl] assms(14) by auto
  note f1 = framed_fs [OF 1(3)]
  define s2 where "s2 = (if i_size i < off + n then upd_inode ip (\<lambda>i. i\<lparr>i_size := off + n\<rparr>) s1 else s1)"
  have i1: "itable s1 ! ip = i" using f1(2) assms(2) by simp
  have s2: "s2 = upd_inode ip (\<lambda>_. i') s1"
  proof (cases "i_size i < off + n")
    case True
    then have "i' = i\<lparr>i_size := off + n\<rparr>" using assms(16) by (simp add: max_def)
    then show ?thesis using True i1 by (simp add: s2_def upd_inode_def)
  next
    case False
    then have "i' = i" using assms(16) by (simp add: max_def)
    moreover have "upd_inode ip (\<lambda>_. itable s1 ! ip) s1 = s1" by (simp add: upd_inode_def)
    ultimately show ?thesis using False i1 by (simp add: s2_def)
  qed
  have f2: "framed (upd_inode ip (\<lambda>_. i') s) s2" unfolding s2 by (rule framed_upd(3) [OF 1(3)])
  note g = framed_fs [OF f2]
  have e2: "itable s2 ! ip = i'" "i_dev i' = l_dev s2" "IBLOCK (i_inum i') s2 = B" "l_start s2 = l_start s" "tx pid s2 Map.empty bs1 c1 d" "log_room 1 s2 bs1"
  proof -
    show "itable s2 ! ip = i'" using f1(2) assms(3) by (simp add: s2 upd_inode_def)
    show "i_dev i' = l_dev s2" using g(6) assms(4,16) by (simp add: upd_inode_def)
    show "IBLOCK (i_inum i') s2 = B" using g(1) assms(6,16) by (simp add: IBLOCK_def upd_inode_def)
    show "l_start s2 = l_start s" using g(7) by (simp add: upd_inode_def)
    show "tx pid s2 Map.empty bs1 c1 d" using 1(2) by (simp add: s2)
    show "log_room 1 s2 bs1" using 1(5) by (simp add: s2 log_room_def upd_inode_def)
  qed
  let ?k = "dinode_at (i_inum i)"
  obtain s3 where 3: "iupdate pid ip s2 = Inr s3" "framed s2 s3" "tx pid s3 Map.empty (add_block B bs1) (c1(B := store_dinode i' ?k (c1 B))) d"
    using iupdate_ok [OF e2(5) e2(1) [symmetric] e2(2) _ e2(6)] assms(7,16) unfolding e2(3,4) by auto
  have Bn: "B \<notin> file_addr c i ` {..<N}" using assms(10) X(2) by (auto simp: apart_def)
  then have cB: "c1 B = c B" by (rule 1(7))
  have ld: "load_dinode (store_dinode i' ?k (c1 B)) ?k i' = i'"
    using store_dinode_spec(3) [of ?k "c1 B" i' i'] dinode_at_room [of "i_inum i"] assms(5,8,16) cB by simp
  have fd: "file_data (c1(B := store_dinode i' ?k (c1 B))) i' N = file_data c1 i N"
    by (rule file_data_other [OF 1(4) X(2)]) (use assms(11,16) in simp_all)
  have sn: "sint n = int (unat n)" using N assms(14) by (intro sint_small32) simp
  have w: "writei pid ip src off n s = Inr (int (unat n), s3)"
    using chk 1(1) 3(1) i1 sn unfolding writei_def assms(2) [symmetric] by (simp add: Let_def s2_def [symmetric] del: of_nat_mult of_nat_unat)
  show ?thesis
    using w 3(3) framed_trans [OF f2 3(2)] fd 1(6,7) ld
    by (intro exI [of _ s3] exI [of _ "add_block B bs1"] exI [of _ "c1(B := store_dinode i' ?k (c1 B))"]) (simp add: transaction_tx)
qed

subsection \<open>Examples\<close>

lemma demo_root: "root_entry = itable demo_fs ! 0" "i_dev root_entry = l_dev demo_fs"
  by (simp_all add: demo_entry NINODE_def demo_fs_fields(4)) (simp add: root_entry_def)

lemma demo_addr: "file_addr c root_entry 0 = 60"
  by (simp add: file_addr_def root_entry_def NDIRECT_def)

lemma demo_block: "length (demo_disk 60) = 1024" "length (demo_disk 40) = 1024"
  by (simp_all add: demo_disk_def del: replicate.simps)

lemma demo_has: "has_block demo_disk root_entry 0"
  using demo_block by (simp add: has_block_def demo_addr MAXFILE_def NDIRECT_def del: replicate.simps)

lemma demo_file: "file_ok demo_disk root_entry"
  using demo_has by (auto simp: file_ok_def root_entry_def)

lemma demo_bytes: "k < 1024 \<Longrightarrow> file_byte demo_disk root_entry k = (if k = 16 then 5 else if k = 18 then 97 else 0)"
  by (auto simp: file_byte_def demo_addr demo_disk_def nth_append nth_replicate nth_Cons' simp del: replicate.simps)

theorem readi_reads_file_witness:
  "\<exists>s'. readi 1 0 Local 18 2 demo_fs = Inr (2, s') \<and> take 2 (fs_local s') = [97, 0]"
proof -
  have sl: "file_slice demo_disk root_entry 18 2 = [97, 0]"
    by (simp add: file_slice_def demo_bytes numeral_2_eq_2)
  have ik: "in_kernel Local (unat (2 :: u32)) demo_fs" by (simp add: in_kernel_def demo_fs_fields(11))
  have m: "(2 :: nat) = min (unat (2 :: u32)) (unat (i_size root_entry) - unat (18 :: u32))" by (simp add: root_entry_def)
  have sl: "file_slice demo_disk root_entry (unat (18 :: u32)) 2 = [97, 0]" using sl by simp
  obtain s' where "readi 1 0 Local 18 2 demo_fs = Inr (2, s')" "framed (deliver Local 0 [97, 0] demo_fs) s'"
    using readi_reads_file [OF demo_tx [where pid = 1, folded transaction_tx] demo_root demo_file ik _ m] unfolding sl by auto
  then show ?thesis using framed_fs(5) [of "deliver Local 0 [97, 0] demo_fs" s']
    by (intro exI [of _ s']) (simp add: deliver_def patch_def)
qed

lemma demo_entries:
  "dir_entry demo_disk root_entry 0 = replicate 16 0" "dir_entry demo_disk root_entry 1 = [5, 0, 97] @ replicate 13 0"
proof -
  show "dir_entry demo_disk root_entry 0 = replicate 16 0"
    by (rule nth_equalityI) (simp_all add: dir_entry_def file_slice_def demo_bytes del: replicate.simps)
  show "dir_entry demo_disk root_entry 1 = [5, 0, 97] @ replicate 13 0"
  proof (rule nth_equalityI)
    fix j assume "j < length (dir_entry demo_disk root_entry 1)"
    then have j: "j < 16" by simp
    then show "dir_entry demo_disk root_entry 1 ! j = ([5, 0, 97] @ replicate 13 0) ! j"
      by (cases "j < 3") (auto simp: dir_entry_def file_slice_def demo_bytes nth_append nth_Cons' simp del: replicate.simps)
  qed (simp del: replicate.simps)
qed

lemma demo_iget: "itable s = itable demo_fs \<Longrightarrow> \<exists>s'. iget 1 5 s = Inr (1, s')"
proof -
  assume t: "itable s = itable demo_fs"
  have "find (\<lambda>i. 0 < i_ref (itable s ! i) \<and> i_dev (itable s ! i) = 1 \<and> i_inum (itable s ! i) = 5) [0..<NINODE] = None"
    by (auto simp: find_None_iff t demo_entry root_entry_def free_entry_def)
  moreover have "find (\<lambda>i. i_ref (itable s ! i) = 0) [0..<NINODE] = Some 1"
    by (auto simp: find_range t demo_entry root_entry_def free_entry_def NINODE_def)
  ultimately show ?thesis by (simp add: iget_def)
qed

theorem dirlookup_finds_first_witness:
  "\<exists>s'. dirlookup 1 0 [97] demo_fs = Inr (Some (1, 16), s')"
proof -
  let ?P = "\<lambda>k. de_inum (dir_entry demo_disk root_entry k) \<noteq> 0 \<and> name_str (de_name (dir_entry demo_disk root_entry k)) = name_str [97]"
  have "\<not> ?P 0" unfolding demo_entries by (simp add: de_inum_def get16_def nth_replicate del: replicate.simps)
  moreover have "?P 1" "de_inum (dir_entry demo_disk root_entry 1) = 5"
    unfolding demo_entries by (simp_all add: de_inum_def get16_def de_name_def name_str_def DIRSIZ_def)
  moreover have "[0..<2] = [0, 1]" by (simp add: numeral_2_eq_2)
  ultimately have f: "find ?P [0..<2] = Some 1" "de_inum (dir_entry demo_disk root_entry 1) = 5" by simp_all
  have sz: "unat (i_size root_entry) = 16 * 2" "i_type root_entry = T_DIR" by (simp_all add: root_entry_def)
  obtain s' z where s': "framed (demo_fs\<lparr>fs_local := z\<rparr>) s'"
     "dirlookup 1 0 [97] demo_fs = bindE (iget (l_dev demo_fs) (ucast (5 :: u16)) s') (\<lambda>(ip, s). Inr (Some (ip, of_nat (16 * 1)), s))"
    using dirlookup_finds_first [OF demo_tx [where pid = 1, folded transaction_tx] demo_root demo_file sz(2,1), of "[97]"]
    unfolding f option.case by blast
  have "itable s' = itable demo_fs" using framed_fs(2) [OF s'(1)] by simp
  then obtain s2 where "iget 1 5 s' = Inr (1, s2)" using demo_iget by blast
  then show ?thesis using s'(2) by (simp add: demo_fs_fields(4))
qed

theorem writei_writes_file_witness:
  "\<exists>s' bs' c'. writei 1 0 (KernelAddr 4096) 16 4 demo_fs = Inr (4, s') \<and> transaction 1 s' bs' c' demo_disk
     \<and> take 4 (drop 16 (file_data c' root_entry 1)) = [7, 7, 7, 7]"
proof -
  let ?X = "log_area (l_start demo_fs) \<union> {40}"
  have B: "(40 :: u32) = IBLOCK (i_inum root_entry) demo_fs" by (simp add: IBLOCK_def demo_fs_fields root_entry_def IPB_def)
  have l: "(40 :: u32) \<notin> log_area (l_start demo_fs)" "(60 :: u32) \<notin> log_area (l_start demo_fs)"
    using demo_area [of 40] demo_area [of 60] by (auto simp: demo_fs_fields(1))
  have ap: "apart demo_disk root_entry 1 ?X"
    using demo_has l(2) by (simp add: apart_def demo_addr MAXFILE_def NDIRECT_def lessThan_Suc)
  have tl: "0 < length (itable demo_fs)" "length (i_addrs root_entry) = Suc NDIRECT" by (simp_all add: demo_fs_fields(10) root_entry_def NDIRECT_def)
  have ik: "in_kernel (KernelAddr 4096) (unat (4 :: u32)) demo_fs" by (simp add: in_kernel_def)
  have os: "(16 :: u32) \<le> i_size root_entry" "unat (16 :: u32) + unat (4 :: u32) \<le> 1 * 1024" by (simp_all add: root_entry_def)
  have lr: "log_room (Suc (blocks_touched (unat (16 :: u32)) (unat (4 :: u32)))) demo_fs []"
    by (rule demo_room) (simp add: blocks_touched_def)
  obtain s' bs' c' where w: "writei 1 0 (KernelAddr 4096) 16 4 demo_fs = Inr (int (unat (4 :: u32)), s')" "transaction 1 s' bs' c' demo_disk"
     "file_data c' (root_entry\<lparr>i_size := max (i_size root_entry) (16 + 4)\<rparr>) 1
        = patch (unat (16 :: u32)) (source (KernelAddr 4096) (unat (4 :: u32)) demo_fs) (file_data demo_disk root_entry 1)"
    using writei_writes_file [OF demo_tx [where pid = 1, folded transaction_tx] demo_root(1) tl(1) demo_root(2) tl(2) B l(1) demo_block(2)
      order.refl ap _ ik os lr refl] by (auto simp: NDIRECT_def)
  have "source (KernelAddr 4096) 4 demo_fs = [7, 7, 7, 7]"
    by (rule nth_equalityI) (auto simp: source_def bytes_at_def demo_fs_fields(12) nth_Cons')
  moreover have "root_entry\<lparr>i_size := max (i_size root_entry) (16 + 4)\<rparr> = root_entry" by (simp add: root_entry_def max_def)
  ultimately have "take 4 (drop 16 (file_data c' root_entry 1)) = [7, 7, 7, 7]"
    using w(3) by (simp add: patch_def file_data_def)
  then show ?thesis using w(1,2) by (intro exI [of _ s'] exI [of _ bs'] exI [of _ c']) simp
qed

end
