(* ===== verification/Pipe.thy ===== *)
theory Pipe
  imports UserMem
begin

text \<open>
  Pipes, \<open>kernel/pipe.c\<close> (the same file in Projects 2 to 4): a ring buffer of \<open>PIPESIZE\<close> bytes with
  free-running 32-bit counters. \<open>pi->lock\<close> makes the code between two sleeps atomic; a call that sleeps
  returns \<open>Sleeps\<close> with the number of bytes done so far, from which it resumes when woken. The byte is
  copied through the variable \<open>ch\<close> on the kernel stack, whose address is a parameter, as are the page table
  and the killed flag of the current process. \<open>wakeup\<close> only makes sleepers runnable and is not modelled.

  The locale \<open>fifo\<close> is the contract of a bounded queue; what is read is what was written, in order.
\<close>

unbundle bit_operations_syntax

subsection \<open>State\<close>

definition PIPESIZE :: u32 where "PIPESIZE = 512"

record pipe =
  p_data :: "u8 list"
  nread :: u32
  nwrite :: u32
  readopen :: bool
  writeopen :: bool

datatype 's pipe_out = Done int 's | Sleeps nat 's

subsection \<open>Operations\<close>

definition pipe_init :: "pipe \<Rightarrow> pipe" where
  "pipe_init pi = pi\<lparr>readopen := True, writeopen := True, nwrite := 0, nread := 0\<rparr>"

text \<open>\<open>pipeclose\<close>: the new pipe, and whether its page is freed.\<close>

definition pipeclose :: "bool \<Rightarrow> pipe \<Rightarrow> pipe \<times> bool" where
  "pipeclose writable pi =
     (let pi = (if writable then pi\<lparr>writeopen := False\<rparr> else pi\<lparr>readopen := False\<rparr>) in
      (pi, \<not> readopen pi \<and> \<not> writeopen pi))"

definition pipe_put :: "u8 \<Rightarrow> pipe \<Rightarrow> pipe" where
  "pipe_put ch pi = pi\<lparr>p_data := (p_data pi)[unat (nwrite pi mod PIPESIZE) := ch], nwrite := nwrite pi + 1\<rparr>"

definition pipe_get :: "pipe \<Rightarrow> u8 \<times> pipe" where
  "pipe_get pi = (p_data pi ! unat (nread pi mod PIPESIZE), pi\<lparr>nread := nread pi + 1\<rparr>)"

function pipewrite_from :: "u64 \<Rightarrow> bool \<Rightarrow> u64 \<Rightarrow> u64 \<Rightarrow> int \<Rightarrow> nat \<Rightarrow> pipe \<times> 'a machine_scheme
    \<Rightarrow> kerror + (pipe \<times> 'a machine_scheme) pipe_out" where
  "pipewrite_from ch killed pagetable addr n i ps =
     (let (pi, s) = ps in
      if int i < n
      then if \<not> readopen pi \<or> killed then Inr (Done (- 1) (pi, s))
        else if nwrite pi = nread pi + PIPESIZE then Inr (Sleeps i (pi, s))
        else bindE (copyin pagetable ch (addr + of_nat i) 1 s) (\<lambda>(r, s).
          if r = - 1 then Inr (Done (int i) (pi, s))
          else pipewrite_from ch killed pagetable addr n (Suc i) (pipe_put (pmem s ch) pi, s))
      else Inr (Done (int i) (pi, s)))"
  by pat_completeness auto
termination by (relation "measure (\<lambda>(ch, k, pt, a, n, i, ps). nat n - i)") auto

declare pipewrite_from.simps [simp del]

definition pipewrite :: "u64 \<Rightarrow> bool \<Rightarrow> u64 \<Rightarrow> u64 \<Rightarrow> int \<Rightarrow> pipe \<times> 'a machine_scheme
    \<Rightarrow> kerror + (pipe \<times> 'a machine_scheme) pipe_out" where
  "pipewrite ch killed pagetable addr n ps = pipewrite_from ch killed pagetable addr n 0 ps"

function piperead_from :: "u64 \<Rightarrow> u64 \<Rightarrow> u64 \<Rightarrow> int \<Rightarrow> nat \<Rightarrow> pipe \<times> 'a machine_scheme
    \<Rightarrow> kerror + (pipe \<times> 'a machine_scheme) pipe_out" where
  "piperead_from cha pagetable addr n i ps =
     (let (pi, s) = ps in
      if int i < n
      then if nread pi = nwrite pi then Inr (Done (int i) (pi, s))
        else let (ch, pi) = pipe_get pi in
          bindE (copyout pagetable (addr + of_nat i) cha 1 (s\<lparr>pmem := (pmem s)(cha := ch)\<rparr>)) (\<lambda>(r, s).
            if r = - 1 then Inr (Done (int i) (pi, s))
            else piperead_from cha pagetable addr n (Suc i) (pi, s))
      else Inr (Done (int i) (pi, s)))"
  by pat_completeness auto
termination by (relation "measure (\<lambda>(ch, pt, a, n, i, ps). nat n - i)") auto

declare piperead_from.simps [simp del]

definition piperead :: "u64 \<Rightarrow> bool \<Rightarrow> u64 \<Rightarrow> u64 \<Rightarrow> int \<Rightarrow> pipe \<times> 'a machine_scheme
    \<Rightarrow> kerror + (pipe \<times> 'a machine_scheme) pipe_out" where
  "piperead cha killed pagetable addr n ps =
     (let (pi, s) = ps in
      if nread pi = nwrite pi \<and> writeopen pi
      then if killed then Inr (Done (- 1) (pi, s)) else Inr (Sleeps 0 (pi, s))
      else piperead_from cha pagetable addr n 0 (pi, s))"

subsection \<open>A bounded queue\<close>

locale fifo =
  fixes put :: "'b \<Rightarrow> 'q \<Rightarrow> 'q" and get :: "'q \<Rightarrow> 'b \<times> 'q" and content :: "'q \<Rightarrow> 'b list"
    and ok :: "'q \<Rightarrow> bool" and full :: "'q \<Rightarrow> bool" and empty :: "'q \<Rightarrow> bool" and capacity :: nat
  assumes full_law: "ok q \<Longrightarrow> full q \<longleftrightarrow> length (content q) = capacity"
    and empty_law: "ok q \<Longrightarrow> empty q \<longleftrightarrow> content q = []"
    and bound_law: "ok q \<Longrightarrow> length (content q) \<le> capacity"
    and put_law: "ok q \<Longrightarrow> \<not> full q \<Longrightarrow> ok (put b q) \<and> content (put b q) = content q @ [b]"
    and get_law: "ok q \<Longrightarrow> \<not> empty q \<Longrightarrow> ok (snd (get q)) \<and> content q = fst (get q) # content (snd (get q))"
begin

primrec puts :: "'b list \<Rightarrow> 'q \<Rightarrow> 'q" where
  "puts [] q = q"
| "puts (b # bs) q = puts bs (put b q)"

primrec gets :: "nat \<Rightarrow> 'q \<Rightarrow> 'b list \<times> 'q" where
  "gets 0 q = ([], q)"
| "gets (Suc n) q = (let (b, q) = get q; (bs, q) = gets n q in (b # bs, q))"

lemma puts_append: "puts (bs @ cs) q = puts cs (puts bs q)"
  by (induction bs arbitrary: q) auto

lemma puts_ok:
  assumes "ok q" "length (content q) + length bs \<le> capacity"
  shows "ok (puts bs q) \<and> content (puts bs q) = content q @ bs"
  using assms
proof (induction bs arbitrary: q)
  case (Cons b bs)
  then have "\<not> full q" using full_law by auto
  then show ?case using Cons put_law [of q b] by simp
qed simp

lemma gets_ok:
  assumes "ok q" "n \<le> length (content q)"
  shows "ok (snd (gets n q)) \<and> fst (gets n q) = take n (content q) \<and> content (snd (gets n q)) = drop n (content q)"
  using assms
proof (induction n arbitrary: q)
  case (Suc n)
  then have "\<not> empty q" using empty_law by auto
  note g = get_law [OF Suc.prems(1) this]
  then have "n \<le> length (content (snd (get q)))" using Suc.prems(2) by (metis Suc_le_mono length_Cons)
  with g Suc.IH [of "snd (get q)"] show ?case by (simp add: Let_def case_prod_beta)
qed simp

end

subsection \<open>The ring buffer is one\<close>

definition fill :: "pipe \<Rightarrow> nat" where "fill pi = unat (nwrite pi - nread pi)"

definition slot_of :: "pipe \<Rightarrow> nat \<Rightarrow> nat" where "slot_of pi k = (unat (nread pi) + k) mod 512"

definition pipe_ok :: "pipe \<Rightarrow> bool" where
  "pipe_ok pi \<longleftrightarrow> length (p_data pi) = 512 \<and> fill pi \<le> 512"

definition pipe_bytes :: "pipe \<Rightarrow> u8 list" where
  "pipe_bytes pi = map (\<lambda>k. p_data pi ! slot_of pi k) [0..<fill pi]"

text \<open>The counters run freely: 512 divides \<open>2^32\<close>, so that their wrap-around does not show.\<close>

lemma unat_mod_PIPESIZE: "unat (x mod PIPESIZE) = unat x mod 512"
  by (simp add: PIPESIZE_def unat_mod_distrib)

lemma mod_512_32: "(a mod 4294967296) mod 512 = (a :: nat) mod 512"
  by (rule mod_mod_cancel) simp

lemma unat_add32: "unat (a + b :: u32) = (unat a + unat b) mod 4294967296"
  by (simp add: unat_word_ariths)

lemma slot_nwrite: "unat (nwrite pi mod PIPESIZE) = slot_of pi (fill pi)"
proof -
  have "unat (nwrite pi) = unat (nread pi + (nwrite pi - nread pi))" by simp
  also have "\<dots> = (unat (nread pi) + fill pi) mod 4294967296" unfolding fill_def by (rule unat_add32)
  finally have "unat (nwrite pi) = (unat (nread pi) + fill pi) mod 4294967296" .
  then show ?thesis by (simp add: unat_mod_PIPESIZE slot_of_def mod_512_32)
qed

lemma slot_inj:
  assumes "j < k" "k < 512"
  shows "slot_of pi j \<noteq> slot_of pi k"
proof
  assume "slot_of pi j = slot_of pi k"
  then have "(unat (nread pi) + k - (unat (nread pi) + j)) mod 512 = 0"
    unfolding slot_of_def by (metis mod_eq_dvd_iff_nat add_le_cancel_left assms(1) dvd_imp_mod_0 less_imp_le)
  then show False using assms by simp
qed

lemma fill_simps: "fill pi < 512 \<Longrightarrow> fill (pipe_put b pi) = Suc (fill pi)"
  "0 < fill pi \<Longrightarrow> fill pi = Suc (fill (snd (pipe_get pi)))"
proof -
  let ?d = "nwrite pi - nread pi"
  have "nwrite pi + 1 - nread pi = ?d + 1" "nwrite pi - (nread pi + 1) = ?d - 1" by simp_all
  moreover have "unat ?d < 512 \<Longrightarrow> unat (?d + 1) = Suc (unat ?d)" by (simp add: unat_add32 del: diff_add_eq)
  moreover have "0 < unat ?d \<Longrightarrow> unat ?d = Suc (unat (?d - 1))"
  proof -
    assume "0 < unat ?d"
    then have "unat (?d - 1) = unat ?d - 1" by (intro unat_minus_one) auto
    then show ?thesis using \<open>0 < unat ?d\<close> by simp
  qed
  moreover have "fill (pipe_put b pi) = unat (nwrite pi + 1 - nread pi)" "fill (snd (pipe_get pi)) = unat (nwrite pi - (nread pi + 1))"
    by (simp_all add: fill_def pipe_put_def pipe_get_def)
  ultimately show "fill pi < 512 \<Longrightarrow> fill (pipe_put b pi) = Suc (fill pi)" "0 < fill pi \<Longrightarrow> fill pi = Suc (fill (snd (pipe_get pi)))"
    by (simp_all only: fill_def)
qed

lemma pipe_put_bytes:
  assumes "pipe_ok pi" "fill pi < 512"
  shows "pipe_ok (pipe_put b pi) \<and> pipe_bytes (pipe_put b pi) = pipe_bytes pi @ [b]"
proof -
  have l: "length (p_data pi) = 512" "slot_of pi (fill pi) < 512" using assms by (auto simp: pipe_ok_def slot_of_def)
  have d: "p_data (pipe_put b pi) = (p_data pi)[slot_of pi (fill pi) := b]" "slot_of (pipe_put b pi) = slot_of pi"
    by (simp_all add: pipe_put_def slot_nwrite slot_of_def fun_eq_iff)
  have "map (\<lambda>k. p_data (pipe_put b pi) ! slot_of pi k) [0..<fill pi] = pipe_bytes pi"
    unfolding pipe_bytes_def d(1)
    by (rule map_cong [OF refl]) (metis slot_inj [OF _ assms(2)] nth_list_update_neq atLeastLessThan_iff set_upt)
  then show ?thesis using fill_simps(1) [OF assms(2), of b] l assms(2)
    by (simp add: pipe_ok_def pipe_bytes_def d)
qed

lemma pipe_get_bytes:
  assumes "pipe_ok pi" "0 < fill pi"
  shows "pipe_ok (snd (pipe_get pi)) \<and> pipe_bytes pi = fst (pipe_get pi) # pipe_bytes (snd (pipe_get pi))"
proof -
  have f: "fill pi = Suc (fill (snd (pipe_get pi)))" using fill_simps(2) [OF assms(2)] .
  have s: "slot_of (snd (pipe_get pi)) k = slot_of pi (Suc k)" for k
    by (simp add: pipe_get_def slot_of_def unat_add32 mod_512_32 flip: mod_add_left_eq [of "_ mod 4294967296"])
      (metis add_Suc add_Suc_right mod_512_32 mod_add_left_eq)
  have d: "p_data (snd (pipe_get pi)) = p_data pi" "fst (pipe_get pi) = p_data pi ! slot_of pi 0"
    by (simp_all add: pipe_get_def slot_of_def unat_mod_PIPESIZE)
  have "pipe_bytes pi = map (\<lambda>k. p_data pi ! slot_of pi k) (0 # map Suc [0..<fill (snd (pipe_get pi))])"
    unfolding pipe_bytes_def f map_Suc_upt by (subst upt_conv_Cons) simp_all
  then show ?thesis using assms f by (simp add: pipe_ok_def pipe_bytes_def d s comp_def)
qed

lemma full_fill: "nwrite pi = nread pi + PIPESIZE \<longleftrightarrow> fill pi = 512"
proof -
  have "nwrite pi = nread pi + PIPESIZE \<longleftrightarrow> nwrite pi - nread pi = 512" by (auto simp: PIPESIZE_def algebra_simps)
  also have "\<dots> \<longleftrightarrow> unat (nwrite pi - nread pi) = unat (512 :: u32)" by (rule word_unat_eq_iff)
  finally show ?thesis by (simp add: fill_def)
qed

lemma empty_fill: "nread pi = nwrite pi \<longleftrightarrow> fill pi = 0"
  unfolding fill_def by (metis right_minus_eq unat_eq_zero unat_0)

lemma length_pipe_bytes [simp]: "length (pipe_bytes pi) = fill pi"
  by (simp add: pipe_bytes_def)

interpretation pq: fifo pipe_put pipe_get pipe_bytes pipe_ok "\<lambda>pi. nwrite pi = nread pi + PIPESIZE"
  "\<lambda>pi. nread pi = nwrite pi" 512
proof (unfold_locales, goal_cases)
  case (2 q) show ?case unfolding empty_fill using length_pipe_bytes [of q] by (metis length_0_conv)
next
  case (4 q b) then show ?case unfolding full_fill using pipe_put_bytes by (simp add: pipe_ok_def)
next
  case (5 q) then show ?case unfolding empty_fill by (simp add: pipe_get_bytes)
qed (simp_all add: full_fill pipe_ok_def)

subsection \<open>Copying one byte\<close>

lemma chunk_one [simp]: "chunk va 1 = 1"
proof -
  have "unat (chunk va 1) = 1" by (simp add: unat_chunk)
  then show ?thesis by (simp add: unat_eq_iff64)
qed

lemma upage_PGROUNDDOWN: "upage m pt (PGROUNDDOWN va) = upage m pt va"
  by (rule upage_same_page) (rule PGROUNDDOWN_div)

lemma memmove_one: "memmove m d p (Suc 0) = m(d := m p)"
proof
  fix x
  have "in_range x d (Suc 0) \<longleftrightarrow> x = d" by (auto simp: in_range_def unat_eq_zero)
  moreover have "unat d + Suc 0 \<le> 18446744073709551616" "unat p + Suc 0 \<le> 18446744073709551616"
    using unat_lt64 [of d] unat_lt64 [of p] by linarith+
  ultimately show "memmove m d p (Suc 0) x = (m(d := m p)) x" by (subst memmove_apply) auto
qed

lemma copyin_byte:
  assumes "pt_wf kend (pmem s) pt"
  shows "copyin pt ch va 1 s = Inr (case xlate (pmem s) pt va of None \<Rightarrow> (- 1, s)
    | Some p \<Rightarrow> (0, s\<lparr>pmem := (pmem s)(ch := pmem s p)\<rparr>))"
  unfolding copyin.simps [of pt ch va 1] copyin.simps [of pt _ _ 0]
  by (auto simp: walkaddr_upage [OF assms] upage_PGROUNDDOWN xlate_def Let_def upage_nonzero memmove_one copyin.simps [of pt _ _ 0]
      split: option.split)

lemma copyout_byte:
  assumes "pt_wf kend (pmem s) pt"
  shows "copyout pt va ch 1 s = Inr (case xlate (pmem s) pt va of None \<Rightarrow> (- 1, s)
    | Some p \<Rightarrow> (0, s\<lparr>pmem := (pmem s)(p := pmem s ch)\<rparr>))"
  unfolding copyout.simps [of pt va ch 1]
  by (auto simp: walkaddr_upage [OF assms] upage_PGROUNDDOWN xlate_def Let_def upage_nonzero memmove_one copyout.simps [of pt _ _ 0]
      split: option.split)

definition off_tables :: "mem \<Rightarrow> u64 \<Rightarrow> u64 \<Rightarrow> bool" where
  "off_tables m pt x \<longleftrightarrow> (\<forall>t \<in> tables m pt. \<not> in_range x t 4096)"

lemma off_tables_upd:
  assumes "pt_wf kend m pt" "off_tables m pt x"
  shows "pt_wf kend (m(x := b)) pt" "tables (m(x := b)) pt = tables m pt" "xlate (m(x := b)) pt va = xlate m pt va"
    "off_tables (m(x := b)) pt y = off_tables m pt y"
proof -
  have "agree_on (tables m pt) m (m(x := b))" using assms(2) by (auto simp: agree_on_def off_tables_def)
  note f = leaf_frame [OF assms(1) this]
  show "pt_wf kend (m(x := b)) pt" "tables (m(x := b)) pt = tables m pt" "xlate (m(x := b)) pt va = xlate m pt va"
    "off_tables (m(x := b)) pt y = off_tables m pt y"
    using f by (auto simp: xlate_def upage_def off_tables_def)
qed


subsection \<open>Writing\<close>

definition user_byte :: "mem \<Rightarrow> u64 \<Rightarrow> u64 \<Rightarrow> u8 option" where
  "user_byte m pt va = map_option m (xlate m pt va)"

text \<open>What a call of \<open>pipewrite\<close> does from byte \<open>i\<close> of \<open>n\<close> on, before it returns or sleeps: it takes \<open>k\<close> more
  bytes, \<open>f j\<close> being byte \<open>j\<close> of the user's buffer if it is mapped.\<close>

definition wrote :: "nat \<Rightarrow> nat \<Rightarrow> nat \<Rightarrow> (nat \<Rightarrow> u8 option) \<Rightarrow> pipe \<Rightarrow> pipe \<Rightarrow> bool" where
  "wrote n i k f pi pi' \<longleftrightarrow> i + k \<le> n \<and> (\<forall>j \<in> {i..<i + k}. f j \<noteq> None)
     \<and> pipe_ok pi' \<and> pipe_bytes pi' = pipe_bytes pi @ map (\<lambda>j. the (f j)) [i..<i + k]
     \<and> readopen pi' = readopen pi \<and> writeopen pi' = writeopen pi
     \<and> (i + k < n \<longrightarrow> fill pi' = 512 \<or> f (i + k) = None)"

lemma wrote_none: "pipe_ok pi \<Longrightarrow> i \<le> n \<Longrightarrow> (i < n \<Longrightarrow> fill pi = 512 \<or> f i = None) \<Longrightarrow> wrote n i 0 f pi pi"
  by (simp add: wrote_def)

lemma wrote_Cons:
  assumes "wrote n (Suc i) k f (pipe_put b pi) pi'" "f i = Some b" "i < n" "pipe_bytes (pipe_put b pi) = pipe_bytes pi @ [b]"
  shows "wrote n i (Suc k) f pi pi'"
proof -
  have "[i..<i + Suc k] = i # [Suc i..<Suc i + k]" by (subst upt_conv_Cons) simp_all
  moreover have "{i..<i + Suc k} = insert i {Suc i..<Suc i + k}" by auto
  ultimately show ?thesis using assms by (simp add: wrote_def pipe_put_def)
qed

definition write_result :: "nat \<Rightarrow> nat \<Rightarrow> pipe \<Rightarrow> 's \<Rightarrow> (pipe \<times> 's) pipe_out" where
  "write_result n i pi s = (if i < n \<and> fill pi = 512 then Sleeps i (pi, s) else Done (int i) (pi, s))"

lemma pipewrite_from_spec:
  fixes s :: "'a machine_scheme"
  assumes "pipe_ok pi" "readopen pi" "pt_wf kend (pmem s) pt" "off_tables (pmem s) pt ch" "i \<le> n"
    and "\<forall>j < n. xlate (pmem s) pt (addr + of_nat j) \<noteq> Some ch"
    and "\<forall>j < n. user_byte (pmem s) pt (addr + of_nat j) = f j"
  shows "\<exists>k pi' b. pipewrite_from ch False pt addr (int n) i (pi, s) = Inr (write_result n (i + k) pi' (s\<lparr>pmem := (pmem s)(ch := b)\<rparr>))
     \<and> wrote n i k f pi pi'"
  using assms
proof (induction "n - i" arbitrary: i pi s)
  case 0
  then have "wrote n i 0 f pi pi" "i = n" by (auto intro: wrote_none)
  then show ?case
    by (intro exI [of _ 0] exI [of _ pi] exI [of _ "pmem s ch"]) (simp add: pipewrite_from.simps write_result_def)
next
  case (Suc d)
  then have i: "i < n" by simp
  note step = pipewrite_from.simps [of ch False pt addr "int n" i "(pi, s)"]
  show ?case
  proof (cases "nwrite pi = nread pi + PIPESIZE")
    case True
    then have "fill pi = 512" using full_fill by simp
    moreover have "wrote n i 0 f pi pi" using Suc.prems(1) i \<open>fill pi = 512\<close> by (intro wrote_none) auto
    ultimately show ?thesis using True i Suc.prems(2)
      by (intro exI [of _ 0] exI [of _ pi] exI [of _ "pmem s ch"]) (simp add: step write_result_def)
  next
    case False
    then have nf: "fill pi \<noteq> 512" using full_fill by simp
    show ?thesis
    proof (cases "xlate (pmem s) pt (addr + of_nat i)")
      case None
      then have "f i = None" using Suc.prems(7) i by (auto simp: user_byte_def)
      then have "wrote n i 0 f pi pi" using Suc.prems(1) i by (intro wrote_none) auto
      then show ?thesis using False nf i Suc.prems(2) None
        by (intro exI [of _ 0] exI [of _ pi] exI [of _ "pmem s ch"])
          (simp add: step copyin_byte [OF Suc.prems(3)] write_result_def)
    next
      case (Some p)
      let ?b = "pmem s p" and ?m = "(pmem s)(ch := pmem s p)"
      let ?s = "s\<lparr>pmem := ?m\<rparr>" and ?pi = "pipe_put ?b pi"
      note u = off_tables_upd [OF Suc.prems(3,4), of ?b]
      have pb: "pipe_ok ?pi" "pipe_bytes ?pi = pipe_bytes pi @ [?b]"
        using pq.put_law [OF Suc.prems(1) False, of ?b] by auto
      have fi: "f i = Some ?b" using Suc.prems(7) i Some by (auto simp: user_byte_def)
      have e: "pipewrite_from ch False pt addr (int n) i (pi, s) = pipewrite_from ch False pt addr (int n) (Suc i) (?pi, ?s)"
        using False i Suc.prems(2) Some by (subst step) (simp add: copyin_byte [OF Suc.prems(3)])
      have "\<exists>k pi' b. pipewrite_from ch False pt addr (int n) (Suc i) (?pi, ?s)
          = Inr (write_result n (Suc i + k) pi' (?s\<lparr>pmem := (pmem ?s)(ch := b)\<rparr>)) \<and> wrote n (Suc i) k f ?pi pi'"
      proof (rule Suc.hyps(1))
        show "\<forall>j < n. user_byte (pmem ?s) pt (addr + of_nat j) = f j"
        proof (intro allI impI)
          fix j assume j: "j < n"
          then have "xlate (pmem s) pt (addr + of_nat j) \<noteq> Some ch" using Suc.prems(6) by blast
          then show "user_byte (pmem ?s) pt (addr + of_nat j) = f j"
            using Suc.prems(7) j u(3) by (cases "xlate (pmem s) pt (addr + of_nat j)") (auto simp: user_byte_def)
        qed
      qed (use Suc.hyps(2) Suc.prems pb u i in \<open>auto simp: pipe_put_def\<close>)
      then obtain k pi' b where k: "pipewrite_from ch False pt addr (int n) (Suc i) (?pi, ?s)
          = Inr (write_result n (Suc i + k) pi' (s\<lparr>pmem := (pmem s)(ch := b)\<rparr>))" "wrote n (Suc i) k f ?pi pi'" by auto
      from wrote_Cons [OF k(2) fi i pb(2)] show ?thesis
        unfolding e k(1) by (intro exI [of _ "Suc k"] exI [of _ pi'] exI [of _ b]) simp
    qed
  qed
qed

subsection \<open>Reading\<close>

text \<open>What a call of \<open>piperead\<close> does from byte \<open>i\<close> of \<open>n\<close> on: it delivers \<open>k\<close> bytes to the addresses \<open>f j\<close>.
  A byte whose address is not mapped has left the pipe and is lost.\<close>

definition delivered :: "nat \<Rightarrow> nat \<Rightarrow> nat \<Rightarrow> u64 \<Rightarrow> (nat \<Rightarrow> u64 option) \<Rightarrow> pipe \<Rightarrow> pipe \<Rightarrow> mem \<Rightarrow> mem \<Rightarrow> bool" where
  "delivered n i k ch f pi pi' m m' \<longleftrightarrow> i + k \<le> n \<and> k \<le> fill pi \<and> (\<forall>j < k. f (i + j) \<noteq> None) \<and> pipe_ok pi'
     \<and> (if i + k < n \<and> k < fill pi then f (i + k) = None \<and> pipe_bytes pi' = drop (Suc k) (pipe_bytes pi)
        else pipe_bytes pi' = drop k (pipe_bytes pi))
     \<and> readopen pi' = readopen pi \<and> writeopen pi' = writeopen pi
     \<and> (\<forall>j < k. m' (the (f (i + j))) = pipe_bytes pi ! j)
     \<and> (\<forall>x. x \<noteq> ch \<and> (\<forall>j < k. f (i + j) \<noteq> Some x) \<longrightarrow> m' x = m x)"

lemma delivered_Cons:
  assumes d: "delivered n (Suc i) k ch f pi1 pi' (m(ch := b, p := b)) m'" and b: "pipe_bytes pi = b # pipe_bytes pi1"
    and f: "f i = Some p" and i: "i < n" and dist: "\<forall>j < n. i < j \<longrightarrow> f j \<noteq> Some p" and ch: "p \<noteq> ch"
    and o: "readopen pi1 = readopen pi" "writeopen pi1 = writeopen pi"
  shows "delivered n i (Suc k) ch f pi pi' m m'"
proof -
  have fl: "fill pi = Suc (fill pi1)" using b by (metis length_Cons length_pipe_bytes)
  have k: "Suc i + k \<le> n" using d by (simp add: delivered_def)
  have "f (Suc i + j) \<noteq> Some p" if "j < k" for j using dist k that by auto
  then have p: "m' p = b" using d ch by (auto simp: delivered_def)
  have all: "(\<forall>j < Suc k. Q j) \<longleftrightarrow> Q 0 \<and> (\<forall>j < k. Q (Suc j))" for Q by (auto simp: less_Suc_eq_0_disj)
  show ?thesis unfolding delivered_def all using d f p fl b o k by (auto simp: delivered_def)
qed

lemma piperead_from_spec:
  fixes s :: "'a machine_scheme"
  assumes "pipe_ok pi" "pt_wf kend (pmem s) pt" "off_tables (pmem s) pt ch" "i \<le> n"
    and "\<forall>j < n. xlate (pmem s) pt (addr + of_nat j) = f j"
    and "\<forall>j < n. \<forall>p. f j = Some p \<longrightarrow> p \<noteq> ch \<and> off_tables (pmem s) pt p"
    and "\<forall>j < n. \<forall>l < n. j < l \<longrightarrow> f j \<noteq> None \<longrightarrow> f l \<noteq> f j"
  shows "\<exists>k pi' m'. piperead_from ch pt addr (int n) i (pi, s) = Inr (Done (int (i + k)) (pi', s\<lparr>pmem := m'\<rparr>))
     \<and> delivered n i k ch f pi pi' (pmem s) m'"
  using assms
proof (induction "n - i" arbitrary: i pi s)
  case 0
  then have "delivered n i 0 ch f pi pi (pmem s) (pmem s)" "i = n" by (auto simp: delivered_def)
  then show ?case by (intro exI [of _ 0] exI [of _ pi] exI [of _ "pmem s"]) (simp add: piperead_from.simps)
next
  case (Suc d)
  then have i: "i < n" by simp
  note step = piperead_from.simps [of ch pt addr "int n" i "(pi, s)"]
  show ?case
  proof (cases "nread pi = nwrite pi")
    case True
    then have "fill pi = 0" using empty_fill by simp
    then have "delivered n i 0 ch f pi pi (pmem s) (pmem s)" using Suc.prems(1) i by (simp add: delivered_def)
    then show ?thesis using True i by (intro exI [of _ 0] exI [of _ pi] exI [of _ "pmem s"]) (simp add: step)
  next
    case False
    obtain b pi1 where g: "pipe_get pi = (b, pi1)" by fastforce
    have pb: "pipe_ok pi1" "pipe_bytes pi = b # pipe_bytes pi1" using pq.get_law [OF Suc.prems(1) False] g by auto
    have ro: "readopen pi1 = readopen pi" "writeopen pi1 = writeopen pi" using g by (auto simp: pipe_get_def)
    have fl: "fill pi = Suc (fill pi1)" using pb(2) by (metis length_Cons length_pipe_bytes)
    let ?m = "(pmem s)(ch := b)"
    note u = off_tables_upd [OF Suc.prems(2,3), of b]
    have wf1: "pt_wf kend (pmem (s\<lparr>pmem := ?m\<rparr>)) pt" using u(1) by simp
    have x1: "xlate ?m pt (addr + of_nat i) = f i" using u(3) Suc.prems(5) i by simp
    show ?thesis
    proof (cases "f i")
      case None
      then have "delivered n i 0 ch f pi pi1 (pmem s) ?m" using pb fl ro i by (simp add: delivered_def)
      then show ?thesis using False i g x1 None
        by (intro exI [of _ 0] exI [of _ pi1] exI [of _ ?m]) (simp add: step copyout_byte [OF wf1])
    next
      case (Some p)
      let ?m2 = "(pmem s)(ch := b, p := b)"
      let ?s = "s\<lparr>pmem := ?m2\<rparr>"
      have p: "p \<noteq> ch" "off_tables ?m pt p" using Suc.prems(6) i Some u(4) by auto
      note v = off_tables_upd [OF u(1) p(2), of b]
      have e: "piperead_from ch pt addr (int n) i (pi, s) = piperead_from ch pt addr (int n) (Suc i) (pi1, ?s)"
        using False i g x1 Some by (subst step) (simp add: copyout_byte [OF wf1])
      have "\<exists>k pi' m'. piperead_from ch pt addr (int n) (Suc i) (pi1, ?s) = Inr (Done (int (Suc i + k)) (pi', ?s\<lparr>pmem := m'\<rparr>))
         \<and> delivered n (Suc i) k ch f pi1 pi' (pmem ?s) m'"
      proof (rule Suc.hyps(1))
        show "\<forall>j < n. \<forall>p. f j = Some p \<longrightarrow> p \<noteq> ch \<and> off_tables (pmem ?s) pt p" using Suc.prems(6) u(4) v(4) by auto
        show "\<forall>j < n. xlate (pmem ?s) pt (addr + of_nat j) = f j" using Suc.prems(5) u(3) v(3) by auto
      qed (use Suc.hyps(2) Suc.prems pb(1) u v i in auto)
      then obtain k pi' m' where k: "piperead_from ch pt addr (int n) (Suc i) (pi1, ?s) = Inr (Done (int (Suc i + k)) (pi', s\<lparr>pmem := m'\<rparr>))"
        "delivered n (Suc i) k ch f pi1 pi' ?m2 m'" by auto
      have "delivered n i (Suc k) ch f pi pi' (pmem s) m'"
        by (rule delivered_Cons [OF k(2) pb(2) Some i _ p(1) ro]) (use Suc.prems(7) i Some in auto)
      then show ?thesis unfolding e k(1) by (intro exI [of _ "Suc k"] exI [of _ pi'] exI [of _ m']) simp
    qed
  qed
qed

subsection \<open>Properties\<close>

text \<open>C27: \<open>pipewrite\<close> to a pipe whose read end is open, by a process that is not killed, appends to the queue
  of bytes a prefix of the caller's buffer, read from its memory: it goes on until all \<open>n\<close> bytes are
  written, until the pipe is full, when it sleeps, or until a byte of the buffer is not mapped. The 512-byte
  queue, order and contents, is kept however often the counters have wrapped around.\<close>

theorem pipewrite_appends:
  fixes s :: "'a machine_scheme"
  assumes "pipe_ok pi" "readopen pi" "pt_wf kend (pmem s) pt" "off_tables (pmem s) pt ch"
    and "\<forall>j < n. xlate (pmem s) pt (addr + of_nat j) \<noteq> Some ch"
  shows "\<exists>k pi' b. pipewrite ch False pt addr (int n) (pi, s) =
        Inr (if k < n \<and> length (pipe_bytes pi') = 512 then Sleeps k (pi', s\<lparr>pmem := (pmem s)(ch := b)\<rparr>)
             else Done (int k) (pi', s\<lparr>pmem := (pmem s)(ch := b)\<rparr>))
     \<and> k \<le> n \<and> pipe_ok pi' \<and> readopen pi' \<and> writeopen pi' = writeopen pi
     \<and> (\<forall>j < k. xlate (pmem s) pt (addr + of_nat j) \<noteq> None)
     \<and> pipe_bytes pi' = pipe_bytes pi @ map (\<lambda>j. pmem s (the (xlate (pmem s) pt (addr + of_nat j)))) [0..<k]
     \<and> (k < n \<longrightarrow> length (pipe_bytes pi') = 512 \<or> xlate (pmem s) pt (addr + of_nat k) = None)"
proof -
  let ?f = "\<lambda>j. user_byte (pmem s) pt (addr + of_nat j)"
  have ub: "?f j = None \<longleftrightarrow> xlate (pmem s) pt (addr + of_nat j) = None"
    "?f j \<noteq> None \<Longrightarrow> the (?f j) = pmem s (the (xlate (pmem s) pt (addr + of_nat j)))" for j
    by (auto simp: user_byte_def)
  obtain k pi' b where k: "pipewrite_from ch False pt addr (int n) 0 (pi, s) = Inr (write_result n k pi' (s\<lparr>pmem := (pmem s)(ch := b)\<rparr>))"
      "wrote n 0 k ?f pi pi'"
    using pipewrite_from_spec [OF assms(1-4), of 0 n addr ?f] assms(5) by auto
  have m: "map (\<lambda>j. the (?f j)) [0..<k] = map (\<lambda>j. pmem s (the (xlate (pmem s) pt (addr + of_nat j)))) [0..<k]"
    using k(2) ub(2) by (intro map_cong) (auto simp: wrote_def)
  have "k \<le> n \<and> pipe_ok pi' \<and> readopen pi' \<and> writeopen pi' = writeopen pi
     \<and> (\<forall>j < k. xlate (pmem s) pt (addr + of_nat j) \<noteq> None)
     \<and> pipe_bytes pi' = pipe_bytes pi @ map (\<lambda>j. pmem s (the (xlate (pmem s) pt (addr + of_nat j)))) [0..<k]
     \<and> (k < n \<longrightarrow> fill pi' = 512 \<or> xlate (pmem s) pt (addr + of_nat k) = None)"
    using k(2) assms(2) unfolding wrote_def add_0 m ub(1) by auto
  then show ?thesis using k(1) unfolding pipewrite_def write_result_def length_pipe_bytes by blast
qed

text \<open>C28: \<open>piperead\<close> from a pipe that is not empty, or whose write end is closed, delivers the oldest bytes of
  the queue, in order, to the caller's buffer and returns their number, the smaller of \<open>n\<close> and the bytes
  present, and changes no other memory; if a byte of the buffer is not mapped it stops there, and the
  byte that could not be delivered is lost. On an empty pipe with an open write end it sleeps.\<close>

theorem piperead_delivers:
  fixes s :: "'a machine_scheme"
  assumes "pipe_ok pi" "pt_wf kend (pmem s) pt" "off_tables (pmem s) pt ch"
    and "\<forall>j < n. \<forall>p. xlate (pmem s) pt (addr + of_nat j) = Some p \<longrightarrow> p \<noteq> ch \<and> off_tables (pmem s) pt p"
    and "\<forall>j < n. \<forall>l < n. j < l \<longrightarrow> xlate (pmem s) pt (addr + of_nat j) \<noteq> None
       \<longrightarrow> xlate (pmem s) pt (addr + of_nat l) \<noteq> xlate (pmem s) pt (addr + of_nat j)"
  shows "if pipe_bytes pi = [] \<and> writeopen pi then piperead ch False pt addr (int n) (pi, s) = Inr (Sleeps 0 (pi, s))
    else \<exists>k pi' m'. piperead ch False pt addr (int n) (pi, s) = Inr (Done (int k) (pi', s\<lparr>pmem := m'\<rparr>))
     \<and> k \<le> min n (length (pipe_bytes pi)) \<and> pipe_ok pi' \<and> (\<forall>j < k. xlate (pmem s) pt (addr + of_nat j) \<noteq> None)
     \<and> (\<forall>j < k. m' (the (xlate (pmem s) pt (addr + of_nat j))) = pipe_bytes pi ! j)
     \<and> (\<forall>x. x \<noteq> ch \<and> (\<forall>j < k. xlate (pmem s) pt (addr + of_nat j) \<noteq> Some x) \<longrightarrow> m' x = pmem s x)
     \<and> (if k < min n (length (pipe_bytes pi))
        then xlate (pmem s) pt (addr + of_nat k) = None \<and> pipe_bytes pi' = drop (Suc k) (pipe_bytes pi)
        else pipe_bytes pi' = drop k (pipe_bytes pi))"
proof -
  let ?f = "\<lambda>j. xlate (pmem s) pt (addr + of_nat j)"
  have e: "pipe_bytes pi = [] \<longleftrightarrow> nread pi = nwrite pi" using pq.empty_law [OF assms(1)] by simp
  obtain k pi' m' where k: "piperead_from ch pt addr (int n) 0 (pi, s) = Inr (Done (int k) (pi', s\<lparr>pmem := m'\<rparr>))"
      "delivered n 0 k ch ?f pi pi' (pmem s) m'"
    using piperead_from_spec [OF assms(1-3), of 0 n addr ?f] assms(4,5) by auto
  show ?thesis
  proof (cases "pipe_bytes pi = [] \<and> writeopen pi")
    case False
    then have "piperead ch False pt addr (int n) (pi, s) = Inr (Done (int k) (pi', s\<lparr>pmem := m'\<rparr>))"
      using k(1) unfolding piperead_def e by simp
    then show ?thesis using k(2) False unfolding delivered_def length_pipe_bytes by (auto split: if_splits)
  qed (auto simp: e piperead_def)
qed

subsection \<open>Witnesses\<close>

definition demo_pipe :: pipe where
  "demo_pipe = pipe_put 2 (pipe_put 1 (pipe_init \<lparr>p_data = replicate 512 0, nread = 7, nwrite = 9, readopen = False, writeopen = False\<rparr>))"

lemma demo_pipe_bytes: "pipe_ok demo_pipe" "pipe_bytes demo_pipe = [1, 2]" "readopen demo_pipe"
proof -
  let ?p = "pipe_init \<lparr>p_data = replicate 512 0, nread = 7, nwrite = 9, readopen = False, writeopen = False\<rparr>"
  have p: "pipe_ok ?p" "fill ?p = 0" by (simp_all add: pipe_ok_def fill_def pipe_init_def del: replicate.simps)
  note 1 = pipe_put_bytes [OF p(1), of 1]
  have "fill (pipe_put 1 ?p) = 1" using fill_simps(1) [of ?p 1] p(2) by simp
  then have "pipe_ok demo_pipe \<and> pipe_bytes demo_pipe = pipe_bytes (pipe_put 1 ?p) @ [2]"
    using pipe_put_bytes [of "pipe_put 1 ?p" 2] 1 p(2) by (simp add: demo_pipe_def)
  moreover have "pipe_bytes ?p = []" using p(2) by (simp add: pipe_bytes_def)
  ultimately show "pipe_ok demo_pipe" "pipe_bytes demo_pipe = [1, 2]" using 1 p(2) by simp_all
  show "readopen demo_pipe" by (simp add: demo_pipe_def pipe_put_def pipe_init_def)
qed

lemma all_below:
  "(\<forall>j < (2 :: nat). Q j) \<longleftrightarrow> Q 0 \<and> Q (Suc 0)" "(\<forall>j < (3 :: nat). Q j) \<longleftrightarrow> Q 0 \<and> Q (Suc 0) \<and> Q 2"
  by (auto simp: less_2_cases_iff less_Suc_eq numeral_3_eq_3 numeral_2_eq_2)

lemma demo_user:
  "\<exists>s :: machine. pt_wf 0x87FFC000 (pmem s) 0x87FFF000
     \<and> (\<forall>va. xlate (pmem s) 0x87FFF000 va = (if unat va div 4096 = 1 then Some (0x80000000 + (va - 0x1000)) else None))
     \<and> (\<forall>x < 0x81000000. off_tables (pmem s) 0x87FFF000 x)"
proof -
  obtain s1 :: machine where s1: "vm_inv 0x87FFC000 s1 0x87FFF000 (tl four_pages)" "\<forall>va. leaf (pmem s1) 0x87FFF000 va = None"
    using demo_space [of "\<lparr>pmem = (\<lambda>_. 0), freelist = 0\<rparr>"] by auto
  obtain s :: machine and ps where inv: "vm_inv 0x87FFC000 s 0x87FFF000 ps" and lf: "\<forall>vb < MAXVA. leaf (pmem s) 0x87FFF000 vb =
     (if unat vb div 4096 = 1 then Some (range_entry 0x1000 0x80000000 (PTE_R OR PTE_U) vb) else None)"
    using demo_mapped [OF s1] by blast
  have wf: "pt_wf 0x87FFC000 (pmem s) 0x87FFF000" using inv by (simp add: vm_inv_def)
  have "xlate (pmem s) 0x87FFF000 va = (if unat va div 4096 = 1 then Some (0x80000000 + (va - 0x1000)) else None)" for va
  proof (cases "unat va div 4096 = 1")
    case True
    then have v: "va < MAXVA" by (simp add: word_less_nat_alt)
    have "unat (PGROUNDDOWN va) = unat va div 4096 * 4096" by (simp add: unat_PGROUNDDOWN minus_mod_eq_div_mult)
    then have pg: "PGROUNDDOWN va = 0x1000" using True by (simp add: unat_eq_iff64)
    have "upage (pmem s) 0x87FFF000 va = Some 0x80000000"
      using lf [rule_format, OF v] True v range_entry_PTE2PA [of "PTE_R OR PTE_U" "0x80000000" va "0x1000"]
        range_entry_flags(2) [of "PTE_R OR PTE_U" "0x1000" "0x80000000" va]
      by (simp add: upage_def aligned_def leD)
    then show ?thesis using True pg by (simp add: xlate_def)
  next
    case False
    then show ?thesis using lf [rule_format, of va] by (cases "MAXVA \<le> va") (auto simp: xlate_def upage_def)
  qed
  moreover have "off_tables (pmem s) 0x87FFF000 x" if x: "x < 0x81000000" for x
  proof -
    have "\<not> in_range x t 4096" if t: "t \<in> tables (pmem s) 0x87FFF000" for t
    proof -
      have "kpage 0x87FFC000 t" using wf t by (simp add: pt_wf_def)
      then have "2281684992 \<le> unat t" "unat t < 2281701376" by (auto simp: kpage_def word_le_nat_alt word_less_nat_alt)
      then show ?thesis using x in_range_nowrap [of t 4096 x] by (simp add: word_less_nat_alt)
    qed
    then show ?thesis by (simp add: off_tables_def)
  qed
  ultimately show ?thesis using wf by blast
qed

theorem pipewrite_appends_witness:
  "\<exists>(s :: machine) pi' s'. pipewrite 0x80100000 False 0x87FFF000 0x1FFE 3 (demo_pipe, s) = Inr (Done 2 (pi', s'))
     \<and> pipe_bytes pi' = [1, 2, pmem s 0x80000FFE, pmem s 0x80000FFF]"
proof -
  obtain s :: machine where s: "pt_wf 0x87FFC000 (pmem s) 0x87FFF000"
     "\<And>va. xlate (pmem s) 0x87FFF000 va = (if unat va div 4096 = 1 then Some (0x80000000 + (va - 0x1000)) else None)"
     "off_tables (pmem s) 0x87FFF000 0x80100000"
    using demo_user by (auto simp: word_less_nat_alt)
  let ?x = "\<lambda>j. xlate (pmem s) 0x87FFF000 (0x1FFE + of_nat j)"
  have x: "?x 0 = Some 0x80000FFE" "?x (Suc 0) = Some 0x80000FFF" "?x 2 = None" by (simp_all add: s(2))
  have "\<forall>j < 3. ?x j \<noteq> Some 0x80100000" unfolding all_below x by simp
  from pipewrite_appends [OF demo_pipe_bytes(1,3) s(1,3) this] obtain k pi' b where
    k: "pipewrite 0x80100000 False 0x87FFF000 0x1FFE (int 3) (demo_pipe, s) =
        Inr (if k < 3 \<and> length (pipe_bytes pi') = 512 then Sleeps k (pi', s\<lparr>pmem := (pmem s)(0x80100000 := b)\<rparr>)
             else Done (int k) (pi', s\<lparr>pmem := (pmem s)(0x80100000 := b)\<rparr>))"
      "k \<le> 3" "\<forall>j < k. ?x j \<noteq> None"
      "pipe_bytes pi' = [1, 2] @ map (\<lambda>j. pmem s (the (?x j))) [0..<k]"
      "k < 3 \<longrightarrow> length (pipe_bytes pi') = 512 \<or> ?x k = None"
    unfolding demo_pipe_bytes(2) by blast
  have "k \<le> 2" using k(3) x(3) by (meson linorder_not_le)
  then have "?x k = None" "length (pipe_bytes pi') = 2 + k" using k(4,5) by auto
  then have "k \<noteq> 0" "k \<noteq> Suc 0" using x by (metis option.distinct(1))+
  then have 2: "k = 2" using \<open>k \<le> 2\<close> by linarith
  have "[0..<2] = [0, Suc 0]" by (simp add: upt_rec)
  then have b: "pipe_bytes pi' = [1, 2, pmem s 0x80000FFE, pmem s 0x80000FFF]" using k(4) unfolding 2 by (simp only: list.map x) simp
  then show ?thesis using k(1) unfolding 2 by (intro exI [of _ s] exI [of _ pi'] exI [of _ "s\<lparr>pmem := (pmem s)(0x80100000 := b)\<rparr>"]) simp
qed

theorem piperead_delivers_witness:
  "\<exists>(s :: machine) pi' s'. piperead 0x80100000 False 0x87FFF000 0x1FFF 2 (demo_pipe, s) = Inr (Done 1 (pi', s'))
     \<and> pmem s' 0x80000FFF = 1 \<and> pipe_bytes pi' = []"
proof -
  obtain s :: machine where s: "pt_wf 0x87FFC000 (pmem s) 0x87FFF000"
     "\<And>va. xlate (pmem s) 0x87FFF000 va = (if unat va div 4096 = 1 then Some (0x80000000 + (va - 0x1000)) else None)"
     "off_tables (pmem s) 0x87FFF000 0x80100000" "off_tables (pmem s) 0x87FFF000 0x80000FFF"
    using demo_user by (auto simp: word_less_nat_alt)
  let ?x = "\<lambda>j. xlate (pmem s) 0x87FFF000 (0x1FFF + of_nat j)"
  have x: "?x 0 = Some 0x80000FFF" "?x (Suc 0) = None" by (simp_all add: s(2))
  have h: "\<forall>j < 2. \<forall>p. ?x j = Some p \<longrightarrow> p \<noteq> 0x80100000 \<and> off_tables (pmem s) 0x87FFF000 p"
    "\<forall>j < 2. \<forall>l < 2. j < l \<longrightarrow> ?x j \<noteq> None \<longrightarrow> ?x l \<noteq> ?x j"
    unfolding all_below x using s(4) by simp_all
  from piperead_delivers [OF demo_pipe_bytes(1) s(1,3) h] obtain k pi' m' where
    k: "piperead 0x80100000 False 0x87FFF000 0x1FFF (int 2) (demo_pipe, s) = Inr (Done (int k) (pi', s\<lparr>pmem := m'\<rparr>))"
      "k \<le> 2" "\<forall>j < k. ?x j \<noteq> None" "\<forall>j < k. m' (the (?x j)) = [1, 2] ! j"
      "if k < 2 then ?x k = None \<and> pipe_bytes pi' = drop (Suc k) [1, 2] else pipe_bytes pi' = drop k [1, 2]"
    unfolding demo_pipe_bytes(2) by (auto split: if_splits)
  have "k \<le> 1" using k(3) x(2) by (metis One_nat_def linorder_not_le)
  then have "k = 1" using k(5) x by (cases k) auto
  then show ?thesis using k(1,4,5) x
    by (intro exI [of _ s] exI [of _ pi'] exI [of _ "s\<lparr>pmem := m'\<rparr>"]) simp
qed

end
