(* ===== verification/File.thy ===== *)
theory File
  imports FileIO Pipe
begin

text \<open>
  Open files, \<open>kernel/file.c\<close> and \<open>pipealloc\<close> of \<open>kernel/pipe.c\<close> (the same files in Projects 2 to 4). A file
  pointer is its index in \<open>ftable.file\<close>, a pipe its address; \<open>ftable.lock\<close> makes the table operations atomic.
  The device switch \<open>devsw\<close> is a parameter: its functions are given the user address and the count. A call that
  sleeps in a pipe returns \<open>Sleeps\<close>. The four bytes of padding in \<open>struct stat\<close>, which \<open>filestat\<close> copies to the
  user without ever writing them, are a parameter too.
\<close>

subsection \<open>State\<close>

definition NFILE :: nat where "NFILE = 100"
definition NDEV :: int where "NDEV = 10"

datatype ftype = FD_NONE | FD_PIPE | FD_INODE | FD_DEVICE

record kfile =
  f_type :: ftype
  f_ref :: int
  f_readable :: bool
  f_writable :: bool
  f_pipe :: u64
  f_ip :: nat
  f_off :: u32
  f_major :: int

record filest = fsst +
  ftable :: "kfile list"
  pipes :: "u64 \<Rightarrow> pipe"

definition upd_file :: "nat \<Rightarrow> (kfile \<Rightarrow> kfile) \<Rightarrow> 'a filest_scheme \<Rightarrow> 'a filest_scheme" where
  "upd_file f g s = s\<lparr>ftable := (ftable s)[f := g (ftable s ! f)]\<rparr>"

subsection \<open>The file table\<close>

definition filealloc :: "'a filest_scheme \<Rightarrow> nat option \<times> 'a filest_scheme" where
  "filealloc s =
     (case find (\<lambda>f. f_ref (ftable s ! f) = 0) [0..<NFILE] of
        Some f \<Rightarrow> (Some f, upd_file f (\<lambda>x. x\<lparr>f_ref := 1\<rparr>) s)
      | None \<Rightarrow> (None, s))"

definition filedup :: "nat \<Rightarrow> 'a filest_scheme \<Rightarrow> kerror + 'a filest_scheme" where
  "filedup f s =
     (if f_ref (ftable s ! f) < 1 then Inl (Panic ''filedup'')
      else Inr (upd_file f (\<lambda>x. x\<lparr>f_ref := f_ref x + 1\<rparr>) s))"

text \<open>What the last close does with the file \<open>ff\<close> it took out of the table.\<close>

definition close_last :: "u64 \<Rightarrow> int \<Rightarrow> kfile \<Rightarrow> 'a filest_scheme \<Rightarrow> kerror + 'a filest_scheme" where
  "close_last kend pid ff s =
     (if f_type ff = FD_PIPE
      then let (pi, free) = pipeclose (f_writable ff) (pipes s (f_pipe ff)); s = s\<lparr>pipes := (pipes s)(f_pipe ff := pi)\<rparr> in
        if free then bindE (kfree kend (f_pipe ff) (fs_mach s)) (\<lambda>m. Inr (s\<lparr>fs_mach := m\<rparr>)) else Inr s
      else if f_type ff = FD_INODE \<or> f_type ff = FD_DEVICE
      then bindE (begin_op s) (\<lambda>s. bindE (iput pid (f_ip ff) s) (\<lambda>s. end_op pid s))
      else Inr s)"

definition fileclose :: "u64 \<Rightarrow> int \<Rightarrow> nat \<Rightarrow> 'a filest_scheme \<Rightarrow> kerror + 'a filest_scheme" where
  "fileclose kend pid f s =
     (if f_ref (ftable s ! f) < 1 then Inl (Panic ''fileclose'')
      else let s = upd_file f (\<lambda>x. x\<lparr>f_ref := f_ref x - 1\<rparr>) s in
        if 0 < f_ref (ftable s ! f) then Inr s
        else let ff = ftable s ! f in
          close_last kend pid ff (upd_file f (\<lambda>x. x\<lparr>f_ref := 0, f_type := FD_NONE\<rparr>) s))"

subsection \<open>Metadata, reading and writing\<close>

definition le_bytes :: "nat \<Rightarrow> u64 \<Rightarrow> u8 list" where
  "le_bytes n v = map (\<lambda>i. ucast (drop_bit (8 * i) v)) [0..<n]"

definition stat_bytes :: "u8 list \<Rightarrow> stat \<Rightarrow> u8 list" where
  "stat_bytes pad st = le_bytes 4 (ucast (st_dev st)) @ le_bytes 4 (ucast (st_ino st)) @ le_bytes 2 (ucast (st_type st))
     @ le_bytes 2 (ucast (st_nlink st)) @ take 4 pad @ le_bytes 8 (st_size st)"

definition filestat :: "int \<Rightarrow> u8 list \<Rightarrow> nat \<Rightarrow> u64 \<Rightarrow> 'a filest_scheme \<Rightarrow> kerror + int \<times> 'a filest_scheme" where
  "filestat pid pad f addr s =
     (let ip = f_ip (ftable s ! f) in
      if f_type (ftable s ! f) = FD_INODE \<or> f_type (ftable s ! f) = FD_DEVICE
      then bindE (ilock pid ip s) (\<lambda>s.
        let st = stati ip s in
        bindE (iunlock pid ip s) (\<lambda>s.
          bindE (copyout_data (fs_pagetable s) addr (stat_bytes pad st) (fs_mach s)) (\<lambda>(r, m).
            Inr (if r < 0 then - 1 else 0, s\<lparr>fs_mach := m\<rparr>))))
      else Inr (- 1, s))"

type_synonym 's devsw = "int \<Rightarrow> (u64 \<Rightarrow> int \<Rightarrow> 's \<Rightarrow> kerror + int \<times> 's) option"

definition dev_call :: "'s devsw \<Rightarrow> int \<Rightarrow> u64 \<Rightarrow> int \<Rightarrow> 's \<Rightarrow> kerror + 's pipe_out" where
  "dev_call devsw major addr n s =
     (if major < 0 \<or> NDEV \<le> major then Inr (Done (- 1) s)
      else case devsw major of None \<Rightarrow> Inr (Done (- 1) s)
        | Some call \<Rightarrow> bindE (call addr n s) (\<lambda>(r, s). Inr (Done r s)))"

definition pipe_call :: "(pipe \<times> machine \<Rightarrow> kerror + (pipe \<times> machine) pipe_out) \<Rightarrow> u64 \<Rightarrow> 'a filest_scheme
    \<Rightarrow> kerror + 'a filest_scheme pipe_out" where
  "pipe_call call p s =
     (let put = (\<lambda>(pi, m). s\<lparr>pipes := (pipes s)(p := pi), fs_mach := m\<rparr>) in
      bindE (call (pipes s p, fs_mach s)) (\<lambda>out. Inr (case out of Done r t \<Rightarrow> Done r (put t) | Sleeps i t \<Rightarrow> Sleeps i (put t))))"

definition fileread :: "'a filest_scheme devsw \<Rightarrow> u64 \<Rightarrow> bool \<Rightarrow> int \<Rightarrow> nat \<Rightarrow> u64 \<Rightarrow> int \<Rightarrow> 'a filest_scheme
    \<Rightarrow> kerror + 'a filest_scheme pipe_out" where
  "fileread devsw_read ch killed pid f addr n s =
     (let x = ftable s ! f in
      if \<not> f_readable x then Inr (Done (- 1) s)
      else case f_type x of
        FD_PIPE \<Rightarrow> pipe_call (piperead ch killed (fs_pagetable s) addr n) (f_pipe x) s
      | FD_DEVICE \<Rightarrow> dev_call devsw_read (f_major x) addr n s
      | FD_INODE \<Rightarrow> bindE (ilock pid (f_ip x) s) (\<lambda>s.
          bindE (readi pid (f_ip x) (UserAddr addr) (f_off x) (of_int n) s) (\<lambda>(r, s).
            let s = (if 0 < r then upd_file f (\<lambda>x. x\<lparr>f_off := f_off x + of_int r\<rparr>) s else s) in
            bindE (iunlock pid (f_ip x) s) (\<lambda>s. Inr (Done r s))))
      | FD_NONE \<Rightarrow> Inl (Panic ''fileread''))"

text \<open>The largest piece \<open>filewrite\<close> writes in one transaction: three blocks.\<close>

definition max_write :: int where "max_write = (MAXOPBLOCKS - 1 - 1 - 2) div 2 * 1024"

definition write_piece :: "int \<Rightarrow> nat \<Rightarrow> u64 \<Rightarrow> int \<Rightarrow> 'a filest_scheme \<Rightarrow> kerror + int \<times> 'a filest_scheme" where
  "write_piece pid f addr n1 s =
     (let ip = f_ip (ftable s ! f) in
      bindE (begin_op s) (\<lambda>s. bindE (ilock pid ip s) (\<lambda>s.
        bindE (writei pid ip (UserAddr addr) (f_off (ftable s ! f)) (of_int n1) s) (\<lambda>(r, s).
          let s = (if 0 < r then upd_file f (\<lambda>x. x\<lparr>f_off := f_off x + of_int r\<rparr>) s else s) in
          bindE (iunlock pid ip s) (\<lambda>s. bindE (end_op pid s) (\<lambda>s. Inr (r, s)))))))"

function write_pieces :: "int \<Rightarrow> nat \<Rightarrow> u64 \<Rightarrow> int \<Rightarrow> int \<Rightarrow> 'a filest_scheme \<Rightarrow> kerror + int \<times> 'a filest_scheme" where
  "write_pieces pid f addr n i s =
     (if i < n
      then let n1 = min (n - i) max_write in
        bindE (write_piece pid f (addr + of_int i) n1 s) (\<lambda>(r, s).
          if r \<noteq> n1 then Inr (i, s) else write_pieces pid f addr n (i + n1) s)
      else Inr (i, s))"
  by pat_completeness auto
termination by (relation "measure (\<lambda>(pid, f, addr, n, i, s). nat (n - i))") (auto simp: max_write_def MAXOPBLOCKS_def min_def)

declare write_pieces.simps [simp del]

definition filewrite :: "'a filest_scheme devsw \<Rightarrow> u64 \<Rightarrow> bool \<Rightarrow> int \<Rightarrow> nat \<Rightarrow> u64 \<Rightarrow> int \<Rightarrow> 'a filest_scheme
    \<Rightarrow> kerror + 'a filest_scheme pipe_out" where
  "filewrite devsw_write ch killed pid f addr n s =
     (let x = ftable s ! f in
      if \<not> f_writable x then Inr (Done (- 1) s)
      else case f_type x of
        FD_PIPE \<Rightarrow> pipe_call (pipewrite ch killed (fs_pagetable s) addr n) (f_pipe x) s
      | FD_DEVICE \<Rightarrow> dev_call devsw_write (f_major x) addr n s
      | FD_INODE \<Rightarrow> bindE (write_pieces pid f addr n 0 s) (\<lambda>(i, s). Inr (Done (if i = n then n else - 1) s))
      | FD_NONE \<Rightarrow> Inl (Panic ''filewrite''))"

subsection \<open>Making a pipe\<close>

definition close_some :: "u64 \<Rightarrow> int \<Rightarrow> nat option \<Rightarrow> 'a filest_scheme \<Rightarrow> kerror + 'a filest_scheme" where
  "close_some kend pid fo s = (case fo of None \<Rightarrow> Inr s | Some f \<Rightarrow> fileclose kend pid f s)"

definition pipealloc :: "u64 \<Rightarrow> int \<Rightarrow> 'a filest_scheme \<Rightarrow> kerror + (nat \<times> nat) option \<times> 'a filest_scheme" where
  "pipealloc kend pid s =
     (let bad = (\<lambda>f0 f1 s. bindE (close_some kend pid f0 s) (\<lambda>s. bindE (close_some kend pid f1 s) (\<lambda>s. Inr (None, s)))) in
      case filealloc s of
        (None, s) \<Rightarrow> bad None None s
      | (Some f0, s) \<Rightarrow>
          (case filealloc s of
             (None, s) \<Rightarrow> bad (Some f0) None s
           | (Some f1, s) \<Rightarrow>
               let (pi, m) = kalloc (fs_mach s); s = s\<lparr>fs_mach := m\<rparr> in
               if pi = 0 then bad (Some f0) (Some f1) s
               else let s = s\<lparr>pipes := (pipes s)(pi := pipe_init (pipes s pi))\<rparr>;
                        s = upd_file f0 (\<lambda>x. x\<lparr>f_type := FD_PIPE, f_readable := True, f_writable := False, f_pipe := pi\<rparr>) s;
                        s = upd_file f1 (\<lambda>x. x\<lparr>f_type := FD_PIPE, f_readable := False, f_writable := True, f_pipe := pi\<rparr>) s in
                 Inr (Some (f0, f1), s)))"

subsection \<open>What the inode operations leave alone\<close>

text \<open>Everything beyond the file-system state, so the file table and the pipes.\<close>

lemma fs_more_upd [simp]:
  fixes s :: "'a fsst_scheme"
  shows "fsst.more (upd_buf i f s) = fsst.more s" "fsst.more (set_next i n s) = fsst.more s" "fsst.more (set_prev i n s) = fsst.more s"
    "fsst.more (link_front i s) = fsst.more s" "fsst.more (set_data b d s) = fsst.more s" "fsst.more (upd_inode ip g s) = fsst.more s"
  by (simp_all add: upd_buf_def set_next_def set_prev_def link_front_def set_data_def upd_inode_def Let_def)

lemma bread_fs_more:
  fixes s :: "'a fsst_scheme"
  shows "bread pid dev n s = Inr (b, s') \<Longrightarrow> fsst.more s' = fsst.more s"
  by (auto simp: bread_def bget_def Let_def virtio_disk_rw_def split: option.splits if_splits)

lemma brelse_fs_more:
  fixes s :: "'a fsst_scheme"
  shows "brelse pid b s = Inr s' \<Longrightarrow> fsst.more s' = fsst.more s"
  by (auto simp: brelse_def Let_def split: if_splits)

lemma bwrite_frame:
  fixes s :: "'a fsst_scheme"
  shows "bwrite pid b s = Inr s' \<Longrightarrow> fsst.more s' = fsst.more s \<and> itable s' = itable s"
  by (auto simp: bwrite_def virtio_disk_rw_def Let_def split: if_splits)

lemma log_write_fs_more:
  fixes s :: "'a fsst_scheme"
  shows "log_write b s = Inr s' \<Longrightarrow> fsst.more s' = fsst.more s"
  by (auto simp: log_write_def Let_def bpin_def split: if_splits)

lemma bfree_fs_more:
  fixes s :: "'a fsst_scheme"
  shows "bfree pid dev b s = Inr s' \<Longrightarrow> fsst.more s' = fsst.more s"
  by (auto simp: bfree_def Let_def dest!: bread_fs_more log_write_fs_more brelse_fs_more split: if_splits)

lemma iupdate_fs_more:
  fixes s :: "'a fsst_scheme"
  shows "iupdate pid ip s = Inr s' \<Longrightarrow> fsst.more s' = fsst.more s"
  by (auto simp: iupdate_def Let_def dest!: bread_fs_more log_write_fs_more brelse_fs_more)

lemma itrunc_fs_more:
  fixes s :: "'a fsst_scheme"
  assumes "itrunc pid ip s = Inr s'"
  shows "fsst.more s' = fsst.more s"
proof -
  have "fsst.more u = fsst.more t"
    if "foldE (\<lambda>i s. let a = i_addrs (itable s ! ip) ! i in
         if a \<noteq> 0
         then bindE (bfree pid (i_dev (itable s ! ip)) a s) (\<lambda>s. Inr (upd_inode ip (\<lambda>x. x\<lparr>i_addrs := (i_addrs x)[i := 0]\<rparr>) s))
         else Inr s) [0..<NDIRECT] t = Inr u" for t u :: "'a fsst_scheme"
    by (rule foldE_invariant [OF that]) (auto simp: Let_def dest!: bfree_fs_more split: if_splits)
  moreover have "fsst.more u = fsst.more t"
    if "foldE (\<lambda>j s. let e = get32 (b_data (bufs s ! bp)) (4 * j) in
          if e \<noteq> 0 then bfree pid dev e s else Inr s) [0..<NINDIRECT] t = Inr u" for bp dev and t u :: "'a fsst_scheme"
    by (rule foldE_invariant [OF that]) (auto simp: Let_def dest!: bfree_fs_more split: if_splits)
  ultimately show ?thesis
    using assms unfolding itrunc_def
    by (auto simp: Let_def dest!: bfree_fs_more iupdate_fs_more bread_fs_more brelse_fs_more split: if_splits)
qed

lemma iput_fs_more:
  fixes s :: "'a fsst_scheme"
  shows "iput pid ip s = Inr s' \<Longrightarrow> fsst.more s' = fsst.more s"
  unfolding iput_def Let_def
  by (auto dest!: itrunc_fs_more iupdate_fs_more split: if_splits)

lemma bread_frame:
  fixes s :: "'a fsst_scheme"
  shows "bread pid dev n s = Inr (b, s') \<Longrightarrow> fsst.more s' = fsst.more s \<and> itable s' = itable s"
  by (simp add: bread_fs_more bread_table)

lemma brelse_frame:
  fixes s :: "'a fsst_scheme"
  shows "brelse pid b s = Inr s' \<Longrightarrow> fsst.more s' = fsst.more s \<and> itable s' = itable s"
  by (simp add: brelse_fs_more brelse_table)

lemma write_head_frame:
  fixes s :: "'a fsst_scheme"
  shows "write_head pid s = Inr s' \<Longrightarrow> fsst.more s' = fsst.more s \<and> itable s' = itable s"
  by (auto simp: write_head_def dest!: bread_frame bwrite_frame brelse_frame)

lemma write_log_frame:
  fixes s :: "'a fsst_scheme"
  assumes "write_log pid s = Inr s'"
  shows "fsst.more s' = fsst.more s \<and> itable s' = itable s"
  by (rule foldE_invariant [OF assms [unfolded write_log_def]])
    (auto simp: write_one_def dest!: bread_frame bwrite_frame brelse_frame)

lemma install_frame:
  fixes s :: "'a fsst_scheme"
  assumes "install_trans pid r s = Inr s'"
  shows "fsst.more s' = fsst.more s \<and> itable s' = itable s"
  by (rule foldE_invariant [OF assms [unfolded install_trans_def]])
    (auto simp: install_one_def bunpin_def dest!: bread_frame bwrite_frame brelse_frame split: if_splits)

lemma end_op_frame:
  fixes s :: "'a fsst_scheme"
  assumes "end_op pid s = Inr s'"
  shows "fsst.more s' = fsst.more s \<and> itable s' = itable s"
  using assms by (auto simp: end_op_def commit_def Let_def dest!: write_log_frame write_head_frame install_frame split: if_splits)

lemma begin_op_frame:
  fixes s :: "'a fsst_scheme"
  assumes "begin_op s = Inr s'"
  shows "fsst.more s' = fsst.more s \<and> itable s' = itable s"
  using assms by (auto simp: begin_op_def split: if_splits)

lemma filest_more:
  fixes s s' :: "'a filest_scheme"
  assumes "fsst.more s' = fsst.more s"
  shows "ftable s' = ftable s" "pipes s' = pipes s"
  using assms by (cases s; cases s'; simp)+

lemma upd_file_simps [simp]:
  fixes s :: "'a filest_scheme"
  shows "itable (upd_file f g s) = itable s" "ftable (upd_file f g s) = (ftable s)[f := g (ftable s ! f)]" "pipes (upd_file f g s) = pipes s"
  by (simp_all add: upd_file_def)

subsection \<open>Counting references\<close>

definition uses_inode :: "nat \<Rightarrow> kfile \<Rightarrow> bool" where
  "uses_inode ip x \<longleftrightarrow> 0 < f_ref x \<and> (f_type x = FD_INODE \<or> f_type x = FD_DEVICE) \<and> f_ip x = ip"

definition open_files :: "kfile list \<Rightarrow> nat \<Rightarrow> int" where
  "open_files tab ip = sum_list (map (\<lambda>x. of_bool (uses_inode ip x)) tab)"

text \<open>Free entries have no type, and every file open on an inode owns one of its references.\<close>

definition file_inv :: "'a filest_scheme \<Rightarrow> bool" where
  "file_inv s \<longleftrightarrow> itable_ok (itable s) \<and> length (ftable s) = NFILE
     \<and> (\<forall>x \<in> set (ftable s). 0 \<le> f_ref x \<and> (f_ref x = 0 \<longrightarrow> f_type x = FD_NONE) \<and> (\<forall>ip. uses_inode ip x \<longrightarrow> ip < NINODE))
     \<and> (\<forall>ip < NINODE. open_files (ftable s) ip \<le> i_ref (itable s ! ip))"

lemma open_files_update:
  "f < length tab \<Longrightarrow> open_files (tab[f := x]) ip = open_files tab ip - of_bool (uses_inode ip (tab ! f)) + of_bool (uses_inode ip x)"
  unfolding open_files_def by (rule sum_list_update_int)

lemma open_files_pos: "f < length tab \<Longrightarrow> uses_inode ip (tab ! f) \<Longrightarrow> 1 \<le> open_files tab ip"
proof -
  assume a: "f < length tab" "uses_inode ip (tab ! f)"
  have "0 \<le> sum_list (map (\<lambda>x. of_bool (uses_inode ip x) :: int) xs)" for xs by (rule sum_list_nonneg) auto
  then have "0 \<le> open_files (tab[f := (tab ! f)\<lparr>f_ref := 0\<rparr>]) ip" by (simp add: open_files_def)
  then show ?thesis using open_files_update [OF a(1), of "(tab ! f)\<lparr>f_ref := 0\<rparr>" ip] a(2) by (simp add: uses_inode_def)
qed

text \<open>Changing one entry of the file table.\<close>

lemma file_inv_upd:
  assumes inv: "file_inv s" and f: "f < NFILE" and x: "0 \<le> f_ref x" "f_ref x = 0 \<longrightarrow> f_type x = FD_NONE"
    and u: "\<And>ip. uses_inode ip x \<Longrightarrow> uses_inode ip (ftable s ! f)" and t: "ftable s' = (ftable s)[f := x]"
    and ok: "itable_ok (itable s')"
    and r: "\<And>ip. ip < NINODE \<Longrightarrow> i_ref (itable s ! ip) - of_bool (uses_inode ip (ftable s ! f) \<and> \<not> uses_inode ip x) \<le> i_ref (itable s' ! ip)"
  shows "file_inv s'"
proof -
  have l: "length (ftable s) = NFILE" using inv by (simp add: file_inv_def)
  have "open_files (ftable s') ip \<le> i_ref (itable s' ! ip)" if ip: "ip < NINODE" for ip
  proof -
    have "open_files (ftable s) ip \<le> i_ref (itable s ! ip)" using inv ip by (simp add: file_inv_def)
    then show ?thesis using r [OF ip] u [of ip] open_files_update [of f "ftable s" x ip] f l
      by (auto simp: t split: if_splits)
  qed
  moreover have "ftable s ! f \<in> set (ftable s)" using f l by simp
  ultimately show ?thesis using inv x u t ok
    unfolding file_inv_def by (auto dest!: set_update_subset_insert [THEN subsetD])
qed

lemma iput_refs:
  fixes s :: "'a fsst_scheme"
  assumes "iput pid ip s = Inr s'" "j < length (itable s)"
  shows "i_ref (itable s' ! j) = i_ref (itable s ! j) - of_bool (j = ip)"
proof -
  note m = iput_table [OF assms(1)]
  have "length (itable s') = length (itable s)" using arg_cong [OF m, of length] by simp
  then have "core (itable s' ! j) = core ((itable s)[ip := (itable s ! ip)\<lparr>i_ref := i_ref (itable s ! ip) - 1\<rparr>] ! j)"
    using arg_cong [OF m, of "\<lambda>xs. xs ! j"] assms(2) by simp
  then show ?thesis using assms(2) by (cases "j = ip") (auto simp: core_def)
qed

lemma iput_itable_ok:
  fixes s :: "'a fsst_scheme"
  assumes "itable_ok (itable s)" "ip < NINODE" "0 < i_ref (itable s ! ip)" "iput pid ip s = Inr s'"
  shows "itable_ok (itable s')"
  using core_table(1) [OF iput_table [OF assms(4)]] itable_ok_same [OF assms(1,2), of "(itable s ! ip)\<lparr>i_ref := i_ref (itable s ! ip) - 1\<rparr>"] assms(3)
  by simp

lemma close_last_inv:
  fixes s :: "'a filest_scheme"
  assumes c: "close_last kend pid ff s = Inr s'" and ok: "itable_ok (itable s)"
    and ip: "f_type ff = FD_INODE \<or> f_type ff = FD_DEVICE \<Longrightarrow> f_ip ff < NINODE \<and> 0 < i_ref (itable s ! f_ip ff)"
  shows "ftable s' = ftable s \<and> itable_ok (itable s')
    \<and> (\<forall>j < NINODE. i_ref (itable s' ! j) = i_ref (itable s ! j) - of_bool ((f_type ff = FD_INODE \<or> f_type ff = FD_DEVICE) \<and> j = f_ip ff))"
proof (cases "f_type ff = FD_INODE \<or> f_type ff = FD_DEVICE")
  case True
  then obtain s1 s2 where 1: "begin_op s = Inr s1" "iput pid (f_ip ff) s1 = Inr s2" "end_op pid s2 = Inr s'"
    using c by (auto simp: close_last_def)
  have l: "length (itable s) = NINODE" using ok by (simp add: itable_ok_def)
  have t: "itable s1 = itable s" "itable s' = itable s2" "ftable s' = ftable s"
    using begin_op_frame [OF 1(1)] end_op_frame [OF 1(3)] iput_fs_more [OF 1(2)] filest_more(1) by auto
  then show ?thesis using iput_itable_ok [of s1 "f_ip ff"] iput_refs [OF 1(2)] 1(2) ok ip l True by auto
next
  case False
  then show ?thesis using c ok by (auto simp: close_last_def Let_def split: if_splits prod.splits)
qed

text \<open>C15: the file table counts its users and owns inode references. \<open>filealloc\<close> hands out a free entry, or null
  when there is none; \<open>filedup\<close> and \<open>fileclose\<close> count; the last close frees the entry and, for a file on an
  inode, drops exactly the one inode reference the entry owned, while every other close touches no inode. So an
  inode that an open file uses keeps a reference and stays in the inode table. Both panic on a free entry.\<close>

theorem file_table_counts:
  fixes s :: "'a filest_scheme"
  assumes inv: "file_inv s" and f: "f < NFILE"
  shows "(case filealloc s of
        (None, s') \<Rightarrow> s' = s \<and> (\<forall>g < NFILE. 0 < f_ref (ftable s ! g))
      | (Some g, s') \<Rightarrow> file_inv s' \<and> g < NFILE \<and> f_ref (ftable s ! g) = 0 \<and> ftable s' = (ftable s)[g := (ftable s ! g)\<lparr>f_ref := 1\<rparr>])
    \<and> (\<forall>s'. filedup f s = Inr s' \<longrightarrow> file_inv s' \<and> 0 < f_ref (ftable s ! f)
         \<and> ftable s' = (ftable s)[f := (ftable s ! f)\<lparr>f_ref := f_ref (ftable s ! f) + 1\<rparr>])
    \<and> (\<forall>s'. fileclose kend pid f s = Inr s' \<longrightarrow> file_inv s' \<and> 0 < f_ref (ftable s ! f)
         \<and> ftable s' = (ftable s)[f := if f_ref (ftable s ! f) = 1 then (ftable s ! f)\<lparr>f_ref := 0, f_type := FD_NONE\<rparr>
                                        else (ftable s ! f)\<lparr>f_ref := f_ref (ftable s ! f) - 1\<rparr>]
         \<and> (\<forall>ip < NINODE. i_ref (itable s' ! ip) = i_ref (itable s ! ip) - of_bool (f_ref (ftable s ! f) = 1 \<and> uses_inode ip (ftable s ! f))))"
proof (intro conjI allI impI)
  note ok = inv [unfolded file_inv_def]
  have l: "length (ftable s) = NFILE" using ok by blast
  have mem: "\<And>g. g < NFILE \<Longrightarrow> ftable s ! g \<in> set (ftable s)" using l by simp
  show "case filealloc s of
        (None, s') \<Rightarrow> s' = s \<and> (\<forall>g < NFILE. 0 < f_ref (ftable s ! g))
      | (Some g, s') \<Rightarrow> file_inv s' \<and> g < NFILE \<and> f_ref (ftable s ! g) = 0 \<and> ftable s' = (ftable s)[g := (ftable s ! g)\<lparr>f_ref := 1\<rparr>]"
  proof (cases "find (\<lambda>g. f_ref (ftable s ! g) = 0) [0..<NFILE]")
    case None
    have "0 < f_ref (ftable s ! g)" if "g < NFILE" for g
    proof -
      have "f_ref (ftable s ! g) \<noteq> 0" using None that by (auto simp: find_None_iff)
      moreover have "0 \<le> f_ref (ftable s ! g)" using ok mem [OF that] by blast
      ultimately show ?thesis by simp
    qed
    then show ?thesis using None by (simp add: filealloc_def)
  next
    case (Some g)
    then have g: "g < NFILE" "f_ref (ftable s ! g) = 0" by (auto simp: find_range)
    then have ty: "f_type (ftable s ! g) = FD_NONE" using ok mem by blast
    have "file_inv (upd_file g (\<lambda>x. x\<lparr>f_ref := 1\<rparr>) s)"
      by (rule file_inv_upd [OF inv g(1), of "(ftable s ! g)\<lparr>f_ref := 1\<rparr>"]) (use ty g ok in \<open>auto simp: uses_inode_def\<close>)
    then show ?thesis using Some g by (simp add: filealloc_def)
  qed
next
  note ok = inv [unfolded file_inv_def]
  fix s' assume d: "filedup f s = Inr s'"
  then have r: "0 < f_ref (ftable s ! f)" and e: "s' = upd_file f (\<lambda>x. x\<lparr>f_ref := f_ref x + 1\<rparr>) s"
    by (auto simp: filedup_def split: if_splits)
  show "0 < f_ref (ftable s ! f)" by (rule r)
  show "ftable s' = (ftable s)[f := (ftable s ! f)\<lparr>f_ref := f_ref (ftable s ! f) + 1\<rparr>]" by (simp add: e)
  show "file_inv s'"
    by (rule file_inv_upd [OF inv f, of "(ftable s ! f)\<lparr>f_ref := f_ref (ftable s ! f) + 1\<rparr>"])
      (use r ok in \<open>auto simp: e uses_inode_def\<close>)
next
  note ok = inv [unfolded file_inv_def]
  fix s' assume c: "fileclose kend pid f s = Inr s'"
  let ?x = "ftable s ! f"
  have l: "length (ftable s) = NFILE" using ok by blast
  have r: "0 < f_ref ?x" using c by (auto simp: fileclose_def split: if_splits)
  let ?y = "if f_ref ?x = 1 then ?x\<lparr>f_ref := 0, f_type := FD_NONE\<rparr> else ?x\<lparr>f_ref := f_ref ?x - 1\<rparr>"
  have main: "ftable s' = (ftable s)[f := ?y] \<and> itable_ok (itable s')
     \<and> (\<forall>j < NINODE. i_ref (itable s' ! j) = i_ref (itable s ! j) - of_bool (f_ref ?x = 1 \<and> uses_inode j ?x))"
  proof (cases "f_ref ?x = 1")
    case False
    then have "s' = upd_file f (\<lambda>x. x\<lparr>f_ref := f_ref x - 1\<rparr>) s" using c r f l by (auto simp: fileclose_def Let_def split: if_splits)
    then show ?thesis using False ok by simp
  next
    case True
    let ?s1 = "upd_file f (\<lambda>x. x\<lparr>f_ref := f_ref x - 1\<rparr>) s"
    let ?s2 = "upd_file f (\<lambda>x. x\<lparr>f_ref := 0, f_type := FD_NONE\<rparr>) ?s1"
    have c2: "close_last kend pid (?x\<lparr>f_ref := f_ref ?x - 1\<rparr>) ?s2 = Inr s'"
      using c True f l by (simp add: fileclose_def Let_def)
    have own: "f_ip ?x < NINODE \<and> 0 < i_ref (itable s ! f_ip ?x)" if "f_type ?x = FD_INODE \<or> f_type ?x = FD_DEVICE"
    proof -
      have u: "uses_inode (f_ip ?x) ?x" using r that by (simp add: uses_inode_def)
      moreover have "?x \<in> set (ftable s)" using f l by simp
      ultimately have n: "f_ip ?x < NINODE" using ok by blast
      have "1 \<le> open_files (ftable s) (f_ip ?x)" by (rule open_files_pos) (use f l u in simp_all)
      then show ?thesis using n ok by fastforce
    qed
    have "ftable s' = ftable ?s2 \<and> itable_ok (itable s')
      \<and> (\<forall>j < NINODE. i_ref (itable s' ! j) = i_ref (itable ?s2 ! j) - of_bool ((f_type ?x = FD_INODE \<or> f_type ?x = FD_DEVICE) \<and> j = f_ip ?x))"
      using close_last_inv [OF c2] own ok by simp
    then show ?thesis using True f l by (auto simp: uses_inode_def)
  qed
  show "0 < f_ref ?x" by (rule r)
  show "ftable s' = (ftable s)[f := ?y]" using main by blast
  show "file_inv s'"
    by (rule file_inv_upd [OF inv f, of ?y]) (use main r in \<open>auto simp: uses_inode_def split: if_splits\<close>)
  fix ip assume "ip < NINODE"
  then show "i_ref (itable s' ! ip) = i_ref (itable s ! ip) - of_bool (f_ref ?x = 1 \<and> uses_inode ip ?x)" using main by blast
qed

definition no_file :: kfile where
  "no_file = \<lparr>f_type = FD_NONE, f_ref = 0, f_readable = False, f_writable = False, f_pipe = 0, f_ip = 0, f_off = 0, f_major = 0\<rparr>"

definition demo_files :: filest where
  "demo_files = fsst.extend (fsst.truncate demo_fs) \<lparr>ftable = no_file\<lparr>f_ref := 1, f_type := FD_INODE, f_readable := True\<rparr> # replicate 99 no_file,
     pipes = (\<lambda>_. \<lparr>p_data = [], nread = 0, nwrite = 0, readopen = False, writeopen = False\<rparr>)\<rparr>"

lemma demo_files_inv: "file_inv demo_files"
proof -
  have t: "itable demo_files = itable demo_fs" "ftable demo_files = no_file\<lparr>f_ref := 1, f_type := FD_INODE, f_readable := True\<rparr> # replicate 99 no_file"
    by (simp_all add: demo_files_def fsst.defs)
  have "open_files (ftable demo_files) ip = of_bool (ip = 0)" for ip
    by (simp add: t open_files_def uses_inode_def no_file_def sum_list_replicate)
  moreover have "0 \<le> i_ref (itable demo_fs ! ip)" "i_ref (itable demo_fs ! 0) = 1" if "ip < NINODE" for ip
    using that by (auto simp: demo_entry root_entry_def free_entry_def)
  ultimately show ?thesis
    using demo_table by (auto simp: file_inv_def t(1)) (auto simp: t NFILE_def NINODE_def uses_inode_def no_file_def)
qed

theorem file_table_counts_witness:
  "\<exists>s'. filedup 0 demo_files = Inr s' \<and> file_inv s' \<and> f_ref (ftable s' ! 0) = 2"
proof -
  have t: "ftable demo_files ! 0 = no_file\<lparr>f_ref := 1, f_type := FD_INODE, f_readable := True\<rparr>" "0 < length (ftable demo_files)"
    by (simp_all add: demo_files_def fsst.defs)
  then obtain s' where s': "filedup 0 demo_files = Inr s'" by (simp add: filedup_def)
  have z: "0 < NFILE" by (simp add: NFILE_def)
  have "filedup 0 demo_files = Inr s' \<longrightarrow> file_inv s' \<and> 0 < f_ref (ftable demo_files ! 0)
         \<and> ftable s' = (ftable demo_files)[0 := (ftable demo_files ! 0)\<lparr>f_ref := f_ref (ftable demo_files ! 0) + 1\<rparr>]"
    using file_table_counts [OF demo_files_inv z, of 0 1] by (elim conjE allE) assumption
  then show ?thesis using s' t by (intro exI [of _ s']) simp
qed

end
