(* ===== verification/Lifecycle.thy ===== *)
theory Lifecycle
  imports CowGroup
begin

text \<open>
  The life of a process as a protocol. The states of \<open>kernel/proc.h\<close> (Project 2), the steps \<open>kernel/proc.c\<close>
  takes on the fields of the process table that order them (state, channel, pid, parent, the harts and \<open>wait_lock\<close>),
  and the invariant of all their interleavings. \<open>Sched\<close> shows that the code refines this protocol.
\<close>

subsection \<open>States\<close>

definition NCPU :: nat where "NCPU = 8"

datatype procstate = UNUSED | USED | SLEEPING | RUNNABLE | RUNNING | ZOMBIE | PFAULT

text \<open>What a process sleeps on: the address of a process (in \<open>wait\<close>) or of something else.\<close>

datatype chan = ProcChan nat | AddrChan u64

text \<open>Where a process is in a system call that takes several critical sections.\<close>

datatype kphase =
    User                  \<comment> \<open>none of these\<close>
  | Forked nat            \<comment> \<open>in \<open>fork\<close>, the child copied\<close>
  | Linked nat            \<comment> \<open>in \<open>fork\<close>, the child's parent set\<close>
  | Exiting               \<comment> \<open>in \<open>exit\<close>, the files closed\<close>
  | Scanning              \<comment> \<open>in \<open>wait\<close>, holding \<open>wait_lock\<close>\<close>
  | Sleepy                \<comment> \<open>in \<open>wait\<close>, holding \<open>wait_lock\<close>, about to sleep\<close>
  | Asleep                \<comment> \<open>in the \<open>sleep\<close> of \<open>wait\<close>\<close>

subsection \<open>Process numbers\<close>

text \<open>The C \<open>int\<close> after \<open>n\<close>: \<open>nextpid + 1\<close>, which wraps around behind 2147483647.\<close>

definition pid_succ :: "int \<Rightarrow> int" where
  "pid_succ n = sint (word_of_int (n + 1) :: 32 word)"

lemma pid_succ_eq: "- 2147483648 \<le> n \<Longrightarrow> n < 2147483647 \<Longrightarrow> pid_succ n = n + 1"
  unfolding pid_succ_def sint_sbintrunc' by (rule signed_take_bit_int_eq_self) simp_all

lemma pid_succ_wraps [simp]: "pid_succ 2147483647 = - 2147483648"
  by (simp add: pid_succ_def)

lemma pid_succ_small [simp]: "pid_succ 1 = 2" "pid_succ 2 = 3" "pid_succ 3 = 4"
  by (simp_all add: pid_succ_eq)

lemma pid_succ_bound: "pid_succ n < 2147483648"
  unfolding pid_succ_def using sint_less [of "word_of_int (n + 1) :: 32 word"] by simp

text \<open>The number has not wrapped around when the next one is not smaller.\<close>

lemma pid_succ_grows: "0 < n \<Longrightarrow> n \<le> pid_succ n \<Longrightarrow> pid_succ n = n + 1"
  using pid_succ_bound [of n] pid_succ_eq [of n] by (cases "n = 2147483647") auto

subsection \<open>The protocol\<close>

record tview =
  t_st :: "nat \<Rightarrow> procstate"
  t_ch :: "nat \<Rightarrow> chan option"
  t_pid :: "nat \<Rightarrow> int"
  t_par :: "nat \<Rightarrow> nat option"
  t_next :: int
  t_init :: "nat option"
  t_lock :: "nat option"
  t_cpu :: "nat \<Rightarrow> nat option"
  t_ph :: "nat \<Rightarrow> kphase"

definition woken :: "tview \<Rightarrow> nat \<Rightarrow> nat \<Rightarrow> bool" where
  "woken t p q \<longleftrightarrow> t_st t q = SLEEPING
     \<and> (t_ch t q = map_option ProcChan (t_par t p) \<or> (\<exists>r < NPROC. t_par t r = Some p) \<and> t_ch t q = map_option ProcChan (t_init t))"

text \<open>\<open>runs t c p\<close>: hart \<open>c\<close> runs process \<open>p\<close>. A hart that holds \<open>wait_lock\<close> has interrupts off.\<close>

definition runs :: "tview \<Rightarrow> nat \<Rightarrow> nat \<Rightarrow> bool" where
  "runs t c p \<longleftrightarrow> t_cpu t c = Some p"

inductive tstep :: "tview \<Rightarrow> tview \<Rightarrow> bool" where
  dispatch: "t_cpu t c = None \<Longrightarrow> p < NPROC \<Longrightarrow> t_st t p = RUNNABLE \<Longrightarrow>
    tstep t (t\<lparr>t_st := (t_st t)(p := RUNNING), t_cpu := (t_cpu t)(c := Some p)\<rparr>)"
| preempt: "runs t c p \<Longrightarrow> t_lock t \<noteq> Some p \<Longrightarrow>
    tstep t (t\<lparr>t_st := (t_st t)(p := RUNNABLE), t_cpu := (t_cpu t)(c := None)\<rparr>)"
| block: "runs t c p \<Longrightarrow> t_lock t \<noteq> Some p \<Longrightarrow>
    tstep t (t\<lparr>t_st := (t_st t)(p := SLEEPING), t_ch := (t_ch t)(p := Some (AddrChan a)), t_cpu := (t_cpu t)(c := None)\<rparr>)"
| tidy: "runs t c p \<Longrightarrow> tstep t (t\<lparr>t_ch := (t_ch t)(p := None)\<rparr>)"
| wake: "W \<subseteq> {q. t_st t q = SLEEPING} \<Longrightarrow> tstep t (t\<lparr>t_st := (\<lambda>q. if q \<in> W then RUNNABLE else t_st t q)\<rparr>)"
| forks: "runs t c p \<Longrightarrow> t_ph t p = User \<Longrightarrow> np < NPROC \<Longrightarrow> t_st t np = UNUSED \<Longrightarrow>
    tstep t (t\<lparr>t_st := (t_st t)(np := USED), t_pid := (t_pid t)(np := t_next t), t_next := pid_succ (t_next t),
               t_ph := (t_ph t)(p := Forked np)\<rparr>)"
| forks_not: "np < NPROC \<Longrightarrow> t_st t np = UNUSED \<Longrightarrow>
    tstep t (t\<lparr>t_next := pid_succ (t_next t), t_ch := (t_ch t)(np := None)\<rparr>)"
| links: "runs t c p \<Longrightarrow> t_ph t p = Forked np \<Longrightarrow> t_lock t = None \<Longrightarrow>
    tstep t (t\<lparr>t_par := (t_par t)(np := Some p), t_ph := (t_ph t)(p := Linked np)\<rparr>)"
| starts: "runs t c p \<Longrightarrow> t_ph t p = Linked np \<Longrightarrow>
    tstep t (t\<lparr>t_st := (t_st t)(np := RUNNABLE), t_ph := (t_ph t)(p := User)\<rparr>)"
| exits: "runs t c p \<Longrightarrow> t_ph t p = User \<Longrightarrow> t_init t \<noteq> Some p \<Longrightarrow> tstep t (t\<lparr>t_ph := (t_ph t)(p := Exiting)\<rparr>)"
| dies: "runs t c p \<Longrightarrow> t_ph t p = Exiting \<Longrightarrow> t_lock t = None \<Longrightarrow>
    tstep t (t\<lparr>t_par := (\<lambda>q. if t_par t q = Some p then t_init t else t_par t q),
               t_st := (\<lambda>q. if q = p then ZOMBIE else if woken t p q then RUNNABLE else t_st t q),
               t_cpu := (t_cpu t)(c := None), t_ph := (t_ph t)(p := User)\<rparr>)"
| waits: "runs t c p \<Longrightarrow> t_ph t p = User \<or> t_ph t p = Asleep \<Longrightarrow> t_lock t = None \<Longrightarrow>
    tstep t (t\<lparr>t_lock := Some p, t_ph := (t_ph t)(p := Scanning)\<rparr>)"
| reaps: "runs t c p \<Longrightarrow> t_ph t p = Scanning \<Longrightarrow> q < NPROC \<Longrightarrow> t_par t q = Some p \<Longrightarrow> t_st t q = ZOMBIE \<Longrightarrow>
    tstep t (t\<lparr>t_st := (t_st t)(q := UNUSED), t_pid := (t_pid t)(q := 0), t_par := (t_par t)(q := None),
               t_ch := (t_ch t)(q := None), t_lock := None, t_ph := (t_ph t)(p := User)\<rparr>)"
| gives_up: "runs t c p \<Longrightarrow> t_ph t p = Scanning \<Longrightarrow> tstep t (t\<lparr>t_lock := None, t_ph := (t_ph t)(p := User)\<rparr>)"
| commits: "runs t c p \<Longrightarrow> t_ph t p = Scanning \<Longrightarrow> r < NPROC \<Longrightarrow> t_par t r = Some p \<Longrightarrow>
    \<forall>q < NPROC. t_par t q = Some p \<longrightarrow> t_st t q \<noteq> ZOMBIE \<Longrightarrow> tstep t (t\<lparr>t_ph := (t_ph t)(p := Sleepy)\<rparr>)"
| sleeps: "runs t c p \<Longrightarrow> t_ph t p = Sleepy \<Longrightarrow>
    tstep t (t\<lparr>t_st := (t_st t)(p := SLEEPING), t_ch := (t_ch t)(p := Some (ProcChan p)), t_lock := None,
               t_cpu := (t_cpu t)(c := None), t_ph := (t_ph t)(p := Asleep)\<rparr>)"

subsection \<open>Its invariant\<close>

definition live :: "tview \<Rightarrow> nat \<Rightarrow> bool" where
  "live t p \<longleftrightarrow> p < NPROC \<and> t_st t p \<in> {SLEEPING, RUNNABLE, RUNNING}"

definition forking :: "tview \<Rightarrow> nat \<Rightarrow> nat \<Rightarrow> bool" where
  "forking t p np \<longleftrightarrow> t_ph t p = Forked np \<or> t_ph t p = Linked np"

text \<open>\<open>p\<close> is about to sleep, or asleep, in \<open>wait\<close>.\<close>

definition dozing :: "tview \<Rightarrow> nat \<Rightarrow> bool" where
  "dozing t p \<longleftrightarrow> t_ph t p = Sleepy \<or> t_st t p = SLEEPING \<and> t_ch t p = Some (ProcChan p)"

definition cpu_ok :: "tview \<Rightarrow> bool" where
  "cpu_ok t \<longleftrightarrow> (\<forall>p. t_st t p = RUNNING \<longleftrightarrow> (\<exists>c. runs t c p)) \<and> (\<forall>c c' p. runs t c p \<longrightarrow> runs t c' p \<longrightarrow> c = c')
     \<and> (\<forall>c p. runs t c p \<longrightarrow> p < NPROC)"

definition pid_ok :: "tview \<Rightarrow> bool" where
  "pid_ok t \<longleftrightarrow> (\<forall>p < NPROC. t_st t p = UNUSED \<longrightarrow> t_pid t p = 0)"

definition family_ok :: "tview \<Rightarrow> bool" where
  "family_ok t \<longleftrightarrow> (\<exists>i. t_init t = Some i \<and> live t i \<and> t_par t i = None \<and> t_ph t i \<noteq> Exiting)
     \<and> (\<forall>p < NPROC. \<forall>q. t_par t p = Some q \<longrightarrow> live t q \<and> q \<noteq> p)
     \<and> (\<forall>p < NPROC. t_par t p = None \<longrightarrow> t_init t = Some p \<or> t_st t p \<in> {UNUSED, USED})
     \<and> (\<forall>p < NPROC. t_st t p = UNUSED \<longrightarrow> t_par t p = None) \<and> (\<forall>p < NPROC. t_st t p \<noteq> PFAULT)"

definition phase_ok :: "tview \<Rightarrow> bool" where
  "phase_ok t \<longleftrightarrow> (\<forall>p. t_ph t p \<noteq> User \<longrightarrow> live t p)
     \<and> (\<forall>p np. forking t p np \<longrightarrow> np < NPROC \<and> t_st t np = USED)
     \<and> (\<forall>np < NPROC. t_st t np = USED \<longrightarrow> (\<exists>p. forking t p np))
     \<and> (\<forall>p p' np. forking t p np \<longrightarrow> forking t p' np \<longrightarrow> p = p')
     \<and> (\<forall>p np. t_ph t p = Forked np \<longrightarrow> t_par t np = None) \<and> (\<forall>p np. t_ph t p = Linked np \<longrightarrow> t_par t np = Some p)"

definition wait_ok :: "tview \<Rightarrow> bool" where
  "wait_ok t \<longleftrightarrow> (\<forall>p. t_lock t = Some p \<longleftrightarrow> t_ph t p = Scanning \<or> t_ph t p = Sleepy)
     \<and> (\<forall>p. t_lock t = Some p \<longrightarrow> t_st t p = RUNNING)
     \<and> (\<forall>p q. t_st t p = SLEEPING \<and> t_ch t p = Some (ProcChan q) \<longrightarrow> q = p \<and> t_ph t p = Asleep)
     \<and> (\<forall>p. dozing t p \<longrightarrow> (\<exists>q < NPROC. t_par t q = Some p) \<and> (\<forall>q < NPROC. t_par t q = Some p \<longrightarrow> t_st t q \<noteq> ZOMBIE))"

definition tinv :: "tview \<Rightarrow> bool" where
  "tinv t \<longleftrightarrow> cpu_ok t \<and> pid_ok t \<and> family_ok t \<and> phase_ok t \<and> wait_ok t"

text \<open>Process numbers are positive, distinct and all given out already: so as long as \<open>t_next\<close> has not wrapped around.\<close>

definition pid_fresh :: "tview \<Rightarrow> bool" where
  "pid_fresh t \<longleftrightarrow> 0 < t_next t \<and> (\<forall>p < NPROC. t_st t p \<noteq> UNUSED \<longrightarrow> 0 < t_pid t p \<and> t_pid t p < t_next t)
     \<and> (\<forall>p < NPROC. \<forall>q < NPROC. t_st t p \<noteq> UNUSED \<longrightarrow> t_pid t p = t_pid t q \<longrightarrow> p = q)"

lemma cpu_same:
  "cpu_ok t \<Longrightarrow> t_cpu t' = t_cpu t \<Longrightarrow> (\<And>q. t_st t' q = RUNNING \<longleftrightarrow> t_st t q = RUNNING) \<Longrightarrow> cpu_ok t'"
  by (simp add: cpu_ok_def runs_def)

lemma cpu_leaves:
  assumes "cpu_ok t" "runs t c p" "t_cpu t' = (t_cpu t)(c := None)" "\<And>q. t_st t' q = RUNNING \<longleftrightarrow> q \<noteq> p \<and> t_st t q = RUNNING"
  shows "cpu_ok t'"
proof -
  have "runs t' d q \<longleftrightarrow> d \<noteq> c \<and> runs t d q" for d q using assms(3) by (auto simp: runs_def)
  moreover have "d \<noteq> c \<and> runs t d q \<longleftrightarrow> q \<noteq> p \<and> runs t d q" for d q
    using assms(1,2) by (auto simp: cpu_ok_def runs_def)
  ultimately show ?thesis using assms(1,4) unfolding cpu_ok_def by metis
qed

lemma cpu_enters:
  assumes "cpu_ok t" "t_cpu t c = None" "p < NPROC" "t_st t p \<noteq> RUNNING" "t_cpu t' = (t_cpu t)(c := Some p)"
    "\<And>q. t_st t' q = RUNNING \<longleftrightarrow> q = p \<or> t_st t q = RUNNING"
  shows "cpu_ok t'"
proof -
  have "runs t' d q \<longleftrightarrow> d = c \<and> q = p \<or> runs t d q" for d q using assms(2,5) by (auto simp: runs_def)
  moreover have "\<not> runs t d p" for d using assms(1,4) by (auto simp: cpu_ok_def)
  moreover have "\<not> runs t c q" for q using assms(2) by (simp add: runs_def)
  ultimately show ?thesis using assms(1,3,6) unfolding cpu_ok_def by metis
qed

lemma tstep_cpu_ok:
  assumes "tstep t t'" "tinv t"
  shows "cpu_ok t'"
proof -
  have ok: "cpu_ok t" and r: "\<And>c p. runs t c p \<Longrightarrow> t_st t p = RUNNING" and f: "\<And>p np. t_ph t p = Linked np \<Longrightarrow> t_st t np = USED"
    using assms(2) unfolding tinv_def cpu_ok_def phase_ok_def forking_def by blast+
  show ?thesis
    using assms(1)
  proof cases
    case (dispatch c p)
    show ?thesis by (rule cpu_enters [OF ok dispatch(2,3)]) (use dispatch in auto)
  next
    case (preempt c p)
    show ?thesis by (rule cpu_leaves [OF ok preempt(2)]) (use preempt in auto)
  next
    case (block c p a)
    show ?thesis by (rule cpu_leaves [OF ok block(2)]) (use block in auto)
  next
    case (dies c p)
    show ?thesis by (rule cpu_leaves [OF ok dies(2)]) (use dies in \<open>auto simp: woken_def\<close>)
  next
    case (sleeps c p)
    show ?thesis by (rule cpu_leaves [OF ok sleeps(2)]) (use sleeps in auto)
  next
    case (starts c p np)
    show ?thesis by (rule cpu_same [OF ok]) (use starts f in auto)
  qed (rule cpu_same [OF ok]; auto)+
qed

lemma tstep_pid_ok:
  assumes "tstep t t'" "tinv t"
  shows "pid_ok t'"
proof -
  have ok: "pid_ok t" and r: "\<And>c p. runs t c p \<Longrightarrow> t_st t p = RUNNING" and f: "\<And>p np. t_ph t p = Linked np \<Longrightarrow> t_st t np = USED"
    using assms(2) unfolding tinv_def cpu_ok_def phase_ok_def forking_def by blast+
  have same: "pid_ok t''" if "t_pid t'' = t_pid t" "t_next t'' = t_next t" "\<And>q. t_st t'' q = UNUSED \<longleftrightarrow> t_st t q = UNUSED" for t''
    using ok that by (simp add: pid_ok_def)
  show ?thesis
    using assms(1)
  proof cases
    case (forks c p np)
    then show ?thesis using ok unfolding pid_ok_def by (auto split: if_splits)
  next
    case (forks_not np)
    then show ?thesis using ok unfolding pid_ok_def by (auto split: if_splits)
  next
    case (reaps c p q)
    then show ?thesis using ok unfolding pid_ok_def by (auto split: if_splits)
  qed (rule same; use r f in \<open>auto simp: woken_def\<close>)+
qed

lemma tstep_pid_fresh:
  assumes "tstep t t'" "tinv t" "pid_fresh t" "t_next t \<le> t_next t'"
  shows "pid_fresh t'"
proof -
  have ok: "pid_ok t" and r: "\<And>c p. runs t c p \<Longrightarrow> t_st t p = RUNNING" and f: "\<And>p np. t_ph t p = Linked np \<Longrightarrow> t_st t np = USED"
    using assms(2) unfolding tinv_def cpu_ok_def phase_ok_def forking_def by blast+
  have same: "pid_fresh t''" if "t_pid t'' = t_pid t" "t_next t'' = t_next t" "\<And>q. t_st t'' q = UNUSED \<longleftrightarrow> t_st t q = UNUSED" for t''
    using assms(3) that by (simp add: pid_fresh_def)
  have n: "pid_succ (t_next t) = t_next t + 1" if "t_next t' = pid_succ (t_next t)"
    using assms(3,4) that pid_succ_grows by (simp add: pid_fresh_def)
  show ?thesis
    using assms(1)
  proof cases
    case (forks c p np)
    then show ?thesis using ok assms(3) n unfolding pid_ok_def pid_fresh_def by (auto split: if_splits)
  next
    case (forks_not np)
    then show ?thesis using ok assms(3) n unfolding pid_ok_def pid_fresh_def by (auto split: if_splits)
  next
    case (reaps c p q)
    then show ?thesis using ok assms(3) unfolding pid_ok_def pid_fresh_def by (auto split: if_splits)
  qed (rule same; use r f in \<open>auto simp: woken_def\<close>)+
qed

lemma phase_keeps:
  assumes "phase_ok t" "\<And>q np. t_ph t' q = Forked np \<longleftrightarrow> t_ph t q = Forked np" "\<And>q np. t_ph t' q = Linked np \<longleftrightarrow> t_ph t q = Linked np"
    and l: "\<And>q. t_ph t' q \<noteq> User \<Longrightarrow> t_ph t q \<noteq> User \<or> live t' q" "\<And>q. live t q \<Longrightarrow> t_ph t' q \<noteq> User \<Longrightarrow> live t' q"
    and "\<And>q. t_st t' q = USED \<longleftrightarrow> t_st t q = USED"
    and "\<And>p q. forking t p q \<Longrightarrow> t_par t' q = t_par t q"
  shows "phase_ok t'"
proof -
  have f: "forking t' p np = forking t p np" for p np using assms(2,3) by (simp add: forking_def)
  have "\<And>p np. t_ph t p = Forked np \<Longrightarrow> t_par t' np = t_par t np" "\<And>p np. t_ph t p = Linked np \<Longrightarrow> t_par t' np = t_par t np"
    using assms(7) unfolding forking_def by blast+
  moreover have "live t' q" if "t_ph t' q \<noteq> User" for q using l that assms(1) unfolding phase_ok_def by blast
  ultimately show ?thesis
    using assms(1) unfolding phase_ok_def f assms(2,3,6) by simp
qed

lemma tstep_phase_ok:
  assumes "tstep t t'" "tinv t"
  shows "phase_ok t'"
proof -
  have ok: "phase_ok t" and r: "\<And>c p. runs t c p \<Longrightarrow> t_st t p = RUNNING \<and> p < NPROC"
    using assms(2) unfolding tinv_def cpu_ok_def by blast+
  have fam: "\<And>p. p < NPROC \<Longrightarrow> t_st t p = UNUSED \<Longrightarrow> t_par t p = None"
    using assms(2) unfolding tinv_def family_ok_def by blast
  have ph: "\<And>q. t_ph t q \<noteq> User \<Longrightarrow> live t q" "\<And>q np. forking t q np \<Longrightarrow> np < NPROC \<and> t_st t np = USED"
    "\<And>q np. t_ph t q = Forked np \<Longrightarrow> t_par t np = None" "\<And>q np. t_ph t q = Linked np \<Longrightarrow> t_par t np = Some q"
    "\<And>np. np < NPROC \<Longrightarrow> t_st t np = USED \<Longrightarrow> \<exists>q. forking t q np"
    "\<And>q np q'. forking t q np \<Longrightarrow> forking t q' np \<Longrightarrow> q = q'"
    using ok unfolding phase_ok_def by blast+
  show ?thesis
    using assms(1)
  proof cases
    case (forks c p np)
    then have f: "forking t' q m \<longleftrightarrow> (if q = p then m = np else forking t q m)" for q m by (auto simp: forking_def)
    have "\<not> forking t q np" "\<not> forking t p m" for q m using forks ph(2) [of q np] by (auto simp: forking_def)
    note nf = this
    have st: "t_st t' m = (if m = np then USED else t_st t m)" "t_par t' m = t_par t m" for m using forks by auto
    show ?thesis
      unfolding phase_ok_def
    proof (intro conjI allI impI)
      fix q assume "t_ph t' q \<noteq> User"
      then show "live t' q" using forks ph(1) [of q] r [of c p] by (cases "q = p") (auto simp: live_def)
    next
      fix q m assume "forking t' q m"
      then show "m < NPROC" "t_st t' m = USED" using forks(4) ph(2) [of q m] unfolding f st by (auto split: if_splits)
    next
      fix m assume m: "m < NPROC" "t_st t' m = USED"
      show "\<exists>q. forking t' q m"
      proof (cases "m = np")
        case False
        then obtain q where "forking t q m" using m st(1) ph(5) [of m] by auto
        then show ?thesis using nf(2) f by metis
      next
        case True
        then show ?thesis using f [of p np] by auto
      qed
    next
      fix q q' m assume "forking t' q m" "forking t' q' m"
      then show "q = q'" using nf(1) [of q] nf(1) [of q'] ph(6) [of q m q'] by (auto simp: f split: if_splits)
    next
      fix q m assume "t_ph t' q = Forked m"
      then show "t_par t' m = None" using forks fam ph(3) [of q m] by (auto split: if_splits)
    next
      fix q m assume "t_ph t' q = Linked m"
      then show "t_par t' m = Some q" using forks ph(4) [of q m] by (auto split: if_splits)
    qed
  next
    case (links c p np)
    have p: "forking t p np" using links by (simp add: forking_def)
    have f: "forking t' q m \<longleftrightarrow> forking t q m" for q m using links by (auto simp: forking_def)
    have u: "q = p \<longleftrightarrow> m = np" if "forking t q m" for q m using that p ph(6) [of p np q] links by (auto simp: forking_def)
    have l: "live t' q = live t q" for q using links by (simp add: live_def)
    show ?thesis
      unfolding phase_ok_def f l
    proof (intro conjI allI impI)
      fix q assume "t_ph t' q \<noteq> User"
      then show "live t q" using links ph(1) [of q] ph(1) [of p] by (cases "q = p") auto
    next
      fix q m assume a: "forking t q m"
      show "m < NPROC" "t_st t' m = USED" using a links ph(2) [of q m] by auto
    next
      fix m assume "m < NPROC" "t_st t' m = USED"
      then show "\<exists>q. forking t q m" using links ph(5) [of m] by auto
    next
      fix q q' m assume "forking t q m" "forking t q' m"
      then show "q = q'" by (rule ph(6))
    next
      fix q m assume "t_ph t' q = Forked m"
      then show "t_par t' m = None" using links ph(3) [of q m] u [of q m] by (auto simp: forking_def split: if_splits)
    next
      fix q m assume "t_ph t' q = Linked m"
      then show "t_par t' m = Some q" using links ph(4) [of q m] u [of q m] by (auto simp: forking_def split: if_splits)
    qed
  next
    case (starts c p np)
    have p: "forking t p np" using starts by (simp add: forking_def)
    have f: "forking t' q m \<longleftrightarrow> q \<noteq> p \<and> forking t q m" for q m using starts by (auto simp: forking_def)
    have st: "t_st t' m = (if m = np then RUNNABLE else t_st t m)" "t_par t' m = t_par t m" for m using starts by auto
    show ?thesis
      unfolding phase_ok_def
    proof (intro conjI allI impI)
      fix q assume "t_ph t' q \<noteq> User"
      then have "live t q" "q \<noteq> p" using starts ph(1) [of q] by (auto split: if_splits)
      then show "live t' q" by (auto simp: live_def st)
    next
      fix q m assume "forking t' q m"
      then show "m < NPROC" "t_st t' m = USED" using p ph(2) [of q m] ph(6) [of p np q] unfolding f st by auto
    next
      fix m assume m: "m < NPROC" "t_st t' m = USED"
      then obtain q where "forking t q m" "m \<noteq> np" using st(1) ph(5) [of m] by (auto split: if_splits)
      then have "q \<noteq> p" using starts by (auto simp: forking_def)
      then show "\<exists>q. forking t' q m" using f \<open>forking t q m\<close> by blast
    next
      fix q q' m assume "forking t' q m" "forking t' q' m"
      then show "q = q'" using ph(6) [of q m q'] by (simp add: f)
    next
      fix q m assume "t_ph t' q = Forked m"
      then show "t_par t' m = None" using starts ph(3) [of q m] by (auto split: if_splits)
    next
      fix q m assume "t_ph t' q = Linked m"
      then show "t_par t' m = Some q" using starts ph(4) [of q m] by (auto split: if_splits)
    qed
  next
    case (dies c p)
    have "t_par t np \<noteq> Some p" if "forking t q np" for q np
      using that dies(3) ph(3,4) by (auto simp: forking_def)
    then show ?thesis
      by (intro phase_keeps [OF ok]) (use dies r [of c p] in \<open>auto simp: live_def woken_def split: if_splits\<close>)
  next
    case (dispatch c p)
    show ?thesis by (rule phase_keeps [OF ok]) (use dispatch r [of c p] in \<open>auto simp: live_def split: if_splits\<close>)
  next
    case (preempt c p)
    show ?thesis by (rule phase_keeps [OF ok]) (use preempt r [of c p] in \<open>auto simp: live_def split: if_splits\<close>)
  next
    case (block c p a)
    show ?thesis by (rule phase_keeps [OF ok]) (use block r [of c p] in \<open>auto simp: live_def split: if_splits\<close>)
  next
    case (tidy c p)
    show ?thesis by (rule phase_keeps [OF ok]) (use tidy r [of c p] in \<open>auto simp: live_def split: if_splits\<close>)
  next
    case (wake W)
    show ?thesis by (rule phase_keeps [OF ok]) (use wake in \<open>auto simp: live_def split: if_splits\<close>)
  next
    case (forks_not np)
    show ?thesis by (rule phase_keeps [OF ok]) (use forks_not in \<open>auto simp: live_def split: if_splits\<close>)
  next
    case (exits c p)
    show ?thesis by (rule phase_keeps [OF ok]) (use exits r [of c p] in \<open>auto simp: live_def split: if_splits\<close>)
  next
    case (waits c p)
    show ?thesis by (rule phase_keeps [OF ok]) (use waits r [of c p] in \<open>auto simp: live_def split: if_splits\<close>)
  next
    case (reaps c p q)
    show ?thesis by (rule phase_keeps [OF ok]) (use reaps r [of c p] ph(2) [of _ q] in \<open>auto simp: live_def split: if_splits\<close>)
  next
    case (gives_up c p)
    show ?thesis by (rule phase_keeps [OF ok]) (use gives_up r [of c p] in \<open>auto simp: live_def split: if_splits\<close>)
  next
    case (commits c p r)
    show ?thesis by (rule phase_keeps [OF ok]) (use commits r [of c p] in \<open>auto simp: live_def split: if_splits\<close>)
  next
    case (sleeps c p)
    show ?thesis by (rule phase_keeps [OF ok]) (use sleeps r [of c p] in \<open>auto simp: live_def split: if_splits\<close>)
  qed
qed

lemma tstep_family_ok:
  assumes "tstep t t'" "tinv t"
  shows "family_ok t'"
proof -
  have ok: "family_ok t" and r: "\<And>c p. runs t c p \<Longrightarrow> t_st t p = RUNNING \<and> p < NPROC"
    using assms(2) unfolding tinv_def cpu_ok_def by blast+
  have ph: "\<And>q. t_ph t q \<noteq> User \<Longrightarrow> live t q" "\<And>q np. forking t q np \<Longrightarrow> t_st t np = USED \<and> np < NPROC"
    "\<And>q np. t_ph t q = Forked np \<Longrightarrow> t_par t np = None" "\<And>q np. t_ph t q = Linked np \<Longrightarrow> t_par t np = Some q"
    using assms(2) unfolding tinv_def phase_ok_def by blast+
  obtain i where i: "t_init t = Some i" "live t i" "t_par t i = None" "t_ph t i \<noteq> Exiting" using ok unfolding family_ok_def by blast
  have fm: "\<And>q u. q < NPROC \<Longrightarrow> t_par t q = Some u \<Longrightarrow> live t u \<and> u \<noteq> q"
    "\<And>q. q < NPROC \<Longrightarrow> t_par t q = None \<Longrightarrow> t_init t = Some q \<or> t_st t q \<in> {UNUSED, USED}"
    "\<And>q. q < NPROC \<Longrightarrow> t_st t q = UNUSED \<Longrightarrow> t_par t q = None" "\<And>q. q < NPROC \<Longrightarrow> t_st t q \<noteq> PFAULT"
    using ok unfolding family_ok_def by blast+
  have same: "family_ok t''" if "t_init t'' = t_init t" "t_par t'' = t_par t" "\<And>q. live t q \<Longrightarrow> live t'' q"
    "\<And>q. q < NPROC \<Longrightarrow> t_st t'' q = UNUSED \<Longrightarrow> t_st t q = UNUSED" "\<And>q. q < NPROC \<Longrightarrow> t_st t q = UNUSED \<Longrightarrow> t_st t'' q \<in> {UNUSED, USED}" "\<And>q. q < NPROC \<Longrightarrow> t_st t q = USED \<Longrightarrow> t_st t'' q = USED \<or> t_par t q \<noteq> None"
    "\<And>q. t_st t'' q = PFAULT \<Longrightarrow> t_st t q = PFAULT" "\<And>q. t_ph t'' q = Exiting \<Longrightarrow> t_ph t q = Exiting \<or> t_init t \<noteq> Some q" for t''
    unfolding family_ok_def that(1,2)
  proof (intro conjI allI impI)
    show "\<exists>i. t_init t = Some i \<and> live t'' i \<and> t_par t i = None \<and> t_ph t'' i \<noteq> Exiting" using that(3,8) i by metis
  next
    fix q u assume "q < NPROC" "t_par t q = Some u"
    then show "live t'' u" "u \<noteq> q" using fm(1) that(3) by auto
  next
    fix q assume "q < NPROC" "t_par t q = None"
    then show "t_init t = Some q \<or> t_st t'' q \<in> {UNUSED, USED}" using fm(2) [of q] that(5) [of q] that(6) [of q] by auto
  next
    fix q assume "q < NPROC" "t_st t'' q = UNUSED"
    then show "t_par t q = None" using fm(3) that(4) by auto
  next
    fix q assume "q < NPROC"
    then show "t_st t'' q \<noteq> PFAULT" using fm(4) that(7) by auto
  qed
  show ?thesis
    using assms(1)
  proof cases
    case (forks c p np)
    show ?thesis by (rule same) (use forks r [of c p] in \<open>auto simp: live_def split: if_splits\<close>)
  next
    case (links c p np)
    have np: "t_st t np = USED" "np < NPROC" using links ph(2) [of p np] by (auto simp: forking_def)
    then have "np \<noteq> p" using r [of c p] links(2) by auto
    moreover have "t_init t \<noteq> Some np" using i np(1) by (auto simp: live_def)
    moreover note np
    ultimately have np: "t_st t np = USED" "np < NPROC" "np \<noteq> p" "t_init t \<noteq> Some np" by auto
    have l: "live t' q = live t q" for q using links by (simp add: live_def)
    have p: "live t p" using links ph(1) [of p] by simp
    show ?thesis
      unfolding family_ok_def l
    proof (intro conjI allI impI)
      show "\<exists>i. t_init t' = Some i \<and> live t i \<and> t_par t' i = None \<and> t_ph t' i \<noteq> Exiting" using links np(4) i by auto
    next
      fix q u assume "q < NPROC" "t_par t' q = Some u"
      then show "live t u" "u \<noteq> q" using fm(1) [of q u] links np(3) p by (auto split: if_splits)
    next
      fix q assume "q < NPROC" "t_par t' q = None"
      then show "t_init t' = Some q \<or> t_st t' q \<in> {UNUSED, USED}" using fm(2) [of q] links by (auto split: if_splits)
    next
      fix q assume "q < NPROC" "t_st t' q = UNUSED"
      then show "t_par t' q = None" using fm(3) [of q] links np(1) by auto
    next
      fix q assume "q < NPROC"
      then show "t_st t' q \<noteq> PFAULT" using fm(4) [of q] links by auto
    qed
  next
    case (starts c p np)
    then show ?thesis using ph(2) [of p np] ph(4) [of p np] by (intro same) (auto simp: live_def forking_def split: if_splits)
  next
    case (dies c p)
    have ip: "i \<noteq> p" using i dies by auto
    have l: "live t' q" if "live t q" "q \<noteq> p" for q using that dies by (auto simp: live_def woken_def)
    have p: "t_st t p = RUNNING" "p < NPROC" using dies r by auto
    have st: "t_st t' q \<in> {t_st t q, RUNNABLE, ZOMBIE}" "t_st t' q = UNUSED \<longleftrightarrow> t_st t q = UNUSED" "t_st t' q = USED \<longleftrightarrow> t_st t q = USED" for q
      using dies p by (auto simp: woken_def)
    show ?thesis
      unfolding family_ok_def
    proof (intro conjI allI impI)
      show "\<exists>i. t_init t' = Some i \<and> live t' i \<and> t_par t' i = None \<and> t_ph t' i \<noteq> Exiting" using dies i ip l [of i] by auto
    next
      fix q u assume q: "q < NPROC" "t_par t' q = Some u"
      then have "u = i \<and> t_par t q = Some p \<or> u \<noteq> p \<and> t_par t q = Some u" using dies i by (auto split: if_splits)
      then show "live t' u" "u \<noteq> q" using fm(1) [of q] l i ip q(1) by auto
    next
      fix q assume "q < NPROC" "t_par t' q = None"
      then show "t_init t' = Some q \<or> t_st t' q \<in> {UNUSED, USED}" using fm(2) [of q] st [of q] dies i by (auto split: if_splits)
    next
      fix q assume "q < NPROC" "t_st t' q = UNUSED"
      then show "t_par t' q = None" using fm(3) [of q] st [of q] dies by auto
    next
      fix q assume "q < NPROC"
      then show "t_st t' q \<noteq> PFAULT" using fm(4) [of q] st(1) [of q] by auto
    qed
  next
    case (reaps c p q)
    have l: "live t' u" if "live t u" for u using that reaps by (auto simp: live_def)
    have st: "t_st t' u = (if u = q then UNUSED else t_st t u)" "t_par t' u = (if u = q then None else t_par t u)" for u using reaps by auto
    show ?thesis
      unfolding family_ok_def
    proof (intro conjI allI impI)
      show "\<exists>i. t_init t' = Some i \<and> live t' i \<and> t_par t' i = None \<and> t_ph t' i \<noteq> Exiting" using reaps i l [of i] by auto
    next
      fix q' u assume "q' < NPROC" "t_par t' q' = Some u"
      then show "live t' u" "u \<noteq> q'" using fm(1) [of q' u] l unfolding st by (auto split: if_splits)
    next
      fix u assume "u < NPROC" "t_par t' u = None"
      then show "t_init t' = Some u \<or> t_st t' u \<in> {UNUSED, USED}" using fm(2) [of u] reaps(1) unfolding st by (auto split: if_splits)
    next
      fix u assume "u < NPROC" "t_st t' u = UNUSED"
      then show "t_par t' u = None" using fm(3) [of u] unfolding st by (auto split: if_splits)
    next
      fix u assume "u < NPROC"
      then show "t_st t' u \<noteq> PFAULT" using fm(4) [of u] unfolding st by auto
    qed
  next
    case (dispatch c p)
    show ?thesis by (rule same) (use dispatch r [of c p] in \<open>auto simp: live_def split: if_splits\<close>)
  next
    case (preempt c p)
    show ?thesis by (rule same) (use preempt r [of c p] in \<open>auto simp: live_def split: if_splits\<close>)
  next
    case (block c p a)
    show ?thesis by (rule same) (use block r [of c p] in \<open>auto simp: live_def split: if_splits\<close>)
  next
    case (tidy c p)
    show ?thesis by (rule same) (use tidy r [of c p] in \<open>auto simp: live_def split: if_splits\<close>)
  next
    case (wake W)
    show ?thesis by (rule same) (use wake in \<open>auto simp: live_def split: if_splits\<close>)
  next
    case (forks_not np)
    show ?thesis by (rule same) (use forks_not in \<open>auto simp: live_def split: if_splits\<close>)
  next
    case (exits c p)
    show ?thesis by (rule same) (use exits r [of c p] in \<open>auto simp: live_def split: if_splits\<close>)
  next
    case (waits c p)
    show ?thesis by (rule same) (use waits r [of c p] in \<open>auto simp: live_def split: if_splits\<close>)
  next
    case (gives_up c p)
    show ?thesis by (rule same) (use gives_up r [of c p] in \<open>auto simp: live_def split: if_splits\<close>)
  next
    case (commits c p r)
    show ?thesis by (rule same) (use commits r [of c p] in \<open>auto simp: live_def split: if_splits\<close>)
  next
    case (sleeps c p)
    show ?thesis by (rule same) (use sleeps r [of c p] in \<open>auto simp: live_def split: if_splits\<close>)
  qed
qed

text \<open>The parts of \<open>wait_ok\<close>, with the lock and the sleepers apart.\<close>

definition lock_ok :: "tview \<Rightarrow> bool" where
  "lock_ok t \<longleftrightarrow> (\<forall>p. t_lock t = Some p \<longleftrightarrow> t_ph t p = Scanning \<or> t_ph t p = Sleepy) \<and> (\<forall>p. t_lock t = Some p \<longrightarrow> t_st t p = RUNNING)
     \<and> (\<forall>p q. t_st t p = SLEEPING \<and> t_ch t p = Some (ProcChan q) \<longrightarrow> q = p \<and> t_ph t p = Asleep)"

definition heard :: "tview \<Rightarrow> bool" where
  "heard t \<longleftrightarrow> (\<forall>p. dozing t p \<longrightarrow> (\<exists>q < NPROC. t_par t q = Some p) \<and> (\<forall>q < NPROC. t_par t q = Some p \<longrightarrow> t_st t q \<noteq> ZOMBIE))"

lemma wait_ok_parts: "wait_ok t \<longleftrightarrow> lock_ok t \<and> heard t"
  unfolding wait_ok_def lock_ok_def heard_def by blast

lemma tstep_lock_ok:
  assumes "tstep t t'" "tinv t"
  shows "lock_ok t'"
proof -
  have r: "\<And>c p. runs t c p \<Longrightarrow> t_st t p = RUNNING \<and> p < NPROC" and f: "\<And>p np. t_ph t p = Linked np \<Longrightarrow> t_st t np = USED"
    using assms(2) unfolding tinv_def cpu_ok_def phase_ok_def forking_def by blast+
  have w: "\<And>p. t_lock t = Some p \<longleftrightarrow> t_ph t p = Scanning \<or> t_ph t p = Sleepy" "\<And>p. t_lock t = Some p \<Longrightarrow> t_st t p = RUNNING"
    "\<And>p q. t_st t p = SLEEPING \<Longrightarrow> t_ch t p = Some (ProcChan q) \<Longrightarrow> q = p \<and> t_ph t p = Asleep"
    using assms(2) unfolding tinv_def wait_ok_def by blast+
  have lock: "lock_ok t''" if "t_lock t'' = t_lock t" "\<And>p. t_lock t = Some p \<Longrightarrow> t_st t'' p = RUNNING"
    "\<And>p. (t_ph t'' p = Scanning \<or> t_ph t'' p = Sleepy) \<longleftrightarrow> (t_ph t p = Scanning \<or> t_ph t p = Sleepy)"
    "\<And>p q. t_st t'' p = SLEEPING \<Longrightarrow> t_ch t'' p = Some (ProcChan q) \<Longrightarrow> t_st t p = SLEEPING \<and> t_ch t p = Some (ProcChan q)"
    "\<And>p. t_st t p = SLEEPING \<Longrightarrow> t_ph t'' p = t_ph t p" for t''
    unfolding lock_ok_def that(1,3)
  proof (intro conjI allI impI)
    fix u v assume a: "t_st t'' u = SLEEPING \<and> t_ch t'' u = Some (ProcChan v)"
    show "v = u" "t_ph t'' u = Asleep" using w(3) [of u v] that(4) [of u v] that(5) [of u] a by simp_all
  qed (use w(1) that(2) in simp_all)
  have unlock: "lock_ok t''" if "t_lock t'' = None" "runs t c p" "t_lock t = Some p" "t_ph t'' p \<noteq> Scanning" "t_ph t'' p \<noteq> Sleepy"
    "\<And>q. q \<noteq> p \<Longrightarrow> t_ph t'' q = t_ph t q" "\<And>q. q \<noteq> p \<Longrightarrow> t_st t'' q = SLEEPING \<Longrightarrow> t_st t q = SLEEPING \<and> t_ch t'' q = t_ch t q"
    "t_st t'' p = SLEEPING \<Longrightarrow> t_ch t'' p = Some (ProcChan p) \<and> t_ph t'' p = Asleep" for t'' c p
  proof -
    note h = that
    have "t_ph t'' q \<noteq> Scanning \<and> t_ph t'' q \<noteq> Sleepy" for q
      using h(3-5) h(6) [of q] w(1) [of q] by (cases "q = p") auto
    moreover have "v = u \<and> t_ph t'' u = Asleep" if "t_st t'' u = SLEEPING" "t_ch t'' u = Some (ProcChan v)" for u v
      using that h(6,7) [of u] h(8) w(3) [of u v] by (cases "u = p") auto
    ultimately show ?thesis using h(1) by (simp add: lock_ok_def)
  qed
  show ?thesis
    using assms(1)
  proof cases
    case (dispatch c p)
    show ?thesis by (rule lock) (use dispatch w(2) in \<open>auto split: if_splits\<close>)
  next
    case (preempt c p)
    show ?thesis by (rule lock) (use preempt w(2) in \<open>auto split: if_splits\<close>)
  next
    case (block c p a)
    show ?thesis by (rule lock) (use block w(2) in \<open>auto split: if_splits\<close>)
  next
    case (tidy c p)
    show ?thesis by (rule lock) (use tidy w(2) in \<open>auto split: if_splits\<close>)
  next
    case (wake W)
    show ?thesis by (rule lock) (use wake w(2) in \<open>auto split: if_splits\<close>)
  next
    case (forks c p np)
    show ?thesis by (rule lock) (use forks r [of c p] w(2) in \<open>auto split: if_splits\<close>)
  next
    case (forks_not np)
    show ?thesis by (rule lock) (use forks_not w(2) in \<open>auto split: if_splits\<close>)
  next
    case (links c p np)
    show ?thesis by (rule lock) (use links r [of c p] w(2) in \<open>auto split: if_splits\<close>)
  next
    case (starts c p np)
    show ?thesis by (rule lock) (use starts r [of c p] f [of p np] w(2) in \<open>auto split: if_splits\<close>)
  next
    case (exits c p)
    show ?thesis by (rule lock) (use exits r [of c p] w(2) in \<open>auto split: if_splits\<close>)
  next
    case (dies c p)
    show ?thesis by (rule lock) (use dies r [of c p] w(2) in \<open>auto simp: woken_def split: if_splits\<close>)
  next
    case (waits c p)
    have "t_ph t q \<noteq> Scanning \<and> t_ph t q \<noteq> Sleepy" for q using waits w(1) [of q] by auto
    then show ?thesis using waits r [of c p] w(3) unfolding lock_ok_def by (auto split: if_splits)
  next
    case (reaps c p q)
    show ?thesis by (rule unlock [of _ c p]) (use reaps w(1) [of p] r [of c p] in \<open>auto split: if_splits\<close>)
  next
    case (gives_up c p)
    show ?thesis by (rule unlock [of _ c p]) (use gives_up w(1) [of p] r [of c p] in \<open>auto split: if_splits\<close>)
  next
    case (commits c p r')
    show ?thesis by (rule lock) (use commits r [of c p] w(2) in \<open>auto split: if_splits\<close>)
  next
    case (sleeps c p)
    show ?thesis by (rule unlock [of _ c p]) (use sleeps w(1) [of p] r [of c p] in \<open>auto split: if_splits\<close>)
  qed
qed

lemma tstep_heard:
  assumes "tstep t t'" "tinv t"
  shows "heard t'"
proof -
  have r: "\<And>c p. runs t c p \<Longrightarrow> t_st t p = RUNNING \<and> p < NPROC" and f: "\<And>p np. forking t p np \<Longrightarrow> t_st t np = USED"
    "\<And>p np. t_ph t p = Forked np \<Longrightarrow> t_par t np = None"
    using assms(2) unfolding tinv_def cpu_ok_def phase_ok_def by blast+
  have w: "\<And>p. t_lock t = Some p \<longleftrightarrow> t_ph t p = Scanning \<or> t_ph t p = Sleepy"
    using assms(2) unfolding tinv_def wait_ok_def by blast
  have h: "\<And>p. dozing t p \<Longrightarrow> \<exists>q < NPROC. t_par t q = Some p" "\<And>p q. dozing t p \<Longrightarrow> q < NPROC \<Longrightarrow> t_par t q = Some p \<Longrightarrow> t_st t q \<noteq> ZOMBIE"
    using assms(2) unfolding tinv_def wait_ok_def by blast+
  have hear: "heard t''" if "\<And>p. dozing t'' p \<Longrightarrow> dozing t p" "t_par t'' = t_par t" "\<And>q. t_st t'' q = ZOMBIE \<Longrightarrow> t_st t q = ZOMBIE" for t''
    unfolding heard_def that(2) using h that(1,3) by blast
  show ?thesis
    using assms(1)
  proof cases
    case (dispatch c p)
    show ?thesis by (rule hear) (use dispatch in \<open>auto simp: dozing_def split: if_splits\<close>)
  next
    case (preempt c p)
    show ?thesis by (rule hear) (use preempt in \<open>auto simp: dozing_def split: if_splits\<close>)
  next
    case (block c p a)
    show ?thesis by (rule hear) (use block in \<open>auto simp: dozing_def split: if_splits\<close>)
  next
    case (tidy c p)
    show ?thesis by (rule hear) (use tidy in \<open>auto simp: dozing_def split: if_splits\<close>)
  next
    case (wake W)
    show ?thesis by (rule hear) (use wake in \<open>auto simp: dozing_def split: if_splits\<close>)
  next
    case (forks c p np)
    show ?thesis by (rule hear) (use forks in \<open>auto simp: dozing_def split: if_splits\<close>)
  next
    case (forks_not np)
    show ?thesis by (rule hear) (use forks_not in \<open>auto simp: dozing_def split: if_splits\<close>)
  next
    case (starts c p np)
    show ?thesis by (rule hear) (use starts in \<open>auto simp: dozing_def split: if_splits\<close>)
  next
    case (exits c p)
    show ?thesis by (rule hear) (use exits in \<open>auto simp: dozing_def split: if_splits\<close>)
  next
    case (waits c p)
    show ?thesis by (rule hear) (use waits in \<open>auto simp: dozing_def split: if_splits\<close>)
  next
    case (gives_up c p)
    show ?thesis by (rule hear) (use gives_up in \<open>auto simp: dozing_def split: if_splits\<close>)
  next
    case (sleeps c p)
    show ?thesis by (rule hear) (use sleeps in \<open>auto simp: dozing_def split: if_splits\<close>)
  next
    case (links c p np)
    have np: "t_par t np = None" "t_st t np = USED" using links f by (auto simp: forking_def)
    have d: "dozing t u" if "dozing t' u" for u using that links by (auto simp: dozing_def split: if_splits)
    show ?thesis
      unfolding heard_def
    proof (intro allI impI conjI)
      fix u assume "dozing t' u"
      then obtain q where "q < NPROC" "t_par t q = Some u" using h(1) d by blast
      then show "\<exists>q < NPROC. t_par t' q = Some u" using links(1) np(1) by (intro exI [of _ q]) auto
    next
      fix u q assume "dozing t' u" "q < NPROC" "t_par t' q = Some u"
      then show "t_st t' q \<noteq> ZOMBIE" using h(2) [of u q] d links(1) np(2) by (auto split: if_splits)
    qed
  next
    case (dies c p)
    have d: "dozing t u" "\<not> woken t p u" "u \<noteq> p" "t_ch t u = Some (ProcChan u)" "t_st t u = SLEEPING" if "dozing t' u" for u
      using that dies w [of u] by (auto simp: dozing_def split: if_splits)
    have init: "t_init t \<noteq> Some u" if "dozing t' u" "r < NPROC" "t_par t r = Some p" for u r
      using d [OF that(1)] that(2,3) by (auto simp: woken_def)
    have par: "t_par t p \<noteq> Some u" if "dozing t' u" for u
      using d [OF that] by (auto simp: woken_def)
    show ?thesis
      unfolding heard_def
    proof (intro allI impI conjI)
      fix u assume u: "dozing t' u"
      then obtain q where "q < NPROC" "t_par t q = Some u" using h(1) d(1) by blast
      then show "\<exists>q < NPROC. t_par t' q = Some u" using dies(1) d(3) [OF u] by (intro exI [of _ q]) auto
    next
      fix u q assume u: "dozing t' u" "q < NPROC" "t_par t' q = Some u"
      then have "t_par t q = Some u" using dies(1) init [OF u(1,2)] by (auto split: if_splits)
      then show "t_st t' q \<noteq> ZOMBIE" using h(2) [of u q] d(1) [OF u(1)] u(2) par [OF u(1)] dies(1) by (auto split: if_splits)
    qed
  next
    case (reaps c p q)
    have d: "dozing t u" "u \<noteq> p" if "dozing t' u" for u using that reaps r [of c p] by (auto simp: dozing_def split: if_splits)
    show ?thesis
      unfolding heard_def
    proof (intro allI impI conjI)
      fix u assume u: "dozing t' u"
      then obtain m where "m < NPROC" "t_par t m = Some u" using h(1) d(1) by blast
      then show "\<exists>m < NPROC. t_par t' m = Some u" using reaps d(2) [OF u] by (intro exI [of _ m]) auto
    next
      fix u m assume u: "dozing t' u" "m < NPROC" "t_par t' m = Some u"
      then show "t_st t' m \<noteq> ZOMBIE" using h(2) [of u m] d(1) [OF u(1)] reaps(1) by (auto split: if_splits)
    qed
  next
    case (commits c p m)
    have d: "dozing t u \<or> u = p" if "dozing t' u" for u using that commits by (auto simp: dozing_def split: if_splits)
    have par: "t_par t' = t_par t" "t_st t' = t_st t" using commits(1) by simp_all
    show ?thesis
      unfolding heard_def par
    proof (intro allI impI conjI)
      fix u assume "dozing t' u"
      then show "\<exists>m < NPROC. t_par t m = Some u" using h(1) d commits(4,5) by blast
    next
      fix u m assume "dozing t' u" "m < NPROC" "t_par t m = Some u"
      then show "t_st t m \<noteq> ZOMBIE" using h(2) [of u m] d commits(6) by blast
    qed
  qed
qed

lemma tstep_inv: "tstep t t' \<Longrightarrow> tinv t \<Longrightarrow> tinv t'"
  unfolding tinv_def wait_ok_parts
  using tstep_cpu_ok tstep_pid_ok tstep_family_ok tstep_phase_ok tstep_lock_ok tstep_heard
  unfolding tinv_def wait_ok_parts by blast

text \<open>At most two steps, of which only the second may give out a process number.\<close>

definition tmoves :: "tview \<Rightarrow> tview \<Rightarrow> bool" where
  "tmoves t t' \<longleftrightarrow> (\<exists>u. (u = t \<or> tstep t u) \<and> t_next u = t_next t \<and> (t' = u \<or> tstep u t'))"

lemma tmoves_refl [simp]: "tmoves t t"
  and tmoves_one: "tstep t t' \<Longrightarrow> tmoves t t'"
  and tmoves_two: "tstep t u \<Longrightarrow> t_next u = t_next t \<Longrightarrow> tstep u t' \<Longrightarrow> tmoves t t'"
  unfolding tmoves_def by blast+

lemma tmoves_steps: "tmoves t t' \<Longrightarrow> tstep\<^sup>*\<^sup>* t t'"
  unfolding tmoves_def by (meson converse_rtranclp_into_rtranclp r_into_rtranclp rtranclp.rtrancl_refl)

lemma tmoves_inv: "tmoves t t' \<Longrightarrow> tinv t \<Longrightarrow> tinv t'"
  unfolding tmoves_def using tstep_inv by blast

lemma tmoves_fresh: "tmoves t t' \<Longrightarrow> tinv t \<Longrightarrow> pid_fresh t \<Longrightarrow> t_next t \<le> t_next t' \<Longrightarrow> pid_fresh t'"
  unfolding tmoves_def using tstep_inv tstep_pid_fresh by (metis order_refl)

end
