(* ===== verification/Proc.thy ===== *)
theory Proc
  imports File Swap Lifecycle
begin

text \<open>
  Processes, \<open>kernel/proc.c\<close> of Project 2 (with its \<open>proc.h\<close>): the process table, creation and destruction of
  processes, \<open>fork\<close>, \<open>exit\<close>, \<open>wait\<close>, sleeping and waking, \<open>kill\<close> and the scheduler. A process is its index in
  \<open>proc\<close>. The state extends the open files, so one physical memory serves both; the copy-on-write fields
  \<open>uvmunmap\<close> consults are those of the current process. A critical section under \<open>p->lock\<close> is one step; a hart
  that calls \<open>sched\<close> holds exactly its process's lock at every call site, so only its check of the process state
  is kept. The addresses of the trampoline, of \<open>forkret\<close> and of \<open>initcode\<close> are parameters.
\<close>

unbundle bit_operations_syntax

subsection \<open>State\<close>

definition NOFILE :: nat where "NOFILE = 16"
record kcontext =
  c_ra :: u64
  c_sp :: u64
  c_s :: "u64 list"

record proc =
  pr_state :: procstate
  pr_chan :: "chan option"
  pr_killed :: bool
  pr_xstate :: u32
  pr_pid :: int
  pr_parent :: "nat option"
  pr_kstack :: u64
  pr_sz :: u64
  pr_pagetable :: u64
  pr_trapframe :: u64
  pr_context :: kcontext
  pr_ofile :: "nat option list"
  pr_cwd :: "nat option"
  pr_name :: "u8 list"
  pr_ondemand :: bool
  pr_heap_tracker :: "heap_page list"
  pr_resident_heap_pages :: int
  pr_cow_group :: int
  pr_cow_enabled :: int

record pstate = filest +
  procs :: "proc list"
  nextpid :: int
  initproc :: "nat option"
  groups :: "cow_group list"
  wait_lock :: "nat option"
  cpu_proc :: "nat \<Rightarrow> nat option"
  sched_pos :: "nat \<Rightarrow> nat"
  kphases :: "nat \<Rightarrow> kphase"

record kimage =
  k_end :: u64
  k_trampoline :: u64
  k_forkret :: u64
  k_initcode :: u64

definition upd_proc :: "nat \<Rightarrow> (proc \<Rightarrow> proc) \<Rightarrow> 'a pstate_scheme \<Rightarrow> 'a pstate_scheme" where
  "upd_proc p f s = s\<lparr>procs := (procs s)[p := f (procs s ! p)]\<rparr>"

definition set_kphase :: "nat \<Rightarrow> kphase \<Rightarrow> 'a pstate_scheme \<Rightarrow> 'a pstate_scheme" where
  "set_kphase p ph s = s\<lparr>kphases := (kphases s)(p := ph)\<rparr>"

text \<open>The memory as the page-table code sees it while \<open>cur\<close> runs. At boot there is no current process; then no user
  page is freed, and its copy-on-write fields are not consulted.\<close>

definition vm_view :: "nat option \<Rightarrow> 'a pstate_scheme \<Rightarrow> vmstate" where
  "vm_view cur s = \<lparr>pmem = pmem (fs_mach s), freelist = freelist (fs_mach s), cow_groups = groups s,
     p_cow_enabled = (case cur of None \<Rightarrow> 0 | Some p \<Rightarrow> pr_cow_enabled (procs s ! p)),
     p_cow_group = (case cur of None \<Rightarrow> 0 | Some p \<Rightarrow> pr_cow_group (procs s ! p))\<rparr>"

definition put_vm :: "vmstate \<Rightarrow> 'a pstate_scheme \<Rightarrow> 'a pstate_scheme" where
  "put_vm v s = s\<lparr>fs_mach := \<lparr>pmem = pmem v, freelist = freelist v\<rparr>, groups := cow_groups v\<rparr>"

definition on_vm :: "nat option \<Rightarrow> (vmstate \<Rightarrow> kerror + 'r \<times> vmstate) \<Rightarrow> 'a pstate_scheme \<Rightarrow> kerror + 'r \<times> 'a pstate_scheme" where
  "on_vm cur f s = bindE (f (vm_view cur s)) (\<lambda>(r, v). Inr (r, put_vm v s))"

definition in_vm :: "nat option \<Rightarrow> (vmstate \<Rightarrow> kerror + vmstate) \<Rightarrow> 'a pstate_scheme \<Rightarrow> kerror + 'a pstate_scheme" where
  "in_vm cur f s = bindE (f (vm_view cur s)) (\<lambda>v. Inr (put_vm v s))"

subsection \<open>Creating and freeing processes\<close>

definition proc_mapstacks :: "u64 \<Rightarrow> 'a machine_scheme \<Rightarrow> kerror + 'a machine_scheme" where
  "proc_mapstacks kpgtbl s =
     foldE (\<lambda>p s. let (pa, s) = kalloc s in
       if pa = 0 then Inl (Panic ''kalloc'') else kvmmap kpgtbl (KSTACK (of_nat p)) pa PGSIZE (PTE_R OR PTE_W) s) [0..<NPROC] s"

definition procinit :: "'a pstate_scheme \<Rightarrow> 'a pstate_scheme" where
  "procinit s = fold (\<lambda>p. upd_proc p (\<lambda>x. x\<lparr>pr_state := UNUSED, pr_kstack := KSTACK (of_nat p)\<rparr>)) [0..<NPROC] s"

definition allocpid :: "'a pstate_scheme \<Rightarrow> int \<times> 'a pstate_scheme" where
  "allocpid s = (nextpid s, s\<lparr>nextpid := pid_succ (nextpid s)\<rparr>)"

definition proc_pagetable :: "kimage \<Rightarrow> u64 \<Rightarrow> vmstate \<Rightarrow> kerror + u64 \<times> vmstate" where
  "proc_pagetable K trapframe v =
     (let (pagetable, v) = uvmcreate v in
      if pagetable = 0 then Inr (0, v)
      else bindE (mappages pagetable TRAMPOLINE PGSIZE (k_trampoline K) (PTE_R OR PTE_X) v) (\<lambda>(r, v).
        if r < 0 then bindE (uvmfree (k_end K) pagetable 0 v) (\<lambda>v. Inr (0, v))
        else bindE (mappages pagetable TRAPFRAME PGSIZE trapframe (PTE_R OR PTE_W) v) (\<lambda>(r, v).
          if r < 0
          then bindE (uvmunmap (k_end K) pagetable TRAMPOLINE 1 False v) (\<lambda>v.
            bindE (uvmfree (k_end K) pagetable 0 v) (\<lambda>v. Inr (0, v)))
          else Inr (pagetable, v))))"

definition proc_freepagetable :: "kimage \<Rightarrow> u64 \<Rightarrow> u64 \<Rightarrow> vmstate \<Rightarrow> kerror + vmstate" where
  "proc_freepagetable K pagetable sz v =
     bindE (uvmunmap (k_end K) pagetable TRAMPOLINE 1 False v) (\<lambda>v.
       bindE (uvmunmap (k_end K) pagetable TRAPFRAME 1 False v) (\<lambda>v. uvmfree (k_end K) pagetable sz v))"

definition freeproc :: "kimage \<Rightarrow> nat option \<Rightarrow> nat \<Rightarrow> 'a pstate_scheme \<Rightarrow> kerror + 'a pstate_scheme" where
  "freeproc K cur p s =
     (let x = procs s ! p in
      bindE (if pr_trapframe x \<noteq> 0 then in_vm cur (kfree (k_end K) (pr_trapframe x)) s else Inr s) (\<lambda>s.
        let s = upd_proc p (\<lambda>x. x\<lparr>pr_trapframe := 0\<rparr>) s in
        bindE (if pr_pagetable x \<noteq> 0 then in_vm cur (proc_freepagetable K (pr_pagetable x) (pr_sz x)) s else Inr s) (\<lambda>s.
          bindE (if pr_cow_enabled x = 1 then decr_cow_group_count (pr_cow_group x) (groups s) else Inr (groups s)) (\<lambda>gs.
            Inr (upd_proc p (\<lambda>x. x\<lparr>pr_pagetable := 0, pr_sz := 0, pr_pid := 0, pr_parent := None, pr_name := (pr_name x)[0 := 0],
                   pr_chan := None, pr_killed := False, pr_xstate := 0, pr_state := UNUSED\<rparr>) (s\<lparr>groups := gs\<rparr>))))))"

definition allocproc :: "kimage \<Rightarrow> nat option \<Rightarrow> 'a pstate_scheme \<Rightarrow> kerror + nat option \<times> 'a pstate_scheme" where
  "allocproc K cur s =
     (case find (\<lambda>p. pr_state (procs s ! p) = UNUSED) [0..<NPROC] of
        None \<Rightarrow> Inr (None, s)
      | Some p \<Rightarrow>
          let (pid, s) = allocpid s; s = upd_proc p (\<lambda>x. x\<lparr>pr_pid := pid, pr_state := USED\<rparr>) s;
              (tf, m) = kalloc (fs_mach s); s = upd_proc p (\<lambda>x. x\<lparr>pr_trapframe := tf\<rparr>) (s\<lparr>fs_mach := m\<rparr>) in
          if tf = 0 then bindE (freeproc K cur p s) (\<lambda>s. Inr (None, s))
          else bindE (on_vm cur (proc_pagetable K tf) s) (\<lambda>(pt, s).
            let s = upd_proc p (\<lambda>x. x\<lparr>pr_pagetable := pt\<rparr>) s in
            if pt = 0 then bindE (freeproc K cur p s) (\<lambda>s. Inr (None, s))
            else Inr (Some p, upd_proc p (\<lambda>x. x\<lparr>pr_context :=
                   \<lparr>c_ra = k_forkret K, c_sp = pr_kstack x + PGSIZE, c_s = replicate 12 0\<rparr>\<rparr>) s)))"

text \<open>\<open>safestrcpy\<close> into the 16 bytes of a process name.\<close>

definition copy_name :: "u8 list \<Rightarrow> u8 list \<Rightarrow> u8 list" where
  "copy_name src dst = (let w = takeWhile (\<lambda>b. b \<noteq> 0) (take 15 src) in w @ [0] @ drop (Suc (length w)) dst)"

text \<open>Offsets of \<open>epc\<close>, \<open>sp\<close> and \<open>a0\<close> in the trap frame, and its size.\<close>

definition TF_EPC :: u64 where "TF_EPC = 24"
definition TF_SP :: u64 where "TF_SP = 48"
definition TF_A0 :: u64 where "TF_A0 = 112"
definition TF_SIZE :: nat where "TF_SIZE = 288"

definition set_trapframe :: "nat \<Rightarrow> u64 \<Rightarrow> u64 \<Rightarrow> 'a pstate_scheme \<Rightarrow> 'a pstate_scheme" where
  "set_trapframe p off v s =
     s\<lparr>fs_mach := (fs_mach s)\<lparr>pmem := store64 (pmem (fs_mach s)) (pr_trapframe (procs s ! p) + off) v\<rparr>\<rparr>"

definition userinit :: "kimage \<Rightarrow> 'a pstate_scheme \<Rightarrow> kerror + 'a pstate_scheme" where
  "userinit K s =
     bindE (allocproc K None s) (\<lambda>(p, s).
       case p of None \<Rightarrow> Inl NullDeref
       | Some p \<Rightarrow>
           bindE (in_vm None (uvmfirst (pr_pagetable (procs s ! p)) (k_initcode K) 52) (s\<lparr>initproc := Some p\<rparr>)) (\<lambda>s.
             let s = upd_proc p (\<lambda>x. x\<lparr>pr_sz := PGSIZE\<rparr>) s; s = set_trapframe p TF_EPC 0 s; s = set_trapframe p TF_SP PGSIZE s;
                 s = upd_proc p (\<lambda>x. x\<lparr>pr_name := copy_name [0x69,0x6e,0x69,0x74,0x63,0x6f,0x64,0x65,0] (pr_name x)\<rparr>) s in
             bindE (namei 0 0 [SLASH] s) (\<lambda>(cwd, s).
               Inr (upd_proc p (\<lambda>x. x\<lparr>pr_cwd := cwd, pr_state := RUNNABLE\<rparr>) s))))"

subsection \<open>Fork\<close>

definition dup_file :: "nat \<Rightarrow> nat \<Rightarrow> nat \<Rightarrow> 'a pstate_scheme \<Rightarrow> kerror + 'a pstate_scheme" where
  "dup_file p np i s =
     (case pr_ofile (procs s ! p) ! i of None \<Rightarrow> Inr s
      | Some f \<Rightarrow> bindE (filedup f s) (\<lambda>s. Inr (upd_proc np (\<lambda>x. x\<lparr>pr_ofile := (pr_ofile x)[i := Some f]\<rparr>) s)))"

text \<open>The copy of the user memory: \<open>fork\<close> with and without copy-on-write.\<close>

definition fork_memory :: "kimage \<Rightarrow> nat \<Rightarrow> nat \<Rightarrow> int \<Rightarrow> 'a pstate_scheme \<Rightarrow> kerror + int \<times> 'a pstate_scheme" where
  "fork_memory K p np cow_enabled s =
     (let old = pr_pagetable (procs s ! p); new = pr_pagetable (procs s ! np); sz = pr_sz (procs s ! p) in
      if cow_enabled = 1
      then let p_id = pr_pid (procs s ! p); s = upd_proc np (\<lambda>x. x\<lparr>pr_cow_group := p_id\<rparr>) s;
               s = upd_proc p (\<lambda>x. x\<lparr>pr_cow_group := p_id, pr_cow_enabled := 1\<rparr>) s;
               s = s\<lparr>groups := cow_group_init p_id (groups s)\<rparr>; s = upd_proc np (\<lambda>x. x\<lparr>pr_cow_enabled := 1\<rparr>) s in
        on_vm (Some p) (uvmcopy_cow (k_end K) old new sz) s
      else on_vm (Some p) (uvmcopy (k_end K) old new sz) s)"

text \<open>The child's registers, files, directory and name.\<close>

definition fork_child :: "nat \<Rightarrow> nat \<Rightarrow> 'a pstate_scheme \<Rightarrow> kerror + 'a pstate_scheme" where
  "fork_child p np s =
     (let s = upd_proc np (\<lambda>x. x\<lparr>pr_sz := pr_sz (procs s ! p)\<rparr>) s;
          s = s\<lparr>fs_mach := (fs_mach s)\<lparr>pmem := memmove (pmem (fs_mach s)) (pr_trapframe (procs s ! np))
                                                     (pr_trapframe (procs s ! p)) TF_SIZE\<rparr>\<rparr>;
          s = set_trapframe np TF_A0 0 s in
      bindE (foldE (dup_file p np) [0..<NOFILE] s) (\<lambda>s.
        case pr_cwd (procs s ! p) of None \<Rightarrow> Inl NullDeref
        | Some ip \<Rightarrow>
            let s = idup ip s; y = procs s ! p in
            Inr (upd_proc np (\<lambda>x. x\<lparr>pr_cwd := Some ip, pr_name := copy_name (pr_name y) (pr_name x),
                                      pr_ondemand := pr_ondemand y\<rparr>) s)))"

text \<open>Up to the release of the child's lock; the result is the child, not yet runnable.\<close>

definition fork_copy :: "kimage \<Rightarrow> nat \<Rightarrow> int \<Rightarrow> 'a pstate_scheme \<Rightarrow> kerror + nat option \<times> 'a pstate_scheme" where
  "fork_copy K p cow_enabled s =
     bindE (allocproc K (Some p) s) (\<lambda>(np, s).
       case np of None \<Rightarrow> Inr (None, s)
       | Some np \<Rightarrow>
           bindE (fork_memory K p np cow_enabled s) (\<lambda>(r, s).
             if r < 0 then bindE (freeproc K (Some p) np s) (\<lambda>s. Inr (None, s))
             else bindE (fork_child p np s) (\<lambda>s. Inr (Some np, s))))"

definition fork_link :: "nat \<Rightarrow> nat \<Rightarrow> 'a pstate_scheme \<Rightarrow> 'a pstate_scheme" where
  "fork_link p np s = upd_proc np (\<lambda>x. x\<lparr>pr_parent := Some p\<rparr>) s"

definition fork_start :: "nat \<Rightarrow> 'a pstate_scheme \<Rightarrow> 'a pstate_scheme" where
  "fork_start np s = upd_proc np (\<lambda>x. x\<lparr>pr_state := RUNNABLE\<rparr>) s"

definition fork :: "kimage \<Rightarrow> nat \<Rightarrow> int \<Rightarrow> 'a pstate_scheme \<Rightarrow> kerror + int \<times> 'a pstate_scheme" where
  "fork K p cow_enabled s =
     bindE (fork_copy K p cow_enabled s) (\<lambda>(np, s).
       case np of None \<Rightarrow> Inr (- 1, s)
       | Some np \<Rightarrow> Inr (pr_pid (procs s ! np), fork_start np (fork_link p np s)))"

subsection \<open>Sleeping, waking and scheduling\<close>

definition is_runnable :: "nat \<Rightarrow> 'a pstate_scheme \<Rightarrow> bool" where
  "is_runnable p s \<longleftrightarrow> pr_state (procs s ! p) = RUNNABLE"

text \<open>One turn of the inner loop of \<open>scheduler\<close> on hart \<open>c\<close>, whose index is \<open>sched_pos\<close>. When the process gives
  the hart back, \<open>sched\<close> clears \<open>c->proc\<close> and the loop goes on behind it.\<close>

definition scheduler_visit :: "nat \<Rightarrow> 'a pstate_scheme \<Rightarrow> 'a pstate_scheme" where
  "scheduler_visit c s =
     (let p = sched_pos s c; s = s\<lparr>sched_pos := (sched_pos s)(c := Suc p mod NPROC)\<rparr> in
      if is_runnable p s
      then upd_proc p (\<lambda>x. x\<lparr>pr_state := RUNNING\<rparr>) (s\<lparr>cpu_proc := (cpu_proc s)(c := Some p)\<rparr>)
      else s)"

definition sched :: "nat \<Rightarrow> nat \<Rightarrow> 'a pstate_scheme \<Rightarrow> kerror + 'a pstate_scheme" where
  "sched c p s =
     (if pr_state (procs s ! p) = RUNNING then Inl (Panic ''sched running'')
      else Inr (s\<lparr>cpu_proc := (cpu_proc s)(c := None)\<rparr>))"

definition yield_cpu :: "nat \<Rightarrow> nat \<Rightarrow> 'a pstate_scheme \<Rightarrow> kerror + 'a pstate_scheme" where
  "yield_cpu c p s = sched c p (upd_proc p (\<lambda>x. x\<lparr>pr_state := RUNNABLE\<rparr>) s)"

text \<open>\<open>forkret\<close> up to its call of \<open>usertrapret\<close>; \<open>first\<close> is its static variable.\<close>

definition forkret :: "int \<Rightarrow> bool \<Rightarrow> 'a pstate_scheme \<Rightarrow> kerror + bool \<times> 'a pstate_scheme" where
  "forkret pid first s = (if first then bindE (fsinit pid ROOTDEV s) (\<lambda>s. Inr (False, s)) else Inr (first, s))"

text \<open>\<open>sleep\<close> up to its call of \<open>sched\<close>, and after it.\<close>

definition sleep_on :: "nat \<Rightarrow> nat \<Rightarrow> chan \<Rightarrow> 'a pstate_scheme \<Rightarrow> kerror + 'a pstate_scheme" where
  "sleep_on c p ch s = sched c p (upd_proc p (\<lambda>x. x\<lparr>pr_chan := Some ch, pr_state := SLEEPING\<rparr>) s)"

definition sleep_done :: "nat \<Rightarrow> 'a pstate_scheme \<Rightarrow> 'a pstate_scheme" where
  "sleep_done p s = upd_proc p (\<lambda>x. x\<lparr>pr_chan := None\<rparr>) s"

definition wake :: "nat option \<Rightarrow> chan option \<Rightarrow> nat \<Rightarrow> proc \<Rightarrow> proc" where
  "wake cur ch p x = (if cur \<noteq> Some p \<and> pr_state x = SLEEPING \<and> pr_chan x = ch then x\<lparr>pr_state := RUNNABLE\<rparr> else x)"

definition wakeup :: "nat option \<Rightarrow> chan option \<Rightarrow> 'a pstate_scheme \<Rightarrow> 'a pstate_scheme" where
  "wakeup cur ch s = fold (\<lambda>p. upd_proc p (wake cur ch p)) [0..<NPROC] s"

definition kill :: "int \<Rightarrow> 'a pstate_scheme \<Rightarrow> int \<times> 'a pstate_scheme" where
  "kill pid s =
     (case find (\<lambda>p. pr_pid (procs s ! p) = pid) [0..<NPROC] of
        None \<Rightarrow> (- 1, s)
      | Some p \<Rightarrow> (0, upd_proc p (\<lambda>x. x\<lparr>pr_killed := True,
                          pr_state := (if pr_state x = SLEEPING then RUNNABLE else pr_state x)\<rparr>) s))"

definition setkilled :: "nat \<Rightarrow> 'a pstate_scheme \<Rightarrow> 'a pstate_scheme" where
  "setkilled p s = upd_proc p (\<lambda>x. x\<lparr>pr_killed := True\<rparr>) s"

definition killed :: "nat \<Rightarrow> 'a pstate_scheme \<Rightarrow> bool" where
  "killed p s = pr_killed (procs s ! p)"

subsection \<open>Exit and wait\<close>

definition reparent :: "nat \<Rightarrow> 'a pstate_scheme \<Rightarrow> 'a pstate_scheme" where
  "reparent p s =
     fold (\<lambda>pp s. if pr_parent (procs s ! pp) = Some p
                  then wakeup (Some p) (map_option ProcChan (initproc s)) (upd_proc pp (\<lambda>x. x\<lparr>pr_parent := initproc s\<rparr>) s)
                  else s) [0..<NPROC] s"

definition exit_file :: "kimage \<Rightarrow> nat \<Rightarrow> nat \<Rightarrow> 'a pstate_scheme \<Rightarrow> kerror + 'a pstate_scheme" where
  "exit_file K p fd s =
     (case pr_ofile (procs s ! p) ! fd of None \<Rightarrow> Inr s
      | Some f \<Rightarrow> bindE (fileclose (k_end K) (pr_pid (procs s ! p)) f s) (\<lambda>s.
          Inr (upd_proc p (\<lambda>x. x\<lparr>pr_ofile := (pr_ofile x)[fd := None]\<rparr>) s)))"

text \<open>\<open>exit\<close> before it takes \<open>wait_lock\<close>, and after.\<close>

definition exit_files :: "kimage \<Rightarrow> nat \<Rightarrow> 'a pstate_scheme \<Rightarrow> kerror + 'a pstate_scheme" where
  "exit_files K p s =
     (if Some p = initproc s then Inl (Panic ''init exiting'')
      else bindE (foldE (exit_file K p) [0..<NOFILE] s) (\<lambda>s.
        bindE (begin_op s) (\<lambda>s.
          case pr_cwd (procs s ! p) of None \<Rightarrow> Inl NullDeref
          | Some ip \<Rightarrow> bindE (iput (pr_pid (procs s ! p)) ip s) (\<lambda>s.
              bindE (end_op (pr_pid (procs s ! p)) s) (\<lambda>s. Inr (upd_proc p (\<lambda>x. x\<lparr>pr_cwd := None\<rparr>) s))))))"

definition exit_finish :: "nat \<Rightarrow> nat \<Rightarrow> u32 \<Rightarrow> 'a pstate_scheme \<Rightarrow> kerror + 'a pstate_scheme" where
  "exit_finish c p status s =
     (let s = reparent p s; s = wakeup (Some p) (map_option ProcChan (pr_parent (procs s ! p))) s in
      sched c p (upd_proc p (\<lambda>x. x\<lparr>pr_xstate := status, pr_state := ZOMBIE\<rparr>) s))"

datatype wait_out = Returned int | WillSleep

text \<open>An exited child \<open>pp\<close> is found: hand out its status and free it.\<close>

definition wait_reap :: "kimage \<Rightarrow> nat \<Rightarrow> u64 \<Rightarrow> nat \<Rightarrow> 'a pstate_scheme \<Rightarrow> kerror + int \<times> 'a pstate_scheme" where
  "wait_reap K p addr pp s =
     (let x = procs s ! pp in
      bindE (if addr \<noteq> 0 then copyout_data (pr_pagetable (procs s ! p)) addr (le_bytes 4 (ucast (pr_xstate x))) (fs_mach s)
             else Inr (0, fs_mach s)) (\<lambda>(r, m).
        let s = s\<lparr>fs_mach := m\<rparr> in
        if r < 0 then Inr (- 1, s) else bindE (freeproc K (Some p) pp s) (\<lambda>s. Inr (pr_pid x, s))))"

fun wait_from :: "kimage \<Rightarrow> nat \<Rightarrow> u64 \<Rightarrow> bool \<Rightarrow> nat list \<Rightarrow> 'a pstate_scheme \<Rightarrow> kerror + wait_out \<times> 'a pstate_scheme" where
  "wait_from K p addr havekids [] s =
     Inr (if \<not> havekids \<or> killed p s then Returned (- 1) else WillSleep, s)"
| "wait_from K p addr havekids (pp # pps) s =
     (if pr_parent (procs s ! pp) = Some p
      then if pr_state (procs s ! pp) = ZOMBIE then bindE (wait_reap K p addr pp s) (\<lambda>(r, s). Inr (Returned r, s))
           else wait_from K p addr True pps s
      else wait_from K p addr havekids pps s)"

text \<open>One pass over the table, with \<open>wait_lock\<close> held.\<close>

definition wait_scan :: "kimage \<Rightarrow> nat \<Rightarrow> u64 \<Rightarrow> 'a pstate_scheme \<Rightarrow> kerror + wait_out \<times> 'a pstate_scheme" where
  "wait_scan K p addr s = wait_from K p addr False [0..<NPROC] s"

end
