(* ===== verification/Sched.thy ===== *)
theory Sched
  imports Proc
begin

text \<open>
  \<open>kernel/proc.c\<close> (Project 2) under all interleavings. \<open>kstep\<close> is its step relation: harts run their scheduler loops
  and the critical sections of \<open>fork\<close>, \<open>exit\<close>, \<open>wait\<close>, \<open>sleep\<close>, \<open>wakeup\<close>, \<open>yield\<close> and \<open>kill\<close> in any order
  \<open>wait_lock\<close> allows; any other kernel code may change whatever the process table does not hold. \<open>tview_of\<close> is the
  part of the state that matters to the protocol of \<open>Lifecycle\<close>, and every step refines a step of it.
\<close>

subsection \<open>What the operations do to the process table\<close>

definition tview_of :: "'a pstate_scheme \<Rightarrow> tview" where
  "tview_of s = \<lparr>t_st = (\<lambda>p. if p < NPROC then pr_state (procs s ! p) else UNUSED), t_ch = (\<lambda>p. if p < NPROC then pr_chan (procs s ! p) else None),
     t_pid = (\<lambda>p. if p < NPROC then pr_pid (procs s ! p) else 0), t_par = (\<lambda>p. if p < NPROC then pr_parent (procs s ! p) else None),
     t_next = nextpid s, t_init = initproc s, t_lock = wait_lock s, t_cpu = cpu_proc s, t_ph = kphases s\<rparr>"

lemma tview_of_simps [simp]:
  "t_st (tview_of s) p = (if p < NPROC then pr_state (procs s ! p) else UNUSED)"
  "t_ch (tview_of s) p = (if p < NPROC then pr_chan (procs s ! p) else None)"
  "t_pid (tview_of s) p = (if p < NPROC then pr_pid (procs s ! p) else 0)"
  "t_par (tview_of s) p = (if p < NPROC then pr_parent (procs s ! p) else None)"
  "t_next (tview_of s) = nextpid s" "t_init (tview_of s) = initproc s" "t_lock (tview_of s) = wait_lock s"
  "t_cpu (tview_of s) = cpu_proc s" "t_ph (tview_of s) = kphases s"
  by (simp_all add: tview_of_def)

lemma upd_proc_simps [simp]:
  fixes s :: "'a pstate_scheme"
  shows "procs (upd_proc p f s) = (procs s)[p := f (procs s ! p)]" "nextpid (upd_proc p f s) = nextpid s" "initproc (upd_proc p f s) = initproc s"
    "wait_lock (upd_proc p f s) = wait_lock s" "cpu_proc (upd_proc p f s) = cpu_proc s" "kphases (upd_proc p f s) = kphases s"
    "sched_pos (upd_proc p f s) = sched_pos s" "groups (upd_proc p f s) = groups s" "fs_mach (upd_proc p f s) = fs_mach s"
  by (simp_all add: upd_proc_def)

text \<open>Everything of the process table but the fields private to a process.\<close>

definition same_ctl :: "'a pstate_scheme \<Rightarrow> 'a pstate_scheme \<Rightarrow> bool" where
  "same_ctl s s' \<longleftrightarrow> nextpid s' = nextpid s \<and> initproc s' = initproc s \<and> wait_lock s' = wait_lock s \<and> cpu_proc s' = cpu_proc s
     \<and> kphases s' = kphases s \<and> sched_pos s' = sched_pos s \<and> length (procs s') = length (procs s)"

definition same_table :: "'a pstate_scheme \<Rightarrow> 'a pstate_scheme \<Rightarrow> bool" where
  "same_table s s' \<longleftrightarrow> same_ctl s s' \<and> tview_of s' = tview_of s"

lemma tview_ext:
  assumes "\<And>p. t_st t p = t_st t' p" "\<And>p. t_ch t p = t_ch t' p" "\<And>p. t_pid t p = t_pid t' p" "\<And>p. t_par t p = t_par t' p"
    "t_next t = t_next t'" "t_init t = t_init t'" "t_lock t = t_lock t'" "t_cpu t = t_cpu t'" "t_ph t = t_ph t'"
  shows "t = (t' :: tview)"
  by (intro tview.equality ext) (use assms in auto)

lemma same_table_refl [simp]: "same_table s s" by (simp add: same_table_def same_ctl_def)

lemma same_table_trans: "same_table s s' \<Longrightarrow> same_table s' s'' \<Longrightarrow> same_table s s''"
  by (simp add: same_table_def same_ctl_def)

text \<open>The same table on the nose.\<close>

definition same_procs :: "'a pstate_scheme \<Rightarrow> 'a pstate_scheme \<Rightarrow> bool" where
  "same_procs s s' \<longleftrightarrow> same_ctl s s' \<and> procs s' = procs s"

lemma same_procs_table: "same_procs s s' \<Longrightarrow> same_table s s'"
  by (auto simp: same_procs_def same_table_def same_ctl_def tview_of_def)

lemma same_procs_trans: "same_procs s s' \<Longrightarrow> same_procs s' s'' \<Longrightarrow> same_procs s s''"
  by (simp add: same_procs_def same_ctl_def)

lemma same_procs_refl [simp]: "same_procs s s" by (simp add: same_procs_def same_ctl_def)

lemma same_procs_more:
  fixes s :: "'a pstate_scheme"
  assumes "filest.more s' = filest.more s"
  shows "same_procs s s'"
  using assms by (cases s; cases s') (simp add: same_procs_def same_ctl_def)

lemma fs_same_procs:
  fixes s :: "'a pstate_scheme"
  assumes "fsst.more s' = fsst.more s"
  shows "same_procs s s'"
  using assms by (cases s; cases s') (simp add: same_procs_def same_ctl_def)

lemma same_procs_vm [simp]: "same_procs s (put_vm v s)"
  by (simp add: put_vm_def same_procs_def same_ctl_def)

lemma on_vm_same: "on_vm cur f s = Inr (r, s') \<Longrightarrow> same_procs s s'"
  by (auto simp: on_vm_def)

lemma in_vm_same: "in_vm cur f s = Inr s' \<Longrightarrow> same_procs s s'"
  by (auto simp: in_vm_def)

text \<open>A change of private fields.\<close>

lemma same_table_upd:
  assumes "pr_state (f (procs s ! p)) = pr_state (procs s ! p)" "pr_chan (f (procs s ! p)) = pr_chan (procs s ! p)"
    "pr_pid (f (procs s ! p)) = pr_pid (procs s ! p)" "pr_parent (f (procs s ! p)) = pr_parent (procs s ! p)"
  shows "same_table s (upd_proc p f s)"
proof -
  have "(procs s)[p := f (procs s ! p)] ! q = (if q = p \<and> p < length (procs s) then f (procs s ! p) else procs s ! q)" for q
    by (cases "p < length (procs s)") (auto simp: nth_list_update list_update_beyond)
  then show ?thesis using assms by (auto simp: same_table_def same_ctl_def intro!: tview_ext)
qed

lemma freeproc_view:
  fixes s :: "'a pstate_scheme"
  assumes "freeproc K cur p s = Inr s'" and p: "p < NPROC" "length (procs s) = NPROC"
  shows "same_ctl s s'" and "tview_of s' = (tview_of s)\<lparr>t_st := (t_st (tview_of s))(p := UNUSED), t_pid := (t_pid (tview_of s))(p := 0),
           t_par := (t_par (tview_of s))(p := None), t_ch := (t_ch (tview_of s))(p := None)\<rparr>"
proof -
  let ?x = "procs s ! p"
  obtain s1 s2 gs where a: "(if pr_trapframe ?x \<noteq> 0 then in_vm cur (kfree (k_end K) (pr_trapframe ?x)) s else Inr s) = Inr s1"
    "(if pr_pagetable ?x \<noteq> 0 then in_vm cur (proc_freepagetable K (pr_pagetable ?x) (pr_sz ?x)) (upd_proc p (\<lambda>x. x\<lparr>pr_trapframe := 0\<rparr>) s1)
      else Inr (upd_proc p (\<lambda>x. x\<lparr>pr_trapframe := 0\<rparr>) s1)) = Inr s2"
    and s': "s' = upd_proc p (\<lambda>x. x\<lparr>pr_pagetable := 0, pr_sz := 0, pr_pid := 0, pr_parent := None, pr_name := (pr_name x)[0 := 0],
                   pr_chan := None, pr_killed := False, pr_xstate := 0, pr_state := UNUSED\<rparr>) (s2\<lparr>groups := gs\<rparr>)"
    using assms(1) unfolding freeproc_def Let_def bindE_eq_Inr by blast
  have s1: "same_procs s s1" and s2: "same_procs (upd_proc p (\<lambda>x. x\<lparr>pr_trapframe := 0\<rparr>) s1) s2"
    using a by (auto dest!: in_vm_same split: if_splits)
  have "procs s2 = (procs s)[p := (procs s ! p)\<lparr>pr_trapframe := 0\<rparr>]" "same_ctl s s2"
    using s1 s2 by (auto simp: same_procs_def same_ctl_def)
  then show "same_ctl s s'" "tview_of s' = (tview_of s)\<lparr>t_st := (t_st (tview_of s))(p := UNUSED), t_pid := (t_pid (tview_of s))(p := 0),
           t_par := (t_par (tview_of s))(p := None), t_ch := (t_ch (tview_of s))(p := None)\<rparr>"
    using p by (auto simp: s' same_ctl_def nth_list_update intro!: tview_ext)
qed

lemma find_upt_Some:
  assumes "find P [0..<n] = Some p"
  shows "p < n" "P p" "\<And>q. q < p \<Longrightarrow> \<not> P q"
proof -
  obtain i where "i < n" "P ([0..<n] ! i)" "p = [0..<n] ! i" "\<forall>j < i. \<not> P ([0..<n] ! j)"
    using assms by (auto simp: find_Some_iff)
  then show "p < n" "P p" "\<And>q. q < p \<Longrightarrow> \<not> P q" by auto
qed

text \<open>A new process: the table before and after.\<close>

definition born :: "nat \<Rightarrow> 'a pstate_scheme \<Rightarrow> 'a pstate_scheme \<Rightarrow> bool" where
  "born np s s' \<longleftrightarrow> np < NPROC \<and> pr_state (procs s ! np) = UNUSED \<and> same_ctl (s\<lparr>nextpid := pid_succ (nextpid s)\<rparr>) s'
     \<and> tview_of s' = (tview_of s)\<lparr>t_st := (t_st (tview_of s))(np := USED), t_pid := (t_pid (tview_of s))(np := nextpid s), t_next := pid_succ (nextpid s)\<rparr>"

text \<open>A failed attempt to make one.\<close>

definition unborn :: "'a pstate_scheme \<Rightarrow> 'a pstate_scheme \<Rightarrow> bool" where
  "unborn s s' \<longleftrightarrow> s' = s \<or> (\<exists>np < NPROC. pr_state (procs s ! np) = UNUSED \<and> same_ctl (s\<lparr>nextpid := pid_succ (nextpid s)\<rparr>) s'
     \<and> tview_of s' = (tview_of s)\<lparr>t_st := (t_st (tview_of s))(np := UNUSED), t_pid := (t_pid (tview_of s))(np := 0),
           t_par := (t_par (tview_of s))(np := None), t_ch := (t_ch (tview_of s))(np := None), t_next := pid_succ (nextpid s)\<rparr>)"

lemma born_same: "born np s s' \<Longrightarrow> same_table s' s'' \<Longrightarrow> born np s s''"
  by (auto simp: born_def same_table_def same_ctl_def)

lemma born_free:
  assumes "born np s s'" "freeproc K cur np s' = Inr s''" "length (procs s) = NPROC"
  shows "unborn s s''"
proof -
  have np: "np < NPROC" "pr_state (procs s ! np) = UNUSED" "length (procs s') = NPROC" using assms(1,3) by (auto simp: born_def same_ctl_def)
  note f = freeproc_view [OF assms(2) np(1,3)]
  have "tview_of s'' = (tview_of s)\<lparr>t_st := (t_st (tview_of s))(np := UNUSED), t_pid := (t_pid (tview_of s))(np := 0),
           t_par := (t_par (tview_of s))(np := None), t_ch := (t_ch (tview_of s))(np := None), t_next := pid_succ (nextpid s)\<rparr>"
    unfolding f(2) using assms(1) unfolding born_def by simp
  moreover have "same_ctl (s\<lparr>nextpid := pid_succ (nextpid s)\<rparr>) s''" using f(1) assms(1) by (auto simp: born_def same_ctl_def)
  ultimately show ?thesis unfolding unborn_def using np(1,2) by blast
qed

lemma allocproc_view:
  fixes s :: "'a pstate_scheme"
  assumes "allocproc K cur s = Inr (r, s')" and len: "length (procs s) = NPROC"
  shows "case r of None \<Rightarrow> unborn s s' | Some np \<Rightarrow> born np s s'"
proof (cases "find (\<lambda>p. pr_state (procs s ! p) = UNUSED) [0..<NPROC]")
  case None
  then show ?thesis using assms(1) by (auto simp: allocproc_def unborn_def)
next
  case (Some p)
  note p = find_upt_Some [OF Some]
  define s1 where "s1 = upd_proc p (\<lambda>x. x\<lparr>pr_pid := nextpid s, pr_state := USED\<rparr>) (s\<lparr>nextpid := pid_succ (nextpid s)\<rparr>)"
  define s2 where "s2 = upd_proc p (\<lambda>x. x\<lparr>pr_trapframe := fst (kalloc (fs_mach s))\<rparr>) (s1\<lparr>fs_mach := snd (kalloc (fs_mach s))\<rparr>)"
  have "born p s s1"
    using p(1,2) len by (auto simp: born_def s1_def same_ctl_def nth_list_update intro!: tview_ext)
  moreover have "same_procs s1 (s1\<lparr>fs_mach := snd (kalloc (fs_mach s))\<rparr>)" by (simp add: same_procs_def same_ctl_def)
  ultimately have b2: "born p s s2"
    unfolding s2_def by (elim born_same same_table_trans [OF same_procs_table]) (rule same_table_upd; simp)
  show ?thesis
  proof (cases "fst (kalloc (fs_mach s)) = 0")
    case True
    then obtain s3 where "freeproc K cur p s2 = Inr s3" "r = None" "s' = s3"
      using assms(1) Some by (auto simp: allocproc_def allocpid_def Let_def s1_def s2_def split: prod.splits)
    then show ?thesis using born_free [OF b2 _ len] by simp
  next
    case False
    then obtain pt s3 where s3: "on_vm cur (proc_pagetable K (fst (kalloc (fs_mach s)))) s2 = Inr (pt, s3)"
      and rest: "(let s = upd_proc p (\<lambda>x. x\<lparr>pr_pagetable := pt\<rparr>) s3 in
            if pt = 0 then bindE (freeproc K cur p s) (\<lambda>s. Inr (None, s))
            else Inr (Some p, upd_proc p (\<lambda>x. x\<lparr>pr_context :=
                   \<lparr>c_ra = k_forkret K, c_sp = pr_kstack x + PGSIZE, c_s = replicate 12 0\<rparr>\<rparr>) s)) = Inr (r, s')"
      using assms(1) Some by (auto simp: allocproc_def allocpid_def Let_def s1_def s2_def split: prod.splits)
    have "same_table s2 (upd_proc p (\<lambda>x. x\<lparr>pr_pagetable := pt\<rparr>) s3)"
      by (rule same_table_trans [OF same_procs_table [OF on_vm_same [OF s3]]], rule same_table_upd) simp_all
    then have b3: "born p s (upd_proc p (\<lambda>x. x\<lparr>pr_pagetable := pt\<rparr>) s3)" by (rule born_same [OF b2])
    show ?thesis
    proof (cases "pt = 0")
      case True
      then show ?thesis using rest born_free [OF b3 _ len] by auto
    next
      case False
      then have "r = Some p" "s' = upd_proc p (\<lambda>x. x\<lparr>pr_context := \<lparr>c_ra = k_forkret K, c_sp = pr_kstack x + PGSIZE, c_s = replicate 12 0\<rparr>\<rparr>)
          (upd_proc p (\<lambda>x. x\<lparr>pr_pagetable := pt\<rparr>) s3)"
        using rest by auto
      then show ?thesis using born_same [OF b3 same_table_upd] by simp
    qed
  qed
qed

lemma filedup_same:
  fixes s :: "'a pstate_scheme"
  shows "filedup f s = Inr s' \<Longrightarrow> same_procs s s'"
  by (rule same_procs_more) (auto simp: filedup_def upd_file_def split: if_splits)

lemma dup_file_same:
  fixes s :: "'a pstate_scheme"
  assumes "dup_file p np i s = Inr s'"
  shows "same_table s s'"
proof (cases "pr_ofile (procs s ! p) ! i")
  case None
  then show ?thesis using assms by (simp add: dup_file_def)
next
  case (Some f)
  then obtain s1 where "filedup f s = Inr s1" "s' = upd_proc np (\<lambda>x. x\<lparr>pr_ofile := (pr_ofile x)[i := Some f]\<rparr>) s1"
    using assms by (auto simp: dup_file_def)
  then have "same_table s s1" "same_table s1 s'"
    using same_procs_table [OF filedup_same] by (simp_all add: same_table_upd)
  then show ?thesis by (rule same_table_trans)
qed

lemma idup_same:
  fixes s :: "'a pstate_scheme"
  shows "same_procs s (idup ip s)"
  by (rule fs_same_procs) (simp add: idup_def)

lemma set_mach_same [simp]: "same_table s (s\<lparr>fs_mach := m\<rparr>)" "same_table s (set_trapframe p off v s)" "same_table s (s\<lparr>groups := gs\<rparr>)"
  by (auto simp: set_trapframe_def same_table_def same_ctl_def tview_of_def)

lemma fork_memory_same:
  fixes s :: "'a pstate_scheme"
  assumes "fork_memory K p np cow s = Inr (r, s')"
  shows "same_table s s'"
proof (cases "cow = 1")
  case True
  define s1 where "s1 = upd_proc np (\<lambda>x. x\<lparr>pr_cow_group := pr_pid (procs s ! p)\<rparr>) s"
  define s2 where "s2 = upd_proc p (\<lambda>x. x\<lparr>pr_cow_group := pr_pid (procs s ! p), pr_cow_enabled := 1\<rparr>) s1"
  define s3 where "s3 = upd_proc np (\<lambda>x. x\<lparr>pr_cow_enabled := 1\<rparr>) (s2\<lparr>groups := cow_group_init (pr_pid (procs s ! p)) (groups s2)\<rparr>)"
  obtain f where "on_vm (Some p) f s3 = Inr (r, s')"
    using assms True by (auto simp: fork_memory_def Let_def s1_def s2_def s3_def)
  then have "same_table s3 s'" by (intro same_procs_table on_vm_same)
  moreover have "same_table s s1" "same_table s1 s2" unfolding s1_def s2_def by (intro same_table_upd; simp)+
  moreover have "same_table s2 (s2\<lparr>groups := cow_group_init (pr_pid (procs s ! p)) (groups s2)\<rparr>)" by simp
  moreover have "same_table (s2\<lparr>groups := cow_group_init (pr_pid (procs s ! p)) (groups s2)\<rparr>) s3" unfolding s3_def by (intro same_table_upd) simp_all
  ultimately show ?thesis by (meson same_table_trans)
next
  case False
  then show ?thesis using assms by (auto simp: fork_memory_def intro!: same_procs_table on_vm_same)
qed

lemma fork_child_same:
  fixes s :: "'a pstate_scheme"
  assumes "fork_child p np s = Inr s'"
  shows "same_table s s'"
proof -
  define s3 where "s3 = upd_proc np (\<lambda>x. x\<lparr>pr_sz := pr_sz (procs s ! p)\<rparr>) s"
  define s4 where "s4 = s3\<lparr>fs_mach := (fs_mach s3)\<lparr>pmem := memmove (pmem (fs_mach s3)) (pr_trapframe (procs s3 ! np))
                                                                 (pr_trapframe (procs s3 ! p)) TF_SIZE\<rparr>\<rparr>"
  obtain s5 ip where s5: "foldE (dup_file p np) [0..<NOFILE] (set_trapframe np TF_A0 0 s4) = Inr s5"
    and s': "s' = upd_proc np (\<lambda>x. x\<lparr>pr_cwd := Some ip, pr_name := copy_name (pr_name (procs (idup ip s5) ! p)) (pr_name x),
                                                      pr_ondemand := pr_ondemand (procs (idup ip s5) ! p)\<rparr>) (idup ip s5)"
    using assms unfolding fork_child_def Let_def s3_def [symmetric] s4_def [symmetric] by (auto split: option.splits)
  have "same_table s s3" unfolding s3_def by (rule same_table_upd) simp_all
  moreover have "same_table s3 s4" by (simp add: s4_def)
  moreover have "same_table s4 (set_trapframe np TF_A0 0 s4)" by simp
  moreover have "same_table (set_trapframe np TF_A0 0 s4) s5"
    by (rule foldE_invariant [OF s5]) (auto dest: dup_file_same intro: same_table_trans)
  moreover have "same_table s5 s'" unfolding s'
    by (rule same_table_trans [OF same_procs_table [OF idup_same]], rule same_table_upd) simp_all
  ultimately show "same_table s s'" by (meson same_table_trans)
qed

lemma fork_copy_view:
  fixes s :: "'a pstate_scheme"
  assumes "fork_copy K p cow s = Inr (r, s')" and len: "length (procs s) = NPROC"
  shows "case r of None \<Rightarrow> unborn s s' | Some np \<Rightarrow> born np s s'"
proof -
  obtain a s1 where s1: "allocproc K (Some p) s = Inr (a, s1)"
    and rest: "(case a of None \<Rightarrow> Inr (None, s1) | Some np \<Rightarrow> bindE (fork_memory K p np cow s1) (\<lambda>(r, s).
             if r < 0 then bindE (freeproc K (Some p) np s) (\<lambda>s. Inr (None, s))
             else bindE (fork_child p np s) (\<lambda>s. Inr (Some np, s)))) = Inr (r, s')"
    using assms(1) unfolding fork_copy_def bindE_eq_Inr by auto
  note alloc = allocproc_view [OF s1 len]
  show ?thesis
  proof (cases a)
    case None
    then show ?thesis using alloc rest by auto
  next
    case (Some np)
    then have b1: "born np s s1" using alloc by simp
    obtain k s2 where s2: "fork_memory K p np cow s1 = Inr (k, s2)"
      and rest2: "(if k < 0 then bindE (freeproc K (Some p) np s2) (\<lambda>s. Inr (None, s))
             else bindE (fork_child p np s2) (\<lambda>s. Inr (Some np, s))) = Inr (r, s')"
      using rest unfolding Some option.case bindE_eq_Inr by auto
    have b2: "born np s s2" by (rule born_same [OF b1 fork_memory_same [OF s2]])
    show ?thesis
      using rest2 born_free [OF b2 _ len] born_same [OF b2 fork_child_same] by (auto split: if_splits)
  qed
qed

subsection \<open>Waking\<close>

lemma fold_upd_proc:
  fixes s :: "'a pstate_scheme"
  assumes "n \<le> length (procs s)"
  shows "fold (\<lambda>p. upd_proc p (f p)) [0..<n] s
    = s\<lparr>procs := map (\<lambda>q. if q < n then f q (procs s ! q) else procs s ! q) [0..<length (procs s)]\<rparr>"
  using assms
proof (induction n)
  case 0
  then show ?case by (simp add: map_nth)
next
  case (Suc n)
  then have "(map (\<lambda>q. if q < n then f q (procs s ! q) else procs s ! q) [0..<length (procs s)])[n := f n (procs s ! n)]
      = map (\<lambda>q. if q < Suc n then f q (procs s ! q) else procs s ! q) [0..<length (procs s)]"
    by (intro nth_equalityI) (auto simp: nth_list_update)
  then show ?case using Suc by (simp add: upd_proc_def)
qed

lemma wakeup_eq:
  fixes s :: "'a pstate_scheme"
  assumes "length (procs s) = NPROC"
  shows "wakeup cur ch s = s\<lparr>procs := map (\<lambda>q. wake cur ch q (procs s ! q)) [0..<NPROC]\<rparr>"
  unfolding wakeup_def using fold_upd_proc [of NPROC s "wake cur ch"] assms by (simp cong: map_cong)

lemma wake_simps [simp]:
  "pr_chan (wake cur ch q x) = pr_chan x" "pr_pid (wake cur ch q x) = pr_pid x" "pr_parent (wake cur ch q x) = pr_parent x"
  "pr_state (wake cur ch q x) = (if cur \<noteq> Some q \<and> pr_state x = SLEEPING \<and> pr_chan x = ch then RUNNABLE else pr_state x)"
  by (simp_all add: wake_def)

lemma wake_idem: "wake cur ch q (wake cur ch q x) = wake cur ch q x"
  by (simp add: wake_def)

lemma wake_parent: "wake cur ch q (x\<lparr>pr_parent := y\<rparr>) = (wake cur ch q x)\<lparr>pr_parent := y\<rparr>"
  by (simp add: wake_def)

text \<open>What \<open>reparent p\<close> makes of each process.\<close>

definition adopted :: "nat \<Rightarrow> nat \<Rightarrow> 'a pstate_scheme \<Rightarrow> nat \<Rightarrow> proc" where
  "adopted n p s q = (let x = procs s ! q; x = (if q < n \<and> pr_parent x = Some p then x\<lparr>pr_parent := initproc s\<rparr> else x) in
     if \<exists>r < n. pr_parent (procs s ! r) = Some p then wake (Some p) (map_option ProcChan (initproc s)) q x else x)"

lemma adopted_Suc:
  "adopted (Suc n) p s q = (if pr_parent (procs s ! n) = Some p
     then wake (Some p) (map_option ProcChan (initproc s)) q
            (if q = n then (adopted n p s q)\<lparr>pr_parent := initproc s\<rparr> else adopted n p s q)
     else adopted n p s q)"
proof (cases "pr_parent (procs s ! n) = Some p")
  case True
  then have e: "(\<exists>r < Suc n. pr_parent (procs s ! r) = Some p) = True" by auto
  show ?thesis unfolding adopted_def Let_def e True by (simp add: less_Suc_eq True wake_parent wake_idem)
next
  case False
  then have "(\<exists>r < Suc n. pr_parent (procs s ! r) = Some p) \<longleftrightarrow> (\<exists>r < n. pr_parent (procs s ! r) = Some p)"
    by (simp add: Ex_less_Suc)
  moreover have "q < Suc n \<and> pr_parent (procs s ! q) = Some p \<longleftrightarrow> q < n \<and> pr_parent (procs s ! q) = Some p"
    using False by (auto simp: less_Suc_eq)
  ultimately show ?thesis using False by (simp add: adopted_def)
qed

lemma map_map_upt_nth: "map (\<lambda>q. g q (map f [0..<n] ! q)) [0..<n] = map (\<lambda>q. g q (f q)) [0..<n]"
  by (intro map_cong) auto

lemma reparent_eq:
  fixes s :: "'a pstate_scheme"
  assumes len: "length (procs s) = NPROC"
  shows "reparent p s = s\<lparr>procs := map (adopted NPROC p s) [0..<NPROC]\<rparr>"
proof -
  let ?f = "\<lambda>pp s :: 'a pstate_scheme. if pr_parent (procs s ! pp) = Some p
                  then wakeup (Some p) (map_option ProcChan (initproc s)) (upd_proc pp (\<lambda>x. x\<lparr>pr_parent := initproc s\<rparr>) s) else s"
  have "fold ?f [0..<n] s = s\<lparr>procs := map (adopted n p s) [0..<NPROC]\<rparr>" if "n \<le> NPROC" for n
    using that
  proof (induction n)
    case 0
    have "adopted 0 p s = (!) (procs s)" by (simp add: adopted_def fun_eq_iff)
    then show ?case using map_nth [of "procs s"] len by simp
  next
    case (Suc n)
    let ?m = "s\<lparr>procs := map (adopted n p s) [0..<NPROC]\<rparr>"
    have n: "pr_parent (adopted n p s n) = pr_parent (procs s ! n)" by (simp add: adopted_def Let_def)
    have l: "n < NPROC" using Suc.prems by simp
    have "(map (adopted n p s) [0..<NPROC])[n := (adopted n p s n)\<lparr>pr_parent := initproc s\<rparr>]
        = map (\<lambda>q. if q = n then (adopted n p s q)\<lparr>pr_parent := initproc s\<rparr> else adopted n p s q) [0..<NPROC]"
      using l by (intro nth_equalityI) (auto simp: nth_list_update)
    then have "upd_proc n (\<lambda>x. x\<lparr>pr_parent := initproc s\<rparr>) ?m
        = s\<lparr>procs := map (\<lambda>q. if q = n then (adopted n p s q)\<lparr>pr_parent := initproc s\<rparr> else adopted n p s q) [0..<NPROC]\<rparr>"
      using l by (simp add: upd_proc_def)
    then have "?f n ?m = s\<lparr>procs := map (adopted (Suc n) p s) [0..<NPROC]\<rparr>"
      using n l by (simp add: wakeup_eq adopted_Suc map_map_upt_nth)
    moreover have "fold ?f [0..<Suc n] s = ?f n (fold ?f [0..<n] s)"
      by (simp only: upt_Suc_append [OF le0] fold_append fold.simps comp_apply id_apply)
    moreover have "fold ?f [0..<n] s = ?m" using Suc.IH l by (simp only: less_imp_le)
    ultimately show ?case by (simp only:)
  qed
  from this [of NPROC] show ?thesis by (simp add: reparent_def)
qed

lemma exit_finish_eq:
  fixes s :: "'a pstate_scheme"
  assumes "exit_finish c p status s = Inr s'" and len: "length (procs s) = NPROC" and p: "p < NPROC" and par: "pr_parent (procs s ! p) \<noteq> Some p"
  shows "s' = s\<lparr>procs := (map (\<lambda>q. wake (Some p) (map_option ProcChan (pr_parent (procs s ! p))) q (adopted NPROC p s q)) [0..<NPROC])
        [p := (wake (Some p) (map_option ProcChan (pr_parent (procs s ! p))) p (adopted NPROC p s p))\<lparr>pr_xstate := status, pr_state := ZOMBIE\<rparr>],
        cpu_proc := (cpu_proc s)(c := None)\<rparr>"
proof -
  have a: "pr_parent (adopted NPROC p s p) = pr_parent (procs s ! p)" using par by (simp add: adopted_def Let_def)
  show ?thesis
    using assms(1) len p by (auto simp: exit_finish_def reparent_eq wakeup_eq sched_def upd_proc_def a map_map_upt_nth)
qed

lemma exit_finish_view:
  fixes s :: "'a pstate_scheme"
  assumes "exit_finish c p status s = Inr s'" and len: "length (procs s) = NPROC" and p: "p < NPROC" and run: "pr_state (procs s ! p) = RUNNING"
    and par: "pr_parent (procs s ! p) \<noteq> Some p"
  shows "same_ctl (s\<lparr>cpu_proc := (cpu_proc s)(c := None)\<rparr>) s'"
    and "tview_of s' = (tview_of s)\<lparr>t_par := (\<lambda>q. if t_par (tview_of s) q = Some p then initproc s else t_par (tview_of s) q),
               t_st := (\<lambda>q. if q = p then ZOMBIE else if woken (tview_of s) p q then RUNNABLE else t_st (tview_of s) q),
               t_cpu := (cpu_proc s)(c := None)\<rparr>"
proof -
  note s' = exit_finish_eq [OF assms(1) len p par]
  then show "same_ctl (s\<lparr>cpu_proc := (cpu_proc s)(c := None)\<rparr>) s'" using len by (simp add: same_ctl_def)
  show "tview_of s' = (tview_of s)\<lparr>t_par := (\<lambda>q. if t_par (tview_of s) q = Some p then initproc s else t_par (tview_of s) q),
               t_st := (\<lambda>q. if q = p then ZOMBIE else if woken (tview_of s) p q then RUNNABLE else t_st (tview_of s) q),
               t_cpu := (cpu_proc s)(c := None)\<rparr>"
    using p run by (auto simp: s' nth_list_update adopted_def Let_def woken_def intro!: tview_ext)
qed

subsection \<open>Waiting and killing\<close>

definition child :: "nat \<Rightarrow> 'a pstate_scheme \<Rightarrow> nat \<Rightarrow> bool" where
  "child p s q \<longleftrightarrow> pr_parent (procs s ! q) = Some p"

definition zombie_child :: "nat \<Rightarrow> 'a pstate_scheme \<Rightarrow> nat \<Rightarrow> bool" where
  "zombie_child p s q \<longleftrightarrow> child p s q \<and> pr_state (procs s ! q) = ZOMBIE"

lemma wait_from_eq:
  "wait_from K p addr havekids pps s =
     (case find (zombie_child p s) pps of
        None \<Rightarrow> Inr (if (havekids \<or> (\<exists>q \<in> set pps. child p s q)) \<and> \<not> killed p s then WillSleep else Returned (- 1), s)
      | Some q \<Rightarrow> bindE (wait_reap K p addr q s) (\<lambda>(r, s). Inr (Returned r, s)))"
  by (induction pps arbitrary: havekids) (auto simp: zombie_child_def child_def)

lemma wait_scan_eq:
  "wait_scan K p addr s =
     (case find (zombie_child p s) [0..<NPROC] of
        None \<Rightarrow> Inr (if (\<exists>q < NPROC. child p s q) \<and> \<not> killed p s then WillSleep else Returned (- 1), s)
      | Some q \<Rightarrow> bindE (wait_reap K p addr q s) (\<lambda>(r, s). Inr (Returned r, s)))"
proof -
  have "(\<exists>q \<in> set [0..<NPROC]. child p s q) \<longleftrightarrow> (\<exists>q < NPROC. child p s q)" by auto
  then show ?thesis unfolding wait_scan_def wait_from_eq by (simp only: simp_thms)
qed

lemma wait_reap_view:
  fixes s :: "'a pstate_scheme"
  assumes "wait_reap K p addr q s = Inr (r, s')" and len: "length (procs s) = NPROC" "q < NPROC"
  shows "same_table s s' \<and> r = - 1 \<or> same_ctl s s' \<and> r = pr_pid (procs s ! q)
    \<and> tview_of s' = (tview_of s)\<lparr>t_st := (t_st (tview_of s))(q := UNUSED), t_pid := (t_pid (tview_of s))(q := 0),
           t_par := (t_par (tview_of s))(q := None), t_ch := (t_ch (tview_of s))(q := None)\<rparr>"
proof -
  obtain k m where rest: "(if k < (0 :: int) then Inr (- 1, s\<lparr>fs_mach := m\<rparr>)
      else bindE (freeproc K (Some p) q (s\<lparr>fs_mach := m\<rparr>)) (\<lambda>t. Inr (pr_pid (procs s ! q), t))) = Inr (r, s')"
    using assms(1) unfolding wait_reap_def Let_def bindE_eq_Inr by auto
  have m: "same_table s (s\<lparr>fs_mach := m\<rparr>)" by simp
  show ?thesis
  proof (cases "k < 0")
    case True
    then show ?thesis using rest m by auto
  next
    case False
    then have f: "freeproc K (Some p) q (s\<lparr>fs_mach := m\<rparr>) = Inr s'" "r = pr_pid (procs s ! q)" using rest by auto
    note v = freeproc_view [OF f(1) len(2)]
    have "tview_of (s\<lparr>fs_mach := m\<rparr>) = tview_of s" "same_ctl s (s\<lparr>fs_mach := m\<rparr>)" using m by (simp_all add: same_table_def)
    then show ?thesis using v len(1) f(2) by (simp add: same_ctl_def)
  qed
qed

lemma kill_view:
  fixes s :: "'a pstate_scheme"
  assumes "length (procs s) = NPROC"
  shows "same_ctl s (snd (kill pid s))"
    and "\<exists>W \<subseteq> {q. t_st (tview_of s) q = SLEEPING}. tview_of (snd (kill pid s)) = (tview_of s)\<lparr>t_st := (\<lambda>q. if q \<in> W then RUNNABLE else t_st (tview_of s) q)\<rparr>"
proof -
  show "same_ctl s (snd (kill pid s))" by (auto simp: kill_def same_ctl_def split: option.splits)
  show "\<exists>W \<subseteq> {q. t_st (tview_of s) q = SLEEPING}. tview_of (snd (kill pid s)) = (tview_of s)\<lparr>t_st := (\<lambda>q. if q \<in> W then RUNNABLE else t_st (tview_of s) q)\<rparr>"
  proof (cases "find (\<lambda>p. pr_pid (procs s ! p) = pid) [0..<NPROC]")
    case None
    then show ?thesis by (intro exI [of _ "{}"]) (auto simp: kill_def intro!: tview_ext)
  next
    case (Some p)
    note p = find_upt_Some [OF Some]
    show ?thesis
      by (rule exI [of _ "{q. q = p \<and> pr_state (procs s ! p) = SLEEPING}"])
        (use p(1) assms in \<open>auto simp: kill_def Some nth_list_update intro!: tview_ext\<close>)
  qed
qed

lemma wakeup_view:
  fixes s :: "'a pstate_scheme"
  assumes "length (procs s) = NPROC"
  shows "same_ctl s (wakeup cur ch s)"
    and "tview_of (wakeup cur ch s) = (tview_of s)\<lparr>t_st := (\<lambda>q. if q \<in> {q. cur \<noteq> Some q \<and> t_st (tview_of s) q = SLEEPING \<and> t_ch (tview_of s) q = ch}
      then RUNNABLE else t_st (tview_of s) q)\<rparr>"
  using assms by (auto simp: wakeup_eq same_ctl_def intro!: tview_ext)

subsection \<open>Closing files\<close>

lemma begin_op_same:
  fixes s :: "'a pstate_scheme"
  shows "begin_op s = Inr s' \<Longrightarrow> same_procs s s'"
  by (intro fs_same_procs) (simp add: begin_op_frame)

lemma end_op_same:
  fixes s :: "'a pstate_scheme"
  shows "end_op pid s = Inr s' \<Longrightarrow> same_procs s s'"
  by (intro fs_same_procs) (simp add: end_op_frame)

lemma iput_same:
  fixes s :: "'a pstate_scheme"
  shows "iput pid ip s = Inr s' \<Longrightarrow> same_procs s s'"
  by (intro fs_same_procs) (simp add: iput_fs_more)

lemma close_last_same:
  fixes s :: "'a pstate_scheme"
  assumes "close_last kend pid ff s = Inr s'"
  shows "same_procs s s'"
proof -
  have p: "same_procs s (s\<lparr>pipes := ps\<rparr>)" "same_procs s (s\<lparr>pipes := ps, fs_mach := m\<rparr>)" for ps m by (simp_all add: same_procs_def same_ctl_def)
  show ?thesis
    using assms p unfolding close_last_def
    by (auto simp: Let_def split: if_splits prod.splits dest!: begin_op_same iput_same end_op_same intro: same_procs_trans)
qed

lemma fileclose_same:
  fixes s :: "'a pstate_scheme"
  assumes "fileclose kend pid f s = Inr s'"
  shows "same_procs s s'"
proof -
  have u: "same_procs t (upd_file g h t)" for g h and t :: "'a pstate_scheme" by (simp add: upd_file_def same_procs_def same_ctl_def)
  let ?t = "upd_file f (\<lambda>x. x\<lparr>f_ref := f_ref x - 1\<rparr>) s"
  let ?u = "upd_file f (\<lambda>x. x\<lparr>f_ref := 0, f_type := FD_NONE\<rparr>) ?t"
  have "s' = ?t \<or> close_last kend pid (ftable ?t ! f) ?u = Inr s'"
    using assms unfolding fileclose_def Let_def by (simp only: split: if_splits) simp_all
  moreover have t: "same_procs s ?t" by (rule u)
  moreover have "same_procs s ?u" by (rule same_procs_trans [OF t u])
  ultimately show ?thesis using same_procs_trans [OF _ close_last_same] by blast
qed

lemma exit_files_same:
  fixes s :: "'a pstate_scheme"
  assumes "exit_files K p s = Inr s'"
  shows "same_table s s'" "initproc s \<noteq> Some p"
proof -
  obtain s1 s2 ip s3 s4 where s1: "foldE (exit_file K p) [0..<NOFILE] s = Inr s1" and s2: "begin_op s1 = Inr s2"
    and ip: "pr_cwd (procs s2 ! p) = Some ip" and s3: "iput (pr_pid (procs s2 ! p)) ip s2 = Inr s3"
    and s4: "end_op (pr_pid (procs s3 ! p)) s3 = Inr s4" and s': "s' = upd_proc p (\<lambda>x. x\<lparr>pr_cwd := None\<rparr>) s4"
    and "initproc s \<noteq> Some p"
    using assms by (auto simp: exit_files_def split: if_splits option.splits)
  then show "initproc s \<noteq> Some p" by simp
  have one: "same_table t t'" if t: "exit_file K p fd t = Inr t'" for fd and t t' :: "'a pstate_scheme"
  proof (cases "pr_ofile (procs t ! p) ! fd")
    case None
    then show ?thesis using t by (simp add: exit_file_def)
  next
    case (Some f)
    then obtain u where u: "fileclose (k_end K) (pr_pid (procs t ! p)) f t = Inr u" "t' = upd_proc p (\<lambda>x. x\<lparr>pr_ofile := (pr_ofile x)[fd := None]\<rparr>) u"
      using t by (auto simp: exit_file_def)
    have "same_table t u" "same_table u t'" using same_procs_table [OF fileclose_same [OF u(1)]] u(2) by (simp_all add: same_table_upd)
    then show ?thesis by (rule same_table_trans)
  qed
  have "same_table s s1" by (rule foldE_invariant [OF s1]) (auto dest: one intro: same_table_trans)
  moreover have "same_table s1 s2" "same_table s2 s3" "same_table s3 s4"
    using s2 s3 s4 by (auto intro: same_procs_table begin_op_same iput_same end_op_same)
  moreover have "same_table s4 s'" unfolding s' by (rule same_table_upd) simp_all
  ultimately show "same_table s s'" by (meson same_table_trans)
qed

subsection \<open>The steps of the kernel\<close>

inductive kstep :: "kimage \<Rightarrow> pstate \<Rightarrow> pstate \<Rightarrow> bool" for K where
  visit: "c < NCPU \<Longrightarrow> cpu_proc s c = None \<Longrightarrow> kstep K s (scheduler_visit c s)"
| yield: "cpu_proc s c = Some p \<Longrightarrow> wait_lock s \<noteq> Some p \<Longrightarrow> yield_cpu c p s = Inr s' \<Longrightarrow> kstep K s s'"
| sleep: "cpu_proc s c = Some p \<Longrightarrow> wait_lock s \<noteq> Some p \<Longrightarrow> sleep_on c p (AddrChan a) s = Inr s' \<Longrightarrow> kstep K s s'"
| sleep_returns: "cpu_proc s c = Some p \<Longrightarrow> kstep K s (sleep_done p s)"
| wakes: "kstep K s (wakeup (cpu_proc s c) (Some (AddrChan a)) s)"
| kills: "cpu_proc s c = Some p \<Longrightarrow> kstep K s (snd (kill pid s))"
| kills_self: "cpu_proc s c = Some p \<Longrightarrow> kstep K s (setkilled p s)"
| fork_copies: "cpu_proc s c = Some p \<Longrightarrow> kphases s p = User \<Longrightarrow> fork_copy K p cow s = Inr (Some np, s') \<Longrightarrow>
    kstep K s (set_kphase p (Forked np) s')"
| fork_fails: "cpu_proc s c = Some p \<Longrightarrow> kphases s p = User \<Longrightarrow> fork_copy K p cow s = Inr (None, s') \<Longrightarrow> kstep K s s'"
| fork_links: "cpu_proc s c = Some p \<Longrightarrow> kphases s p = Forked np \<Longrightarrow> wait_lock s = None \<Longrightarrow>
    kstep K s (set_kphase p (Linked np) (fork_link p np s))"
| fork_starts: "cpu_proc s c = Some p \<Longrightarrow> kphases s p = Linked np \<Longrightarrow> kstep K s (set_kphase p User (fork_start np s))"
| exit_begins: "cpu_proc s c = Some p \<Longrightarrow> kphases s p = User \<Longrightarrow> exit_files K p s = Inr s' \<Longrightarrow> kstep K s (set_kphase p Exiting s')"
| exit_ends: "cpu_proc s c = Some p \<Longrightarrow> kphases s p = Exiting \<Longrightarrow> wait_lock s = None \<Longrightarrow> exit_finish c p status s = Inr s' \<Longrightarrow>
    kstep K s (set_kphase p User s')"
| wait_begins: "cpu_proc s c = Some p \<Longrightarrow> kphases s p = User \<Longrightarrow> wait_lock s = None \<Longrightarrow>
    kstep K s (set_kphase p Scanning (s\<lparr>wait_lock := Some p\<rparr>))"
| wait_returns: "cpu_proc s c = Some p \<Longrightarrow> kphases s p = Scanning \<Longrightarrow> wait_scan K p addr s = Inr (Returned r, s') \<Longrightarrow>
    kstep K s (set_kphase p User (s'\<lparr>wait_lock := None\<rparr>))"
| wait_commits: "cpu_proc s c = Some p \<Longrightarrow> kphases s p = Scanning \<Longrightarrow> wait_scan K p addr s = Inr (WillSleep, s') \<Longrightarrow>
    kstep K s (set_kphase p Sleepy s')"
| wait_sleeps: "cpu_proc s c = Some p \<Longrightarrow> kphases s p = Sleepy \<Longrightarrow> sleep_on c p (ProcChan p) (s\<lparr>wait_lock := None\<rparr>) = Inr s' \<Longrightarrow>
    kstep K s (set_kphase p Asleep s')"
| wait_resumes: "cpu_proc s c = Some p \<Longrightarrow> kphases s p = Asleep \<Longrightarrow> wait_lock s = None \<Longrightarrow>
    kstep K s (set_kphase p Scanning ((sleep_done p s)\<lparr>wait_lock := Some p\<rparr>))"
| others: "same_table s s' \<Longrightarrow> kstep K s s'"

text \<open>The invariant of the process table, and with it that the process numbers are fresh.\<close>

definition ctl_inv :: "pstate \<Rightarrow> bool" where
  "ctl_inv s \<longleftrightarrow> length (procs s) = NPROC \<and> (\<forall>c. sched_pos s c < NPROC) \<and> tinv (tview_of s)"

definition sys_inv :: "pstate \<Rightarrow> bool" where
  "sys_inv s \<longleftrightarrow> ctl_inv s \<and> pid_fresh (tview_of s)"

lemma sys_ctl: "sys_inv s \<Longrightarrow> ctl_inv s"
  by (simp add: sys_inv_def)

lemma set_kphase_view [simp]: "tview_of (set_kphase p ph s) = (tview_of s)\<lparr>t_ph := (kphases s)(p := ph)\<rparr>"
  by (rule tview_ext) (auto simp: set_kphase_def)

lemma set_kphase_simps [simp]: "procs (set_kphase p ph s) = procs s" "sched_pos (set_kphase p ph s) = sched_pos s"
  by (simp_all add: set_kphase_def)

lemma wait_lock_view [simp]: "tview_of (s\<lparr>wait_lock := l\<rparr>) = (tview_of s)\<lparr>t_lock := l\<rparr>"
  by (rule tview_ext) auto

lemma unborn_view:
  assumes "unborn s s'" "tinv (tview_of s)"
  shows "tmoves (tview_of s) (tview_of s')"
proof (cases "s' = s")
  case False
  then obtain np where np: "np < NPROC" "pr_state (procs s ! np) = UNUSED"
    and v: "tview_of s' = (tview_of s)\<lparr>t_st := (t_st (tview_of s))(np := UNUSED), t_pid := (t_pid (tview_of s))(np := 0),
           t_par := (t_par (tview_of s))(np := None), t_ch := (t_ch (tview_of s))(np := None), t_next := pid_succ (nextpid s)\<rparr>"
    using assms(1) by (auto simp: unborn_def)
  have u: "t_st (tview_of s) np = UNUSED" using np by simp
  then have "t_pid (tview_of s) np = 0" "t_par (tview_of s) np = None"
    using assms(2) np(1) unfolding tinv_def pid_ok_def family_ok_def by (metis, metis)
  then have "tview_of s' = (tview_of s)\<lparr>t_next := pid_succ (t_next (tview_of s)), t_ch := (t_ch (tview_of s))(np := None)\<rparr>"
    using np unfolding v by (intro tview_ext) auto
  then show ?thesis using tmoves_one [OF tstep.forks_not [OF np(1) u]] by simp
qed simp

definition keeps_sys :: "pstate \<Rightarrow> pstate \<Rightarrow> bool" where
  "keeps_sys s s' \<longleftrightarrow> length (procs s') = length (procs s) \<and> (\<forall>c. sched_pos s' c = sched_pos s c \<or> sched_pos s' c < NPROC)"

lemma same_ctl_sys: "same_ctl s s' \<Longrightarrow> keeps_sys s s'"
  by (simp add: same_ctl_def keeps_sys_def)

text \<open>Every step of the kernel is a run of the protocol (of at most two steps).\<close>

lemma kstep_view:
  assumes "kstep K s s'" and inv: "ctl_inv s"
  shows "tmoves (tview_of s) (tview_of s') \<and> keeps_sys s s'"
proof -
  have len: "length (procs s) = NPROC" and t: "tinv (tview_of s)" and pos: "\<And>c. sched_pos s c < NPROC" using inv by (auto simp: ctl_inv_def)
  have one: "tmoves (tview_of s) (tview_of u) \<and> keeps_sys s u" if "tstep (tview_of s) t'" "tview_of u = t'" "keeps_sys s u" for t' u
    using that by (auto intro: tmoves_one)
  have run: "p < NPROC \<and> pr_state (procs s ! p) = RUNNING" "runs (tview_of s) c p" if "cpu_proc s c = Some p" for c p
  proof -
    show r: "runs (tview_of s) c p" using that by (simp add: runs_def)
    then have "t_st (tview_of s) p = RUNNING" "p < NPROC" using t unfolding tinv_def cpu_ok_def by blast+
    then show "p < NPROC \<and> pr_state (procs s ! p) = RUNNING" by simp
  qed
  have npz: "0 < NPROC" by (simp add: NPROC_def)
  show ?thesis
    using assms(1)
  proof cases
    case (visit c)
    let ?p = "sched_pos s c"
    show ?thesis
    proof (cases "is_runnable ?p s")
      case True
      have "keeps_sys s s'" using visit True npz by (auto simp: keeps_sys_def scheduler_visit_def Let_def is_runnable_def)
      then show ?thesis
        using visit True pos [of c] len npz
        by (intro one [OF tstep.dispatch [where c = c and p = ?p]])
          (auto simp: scheduler_visit_def Let_def is_runnable_def nth_list_update intro!: tview_ext)
    next
      case False
      then have "tview_of s' = tview_of s" using visit by (auto simp: scheduler_visit_def Let_def is_runnable_def intro!: tview_ext)
      then show ?thesis using visit False npz by (auto simp: keeps_sys_def scheduler_visit_def Let_def is_runnable_def)
    qed
  next
    case (yield c p)
    show ?thesis
      by (rule one [OF tstep.preempt [OF run(2) [OF yield(1)]]])
        (use yield run(1) [OF yield(1)] len in \<open>auto simp: yield_cpu_def sched_def keeps_sys_def nth_list_update split: if_splits intro!: tview_ext\<close>)
  next
    case (sleep c p a)
    show ?thesis
      by (rule one [OF tstep.block [OF run(2) [OF sleep(1)], where a = a]])
        (use sleep run(1) [OF sleep(1)] len in \<open>auto simp: sleep_on_def sched_def keeps_sys_def nth_list_update split: if_splits intro!: tview_ext\<close>)
  next
    case (sleep_returns c p)
    show ?thesis
      by (rule one [OF tstep.tidy [OF run(2) [OF sleep_returns(2)]]])
        (use sleep_returns run(1) [OF sleep_returns(2)] len in \<open>auto simp: sleep_done_def keeps_sys_def nth_list_update intro!: tview_ext\<close>)
  next
    case (wakes c a)
    show ?thesis unfolding wakes(1)
      by (rule one [OF tstep.wake wakeup_view(2) [OF len]]) (use wakeup_view(1) [OF len] same_ctl_sys in auto)
  next
    case (kills c p pid)
    obtain W where "W \<subseteq> {q. t_st (tview_of s) q = SLEEPING}"
      "tview_of s' = (tview_of s)\<lparr>t_st := (\<lambda>q. if q \<in> W then RUNNABLE else t_st (tview_of s) q)\<rparr>"
      using kill_view(2) [OF len, of pid] kills(1) by blast
    then show ?thesis using one [OF tstep.wake] kill_view(1) [OF len] same_ctl_sys kills(1) by blast
  next
    case (kills_self c p)
    then have "same_table s s'" using same_table_upd [of "\<lambda>x. x\<lparr>pr_killed := True\<rparr>" s p] by (simp add: setkilled_def)
    then show ?thesis by (simp add: same_table_def same_ctl_sys)
  next
    case (fork_copies c p cow np u)
    have b: "born np s u" using fork_copy_view [OF fork_copies(4) len] by simp
    then have u: "np < NPROC" "t_st (tview_of s) np = UNUSED" "kphases u = kphases s" by (auto simp: born_def same_ctl_def)
    have ph: "t_ph (tview_of s) p = User" using fork_copies by simp
    show ?thesis
      by (rule one [OF tstep.forks [OF run(2) [OF fork_copies(2)] ph u(1,2)]])
        (use b u(3) in \<open>auto simp: fork_copies(1) born_def keeps_sys_def same_ctl_def\<close>)
  next
    case (fork_fails c p cow)
    have b: "unborn s s'" using fork_copy_view [OF fork_fails(3) len] by simp
    moreover have "keeps_sys s s'" using b by (auto simp: unborn_def keeps_sys_def same_ctl_def)
    ultimately show ?thesis using unborn_view t by blast
  next
    case (fork_links c p np)
    have ph: "forking (tview_of s) p np" using fork_links by (simp add: forking_def)
    then have "np < NPROC" using t unfolding tinv_def phase_ok_def by blast
    then show ?thesis
      by (intro one [OF tstep.links [OF run(2) [OF fork_links(2)], of np]])
        (use fork_links len in \<open>auto simp: fork_link_def keeps_sys_def nth_list_update intro!: tview_ext\<close>)
  next
    case (fork_starts c p np)
    have ph: "forking (tview_of s) p np" using fork_starts by (simp add: forking_def)
    then have "np < NPROC" using t unfolding tinv_def phase_ok_def by blast
    then show ?thesis
      by (intro one [OF tstep.starts [OF run(2) [OF fork_starts(2)], of np]])
        (use fork_starts len in \<open>auto simp: fork_start_def keeps_sys_def nth_list_update intro!: tview_ext\<close>)
  next
    case (exit_begins c p u)
    note u = exit_files_same [OF exit_begins(4)]
    have "t_ph (tview_of s) p = User" "t_init (tview_of s) \<noteq> Some p" using exit_begins(3) u(2) by auto
    then show ?thesis
      by (intro one [OF tstep.exits [OF run(2) [OF exit_begins(2)]]])
        (use u(1) in \<open>auto simp: exit_begins(1) same_table_def same_ctl_def keeps_sys_def\<close>)
  next
    case (exit_ends c p status u)
    have p: "p < NPROC" "pr_state (procs s ! p) = RUNNING" using run(1) [OF exit_ends(2)] by simp_all
    have "t_par (tview_of s) p \<noteq> Some p" using t p(1) unfolding tinv_def family_ok_def by blast
    then have "pr_parent (procs s ! p) \<noteq> Some p" using p by simp
    note v = exit_finish_view [OF exit_ends(5) len p this]
    have k: "kphases u = kphases s" "t_ph (tview_of s) p = Exiting" "t_lock (tview_of s) = None" using v(1) exit_ends by (auto simp: same_ctl_def)
    show ?thesis
      by (rule one [OF tstep.dies [OF run(2) [OF exit_ends(2)] k(2,3)]])
        (use v k(1) in \<open>auto simp: exit_ends(1) keeps_sys_def same_ctl_def intro!: tview_ext\<close>)
  next
    case (wait_begins c p)
    show ?thesis
      by (rule one [OF tstep.waits [OF run(2) [OF wait_begins(2)]]]) (use wait_begins in \<open>auto simp: keeps_sys_def\<close>)
  next
    case (wait_returns c p addr r u)
    have ph: "t_ph (tview_of s) p = Scanning" using wait_returns by simp
    note gives_up = one [OF tstep.gives_up [OF run(2) [OF wait_returns(2)] ph]]
    show ?thesis
    proof (cases "find (zombie_child p s) [0..<NPROC]")
      case None
      then have "u = s" using wait_returns(4) unfolding wait_scan_eq by (auto split: if_splits)
      then show ?thesis by (intro gives_up) (auto simp: wait_returns(1) keeps_sys_def)
    next
      case (Some q)
      note q = find_upt_Some [OF Some]
      have "wait_reap K p addr q s = Inr (r, u)" using wait_returns(4) Some unfolding wait_scan_eq by auto
      note v = wait_reap_view [OF this len q(1)]
      have z: "t_par (tview_of s) q = Some p" "t_st (tview_of s) q = ZOMBIE" using q by (auto simp: zombie_child_def child_def)
      note reaps = one [OF tstep.reaps [OF run(2) [OF wait_returns(2)] ph q(1) z]]
      from v show ?thesis
      proof (elim disjE conjE)
        assume "same_table s u"
        then show ?thesis by (intro gives_up) (auto simp: wait_returns(1) keeps_sys_def same_table_def same_ctl_def)
      next
        assume "same_ctl s u" "tview_of u = (tview_of s)\<lparr>t_st := (t_st (tview_of s))(q := UNUSED), t_pid := (t_pid (tview_of s))(q := 0),
           t_par := (t_par (tview_of s))(q := None), t_ch := (t_ch (tview_of s))(q := None)\<rparr>"
        then show ?thesis by (intro reaps) (auto simp: wait_returns(1) keeps_sys_def same_ctl_def)
      qed
    qed
  next
    case (wait_commits c p addr u)
    have ph: "t_ph (tview_of s) p = Scanning" using wait_commits by simp
    have none: "find (zombie_child p s) [0..<NPROC] = None" using wait_commits(4) unfolding wait_scan_eq by (auto split: option.splits)
    then have u: "u = s" "\<exists>q < NPROC. child p s q" using wait_commits(4) unfolding wait_scan_eq by (auto split: if_splits)
    then obtain r where r: "r < NPROC" "t_par (tview_of s) r = Some p" by (auto simp: child_def)
    have "\<forall>q < NPROC. t_par (tview_of s) q = Some p \<longrightarrow> t_st (tview_of s) q \<noteq> ZOMBIE"
      using none by (auto simp: find_None_iff zombie_child_def child_def)
    then show ?thesis
      by (intro one [OF tstep.commits [OF run(2) [OF wait_commits(2)] ph r]]) (auto simp: wait_commits(1) u(1) keeps_sys_def)
  next
    case (wait_sleeps c p u)
    have ph: "t_ph (tview_of s) p = Sleepy" using wait_sleeps by simp
    have "u = (upd_proc p (\<lambda>x. x\<lparr>pr_chan := Some (ProcChan p), pr_state := SLEEPING\<rparr>) (s\<lparr>wait_lock := None\<rparr>))\<lparr>cpu_proc := (cpu_proc s)(c := None)\<rparr>"
      using wait_sleeps(4) by (auto simp: sleep_on_def sched_def split: if_splits)
    then show ?thesis
      by (intro one [OF tstep.sleeps [OF run(2) [OF wait_sleeps(2)] ph]])
        (use run(1) [OF wait_sleeps(2)] len in \<open>auto simp: wait_sleeps(1) keeps_sys_def nth_list_update intro!: tview_ext\<close>)
  next
    case (wait_resumes c p)
    let ?t = "(tview_of s)\<lparr>t_ch := (t_ch (tview_of s))(p := None)\<rparr>"
    have "tstep (tview_of s) ?t" by (rule tstep.tidy [OF run(2) [OF wait_resumes(2)]])
    moreover have "tstep ?t (?t\<lparr>t_lock := Some p, t_ph := (t_ph ?t)(p := Scanning)\<rparr>)"
      by (rule tstep.waits [where c = c]) (use wait_resumes in \<open>auto simp: runs_def\<close>)
    moreover have "tview_of s' = ?t\<lparr>t_lock := Some p, t_ph := (t_ph ?t)(p := Scanning)\<rparr>"
      using wait_resumes run(1) [OF wait_resumes(2)] len by (auto simp: sleep_done_def nth_list_update intro!: tview_ext)
    ultimately have "tmoves (tview_of s) (tview_of s')" by (metis (no_types, lifting) tmoves_two tview.select_convs(5) tview.surjective tview.update_convs(2))
    then show ?thesis using wait_resumes by (simp add: keeps_sys_def sleep_done_def)
  next
    case (others)
    then show ?thesis by (simp add: same_table_def same_ctl_sys)
  qed
qed

lemma kstep_inv: "kstep K s s' \<Longrightarrow> ctl_inv s \<Longrightarrow> ctl_inv s'"
proof -
  assume k: "kstep K s s'" and inv: "ctl_inv s"
  have v: "tmoves (tview_of s) (tview_of s')" "keeps_sys s s'" using kstep_view [OF k inv] by auto
  moreover have "tinv (tview_of s')" using tmoves_inv [OF v(1)] inv by (simp add: ctl_inv_def)
  moreover have "sched_pos s' c < NPROC" for c using v(2) inv unfolding keeps_sys_def ctl_inv_def by metis
  ultimately show ?thesis using inv by (simp add: ctl_inv_def keeps_sys_def)
qed

lemma ksteps_inv: "(kstep K)\<^sup>*\<^sup>* s s' \<Longrightarrow> ctl_inv s \<Longrightarrow> ctl_inv s'"
  by (induction rule: rtranclp_induct) (auto intro: kstep_inv)

text \<open>A step after which \<open>nextpid\<close> has not wrapped around.\<close>

definition no_wrap :: "pstate \<Rightarrow> pstate \<Rightarrow> bool" where
  "no_wrap s s' \<longleftrightarrow> nextpid s \<le> nextpid s'"

lemma kstep_sys_inv: "kstep K s s' \<Longrightarrow> no_wrap s s' \<Longrightarrow> sys_inv s \<Longrightarrow> sys_inv s'"
  using kstep_view [of K s s'] kstep_inv [of K s s'] tmoves_fresh [of "tview_of s" "tview_of s'"]
  by (simp add: sys_inv_def ctl_inv_def no_wrap_def)

lemma ksteps_sys_inv: "(\<lambda>s s'. kstep K s s' \<and> no_wrap s s')\<^sup>*\<^sup>* s s' \<Longrightarrow> sys_inv s \<Longrightarrow> sys_inv s'"
  by (induction rule: rtranclp_induct) (auto intro: kstep_sys_inv)

subsection \<open>Booting\<close>

text \<open>The process table as the loader leaves it (zero), after \<open>procinit\<close>, with every hart in its scheduler.\<close>

definition boot_ok :: "'a pstate_scheme \<Rightarrow> bool" where
  "boot_ok s \<longleftrightarrow> length (procs s) = NPROC \<and> nextpid s = 1 \<and> wait_lock s = None \<and> cpu_proc s = (\<lambda>_. None) \<and> sched_pos s = (\<lambda>_. 0)
     \<and> kphases s = (\<lambda>_. User)
     \<and> (\<forall>x \<in> set (procs s). pr_state x = UNUSED \<and> pr_pid x = 0 \<and> pr_parent x = None \<and> pr_chan x = None)"

lemma skip_slash: "skipelem [SLASH] name = None"
  by (simp add: skipelem_def)

lemma iget_same:
  fixes s :: "'a pstate_scheme"
  assumes "iget dev inum s = Inr (ip, s')"
  shows "same_procs s s'"
  by (rule fs_same_procs) (use assms in \<open>auto simp: iget_def split: option.splits\<close>)

lemma namei_root:
  fixes s :: "'a pstate_scheme"
  shows "namei pid cwd [SLASH] s = bindE (iget ROOTDEV ROOTINO s) (\<lambda>(ip, s). Inr (Some ip, s))"
  by (cases "iget ROOTDEV ROOTINO s") (auto simp: namei_def namex_def namex_from.simps skip_slash)

lemma userinit_view:
  fixes s :: "'a pstate_scheme"
  assumes "userinit K s = Inr s'" and boot: "boot_ok s"
  obtains p where "p < NPROC" "length (procs s') = NPROC" "sched_pos s' = sched_pos s"
    "tview_of s' = (tview_of s)\<lparr>t_st := (t_st (tview_of s))(p := RUNNABLE), t_pid := (t_pid (tview_of s))(p := 1), t_next := 2, t_init := Some p\<rparr>"
proof -
  have len: "length (procs s) = NPROC" using boot by (simp add: boot_ok_def)
  obtain p s1 where s1: "allocproc K None s = Inr (Some p, s1)"
    and rest: "bindE (in_vm None (uvmfirst (pr_pagetable (procs s1 ! p)) (k_initcode K) 52) (s1\<lparr>initproc := Some p\<rparr>)) (\<lambda>s.
             let s = upd_proc p (\<lambda>x. x\<lparr>pr_sz := PGSIZE\<rparr>) s; s = set_trapframe p TF_EPC 0 s; s = set_trapframe p TF_SP PGSIZE s;
                 s = upd_proc p (\<lambda>x. x\<lparr>pr_name := copy_name [0x69,0x6e,0x69,0x74,0x63,0x6f,0x64,0x65,0] (pr_name x)\<rparr>) s in
             bindE (namei 0 0 [SLASH] s) (\<lambda>(cwd, s).
               Inr (upd_proc p (\<lambda>x. x\<lparr>pr_cwd := cwd, pr_state := RUNNABLE\<rparr>) s))) = Inr s'"
    using assms(1) by (auto simp: userinit_def split: option.splits)
  have b: "born p s s1" using allocproc_view [OF s1 len] by simp
  define t1 where "t1 = s1\<lparr>initproc := Some p\<rparr>"
  obtain s2 where s2: "in_vm None (uvmfirst (pr_pagetable (procs s1 ! p)) (k_initcode K) 52) t1 = Inr s2"
    and rest2: "bindE (namei 0 0 [SLASH] (upd_proc p (\<lambda>x. x\<lparr>pr_name := copy_name [0x69,0x6e,0x69,0x74,0x63,0x6f,0x64,0x65,0] (pr_name x)\<rparr>)
       (set_trapframe p TF_SP PGSIZE (set_trapframe p TF_EPC 0 (upd_proc p (\<lambda>x. x\<lparr>pr_sz := PGSIZE\<rparr>) s2)))))
     (\<lambda>(cwd, s). Inr (upd_proc p (\<lambda>x. x\<lparr>pr_cwd := cwd, pr_state := RUNNABLE\<rparr>) s)) = Inr s'"
    using rest unfolding bindE_eq_Inr [of "in_vm _ _ _"] t1_def [symmetric] Let_def by blast
  define s3 where "s3 = upd_proc p (\<lambda>x. x\<lparr>pr_name := copy_name [0x69,0x6e,0x69,0x74,0x63,0x6f,0x64,0x65,0] (pr_name x)\<rparr>)
       (set_trapframe p TF_SP PGSIZE (set_trapframe p TF_EPC 0 (upd_proc p (\<lambda>x. x\<lparr>pr_sz := PGSIZE\<rparr>) s2)))"
  obtain ip s4 where s4: "iget ROOTDEV ROOTINO s3 = Inr (ip, s4)" and s': "s' = upd_proc p (\<lambda>x. x\<lparr>pr_cwd := Some ip, pr_state := RUNNABLE\<rparr>) s4"
    using rest2 unfolding s3_def [symmetric] namei_root by auto
  have "same_table t1 s2" using in_vm_same [OF s2] by (rule same_procs_table)
  moreover have "same_table s2 (upd_proc p (\<lambda>x. x\<lparr>pr_sz := PGSIZE\<rparr>) s2)" by (rule same_table_upd) simp_all
  moreover have "same_table (upd_proc p (\<lambda>x. x\<lparr>pr_sz := PGSIZE\<rparr>) s2) (set_trapframe p TF_EPC 0 (upd_proc p (\<lambda>x. x\<lparr>pr_sz := PGSIZE\<rparr>) s2))"
    "same_table (set_trapframe p TF_EPC 0 (upd_proc p (\<lambda>x. x\<lparr>pr_sz := PGSIZE\<rparr>) s2))
       (set_trapframe p TF_SP PGSIZE (set_trapframe p TF_EPC 0 (upd_proc p (\<lambda>x. x\<lparr>pr_sz := PGSIZE\<rparr>) s2)))" by simp_all
  moreover have "same_table (set_trapframe p TF_SP PGSIZE (set_trapframe p TF_EPC 0 (upd_proc p (\<lambda>x. x\<lparr>pr_sz := PGSIZE\<rparr>) s2))) s3"
    unfolding s3_def by (rule same_table_upd) simp_all
  moreover have "same_table s3 s4" using iget_same [OF s4] by (rule same_procs_table)
  ultimately have st: "same_table t1 s4" by (meson same_table_trans)
  have t1: "tview_of t1 = (tview_of s1)\<lparr>t_init := Some p\<rparr>" by (auto simp: t1_def intro!: tview_ext)
  have v: "tview_of s4 = (tview_of s)\<lparr>t_st := (t_st (tview_of s))(p := USED), t_pid := (t_pid (tview_of s))(p := 1), t_next := 2, t_init := Some p\<rparr>"
    using st b boot unfolding same_table_def t1 by (simp add: born_def boot_ok_def)
  have c: "p < NPROC" "length (procs s4) = NPROC" "sched_pos s4 = sched_pos s"
    using st b len by (auto simp: same_table_def same_ctl_def born_def t1_def)
  have "tview_of s' = (tview_of s4)\<lparr>t_st := (t_st (tview_of s4))(p := RUNNABLE)\<rparr>"
    using c(1,2) by (auto simp: s' nth_list_update intro!: tview_ext)
  then have "tview_of s' = (tview_of s)\<lparr>t_st := (t_st (tview_of s))(p := RUNNABLE), t_pid := (t_pid (tview_of s))(p := 1), t_next := 2, t_init := Some p\<rparr>"
    unfolding v by simp
  then show ?thesis using that c by (simp add: s')
qed

lemma userinit_inv:
  fixes s :: pstate
  assumes "userinit K s = Inr s'" and boot: "boot_ok s"
  shows "sys_inv s'"
proof -
  obtain p where p: "p < NPROC" "length (procs s') = NPROC" "sched_pos s' = sched_pos s"
    and v: "tview_of s' = (tview_of s)\<lparr>t_st := (t_st (tview_of s))(p := RUNNABLE), t_pid := (t_pid (tview_of s))(p := 1), t_next := 2, t_init := Some p\<rparr>"
    by (rule userinit_view [OF assms])
  have x: "pr_state (procs s ! q) = UNUSED" "pr_pid (procs s ! q) = 0" "pr_parent (procs s ! q) = None" "pr_chan (procs s ! q) = None" if "q < NPROC" for q
    using boot that by (auto simp: boot_ok_def)
  let ?t = "\<lparr>t_st = (\<lambda>q. if q = p then RUNNABLE else UNUSED), t_ch = (\<lambda>_. None), t_pid = (\<lambda>q. if q = p then 1 else 0), t_par = (\<lambda>_. None),
    t_next = 2, t_init = Some p, t_lock = None, t_cpu = (\<lambda>_. None), t_ph = (\<lambda>_. User)\<rparr>"
  have t: "tview_of s' = ?t" unfolding v using x boot by (intro tview_ext) (auto simp: boot_ok_def)
  have "tinv ?t" "pid_fresh ?t"
    using p(1) by (auto simp: tinv_def cpu_ok_def pid_ok_def pid_fresh_def family_ok_def phase_ok_def wait_ok_def runs_def live_def forking_def dozing_def)
  then show ?thesis using p boot by (simp add: sys_inv_def ctl_inv_def t boot_ok_def NPROC_def)
qed

end
