(* ===== verification/Sysfile.thy ===== *)
theory Sysfile
  imports Sched
begin

text \<open>
  System calls on files, \<open>kernel/sysfile.c\<close>, with the argument fetching of \<open>kernel/syscall.c\<close> and the process calls of
  \<open>kernel/sysproc.c\<close> (Project 2). A call is made by the process \<open>p\<close>, whose arguments are in its
  trap frame; a result below zero is the error value. Strings and structures the C code keeps on its stack are lists.
  The device switch, the buffer address of a pipe copy and the padding of \<open>struct stat\<close> are parameters, as in \<open>File\<close>.
\<close>

unbundle bit_operations_syntax

subsection \<open>Arguments\<close>

definition MAXPATH :: nat where "MAXPATH = 128"

text \<open>The file system serves the calling process.\<close>

definition as_proc :: "nat \<Rightarrow> 'a pstate_scheme \<Rightarrow> 'a pstate_scheme" where
  "as_proc p s = s\<lparr>fs_pagetable := pr_pagetable (procs s ! p)\<rparr>"

definition get64 :: "u8 list \<Rightarrow> nat \<Rightarrow> u64" where
  "get64 d k = ucast (get32 d k) OR push_bit 32 (ucast (get32 d (k + 4)))"

definition fetchaddr :: "nat \<Rightarrow> u64 \<Rightarrow> 'a pstate_scheme \<Rightarrow> kerror + u64 option" where
  "fetchaddr p addr s =
     (let sz = pr_sz (procs s ! p) in
      if sz \<le> addr \<or> sz < addr + 8 then Inr None
      else bindE (copyin_data (pr_pagetable (procs s ! p)) addr 8 (fs_mach s)) (\<lambda>(r, bs).
        Inr (if r \<noteq> 0 then None else Some (get64 bs 0))))"

text \<open>\<open>copyinstr\<close> into a buffer on the kernel stack: the string, if its NUL is among the first \<open>mx\<close> bytes.\<close>

function copyinstr_data :: "u64 \<Rightarrow> u64 \<Rightarrow> u64 \<Rightarrow> 'a machine_scheme \<Rightarrow> kerror + u8 list option" where
  "copyinstr_data pagetable srcva mx s =
     (if 0 < mx
      then let va0 = PGROUNDDOWN srcva in
        bindE (walkaddr pagetable va0 s) (\<lambda>pa0.
          if pa0 = 0 then Inr None
          else let n = chunk srcva mx; w = cstr (pmem s) (pa0 + (srcva - va0)) (unat n) in
            if length w < unat n then Inr (Some w)
            else bindE (copyinstr_data pagetable (va0 + PGSIZE) (mx - n) s) (\<lambda>r. Inr (map_option (\<lambda>bs. w @ bs) r)))
      else Inr None)"
  by pat_completeness auto
termination
proof (relation "measure (\<lambda>(pt, src, mx, s). unat mx)", goal_cases)
  case (2 pt srcva mx s va0 pa0 n w)
  then show ?case using chunk_positive [of mx srcva] by (simp add: unat_sub64)
qed simp

declare copyinstr_data.simps [simp del]

definition argraw :: "nat \<Rightarrow> nat \<Rightarrow> 'a pstate_scheme \<Rightarrow> kerror + u64" where
  "argraw p n s =
     (if n < 6 then Inr (load64 (pmem (fs_mach s)) (pr_trapframe (procs s ! p) + TF_A0 + 8 * of_nat n))
      else Inl (Panic ''argraw''))"

definition argint :: "nat \<Rightarrow> nat \<Rightarrow> 'a pstate_scheme \<Rightarrow> kerror + u32" where
  "argint p n s = bindE (argraw p n s) (\<lambda>a. Inr (ucast a))"

definition argaddr :: "nat \<Rightarrow> nat \<Rightarrow> 'a pstate_scheme \<Rightarrow> kerror + u64" where
  "argaddr p n s = argraw p n s"

definition argstr :: "nat \<Rightarrow> nat \<Rightarrow> nat \<Rightarrow> 'a pstate_scheme \<Rightarrow> kerror + u8 list option" where
  "argstr p n mx s =
     bindE (argaddr p n s) (\<lambda>addr. copyinstr_data (pr_pagetable (procs s ! p)) addr (of_nat mx) (fs_mach s))"

subsection \<open>Descriptors\<close>

definition argfd :: "nat \<Rightarrow> nat \<Rightarrow> 'a pstate_scheme \<Rightarrow> kerror + (nat \<times> nat) option" where
  "argfd p n s =
     bindE (argint p n s) (\<lambda>a. let fd = sint a in
       Inr (if fd < 0 \<or> int NOFILE \<le> fd then None
            else map_option (\<lambda>f. (nat fd, f)) (pr_ofile (procs s ! p) ! nat fd)))"

definition set_fd :: "nat \<Rightarrow> nat \<Rightarrow> nat option \<Rightarrow> 'a pstate_scheme \<Rightarrow> 'a pstate_scheme" where
  "set_fd p fd fo s = upd_proc p (\<lambda>x. x\<lparr>pr_ofile := (pr_ofile x)[fd := fo]\<rparr>) s"

definition fdalloc :: "nat \<Rightarrow> nat \<Rightarrow> 'a pstate_scheme \<Rightarrow> nat option \<times> 'a pstate_scheme" where
  "fdalloc p f s =
     (case find (\<lambda>fd. pr_ofile (procs s ! p) ! fd = None) [0..<NOFILE] of
        None \<Rightarrow> (None, s)
      | Some fd \<Rightarrow> (Some fd, set_fd p fd (Some f) s))"

definition sys_dup :: "nat \<Rightarrow> 'a pstate_scheme \<Rightarrow> kerror + int \<times> 'a pstate_scheme" where
  "sys_dup p s =
     bindE (argfd p 0 s) (\<lambda>r. case r of None \<Rightarrow> Inr (- 1, s)
       | Some (_, f) \<Rightarrow>
           (case fdalloc p f s of (None, s) \<Rightarrow> Inr (- 1, s)
            | (Some fd, s) \<Rightarrow> bindE (filedup f s) (\<lambda>s. Inr (int fd, s))))"

definition sys_read :: "'a pstate_scheme devsw \<Rightarrow> u64 \<Rightarrow> nat \<Rightarrow> 'a pstate_scheme \<Rightarrow> kerror + 'a pstate_scheme pipe_out" where
  "sys_read devsw_read ch p s =
     bindE (argaddr p 1 s) (\<lambda>addr. bindE (argint p 2 s) (\<lambda>n. bindE (argfd p 0 s) (\<lambda>r.
       case r of None \<Rightarrow> Inr (Done (- 1) s)
       | Some (_, f) \<Rightarrow> fileread devsw_read ch (killed p s) (pr_pid (procs s ! p)) f addr (sint n) (as_proc p s))))"

definition sys_write :: "'a pstate_scheme devsw \<Rightarrow> u64 \<Rightarrow> nat \<Rightarrow> 'a pstate_scheme \<Rightarrow> kerror + 'a pstate_scheme pipe_out" where
  "sys_write devsw_write ch p s =
     bindE (argaddr p 1 s) (\<lambda>addr. bindE (argint p 2 s) (\<lambda>n. bindE (argfd p 0 s) (\<lambda>r.
       case r of None \<Rightarrow> Inr (Done (- 1) s)
       | Some (_, f) \<Rightarrow> filewrite devsw_write ch (killed p s) (pr_pid (procs s ! p)) f addr (sint n) (as_proc p s))))"

definition close_file :: "kimage \<Rightarrow> nat \<Rightarrow> nat \<Rightarrow> 'a pstate_scheme \<Rightarrow> kerror + 'a pstate_scheme" where
  "close_file K p f s = fileclose (k_end K) (pr_pid (procs s ! p)) f s"

definition sys_close :: "kimage \<Rightarrow> nat \<Rightarrow> 'a pstate_scheme \<Rightarrow> kerror + int \<times> 'a pstate_scheme" where
  "sys_close K p s =
     bindE (argfd p 0 s) (\<lambda>r. case r of None \<Rightarrow> Inr (- 1, s)
       | Some (fd, f) \<Rightarrow> bindE (close_file K p f (set_fd p fd None s)) (\<lambda>s. Inr (0, s)))"

definition sys_fstat :: "u8 list \<Rightarrow> nat \<Rightarrow> 'a pstate_scheme \<Rightarrow> kerror + int \<times> 'a pstate_scheme" where
  "sys_fstat pad p s =
     bindE (argaddr p 1 s) (\<lambda>st. bindE (argfd p 0 s) (\<lambda>r. case r of None \<Rightarrow> Inr (- 1, s)
       | Some (_, f) \<Rightarrow> filestat (pr_pid (procs s ! p)) pad f st (as_proc p s)))"

subsection \<open>Paths\<close>

text \<open>\<open>namex\<close> reads \<open>cwd\<close> only for a relative path.\<close>

definition path_cwd :: "nat \<Rightarrow> u8 list \<Rightarrow> 'a pstate_scheme \<Rightarrow> kerror + nat" where
  "path_cwd p path s =
     (case pr_cwd (procs s ! p) of Some ip \<Rightarrow> Inr ip
      | None \<Rightarrow> if path \<noteq> [] \<and> hd path = SLASH then Inr 0 else Inl NullDeref)"

definition proc_namei :: "nat \<Rightarrow> u8 list \<Rightarrow> 'a pstate_scheme \<Rightarrow> kerror + nat option \<times> 'a pstate_scheme" where
  "proc_namei p path s = bindE (path_cwd p path s) (\<lambda>cwd. namei (pr_pid (procs s ! p)) cwd path s)"

definition proc_nameiparent :: "nat \<Rightarrow> u8 list \<Rightarrow> 'a pstate_scheme \<Rightarrow> kerror + nat option \<times> u8 list \<times> 'a pstate_scheme" where
  "proc_nameiparent p path s =
     bindE (path_cwd p path s) (\<lambda>cwd. nameiparent (pr_pid (procs s ! p)) cwd path (replicate DIRSIZ 0) s)"

text \<open>A failed call ends its transaction.\<close>

definition op_fails :: "nat \<Rightarrow> 'a pstate_scheme \<Rightarrow> kerror + int \<times> 'a pstate_scheme" where
  "op_fails p s = bindE (end_op (pr_pid (procs s ! p)) s) (\<lambda>s. Inr (- 1, s))"

definition put_fails :: "nat \<Rightarrow> nat \<Rightarrow> 'a pstate_scheme \<Rightarrow> kerror + int \<times> 'a pstate_scheme" where
  "put_fails p ip s = bindE (iunlockput (pr_pid (procs s ! p)) ip s) (op_fails p)"

subsection \<open>Links\<close>

definition add_nlink :: "u16 \<Rightarrow> nat \<Rightarrow> 'a fsst_scheme \<Rightarrow> 'a fsst_scheme" where
  "add_nlink d ip s = upd_inode ip (\<lambda>i. i\<lparr>i_nlink := i_nlink i + d\<rparr>) s"

definition link_bad :: "nat \<Rightarrow> nat \<Rightarrow> 'a pstate_scheme \<Rightarrow> kerror + int \<times> 'a pstate_scheme" where
  "link_bad p ip s =
     (let pid = pr_pid (procs s ! p) in
      bindE (ilock pid ip s) (\<lambda>s. bindE (iupdate pid ip (add_nlink (- 1) ip s)) (put_fails p ip)))"

definition link_path :: "nat \<Rightarrow> u8 list \<Rightarrow> u8 list \<Rightarrow> 'a pstate_scheme \<Rightarrow> kerror + int \<times> 'a pstate_scheme" where
  "link_path p old new s =
     (let pid = pr_pid (procs s ! p) in
      bindE (begin_op s) (\<lambda>s. bindE (proc_namei p old s) (\<lambda>(ip, s). case ip of None \<Rightarrow> op_fails p s
      | Some ip \<Rightarrow> bindE (ilock pid ip s) (\<lambda>s.
          if i_type (itable s ! ip) = T_DIR then put_fails p ip s
          else bindE (iupdate pid ip (add_nlink 1 ip s)) (\<lambda>s. bindE (iunlock pid ip s) (\<lambda>s.
            bindE (proc_nameiparent p new s) (\<lambda>(dp, name, s). case dp of None \<Rightarrow> link_bad p ip s
            | Some dp \<Rightarrow> bindE (ilock pid dp s) (\<lambda>s.
                bindE (if i_dev (itable s ! dp) \<noteq> i_dev (itable s ! ip) then Inr (- 1, s)
                       else dirlink pid dp name (i_inum (itable s ! ip)) s) (\<lambda>(r, s).
                  bindE (iunlockput pid dp s) (\<lambda>s.
                    if r < 0 then link_bad p ip s
                    else bindE (iput pid ip s) (\<lambda>s. bindE (end_op pid s) (\<lambda>s. Inr (0, s)))))))))))))"

definition sys_link :: "nat \<Rightarrow> 'a pstate_scheme \<Rightarrow> kerror + int \<times> 'a pstate_scheme" where
  "sys_link p s =
     bindE (argstr p 0 MAXPATH s) (\<lambda>old. case old of None \<Rightarrow> Inr (- 1, s)
       | Some old \<Rightarrow> bindE (argstr p 1 MAXPATH s) (\<lambda>new. case new of None \<Rightarrow> Inr (- 1, s)
           | Some new \<Rightarrow> link_path p old new s))"

fun isdirempty_from :: "int \<Rightarrow> nat \<Rightarrow> u32 list \<Rightarrow> 'a fsst_scheme \<Rightarrow> kerror + bool \<times> 'a fsst_scheme" where
  "isdirempty_from pid dp [] s = Inr (True, s)"
| "isdirempty_from pid dp (off # offs) s =
     bindE (readi pid dp Local off 16 s) (\<lambda>(r, s).
       if r \<noteq> 16 then Inl (Panic ''isdirempty: readi'')
       else if de_inum (fs_local s) \<noteq> 0 then Inr (False, s) else isdirempty_from pid dp offs s)"

definition isdirempty :: "int \<Rightarrow> nat \<Rightarrow> 'a fsst_scheme \<Rightarrow> kerror + bool \<times> 'a fsst_scheme" where
  "isdirempty pid dp s =
     isdirempty_from pid dp (drop 2 (offsets (i_size (itable s ! dp)))) (s\<lparr>fs_local := replicate 16 0\<rparr>)"

definition DOT :: "u8 list" where "DOT = [46]"
definition DOTDOT :: "u8 list" where "DOTDOT = [46, 46]"

text \<open>The entry at \<open>off\<close> of \<open>dp\<close> names \<open>ip\<close>; both are locked.\<close>

definition unlink_entry :: "nat \<Rightarrow> nat \<Rightarrow> nat \<Rightarrow> u32 \<Rightarrow> 'a pstate_scheme \<Rightarrow> kerror + int \<times> 'a pstate_scheme" where
  "unlink_entry p dp ip off s =
     (let pid = pr_pid (procs s ! p) in
      bindE (writei pid dp Local off 16 (s\<lparr>fs_local := replicate 16 0\<rparr>)) (\<lambda>(r, s).
        if r \<noteq> 16 then Inl (Panic ''unlink: writei'')
        else bindE (if i_type (itable s ! ip) = T_DIR then iupdate pid dp (add_nlink (- 1) dp s) else Inr s) (\<lambda>s.
          bindE (iunlockput pid dp s) (\<lambda>s. bindE (iupdate pid ip (add_nlink (- 1) ip s)) (\<lambda>s.
            bindE (iunlockput pid ip s) (\<lambda>s. bindE (end_op pid s) (\<lambda>s. Inr (0, s))))))))"

definition unlink_path :: "nat \<Rightarrow> u8 list \<Rightarrow> 'a pstate_scheme \<Rightarrow> kerror + int \<times> 'a pstate_scheme" where
  "unlink_path p path s =
     (let pid = pr_pid (procs s ! p) in
      bindE (begin_op s) (\<lambda>s. bindE (proc_nameiparent p path s) (\<lambda>(dp, name, s). case dp of None \<Rightarrow> op_fails p s
      | Some dp \<Rightarrow> bindE (ilock pid dp s) (\<lambda>s.
          if namecmp name DOT = 0 \<or> namecmp name DOTDOT = 0 then put_fails p dp s
          else bindE (dirlookup pid dp name s) (\<lambda>(found, s). case found of None \<Rightarrow> put_fails p dp s
          | Some (ip, off) \<Rightarrow> bindE (ilock pid ip s) (\<lambda>s.
              if sint (i_nlink (itable s ! ip)) < 1 then Inl (Panic ''unlink: nlink < 1'')
              else bindE (if i_type (itable s ! ip) = T_DIR then isdirempty pid ip s else Inr (True, s)) (\<lambda>(empty, s).
                if \<not> empty then bindE (iunlockput pid ip s) (put_fails p dp)
                else unlink_entry p dp ip off s)))))))"

definition sys_unlink :: "nat \<Rightarrow> 'a pstate_scheme \<Rightarrow> kerror + int \<times> 'a pstate_scheme" where
  "sys_unlink p s =
     bindE (argstr p 0 MAXPATH s) (\<lambda>path. case path of None \<Rightarrow> Inr (- 1, s) | Some path \<Rightarrow> unlink_path p path s)"

subsection \<open>Creating and opening\<close>

definition create_fail :: "nat \<Rightarrow> nat \<Rightarrow> nat \<Rightarrow> 'a pstate_scheme \<Rightarrow> kerror + nat option \<times> 'a pstate_scheme" where
  "create_fail p dp ip s =
     (let pid = pr_pid (procs s ! p) in
      bindE (iupdate pid ip (upd_inode ip (\<lambda>i. i\<lparr>i_nlink := 0\<rparr>) s)) (\<lambda>s.
        bindE (iunlockput pid ip s) (\<lambda>s. bindE (iunlockput pid dp s) (\<lambda>s. Inr (None, s)))))"

text \<open>The new inode \<open>ip\<close> gets its fields, the entries of a directory and its name in \<open>dp\<close>.\<close>

definition create_in :: "nat \<Rightarrow> nat \<Rightarrow> u8 list \<Rightarrow> nat \<Rightarrow> u16 \<Rightarrow> u16 \<Rightarrow> u16 \<Rightarrow> 'a pstate_scheme
    \<Rightarrow> kerror + nat option \<times> 'a pstate_scheme" where
  "create_in p dp name ip type major minor s =
     (let pid = pr_pid (procs s ! p); num = (\<lambda>j s. i_inum (itable s ! j)) in
      bindE (ilock pid ip s) (\<lambda>s.
      bindE (iupdate pid ip (upd_inode ip (\<lambda>i. i\<lparr>i_major := major, i_minor := minor, i_nlink := 1\<rparr>) s)) (\<lambda>s.
      bindE (if type = T_DIR
             then bindE (dirlink pid ip DOT (num ip s) s) (\<lambda>(r, s). if r < 0 then Inr (- 1, s) else dirlink pid ip DOTDOT (num dp s) s)
             else Inr (0, s)) (\<lambda>(r, s).
        if r < 0 then create_fail p dp ip s
        else bindE (dirlink pid dp name (num ip s) s) (\<lambda>(r, s).
          if r < 0 then create_fail p dp ip s
          else bindE (if type = T_DIR then iupdate pid dp (add_nlink 1 dp s) else Inr s) (\<lambda>s.
            bindE (iunlockput pid dp s) (\<lambda>s. Inr (Some ip, s))))))))"

definition create :: "nat \<Rightarrow> u8 list \<Rightarrow> u16 \<Rightarrow> u16 \<Rightarrow> u16 \<Rightarrow> 'a pstate_scheme \<Rightarrow> kerror + nat option \<times> 'a pstate_scheme" where
  "create p path type major minor s =
     (let pid = pr_pid (procs s ! p) in
      bindE (proc_nameiparent p path s) (\<lambda>(dp, name, s). case dp of None \<Rightarrow> Inr (None, s)
      | Some dp \<Rightarrow> bindE (ilock pid dp s) (\<lambda>s. bindE (dirlookup pid dp name s) (\<lambda>(found, s). case found of
          Some (ip, _) \<Rightarrow>
            bindE (iunlockput pid dp s) (\<lambda>s. bindE (ilock pid ip s) (\<lambda>s.
              if type = T_FILE \<and> (i_type (itable s ! ip) = T_FILE \<or> i_type (itable s ! ip) = T_DEVICE) then Inr (Some ip, s)
              else bindE (iunlockput pid ip s) (\<lambda>s. Inr (None, s))))
        | None \<Rightarrow>
            bindE (ialloc pid (i_dev (itable s ! dp)) type s) (\<lambda>(ip, s). case ip of
              None \<Rightarrow> bindE (iunlockput pid dp s) (\<lambda>s. Inr (None, s))
            | Some ip \<Rightarrow> create_in p dp name ip type major minor s)))))"

definition O_RDONLY :: u32 where "O_RDONLY = 0x000"
definition O_WRONLY :: u32 where "O_WRONLY = 0x001"
definition O_RDWR :: u32 where "O_RDWR = 0x002"
definition O_CREATE :: u32 where "O_CREATE = 0x200"
definition O_TRUNC :: u32 where "O_TRUNC = 0x400"

text \<open>The inode to open, locked.\<close>

definition open_inode :: "nat \<Rightarrow> u32 \<Rightarrow> u8 list \<Rightarrow> 'a pstate_scheme \<Rightarrow> kerror + nat option \<times> 'a pstate_scheme" where
  "open_inode p omode path s =
     (let pid = pr_pid (procs s ! p) in
      if omode AND O_CREATE \<noteq> 0 then create p path T_FILE 0 0 s
      else bindE (proc_namei p path s) (\<lambda>(ip, s). case ip of None \<Rightarrow> Inr (None, s)
        | Some ip \<Rightarrow> bindE (ilock pid ip s) (\<lambda>s.
            if i_type (itable s ! ip) = T_DIR \<and> omode \<noteq> O_RDONLY then bindE (iunlockput pid ip s) (\<lambda>s. Inr (None, s))
            else Inr (Some ip, s))))"

definition set_open :: "nat \<Rightarrow> nat \<Rightarrow> u32 \<Rightarrow> 'a pstate_scheme \<Rightarrow> 'a pstate_scheme" where
  "set_open f ip omode s =
     (let i = itable s ! ip in
      upd_file f (\<lambda>x. (if i_type i = T_DEVICE then x\<lparr>f_type := FD_DEVICE, f_major := sint (i_major i)\<rparr> else x\<lparr>f_type := FD_INODE, f_off := 0\<rparr>)
        \<lparr>f_ip := ip, f_readable := omode AND O_WRONLY = 0, f_writable := omode AND O_WRONLY \<noteq> 0 \<or> omode AND O_RDWR \<noteq> 0\<rparr>) s)"

definition open_path :: "kimage \<Rightarrow> nat \<Rightarrow> u32 \<Rightarrow> u8 list \<Rightarrow> 'a pstate_scheme \<Rightarrow> kerror + int \<times> 'a pstate_scheme" where
  "open_path K p omode path s =
     (let pid = pr_pid (procs s ! p) in
      bindE (begin_op s) (\<lambda>s. bindE (open_inode p omode path s) (\<lambda>(ip, s). case ip of None \<Rightarrow> op_fails p s
      | Some ip \<Rightarrow>
          if i_type (itable s ! ip) = T_DEVICE \<and> (sint (i_major (itable s ! ip)) < 0 \<or> NDEV \<le> sint (i_major (itable s ! ip)))
          then put_fails p ip s
          else (case filealloc s of (None, s) \<Rightarrow> put_fails p ip s
            | (Some f, s) \<Rightarrow> (case fdalloc p f s of (None, s) \<Rightarrow> bindE (close_file K p f s) (put_fails p ip)
                | (Some fd, s) \<Rightarrow>
                    let s = set_open f ip omode s in
                    bindE (if omode AND O_TRUNC \<noteq> 0 \<and> i_type (itable s ! ip) = T_FILE then itrunc pid ip s else Inr s) (\<lambda>s.
                      bindE (iunlock pid ip s) (\<lambda>s. bindE (end_op pid s) (\<lambda>s. Inr (int fd, s)))))))))"

definition sys_open :: "kimage \<Rightarrow> nat \<Rightarrow> 'a pstate_scheme \<Rightarrow> kerror + int \<times> 'a pstate_scheme" where
  "sys_open K p s =
     bindE (argint p 1 s) (\<lambda>omode. bindE (argstr p 0 MAXPATH s) (\<lambda>path.
       case path of None \<Rightarrow> Inr (- 1, s) | Some path \<Rightarrow> open_path K p omode path s))"

text \<open>\<open>mkdir\<close> and \<open>mknod\<close>: make a new inode and let go of it.\<close>

definition make_node :: "nat \<Rightarrow> u16 \<Rightarrow> u16 \<Rightarrow> u16 \<Rightarrow> 'a pstate_scheme \<Rightarrow> kerror + int \<times> 'a pstate_scheme" where
  "make_node p type major minor s =
     (let pid = pr_pid (procs s ! p) in
      bindE (argstr p 0 MAXPATH s) (\<lambda>path. case path of None \<Rightarrow> op_fails p s
      | Some path \<Rightarrow> bindE (create p path type major minor s) (\<lambda>(ip, s). case ip of None \<Rightarrow> op_fails p s
          | Some ip \<Rightarrow> bindE (iunlockput pid ip s) (\<lambda>s. bindE (end_op pid s) (\<lambda>s. Inr (0, s))))))"

definition sys_mkdir :: "nat \<Rightarrow> 'a pstate_scheme \<Rightarrow> kerror + int \<times> 'a pstate_scheme" where
  "sys_mkdir p s = bindE (begin_op s) (make_node p T_DIR 0 0)"

definition sys_mknod :: "nat \<Rightarrow> 'a pstate_scheme \<Rightarrow> kerror + int \<times> 'a pstate_scheme" where
  "sys_mknod p s =
     bindE (begin_op s) (\<lambda>s. bindE (argint p 1 s) (\<lambda>major. bindE (argint p 2 s) (\<lambda>minor.
       make_node p T_DEVICE (ucast major) (ucast minor) s)))"

definition sys_chdir :: "nat \<Rightarrow> 'a pstate_scheme \<Rightarrow> kerror + int \<times> 'a pstate_scheme" where
  "sys_chdir p s =
     (let pid = pr_pid (procs s ! p) in
      bindE (begin_op s) (\<lambda>s. bindE (argstr p 0 MAXPATH s) (\<lambda>path. case path of None \<Rightarrow> op_fails p s
      | Some path \<Rightarrow> bindE (proc_namei p path s) (\<lambda>(ip, s). case ip of None \<Rightarrow> op_fails p s
          | Some ip \<Rightarrow> bindE (ilock pid ip s) (\<lambda>s.
              if i_type (itable s ! ip) \<noteq> T_DIR then put_fails p ip s
              else bindE (iunlock pid ip s) (\<lambda>s. case pr_cwd (procs s ! p) of None \<Rightarrow> Inl NullDeref
                | Some cwd \<Rightarrow> bindE (iput pid cwd s) (\<lambda>s. bindE (end_op pid s) (\<lambda>s.
                    Inr (0, upd_proc p (\<lambda>x. x\<lparr>pr_cwd := Some ip\<rparr>) s)))))))))"

subsection \<open>Pipes\<close>

definition close_both :: "kimage \<Rightarrow> nat \<Rightarrow> nat \<Rightarrow> nat \<Rightarrow> 'a pstate_scheme \<Rightarrow> kerror + int \<times> 'a pstate_scheme" where
  "close_both K p rd wr s = bindE (close_file K p rd s) (\<lambda>s. bindE (close_file K p wr s) (\<lambda>s. Inr (- 1, s)))"

text \<open>The two descriptors are stored at the user address as 32-bit ints.\<close>

definition store_fds :: "nat \<Rightarrow> u64 \<Rightarrow> nat \<Rightarrow> nat \<Rightarrow> 'a pstate_scheme \<Rightarrow> kerror + int \<times> 'a pstate_scheme" where
  "store_fds p fdarray fd0 fd1 s =
     (let pt = pr_pagetable (procs s ! p); out = (\<lambda>a fd m. copyout_data pt a (le_bytes 4 (of_nat fd)) m) in
      bindE (out fdarray fd0 (fs_mach s)) (\<lambda>(r, m).
        bindE (if r < 0 then Inr (r, m) else out (fdarray + 4) fd1 m) (\<lambda>(r, m). Inr (r, s\<lparr>fs_mach := m\<rparr>))))"

definition sys_pipe :: "kimage \<Rightarrow> nat \<Rightarrow> 'a pstate_scheme \<Rightarrow> kerror + int \<times> 'a pstate_scheme" where
  "sys_pipe K p s =
     bindE (argaddr p 0 s) (\<lambda>fdarray. bindE (pipealloc (k_end K) (pr_pid (procs s ! p)) s) (\<lambda>(fs, s). case fs of
       None \<Rightarrow> Inr (- 1, s)
     | Some (rd, wr) \<Rightarrow>
         (case fdalloc p rd s of (None, s) \<Rightarrow> close_both K p rd wr s
          | (Some fd0, s) \<Rightarrow>
              (case fdalloc p wr s of (None, s) \<Rightarrow> close_both K p rd wr (set_fd p fd0 None s)
               | (Some fd1, s) \<Rightarrow>
                   bindE (store_fds p fdarray fd0 fd1 s) (\<lambda>(r, s).
                     if r < 0 then close_both K p rd wr (set_fd p fd1 None (set_fd p fd0 None s))
                     else Inr (0, s))))))"

subsection \<open>Process calls\<close>

definition sys_getpid :: "nat \<Rightarrow> 'a pstate_scheme \<Rightarrow> int" where
  "sys_getpid p s = pr_pid (procs s ! p)"

definition sys_fork :: "kimage \<Rightarrow> nat \<Rightarrow> 'a pstate_scheme \<Rightarrow> kerror + int \<times> 'a pstate_scheme" where
  "sys_fork K p s = bindE (argint p 0 s) (\<lambda>cow_enabled. fork K p (sint cow_enabled) s)"

definition sys_kill :: "nat \<Rightarrow> 'a pstate_scheme \<Rightarrow> kerror + int \<times> 'a pstate_scheme" where
  "sys_kill p s = bindE (argint p 0 s) (\<lambda>pid. Inr (kill (sint pid) s))"

text \<open>\<open>exit\<close> on hart \<open>c\<close>, and \<open>wait\<close> up to its return or its sleep.\<close>

definition sys_exit :: "nat \<Rightarrow> kimage \<Rightarrow> nat \<Rightarrow> 'a pstate_scheme \<Rightarrow> kerror + 'a pstate_scheme" where
  "sys_exit c K p s = bindE (argint p 0 s) (\<lambda>n. bindE (exit_files K p s) (exit_finish c p n))"

definition sys_wait :: "kimage \<Rightarrow> nat \<Rightarrow> 'a pstate_scheme \<Rightarrow> kerror + wait_out \<times> 'a pstate_scheme" where
  "sys_wait K p s = bindE (argaddr p 0 s) (\<lambda>addr. wait_scan K p addr s)"

text \<open>The part of the state \<open>growproc\<close> works on.\<close>

definition heap_view :: "nat \<Rightarrow> 'a pstate_scheme \<Rightarrow> swapst" where
  "heap_view p s = (let x = procs s ! p in
     vmstate.extend (vm_view (Some p) s) (swapst.fields (pr_pid x) (pr_pagetable x) (pr_sz x) (pr_ondemand x) (pr_heap_tracker x)
       (pr_resident_heap_pages x) 0 [] (bcache.truncate s)))"

definition sys_sbrk :: "kimage \<Rightarrow> nat \<Rightarrow> 'a pstate_scheme \<Rightarrow> kerror + u64 option \<times> 'a pstate_scheme" where
  "sys_sbrk K p s =
     bindE (argint p 0 s) (\<lambda>n. bindE (growproc (k_end K) n (heap_view p s)) (\<lambda>(r, v).
       Inr (if r < 0 then None else Some (pr_sz (procs s ! p)),
            upd_proc p (\<lambda>x. x\<lparr>pr_sz := p_sz v, pr_heap_tracker := heap_tracker v\<rparr>) (put_vm (vmstate.truncate v) s))))"

end
