(* ===== verification/Refs.thy ===== *)
theory Refs
  imports Sysfile "HOL-Library.Multiset"
begin

text \<open>
  Who holds references. Every operation of the file system either leaves the inode table's counts alone or takes and
  gives back references; \<open>refs_ok L F H s\<close> says that every count is accounted for by descriptors, open files, current
  directories and the references \<open>F\<close> to files and \<open>H\<close> to inodes the running code holds. The rules for each operation have the
  form of a weakest precondition.
\<close>

subsection \<open>Postconditions\<close>

definition okE :: "'e + 'a \<Rightarrow> ('a \<Rightarrow> bool) \<Rightarrow> bool" where
  "okE m P \<longleftrightarrow> (\<forall>x. m = Inr x \<longrightarrow> P x)"

lemma okE_Inr [simp]: "okE (Inr x) P = P x"
  and okE_Inl [simp]: "okE (Inl e) P"
  by (simp_all add: okE_def)

lemma okE_D: "okE m P \<Longrightarrow> m = Inr x \<Longrightarrow> P x"
  by (simp add: okE_def)

lemma okE_I: "(\<And>x. m = Inr x \<Longrightarrow> P x) \<Longrightarrow> okE m P"
  by (simp add: okE_def)

lemma okE_bind: "okE m (\<lambda>x. okE (f x) P) \<Longrightarrow> okE (bindE m f) P"
  by (cases m) (auto simp: okE_def)

lemma okE_if: "(b \<Longrightarrow> okE m P) \<Longrightarrow> (\<not> b \<Longrightarrow> okE m' P) \<Longrightarrow> okE (if b then m else m') P"
  by simp

lemma okE_option: "(r = None \<Longrightarrow> okE m P) \<Longrightarrow> (\<And>x. r = Some x \<Longrightarrow> okE (f x) P) \<Longrightarrow> okE (case r of None \<Rightarrow> m | Some x \<Rightarrow> f x) P"
  by (cases r) simp_all

lemma okE_ret: "P x \<Longrightarrow> okE (Inr x) P"
  by simp

lemma okE_pair: "okE (f a b) P \<Longrightarrow> okE (case (a, b) of (x, y) \<Rightarrow> f x y) P"
  by simp

lemma okE_mono: "okE m P \<Longrightarrow> (\<And>x. P x \<Longrightarrow> Q x) \<Longrightarrow> okE m Q"
  by (simp add: okE_def)

subsection \<open>Operations that leave the counts alone\<close>

abbreviation quiet :: "'a fsst_scheme \<Rightarrow> 'a fsst_scheme \<Rightarrow> bool" where
  "quiet s s' \<equiv> fsst.more s' = fsst.more s \<and> map core (itable s') = map core (itable s)"

lemma log_write_frame:
  fixes s :: "'a fsst_scheme"
  shows "log_write b s = Inr s' \<Longrightarrow> fsst.more s' = fsst.more s \<and> itable s' = itable s"
  by (simp add: log_write_fs_more log_write_table)

lemma iupdate_frame:
  fixes s :: "'a fsst_scheme"
  shows "iupdate pid ip s = Inr s' \<Longrightarrow> fsst.more s' = fsst.more s \<and> itable s' = itable s"
  by (simp add: iupdate_fs_more iupdate_table)

lemma itrunc_quiet:
  fixes s :: "'a fsst_scheme"
  shows "itrunc pid ip s = Inr s' \<Longrightarrow> quiet s s'"
  by (simp add: itrunc_fs_more itrunc_table)

lemma bzero_frame:
  fixes s :: "'a fsst_scheme"
  shows "bzero pid dev b s = Inr s' \<Longrightarrow> fsst.more s' = fsst.more s \<and> itable s' = itable s"
  by (auto simp: bzero_def dest!: bread_frame log_write_frame brelse_frame)

lemma balloc_from_frame:
  fixes s :: "'a fsst_scheme"
  shows "balloc_from pid dev bs s = Inr (r, s') \<Longrightarrow> fsst.more s' = fsst.more s \<and> itable s' = itable s"
  by (induction bs arbitrary: s)
    (auto simp: Let_def split: option.splits dest!: bread_frame log_write_frame brelse_frame bzero_frame)

lemma balloc_frame:
  fixes s :: "'a fsst_scheme"
  shows "balloc pid dev s = Inr (r, s') \<Longrightarrow> fsst.more s' = fsst.more s \<and> itable s' = itable s"
  unfolding balloc_def by (rule balloc_from_frame)

lemma bread_ok:
  fixes s :: "'a fsst_scheme"
  shows "(\<And>b s'. fsst.more s' = fsst.more s \<Longrightarrow> itable s' = itable s \<Longrightarrow> P (b, s')) \<Longrightarrow> okE (bread pid dev n s) P"
  by (auto simp: okE_def dest: bread_frame)

lemma balloc_rule:
  fixes s :: "'a fsst_scheme"
  shows "(\<And>b s'. fsst.more s' = fsst.more s \<Longrightarrow> itable s' = itable s \<Longrightarrow> P (b, s')) \<Longrightarrow> okE (balloc pid dev s) P"
  by (auto simp: okE_def dest: balloc_frame)

lemma log_write_ok:
  fixes s :: "'a fsst_scheme"
  shows "(\<And>s'. fsst.more s' = fsst.more s \<Longrightarrow> itable s' = itable s \<Longrightarrow> P s') \<Longrightarrow> okE (log_write b s) P"
  by (auto simp: okE_def dest: log_write_frame)

lemma brelse_ok:
  fixes s :: "'a fsst_scheme"
  shows "(\<And>s'. fsst.more s' = fsst.more s \<Longrightarrow> itable s' = itable s \<Longrightarrow> P s') \<Longrightarrow> okE (brelse pid b s) P"
  by (auto simp: okE_def dest: brelse_frame)

lemma bmap_direct_quiet:
  fixes s :: "'a fsst_scheme"
  shows "bmap_direct pid ip bn s = Inr (r, s') \<Longrightarrow> quiet s s'"
  by (auto simp: bmap_direct_def Let_def core_upd_inode split: if_splits dest!: balloc_frame)

lemma bmap_quiet:
  fixes s :: "'a fsst_scheme"
  assumes "bmap pid ip bn s = Inr (r, s')"
  shows "quiet s s'"
proof (cases "unat bn < NDIRECT")
  case True
  then show ?thesis using assms bmap_direct_quiet by (simp add: bmap_def)
next
  case False
  let ?n = "4 * (unat bn - NDIRECT)"
  obtain a s1 where 1: "bmap_direct pid ip NDIRECT s = Inr (a, s1)"
    using assms False by (auto simp: bmap_def Let_def split: if_splits)
  show ?thesis
  proof (cases "a = 0")
    case True
    then have "s' = s1" using assms False 1 by (simp add: bmap_def Let_def split: if_splits)
    then show ?thesis using bmap_direct_quiet [OF 1] by simp
  next
    case a: False
    then have e: "bindE (bread pid (i_dev (itable s1 ! ip)) a s1) (\<lambda>(bp, s).
        bindE (if get32 (b_data (bufs s ! bp)) ?n = 0
               then bindE (balloc pid (i_dev (itable s1 ! ip)) s) (\<lambda>(addr, s).
                 if addr \<noteq> 0
                 then bindE (log_write bp (set_data bp (put32 (b_data (bufs s ! bp)) ?n addr) s)) (\<lambda>s. Inr (addr, s))
                 else Inr (addr, s))
               else Inr (get32 (b_data (bufs s ! bp)) ?n, s)) (\<lambda>(addr, s).
          bindE (brelse pid bp s) (\<lambda>s. Inr (addr, s)))) = Inr (r, s')" (is "?m = _")
      using assms False 1 by (simp add: bmap_def Let_def del: bindE_eq_Inr split: if_splits)
    have "okE ?m (\<lambda>(r, s'). fsst.more s' = fsst.more s1 \<and> itable s' = itable s1)"
      by (intro okE_bind okE_ret okE_pair okE_if bread_ok balloc_rule log_write_ok brelse_ok) simp_all
    then have "fsst.more s' = fsst.more s1 \<and> itable s' = itable s1" using okE_D [OF _ e] by fastforce
    then show ?thesis using bmap_direct_quiet [OF 1] by simp
  qed
qed

lemma core_load [simp]: "core (load_dinode d k i) = core i"
  by (simp add: load_dinode_def core_def)

lemma core_fields [simp]:
  "core (i\<lparr>i_nlink := n\<rparr>) = core i" "core (i\<lparr>i_major := a, i_minor := b, i_nlink := n\<rparr>) = core i"
  by (simp_all add: core_def)

lemma ilock_quiet:
  fixes s :: "'a fsst_scheme"
  assumes "ilock pid ip s = Inr s'"
  shows "quiet s s'"
proof -
  obtain lk where lk: "acquiresleep pid (i_lock (itable s ! ip)) = Inr lk"
    using assms by (auto simp: ilock_def split: if_splits)
  define t where "t = upd_inode ip (\<lambda>i. i\<lparr>i_lock := lk\<rparr>) s"
  define i where "i = itable t ! ip"
  have t: "quiet s t" by (simp add: t_def core_upd_inode)
  have e: "(if \<not> i_valid i
        then bindE (bread pid (i_dev i) (IBLOCK (i_inum i) t) t) (\<lambda>(bp, s).
          let d = b_data (bufs s ! bp); s = upd_inode ip (load_dinode d (dinode_at (i_inum i))) s in
          bindE (brelse pid bp s) (\<lambda>s.
            let s = upd_inode ip (\<lambda>i. i\<lparr>i_valid := True\<rparr>) s in
            if i_type (itable s ! ip) = 0 then Inl (Panic ''ilock: no type'') else Inr s))
        else Inr t) = Inr s'"
    using assms lk by (auto simp: ilock_def Let_def t_def i_def split: if_splits)
  then have "quiet t s'" unfolding Let_def by (auto simp: core_upd_inode split: if_splits dest!: bread_frame brelse_frame)
  then show ?thesis using t by simp
qed

lemma iunlock_quiet:
  fixes s :: "'a fsst_scheme"
  shows "iunlock pid ip s = Inr s' \<Longrightarrow> quiet s s'"
  by (auto simp: iunlock_def core_upd_inode split: if_splits)

lemma either_copyout_frame:
  fixes s :: "'a fsst_scheme"
  shows "either_copyout dst tot bs s = Inr (r, s') \<Longrightarrow> fsst.more s' = fsst.more s \<and> itable s' = itable s"
  by (auto simp: either_copyout_def split: place.splits)

lemma readi_from_quiet:
  fixes s :: "'a fsst_scheme"
  shows "readi_from pid ip dst off n tot s = Inr (r, s') \<Longrightarrow> quiet s s'"
proof (induction "unat (n - tot)" arbitrary: off tot s rule: less_induct)
  case less
  show ?case
  proof (cases "tot < n")
    case False
    then show ?thesis using less.prems by (simp add: readi_from.simps [of pid ip dst off n tot s])
  next
    case True
    have "quiet t s'" if "readi_from pid ip dst (off + in_block off (n - tot)) n (tot + in_block off (n - tot)) t = Inr (r, s')" for t
      by (rule less.hyps [OF in_block_pos [OF True] that])
    then show ?thesis
      using less.prems True unfolding readi_from.simps [of pid ip dst off n tot s]
      by (fastforce simp: Let_def split: if_splits dest!: bmap_quiet bread_frame either_copyout_frame brelse_frame)
  qed
qed

lemma readi_quiet:
  fixes s :: "'a fsst_scheme"
  shows "readi pid ip dst off n s = Inr (r, s') \<Longrightarrow> quiet s s'"
  by (auto simp: readi_def Let_def split: if_splits dest!: readi_from_quiet)

lemma writei_from_quiet:
  fixes s :: "'a fsst_scheme"
  shows "writei_from pid ip src off n tot s = Inr (o', t', s') \<Longrightarrow> quiet s s'"
proof (induction "unat (n - tot)" arbitrary: off tot s rule: less_induct)
  case less
  show ?case
  proof (cases "tot < n")
    case False
    then show ?thesis using less.prems by (simp add: writei_from.simps [of pid ip src off n tot s])
  next
    case True
    have "quiet t s'" if "writei_from pid ip src (off + in_block off (n - tot)) n (tot + in_block off (n - tot)) t = Inr (o', t', s')" for t
      by (rule less.hyps [OF in_block_pos [OF True] that])
    then show ?thesis
      using less.prems True unfolding writei_from.simps [of pid ip src off n tot s]
      by (fastforce simp: Let_def split: if_splits dest!: bmap_quiet bread_frame log_write_frame brelse_frame)
  qed
qed

lemma writei_quiet:
  fixes s :: "'a fsst_scheme"
  shows "writei pid ip src off n s = Inr (r, s') \<Longrightarrow> quiet s s'"
  by (auto simp: writei_def Let_def core_upd_inode split: if_splits dest!: writei_from_quiet iupdate_frame)

lemma dirlink_slot_quiet:
  fixes s :: "'a fsst_scheme"
  shows "dirlink_slot pid dp offs l s = Inr (r, s') \<Longrightarrow> quiet s s'"
  by (induction offs arbitrary: l s) (auto split: if_splits dest!: readi_quiet)

lemma isdirempty_from_quiet:
  fixes s :: "'a fsst_scheme"
  shows "isdirempty_from pid dp offs s = Inr (r, s') \<Longrightarrow> quiet s s'"
  by (induction offs arbitrary: s) (auto split: if_splits dest!: readi_quiet)

lemma isdirempty_quiet:
  fixes s :: "'a fsst_scheme"
  shows "isdirempty pid dp s = Inr (r, s') \<Longrightarrow> quiet s s'"
  by (auto simp: isdirempty_def dest!: isdirempty_from_quiet)

subsection \<open>References taken and given back\<close>

definition ref_of :: "nat option \<Rightarrow> nat multiset" where
  "ref_of r = (case r of None \<Rightarrow> {#} | Some ip \<Rightarrow> {#ip#})"

lemma ref_of_simps [simp]: "ref_of None = {#}" "ref_of (Some ip) = {#ip#}"
  by (simp_all add: ref_of_def)

text \<open>The descriptors of all processes that name file \<open>f\<close>, and the processes whose current directory is \<open>j\<close>.\<close>

definition fd_users :: "proc list \<Rightarrow> nat \<Rightarrow> int" where
  "fd_users ps f = sum_list (map (\<lambda>x. int (count_list (pr_ofile x) (Some f))) ps)"

definition cwd_users :: "proc list \<Rightarrow> nat \<Rightarrow> int" where
  "cwd_users ps j = sum_list (map (\<lambda>x. of_bool (pr_cwd x = Some j)) ps)"

text \<open>A process that is not alive has no files and no directory.\<close>

definition proc_refs_ok :: "proc \<Rightarrow> bool" where
  "proc_refs_ok x \<longleftrightarrow> length (pr_ofile x) = NOFILE \<and> (\<forall>f. Some f \<in> set (pr_ofile x) \<longrightarrow> f < NFILE)
     \<and> (\<forall>j. pr_cwd x = Some j \<longrightarrow> j < NINODE) \<and> (pr_state x \<in> {UNUSED, ZOMBIE} \<longrightarrow> set (pr_ofile x) \<subseteq> {None} \<and> pr_cwd x = None)"

text \<open>Every reference is accounted for: the count of a file is the number of descriptors that name it plus the references \<open>F\<close> the
  running code holds; the count of an inode is the number of open files and current directories that use it plus the
  references \<open>H\<close>. The processes \<open>L\<close> are alive.\<close>

definition refs_at :: "proc list \<Rightarrow> nat set \<Rightarrow> nat multiset \<Rightarrow> nat multiset \<Rightarrow> 'a filest_scheme \<Rightarrow> bool" where
  "refs_at ps L F H s \<longleftrightarrow> itable_ok (itable s) \<and> length (ftable s) = NFILE \<and> length ps = NPROC
     \<and> (\<forall>x \<in> set (ftable s). (f_ref x = 0 \<longrightarrow> f_type x = FD_NONE) \<and> (f_type x \<in> {FD_INODE, FD_DEVICE} \<longrightarrow> f_ip x < NINODE))
     \<and> (\<forall>x \<in> set ps. proc_refs_ok x)
     \<and> (\<forall>f < NFILE. f_ref (ftable s ! f) = fd_users ps f + int (count F f)) \<and> (\<forall>f \<in># F. f < NFILE)
     \<and> (\<forall>j < NINODE. i_ref (itable s ! j) = open_files (ftable s) j + cwd_users ps j + int (count H j)) \<and> (\<forall>j \<in># H. j < NINODE)
     \<and> (\<forall>p \<in> L. p < NPROC \<and> pr_state (ps ! p) \<notin> {UNUSED, ZOMBIE})"

definition refs_ok :: "nat set \<Rightarrow> nat multiset \<Rightarrow> nat multiset \<Rightarrow> 'a pstate_scheme \<Rightarrow> bool" where
  "refs_ok L F H s \<longleftrightarrow> refs_at (procs s) L F H s"

lemma fd_users_nonneg: "0 \<le> fd_users ps f"
  unfolding fd_users_def by (rule sum_list_nonneg) auto

lemma open_files_nonneg: "0 \<le> open_files tab j"
  unfolding open_files_def by (rule sum_list_nonneg) auto

lemma cwd_users_nonneg: "0 \<le> cwd_users ps j"
  unfolding cwd_users_def by (rule sum_list_nonneg) auto

lemma users_update:
  assumes "p < length ps"
  shows "fd_users (ps[p := x]) f = fd_users ps f - int (count_list (pr_ofile (ps ! p)) (Some f)) + int (count_list (pr_ofile x) (Some f))"
    and "cwd_users (ps[p := x]) j = cwd_users ps j - of_bool (pr_cwd (ps ! p) = Some j) + of_bool (pr_cwd x = Some j)"
  unfolding fd_users_def cwd_users_def by (rule sum_list_update_int [OF assms])+

lemma cwd_users_pos: "p < length ps \<Longrightarrow> pr_cwd (ps ! p) = Some j \<Longrightarrow> 1 \<le> cwd_users ps j"
  using users_update(2) [of p ps "(ps ! p)\<lparr>pr_cwd := None\<rparr>" j] cwd_users_nonneg [of "ps[p := (ps ! p)\<lparr>pr_cwd := None\<rparr>]" j] by simp

lemma pstate_more:
  fixes s s' :: "'a pstate_scheme"
  assumes "fsst.more s' = fsst.more s"
  shows "ftable s' = ftable s \<and> pipes s' = pipes s \<and> procs s' = procs s"
  using filest_more [OF assms] fs_same_procs [OF assms] by (simp add: same_procs_def)

lemma refs_at_itable:
  fixes s :: "'a filest_scheme"
  assumes "refs_at ps L F H s" "ftable s' = ftable s" "itable_ok (itable s')" "\<forall>j \<in># H'. j < NINODE"
    "\<And>j. j < NINODE \<Longrightarrow> i_ref (itable s' ! j) + int (count H j) = i_ref (itable s ! j) + int (count H' j)"
  shows "refs_at ps L F H' s'"
proof -
  have "i_ref (itable s' ! j) = open_files (ftable s) j + cwd_users ps j + int (count H' j)" if "j < NINODE" for j
    using assms(5) [OF that] assms(1) that by (simp add: refs_at_def)
  then show ?thesis using assms(1,3,4) assms(2) by (simp add: refs_at_def)
qed

lemma refs_ok_itable:
  fixes s :: "'a pstate_scheme"
  assumes "refs_ok L F H s" "fsst.more s' = fsst.more s" "itable_ok (itable s')" "\<forall>j \<in># H'. j < NINODE"
    "\<And>j. j < NINODE \<Longrightarrow> i_ref (itable s' ! j) + int (count H j) = i_ref (itable s ! j) + int (count H' j)"
  shows "refs_ok L F H' s'"
  using refs_at_itable [of "procs s" L F H s s' H'] pstate_more [OF assms(2)] assms by (simp add: refs_ok_def)

lemma core_nth: "map core t' = map core t \<Longrightarrow> j < length t \<Longrightarrow> i_ref (t' ! j) = i_ref (t ! j)"
  by (metis core_def length_map nth_map prod.inject)

lemma refs_at_quiet:
  fixes s :: "'a filest_scheme"
  assumes r: "refs_at ps L F H s" and q: "quiet s s'"
  shows "refs_at ps L F H s'"
proof (rule refs_at_itable [OF r])
  have l: "length (itable s) = NINODE" using r by (simp add: refs_at_def itable_ok_def)
  show "itable_ok (itable s')" using core_table(1) [of "itable s'" "itable s"] q r by (simp add: refs_at_def)
  show "i_ref (itable s' ! j) + int (count H j) = i_ref (itable s ! j) + int (count H j)" if "j < NINODE" for j
    using core_nth [of "itable s'" "itable s" j] q that l by simp
  show "ftable s' = ftable s" by (rule filest_more) (use q in blast)
qed (use r in \<open>simp add: refs_at_def\<close>)

lemma refs_ok_quiet:
  fixes s :: "'a pstate_scheme"
  assumes r: "refs_ok L F H s" and q: "quiet s s'"
  shows "refs_ok L F H s'"
proof -
  have "procs s' = procs s" using pstate_more [of s' s] q by blast
  then show ?thesis using refs_at_quiet [of "procs s" L F H s s'] r q by (simp add: refs_ok_def)
qed

lemma refs_at_has:
  fixes s :: "'a filest_scheme"
  assumes "refs_at ps L F (add_mset ip H) s"
  shows "ip < NINODE" "0 < i_ref (itable s ! ip)"
proof -
  show n: "ip < NINODE" using assms by (simp add: refs_at_def)
  show "0 < i_ref (itable s ! ip)"
    using assms n open_files_nonneg [of "ftable s" ip] cwd_users_nonneg [of ps ip] by (simp add: refs_at_def)
qed

lemma iget_counts:
  fixes s :: "'a fsst_scheme"
  assumes ok: "itable_ok (itable s)" and g: "iget dev inum s = Inr (ip, s')"
  shows "fsst.more s' = fsst.more s" "itable_ok (itable s')" "ip < NINODE"
    "j < NINODE \<Longrightarrow> i_ref (itable s' ! j) = i_ref (itable s ! j) + of_bool (j = ip)"
proof -
  show "fsst.more s' = fsst.more s" using g by (auto simp: iget_def split: option.splits)
  show "itable_ok (itable s')" "ip < NINODE" using iget_table [OF ok g] by simp_all
  have l: "length (itable s) = NINODE" using ok by (simp add: itable_ok_def)
  show "i_ref (itable s' ! j) = i_ref (itable s ! j) + of_bool (j = ip)" if j: "j < NINODE"
  proof (cases "find (\<lambda>i. 0 < i_ref (itable s ! i) \<and> i_dev (itable s ! i) = dev \<and> i_inum (itable s ! i) = inum) [0..<NINODE]")
    case None
    then obtain k where k: "find (\<lambda>i. i_ref (itable s ! i) = 0) [0..<NINODE] = Some k" using g by (auto simp: iget_def split: option.splits)
    then have "ip = k" "s' = upd_inode k (\<lambda>ip. ip\<lparr>i_dev := dev, i_inum := inum, i_ref := 1, i_valid := False\<rparr>) s"
      using g None by (auto simp: iget_def)
    moreover have "k < NINODE" "i_ref (itable s ! k) = 0" using k by (auto simp: find_range)
    ultimately show ?thesis using j l by (auto simp: upd_inode_def nth_list_update)
  next
    case (Some k)
    then have "ip = k" "s' = upd_inode k (\<lambda>ip. ip\<lparr>i_ref := i_ref ip + 1\<rparr>) s" using g by (auto simp: iget_def)
    moreover have "k < NINODE" using Some by (simp add: find_range)
    ultimately show ?thesis using j l by (auto simp: upd_inode_def nth_list_update)
  qed
qed

lemma iget_refs:
  fixes s :: "'a pstate_scheme"
  assumes r: "refs_ok L F H s" and P: "\<And>ip s'. refs_ok L F (add_mset ip H) s' \<Longrightarrow> P (ip, s')"
  shows "okE (iget dev inum s) P"
proof (rule okE_I)
  fix x assume "iget dev inum s = Inr x"
  then obtain ip s' where g: "iget dev inum s = Inr (ip, s')" "x = (ip, s')" by (cases x) auto
  have ok: "itable_ok (itable s)" using r by (simp add: refs_ok_def refs_at_def)
  note c = iget_counts [OF ok g(1)]
  have "refs_ok L F (add_mset ip H) s'"
    by (rule refs_ok_itable [OF r c(1,2)]) (use c(3,4) r in \<open>auto simp: refs_ok_def refs_at_def\<close>)
  then show "P x" using P g(2) by simp
qed

lemma idup_refs:
  fixes s :: "'a pstate_scheme"
  assumes r: "refs_ok L F H s" and ip: "ip < NINODE" "0 < i_ref (itable s ! ip)"
  shows "refs_ok L F (add_mset ip H) (idup ip s)"
proof (rule refs_ok_itable [OF r])
  have l: "length (itable s) = NINODE" and ok: "itable_ok (itable s)" using r by (auto simp: refs_ok_def refs_at_def itable_ok_def)
  show "itable_ok (itable (idup ip s))"
    unfolding idup_def upd_inode_def using itable_ok_same [OF ok ip(1), of "(itable s ! ip)\<lparr>i_ref := i_ref (itable s ! ip) + 1\<rparr>"] ip(2) by simp
  show "i_ref (itable (idup ip s) ! j) + int (count H j) = i_ref (itable s ! j) + int (count (add_mset ip H) j)" if "j < NINODE" for j
    using that l by (simp add: idup_def upd_inode_def nth_list_update)
  show "fsst.more (idup ip s) = fsst.more s" by (simp add: idup_def)
  show "\<forall>j \<in># add_mset ip H. j < NINODE" using r ip by (simp add: refs_ok_def refs_at_def)
qed

lemma iput_refs_at:
  fixes s :: "'a filest_scheme"
  assumes r: "refs_at ps L F (add_mset ip H) s" and p: "iput pid ip s = Inr s'"
  shows "refs_at ps L F H s'"
proof (rule refs_at_itable [OF r])
  note ip = refs_at_has [OF r]
  have l: "length (itable s) = NINODE" and ok: "itable_ok (itable s)" using r by (auto simp: refs_at_def itable_ok_def)
  show "itable_ok (itable s')" by (rule iput_itable_ok [OF ok ip p])
  show "ftable s' = ftable s" by (rule filest_more [OF iput_fs_more [OF p]])
  show "i_ref (itable s' ! j) + int (count (add_mset ip H) j) = i_ref (itable s ! j) + int (count H j)" if "j < NINODE" for j
    using iput_refs [OF p, of j] that l by simp
qed (use r in \<open>simp add: refs_at_def\<close>)

lemma iput_refs_ok:
  fixes s :: "'a pstate_scheme"
  assumes "refs_ok L F (add_mset ip H) s" "iput pid ip s = Inr s'"
  shows "refs_ok L F H s'"
  using iput_refs_at [of "procs s" L F ip H s pid s'] pstate_more [OF iput_fs_more [OF assms(2)]] assms by (simp add: refs_ok_def)

subsection \<open>Rules for the operations\<close>

lemma okE_case_None: "okE m P \<Longrightarrow> okE (case None of None \<Rightarrow> m | Some x \<Rightarrow> f x) P"
  and okE_case_Some: "okE (f x) P \<Longrightarrow> okE (case Some x of None \<Rightarrow> m | Some x \<Rightarrow> f x) P"
  by simp_all

lemmas okE_intros = okE_bind okE_ret okE_Inl okE_pair okE_if okE_case_None okE_case_Some

lemma iupdate_quiet:
  fixes s :: "'a fsst_scheme"
  shows "iupdate pid ip s = Inr s' \<Longrightarrow> quiet s s'"
  by (simp add: iupdate_frame)

lemma begin_op_quiet:
  fixes s :: "'a fsst_scheme"
  shows "begin_op s = Inr s' \<Longrightarrow> quiet s s'"
  by (simp add: begin_op_frame)

lemma end_op_quiet:
  fixes s :: "'a fsst_scheme"
  shows "end_op pid s = Inr s' \<Longrightarrow> quiet s s'"
  by (simp add: end_op_frame)

lemma writei_local_quiet:
  fixes s :: "'a fsst_scheme"
  shows "writei pid ip src off n (s\<lparr>fs_local := d\<rparr>) = Inr (r, s') \<Longrightarrow> quiet s s'"
  using writei_quiet [of pid ip src off n "s\<lparr>fs_local := d\<rparr>" r s'] by simp

lemma iupdate_field_quiet:
  fixes s :: "'a fsst_scheme"
  shows "(\<And>i. core (f i) = core i) \<Longrightarrow> iupdate pid ip (upd_inode jp f s) = Inr s' \<Longrightarrow> quiet s s'"
  using iupdate_quiet [of pid ip "upd_inode jp f s" s'] by (simp add: core_upd_inode)

lemma iupdate_nlink_quiet:
  fixes s :: "'a fsst_scheme"
  shows "iupdate pid ip (add_nlink d jp s) = Inr s' \<Longrightarrow> quiet s s'"
  unfolding add_nlink_def by (rule iupdate_field_quiet) simp_all

lemma dirlink_slot_local_quiet:
  fixes s :: "'a fsst_scheme"
  shows "dirlink_slot pid dp offs l (s\<lparr>fs_local := d\<rparr>) = Inr (r, s') \<Longrightarrow> quiet s s'"
  using dirlink_slot_quiet [of pid dp offs l "s\<lparr>fs_local := d\<rparr>" r s'] by simp

lemma quiet_state:
  fixes s :: "'a pstate_scheme"
  assumes "okE m (\<lambda>s'. quiet s s')" "refs_ok L F H s" "\<And>s'. refs_ok L F H s' \<Longrightarrow> P s'"
  shows "okE m P"
  by (rule okE_mono [OF assms(1)], rule assms(3), rule refs_ok_quiet [OF assms(2)])

lemma quiet_result:
  fixes s :: "'a pstate_scheme" and m :: "'e + 'r \<times> 'a pstate_scheme"
  assumes "okE m (\<lambda>(r, s'). quiet s s')" "refs_ok L F H s" "\<And>r s'. refs_ok L F H s' \<Longrightarrow> P (r, s')"
  shows "okE m P"
proof (rule okE_mono [OF assms(1)])
  fix x :: "'r \<times> 'a pstate_scheme"
  assume x: "case x of (r, s') \<Rightarrow> quiet s s'"
  have "refs_ok L F H (snd x)" by (rule refs_ok_quiet [OF assms(2)]) (use x in \<open>cases x; simp\<close>)
  then show "P x" using assms(3) [of "snd x" "fst x"] by simp
qed

lemma quiet_okE:
  fixes s :: "'a fsst_scheme"
  shows "okE (ilock pid ip s) (\<lambda>s'. quiet s s')" "okE (iunlock pid ip s) (\<lambda>s'. quiet s s')" "okE (begin_op s) (\<lambda>s'. quiet s s')"
    "okE (end_op pid s) (\<lambda>s'. quiet s s')" "okE (iupdate pid ip (add_nlink d jp s)) (\<lambda>s'. quiet s s')" "okE (itrunc pid ip s) (\<lambda>s'. quiet s s')"
    "okE (readi pid ip dst off n s) (\<lambda>(r, s'). quiet s s')" "okE (writei pid ip dst off n (s\<lparr>fs_local := bs\<rparr>)) (\<lambda>(r, s'). quiet s s')"
    "okE (isdirempty pid ip s) (\<lambda>(r, s'). quiet s s')" "okE (dirlink_slot pid ip offs l (s\<lparr>fs_local := bs\<rparr>)) (\<lambda>(r, s'). quiet s s')"
  by (auto simp: okE_def dest: ilock_quiet iunlock_quiet begin_op_quiet end_op_quiet iupdate_nlink_quiet itrunc_quiet readi_quiet
        writei_local_quiet isdirempty_quiet dirlink_slot_local_quiet)

lemmas quiet_rules = quiet_okE(1-6) [THEN quiet_state] quiet_okE(7-10) [THEN quiet_result]

lemma iput_rule:
  fixes s :: "'a pstate_scheme"
  shows "refs_ok L F (add_mset ip H) s \<Longrightarrow> (\<And>s'. refs_ok L F H s' \<Longrightarrow> P s') \<Longrightarrow> okE (iput pid ip s) P"
  by (auto simp: okE_def dest: iput_refs_ok)

lemma iunlockput_rule:
  fixes s :: "'a pstate_scheme"
  assumes "refs_ok L F (add_mset ip H) s" "\<And>s'. refs_ok L F H s' \<Longrightarrow> P s'"
  shows "okE (iunlockput pid ip s) P"
  unfolding iunlockput_def
  by (rule okE_bind, rule quiet_rules(2) [OF assms(1)], rule iput_rule [OF _ assms(2)])

lemma iunlockput_rule2:
  fixes s :: "'a pstate_scheme"
  assumes "refs_ok L F (add_mset jp (add_mset ip H)) s" "\<And>s'. refs_ok L F (add_mset jp H) s' \<Longrightarrow> P s'"
  shows "okE (iunlockput pid ip s) P"
  using assms by (intro iunlockput_rule [of L F ip "add_mset jp H"]) (simp_all add: add_mset_commute)

text \<open>Paths. A result inode is a reference the caller holds.\<close>

lemma dirlookup_from_refs:
  fixes s :: "'a pstate_scheme"
  shows "refs_ok L F H s \<Longrightarrow> okE (dirlookup_from pid dp name offs s) (\<lambda>(r, s'). refs_ok L F (ref_of (map_option fst r) + H) s')"
proof (induction offs arbitrary: s)
  case (Cons off offs)
  have r: "refs_ok L F H s'" if "readi pid dp Local off 16 s = Inr (k, s')" for k s'
    using refs_ok_quiet [OF Cons.prems readi_quiet [OF that]] .
  have "okE (iget dev n s') (\<lambda>(ip, s'). refs_ok L F (add_mset ip H) s')" if "refs_ok L F H s'" for dev n and s' :: "'a pstate_scheme"
    by (rule iget_refs [OF that]) simp
  then show ?case using r Cons.IH by (auto simp: okE_def Let_def split: if_splits)
qed simp

lemma refs_ok_local [simp]:
  fixes s :: "'a pstate_scheme"
  shows "refs_ok L F H (s\<lparr>fs_local := d\<rparr>) = refs_ok L F H s"
  by (simp add: refs_ok_def refs_at_def)

lemma dirlookup_rule:
  fixes s :: "'a pstate_scheme"
  assumes "refs_ok L F H s" "\<And>s'. refs_ok L F H s' \<Longrightarrow> P (None, s')" "\<And>ip off s'. refs_ok L F (add_mset ip H) s' \<Longrightarrow> P (Some (ip, off), s')"
  shows "okE (dirlookup pid dp name s) P"
proof (rule okE_I)
  fix x assume "dirlookup pid dp name s = Inr x"
  then have "dirlookup_from pid dp name (offsets (i_size (itable s ! dp))) (s\<lparr>fs_local := replicate 16 0\<rparr>) = Inr x"
    by (simp add: dirlookup_def split: if_splits)
  moreover have "refs_ok L F H (s\<lparr>fs_local := replicate 16 0\<rparr>)" using assms(1) by simp
  ultimately have "case x of (r, s') \<Rightarrow> refs_ok L F (ref_of (map_option fst r) + H) s'"
    by (rule okE_D [OF dirlookup_from_refs, rotated])
  then show "P x" using assms(2,3) by (cases x; cases "fst x") auto
qed

lemma dirlink_rule:
  fixes s :: "'a pstate_scheme"
  assumes r: "refs_ok L F H s" and P: "\<And>r s'. refs_ok L F H s' \<Longrightarrow> P (r, s')"
  shows "okE (dirlink pid dp name inum s) P"
  unfolding dirlink_def Let_def
  by (intro okE_intros, rule dirlookup_rule [OF r]) (intro okE_intros | erule quiet_rules iput_rule | (rule P, assumption))+

lemma ialloc_from_refs:
  fixes s :: "'a pstate_scheme"
  shows "refs_ok L F H s \<Longrightarrow> okE (ialloc_from pid dev type ns s) (\<lambda>(r, s'). refs_ok L F (ref_of r + H) s')"
proof (induction ns arbitrary: s)
  case (Cons n ns)
  have q: "refs_ok L F H t" if "fsst.more t = fsst.more s" "itable t = itable s" for t :: "'a pstate_scheme"
    by (rule refs_ok_quiet [OF Cons.prems]) (use that in simp)
  show ?case
    unfolding ialloc_from.simps Let_def
    by (intro okE_bind okE_ret okE_pair okE_if bread_ok log_write_ok brelse_ok iget_refs [of L F H] Cons.IH) (simp_all add: q)
qed simp

lemma ialloc_rule:
  fixes s :: "'a pstate_scheme"
  assumes r: "refs_ok L F H s" and P: "\<And>s'. refs_ok L F H s' \<Longrightarrow> P (None, s')" "\<And>ip s'. refs_ok L F (add_mset ip H) s' \<Longrightarrow> P (Some ip, s')"
  shows "okE (ialloc pid dev type s) P"
  unfolding ialloc_def
proof (rule okE_mono [OF ialloc_from_refs [OF r]])
  fix x :: "nat option \<times> 'a pstate_scheme"
  assume "case x of (r, s') \<Rightarrow> refs_ok L F (ref_of r + H) s'"
  then show "P x" using P by (cases x; cases "fst x") auto
qed

lemma namex_from_rule:
  fixes s :: "'a pstate_scheme"
  assumes "refs_ok L F (add_mset ip H) s"
    and P: "\<And>nm s'. refs_ok L F H s' \<Longrightarrow> P (None, nm, s')" "\<And>j nm s'. refs_ok L F (add_mset j H) s' \<Longrightarrow> P (Some j, nm, s')"
  shows "okE (namex_from pid np ip path name s) P"
  using assms(1)
proof (induction "length path" arbitrary: path ip name s rule: less_induct)
  case less
  show ?case
  proof (cases "skipelem path name")
    case None
    then show ?thesis
      using less.prems unfolding namex_from.simps [of pid np ip path name s] None option.case
      by - ((intro okE_intros | erule iput_rule | (rule P, assumption))+)
  next
    case (Some z)
    obtain path' name' where z: "z = (path', name')" by (cases z)
    have IH: "refs_ok L F (add_mset j H) t \<Longrightarrow> okE (namex_from pid np j path' name' t) P" for j and t :: "'a pstate_scheme"
      by (rule less.hyps) (use skipelem_shorter Some z in auto)
    show ?thesis
      using less.prems unfolding namex_from.simps [of pid np ip path name s] Some z option.case prod.case
      by - ((intro okE_intros | erule quiet_rules iunlockput_rule iunlockput_rule2 dirlookup_rule IH | (rule P, assumption))+)
  qed
qed

lemma refs_ok_cwd:
  fixes s :: "'a pstate_scheme"
  assumes r: "refs_ok L F H s" and p: "p < NPROC" "pr_cwd (procs s ! p) = Some j"
  shows "j < NINODE" "0 < i_ref (itable s ! j)"
proof -
  have l: "length (procs s) = NPROC" using r by (simp add: refs_ok_def refs_at_def)
  then have "proc_refs_ok (procs s ! p)" using r p by (simp add: refs_ok_def refs_at_def)
  then show n: "j < NINODE" using p by (simp add: proc_refs_ok_def refs_at_def)
  have "1 \<le> cwd_users (procs s) j" by (rule cwd_users_pos [of p]) (use l p in simp_all)
  then show "0 < i_ref (itable s ! j)" using r n open_files_nonneg [of "ftable s" j] by (simp add: refs_ok_def refs_at_def)
qed

lemma namex_rule:
  fixes s :: "'a pstate_scheme"
  assumes r: "refs_ok L F H s" and p: "p < NPROC" and c: "path_cwd p path s = Inr cwd"
    and P: "\<And>nm s'. refs_ok L F H s' \<Longrightarrow> P (None, nm, s')" "\<And>j nm s'. refs_ok L F (add_mset j H) s' \<Longrightarrow> P (Some j, nm, s')"
  shows "okE (namex pid cwd path np name s) P"
proof (cases "path \<noteq> [] \<and> hd path = SLASH")
  case True
  show ?thesis
    unfolding namex_def if_P [OF True]
    by (intro okE_intros, rule iget_refs [OF r], intro okE_intros, erule namex_from_rule) (auto intro: P)
next
  case False
  then have w: "pr_cwd (procs s ! p) = Some cwd" using c by (auto simp: path_cwd_def split: option.splits if_splits)
  show ?thesis
    unfolding namex_def if_not_P [OF False]
    by (intro okE_intros, rule namex_from_rule [OF idup_refs [OF r refs_ok_cwd [OF r p w]]]) (auto intro: P)
qed

lemma proc_namei_rule:
  fixes s :: "'a pstate_scheme"
  assumes r: "refs_ok L F H s" and p: "p < NPROC"
    and P: "\<And>s'. refs_ok L F H s' \<Longrightarrow> P (None, s')" "\<And>j s'. refs_ok L F (add_mset j H) s' \<Longrightarrow> P (Some j, s')"
  shows "okE (proc_namei p path s) P"
  unfolding proc_namei_def namei_def
  by (intro okE_intros okE_I [of "path_cwd p path s"], rule namex_rule [OF r p], assumption) (auto intro: P)

lemma proc_nameiparent_rule:
  fixes s :: "'a pstate_scheme"
  assumes r: "refs_ok L F H s" and p: "p < NPROC"
    and P: "\<And>nm s'. refs_ok L F H s' \<Longrightarrow> P (None, nm, s')" "\<And>j nm s'. refs_ok L F (add_mset j H) s' \<Longrightarrow> P (Some j, nm, s')"
  shows "okE (proc_nameiparent p path s) P"
  unfolding proc_nameiparent_def nameiparent_def
  by (intro okE_intros okE_I [of "path_cwd p path s"], rule namex_rule [OF r p], assumption) (auto intro: P)

subsection \<open>System calls\<close>

text \<open>Links and directories: these calls only borrow references.\<close>

lemmas path_rules = quiet_rules iput_rule iunlockput_rule iunlockput_rule2 dirlookup_rule dirlink_rule ialloc_rule

lemma argstr_rule: "(\<And>r. P r) \<Longrightarrow> okE (argstr p n mx s) P"
  and argint_rule: "(\<And>r. Q r) \<Longrightarrow> okE (argint p n s) Q"
  and argaddr_rule: "(\<And>r. R r) \<Longrightarrow> okE (argaddr p n s) R"
  by (simp_all add: okE_def)

lemma iupdate_create_rule:
  fixes s :: "'a pstate_scheme"
  assumes "refs_ok L F H s" "\<And>s'. refs_ok L F H s' \<Longrightarrow> P s'"
  shows "okE (iupdate pid ip (upd_inode jp (\<lambda>i. i\<lparr>i_major := a, i_minor := b, i_nlink := n\<rparr>) s)) P"
    and "okE (iupdate pid ip (upd_inode jp (\<lambda>i. i\<lparr>i_nlink := n\<rparr>) s)) P"
proof -
  have u: "okE (iupdate pid ip (upd_inode jp f s)) P" if "\<And>i. core (f i) = core i" for f
  proof (rule quiet_state [OF _ assms])
    show "okE (iupdate pid ip (upd_inode jp f s)) (\<lambda>s'. quiet s s')"
      using iupdate_field_quiet [of f] that unfolding okE_def by blast
  qed
  show "okE (iupdate pid ip (upd_inode jp (\<lambda>i. i\<lparr>i_major := a, i_minor := b, i_nlink := n\<rparr>) s)) P" by (rule u) (simp add: core_def)
  show "okE (iupdate pid ip (upd_inode jp (\<lambda>i. i\<lparr>i_nlink := n\<rparr>) s)) P" by (rule u) (simp add: core_def)
qed

lemma op_fails_rule:
  fixes s :: "'a pstate_scheme"
  assumes "refs_ok L F H s" "\<And>s'. refs_ok L F H s' \<Longrightarrow> P (- 1, s')"
  shows "okE (op_fails p s) P"
  using assms(1) unfolding op_fails_def by - ((intro okE_intros | erule quiet_rules | (rule assms(2), assumption))+)

lemma put_fails_rule:
  fixes s :: "'a pstate_scheme"
  assumes "refs_ok L F (add_mset ip H) s" "\<And>s'. refs_ok L F H s' \<Longrightarrow> P (- 1, s')"
  shows "okE (put_fails p ip s) P"
  using assms(1) unfolding put_fails_def by - ((intro okE_intros | erule iunlockput_rule op_fails_rule | (rule assms(2), assumption))+)

lemma link_bad_rule:
  fixes s :: "'a pstate_scheme"
  assumes "refs_ok L F (add_mset ip H) s" "\<And>s'. refs_ok L F H s' \<Longrightarrow> P (- 1, s')"
  shows "okE (link_bad p ip s) P"
  using assms(1) unfolding link_bad_def Let_def
  by - ((intro okE_intros | erule quiet_rules put_fails_rule | (rule assms(2), assumption))+)

lemma link_path_rule:
  fixes s :: "'a pstate_scheme"
  assumes "refs_ok L F H s" and p: "p < NPROC" and P: "\<And>r s'. refs_ok L F H s' \<Longrightarrow> P (r, s')"
  shows "okE (link_path p old new s) P"
  using assms(1) unfolding link_path_def Let_def
  by - ((intro okE_intros | erule path_rules op_fails_rule put_fails_rule link_bad_rule proc_namei_rule [OF _ p]
        proc_nameiparent_rule [OF _ p] | (rule P, assumption))+)

lemma unlink_entry_rule:
  fixes s :: "'a pstate_scheme"
  assumes "refs_ok L F (add_mset ip (add_mset dp H)) s" and P: "\<And>r s'. refs_ok L F H s' \<Longrightarrow> P (r, s')"
  shows "okE (unlink_entry p dp ip off s) P"
  using assms(1) unfolding unlink_entry_def Let_def
  by - ((intro okE_intros | erule path_rules | (rule P, assumption))+)

lemma unlink_path_rule:
  fixes s :: "'a pstate_scheme"
  assumes "refs_ok L F H s" and p: "p < NPROC" and P: "\<And>r s'. refs_ok L F H s' \<Longrightarrow> P (r, s')"
  shows "okE (unlink_path p path s) P"
  using assms(1) unfolding unlink_path_def Let_def
  by - ((intro okE_intros | erule path_rules op_fails_rule put_fails_rule unlink_entry_rule
        proc_nameiparent_rule [OF _ p] | (rule P, assumption))+)

lemma create_fail_rule:
  fixes s :: "'a pstate_scheme"
  assumes "refs_ok L F (add_mset ip (add_mset dp H)) s" and P: "\<And>s'. refs_ok L F H s' \<Longrightarrow> P (None, s')"
  shows "okE (create_fail p dp ip s) P"
  using assms(1) unfolding create_fail_def Let_def
  by - ((intro okE_intros | erule path_rules iupdate_create_rule | (rule P, assumption))+)

lemma create_in_rule:
  fixes s :: "'a pstate_scheme"
  assumes "refs_ok L F (add_mset ip (add_mset dp H)) s"
    and P: "\<And>s'. refs_ok L F H s' \<Longrightarrow> P (None, s')" "\<And>s'. refs_ok L F (add_mset ip H) s' \<Longrightarrow> P (Some ip, s')"
  shows "okE (create_in p dp name ip type major minor s) P"
  using assms(1) unfolding create_in_def Let_def
  by - ((intro okE_intros | erule path_rules iupdate_create_rule create_fail_rule | (rule P, assumption))+)

lemma create_rule:
  fixes s :: "'a pstate_scheme"
  assumes "refs_ok L F H s" and p: "p < NPROC"
    and P: "\<And>s'. refs_ok L F H s' \<Longrightarrow> P (None, s')" "\<And>ip s'. refs_ok L F (add_mset ip H) s' \<Longrightarrow> P (Some ip, s')"
  shows "okE (create p path type major minor s) P"
  using assms(1) unfolding create_def Let_def
  by - ((intro okE_intros | erule path_rules create_in_rule proc_nameiparent_rule [OF _ p] | (rule P, assumption))+)

lemma open_inode_rule:
  fixes s :: "'a pstate_scheme"
  assumes "refs_ok L F H s" and p: "p < NPROC"
    and P: "\<And>s'. refs_ok L F H s' \<Longrightarrow> P (None, s')" "\<And>ip s'. refs_ok L F (add_mset ip H) s' \<Longrightarrow> P (Some ip, s')"
  shows "okE (open_inode p omode path s) P"
  using assms(1) unfolding open_inode_def Let_def
  by - ((intro okE_intros | erule path_rules create_rule [OF _ p] proc_namei_rule [OF _ p] | (rule P, assumption))+)

lemma make_node_rule:
  fixes s :: "'a pstate_scheme"
  assumes "refs_ok L F H s" and p: "p < NPROC" and P: "\<And>r s'. refs_ok L F H s' \<Longrightarrow> P (r, s')"
  shows "okE (make_node p type major minor s) P"
  using assms(1) unfolding make_node_def Let_def
  by - ((intro okE_intros okE_option argstr_rule | erule path_rules op_fails_rule create_rule [OF _ p] | (rule P, assumption))+)

subsection \<open>Files and processes change hands\<close>

lemma refs_ok_same:
  fixes s :: "'a pstate_scheme"
  assumes "refs_ok L F H s" "itable s' = itable s" "ftable s' = ftable s" "procs s' = procs s"
  shows "refs_ok L F H s'"
  using assms by (simp add: refs_ok_def refs_at_def)

text \<open>One entry of the file table changes.\<close>

lemma refs_at_file:
  fixes s :: "'a filest_scheme"
  assumes r: "refs_at ps L F H s" and f: "f < NFILE" and same: "ftable s' = (ftable s)[f := x]" "itable s' = itable s"
    and x: "f_ref x = 0 \<Longrightarrow> f_type x = FD_NONE" "f_type x \<in> {FD_INODE, FD_DEVICE} \<Longrightarrow> f_ip x < NINODE"
    and F: "f_ref x - int (count F' f) = f_ref (ftable s ! f) - int (count F f)" "\<And>g. g \<noteq> f \<Longrightarrow> count F' g = count F g"
    and H: "\<And>j. j < NINODE \<Longrightarrow> of_bool (uses_inode j x) + int (count H' j) = of_bool (uses_inode j (ftable s ! f)) + int (count H j)"
    and H': "\<And>j. j \<in># H' \<Longrightarrow> j < NINODE"
  shows "refs_at ps L F' H' s'"
proof -
  have l: "length (ftable s) = NFILE" using r by (simp add: refs_at_def)
  have "f_ref ((ftable s)[f := x] ! g) = fd_users ps g + int (count F' g)" if "g < NFILE" for g
    using r that F l f by (cases "g = f") (simp_all add: refs_at_def)
  moreover have "g < NFILE" if "g \<in># F'" for g
  proof (cases "g = f")
    case False
    then have "g \<in># F" using F(2) [of g] that by (simp add: count_greater_zero_iff [symmetric] del: count_greater_zero_iff)
    then show ?thesis using r by (simp add: refs_at_def)
  qed (use f in simp)
  moreover have "i_ref (itable s ! j) = open_files ((ftable s)[f := x]) j + cwd_users ps j + int (count H' j)" if "j < NINODE" for j
    using r H [OF that] that l f by (simp add: refs_at_def open_files_update)
  moreover have "\<forall>y \<in> set ((ftable s)[f := x]). (f_ref y = 0 \<longrightarrow> f_type y = FD_NONE) \<and> (f_type y \<in> {FD_INODE, FD_DEVICE} \<longrightarrow> f_ip y < NINODE)"
    using r x by (auto simp: refs_at_def dest!: set_update_subset_insert [THEN subsetD])
  ultimately show ?thesis using r H' by (simp add: refs_at_def same)
qed

lemma refs_ok_file:
  fixes s :: "'a pstate_scheme"
  assumes "refs_ok L F H s" "f < NFILE" "ftable s' = (ftable s)[f := x]" "itable s' = itable s" "procs s' = procs s"
    "f_ref x = 0 \<Longrightarrow> f_type x = FD_NONE" "f_type x \<in> {FD_INODE, FD_DEVICE} \<Longrightarrow> f_ip x < NINODE"
    "f_ref x - int (count F' f) = f_ref (ftable s ! f) - int (count F f)" "\<And>g. g \<noteq> f \<Longrightarrow> count F' g = count F g"
    "\<And>j. j < NINODE \<Longrightarrow> of_bool (uses_inode j x) + int (count H' j) = of_bool (uses_inode j (ftable s ! f)) + int (count H j)"
    "\<And>j. j \<in># H' \<Longrightarrow> j < NINODE"
  shows "refs_ok L F' H' s'"
  unfolding refs_ok_def assms(5) by (rule refs_at_file [OF assms(1) [unfolded refs_ok_def] assms(2-4,6-11)])

text \<open>One process changes.\<close>

lemma refs_ok_proc:
  fixes s :: "'a pstate_scheme"
  assumes r: "refs_ok L F H s" and p: "p < NPROC" and same: "procs s' = (procs s)[p := x]" "itable s' = itable s" "ftable s' = ftable s"
    and x: "proc_refs_ok x" "p \<in> L \<Longrightarrow> pr_state x \<notin> {UNUSED, ZOMBIE}"
    and F: "\<And>f. f < NFILE \<Longrightarrow> count_list (pr_ofile x) (Some f) + count F' f = count_list (pr_ofile (procs s ! p)) (Some f) + count F f"
    and F': "\<And>g. g \<in># F' \<Longrightarrow> g < NFILE"
    and H: "\<And>j. j < NINODE \<Longrightarrow> of_bool (pr_cwd x = Some j) + count H' j = of_bool (pr_cwd (procs s ! p) = Some j) + count H j"
    and H': "\<And>j. j \<in># H' \<Longrightarrow> j < NINODE"
  shows "refs_ok L F' H' s'"
proof -
  have l: "p < length (procs s)" using r p by (simp add: refs_ok_def refs_at_def)
  have "fd_users ((procs s)[p := x]) f + int (count F' f) = fd_users (procs s) f + int (count F f)" if "f < NFILE" for f
    using F [OF that] by (simp add: users_update(1) [OF l])
  moreover have "cwd_users ((procs s)[p := x]) j + int (count H' j) = cwd_users (procs s) j + int (count H j)" if "j < NINODE" for j
    using H [OF that] by (cases "pr_cwd x = Some j"; cases "pr_cwd (procs s ! p) = Some j") (simp_all add: users_update(2) [OF l])
  moreover have "\<forall>y \<in> set ((procs s)[p := x]). proc_refs_ok y"
    using r x by (auto simp: refs_ok_def refs_at_def dest!: set_update_subset_insert [THEN subsetD])
  moreover have "pr_state ((procs s)[p := x] ! q) \<notin> {UNUSED, ZOMBIE}" if "q \<in> L" for q
    using r x(2) that l by (cases "q = p") (auto simp: refs_ok_def refs_at_def)
  ultimately show ?thesis using r F' H' unfolding refs_ok_def refs_at_def same by (simp add: add.assoc)
qed

lemma count_list_update:
  "k < length xs \<Longrightarrow> count_list (xs[k := v]) y + of_bool (xs ! k = y) = count_list xs y + of_bool (v = y)"
proof (induction xs arbitrary: k)
  case (Cons a xs)
  show ?case
  proof (cases k)
    case (Suc i)
    then show ?thesis using Cons.IH [of i] Cons.prems by simp
  qed simp
qed simp

text \<open>The file table.\<close>

lemma filealloc_refs:
  fixes s :: "'a pstate_scheme"
  assumes r: "refs_ok L F H s" and a: "filealloc s = (Some f, s')"
  shows "refs_ok L (add_mset f F) H s'" "f < NFILE" "f_ref (ftable s' ! f) = 1" "f_type (ftable s' ! f) = FD_NONE" "procs s' = procs s"
proof -
  have f: "f < NFILE" "f_ref (ftable s ! f) = 0" and e: "s' = upd_file f (\<lambda>x. x\<lparr>f_ref := 1\<rparr>) s"
    using a by (auto simp: filealloc_def find_range split: option.splits)
  have l: "length (ftable s) = NFILE" using r by (simp add: refs_ok_def refs_at_def)
  have m: "ftable s ! f \<in> set (ftable s)" using f l by simp
  then have t: "f_type (ftable s ! f) = FD_NONE" using r f by (simp add: refs_ok_def refs_at_def)
  show "refs_ok L (add_mset f F) H s'"
    by (rule refs_ok_file [OF r f(1), of s' "(ftable s ! f)\<lparr>f_ref := 1\<rparr>"]) (use r f t e in \<open>auto simp: uses_inode_def upd_file_def refs_ok_def refs_at_def\<close>)
  show "f < NFILE" "f_ref (ftable s' ! f) = 1" "f_type (ftable s' ! f) = FD_NONE" "procs s' = procs s"
    using f l t by (simp_all add: e upd_file_def)
qed

lemma filedup_refs:
  fixes s :: "'a pstate_scheme"
  assumes r: "refs_ok L F H s" and f: "f < NFILE" and d: "filedup f s = Inr s'"
  shows "refs_ok L (add_mset f F) H s'"
proof -
  have e: "s' = upd_file f (\<lambda>x. x\<lparr>f_ref := f_ref x + 1\<rparr>) s" and p: "0 < f_ref (ftable s ! f)" using d by (auto simp: filedup_def split: if_splits)
  have m: "ftable s ! f \<in> set (ftable s)" using f r by (simp add: refs_ok_def refs_at_def)
  show ?thesis
    by (rule refs_ok_file [OF r f, of s' "(ftable s ! f)\<lparr>f_ref := f_ref (ftable s ! f) + 1\<rparr>"])
      (use r f p e m in \<open>auto simp: uses_inode_def upd_file_def refs_ok_def refs_at_def\<close>)
qed

text \<open>\<open>fileclose\<close>, for any list of descriptors: \<open>exit\<close> clears a descriptor after it has closed the file.\<close>

lemma close_last_refs:
  fixes s :: "'a filest_scheme"
  assumes c: "close_last kend pid ff s = Inr s'"
    and r: "refs_at ps L F (if f_type ff \<in> {FD_INODE, FD_DEVICE} then add_mset (f_ip ff) H else H) s"
  shows "refs_at ps L F H s'"
proof (cases "f_type ff \<in> {FD_INODE, FD_DEVICE}")
  case True
  then have r: "refs_at ps L F (add_mset (f_ip ff) H) s" using r by simp
  obtain s1 s2 where c: "begin_op s = Inr s1" "iput pid (f_ip ff) s1 = Inr s2" "end_op pid s2 = Inr s'"
    using c True by (auto simp: close_last_def)
  show ?thesis
    by (rule refs_at_quiet [OF iput_refs_at [OF refs_at_quiet [OF r] c(2)]]) (use begin_op_quiet [OF c(1)] end_op_quiet [OF c(3)] in simp_all)
next
  case False
  then have "itable s' = itable s \<and> ftable s' = ftable s"
    using c by (auto simp: close_last_def Let_def split: if_splits prod.splits)
  then show ?thesis using r False by (simp add: refs_at_def)
qed

lemma fileclose_refs_at:
  fixes s :: "'a filest_scheme"
  assumes r: "refs_at ps L (add_mset f F) H s" and c: "fileclose kend pid f s = Inr s'"
  shows "refs_at ps L F H s'"
proof -
  let ?x = "ftable s ! f"
  have f: "f < NFILE" and l: "length (ftable s) = NFILE" using r by (simp_all add: refs_at_def)
  have m: "?x \<in> set (ftable s)" using f l by simp
  let ?s1 = "upd_file f (\<lambda>x. x\<lparr>f_ref := f_ref x - 1\<rparr>) s"
  have p: "0 < f_ref ?x" using c by (auto simp: fileclose_def split: if_splits)
  show ?thesis
  proof (cases "f_ref ?x = 1")
    case False
    then have e: "s' = ?s1" using c p f l by (auto simp: fileclose_def Let_def split: if_splits)
    show ?thesis
      by (rule refs_at_file [OF r f, of s' "?x\<lparr>f_ref := f_ref ?x - 1\<rparr>"])
        (use r p e m False in \<open>auto simp: uses_inode_def upd_file_def refs_at_def\<close>)
  next
    case True
    let ?s2 = "upd_file f (\<lambda>x. x\<lparr>f_ref := 0, f_type := FD_NONE\<rparr>) ?s1"
    let ?H = "if f_type ?x \<in> {FD_INODE, FD_DEVICE} then add_mset (f_ip ?x) H else H"
    have c2: "close_last kend pid (?x\<lparr>f_ref := f_ref ?x - 1\<rparr>) ?s2 = Inr s'"
      using c True f l by (simp add: fileclose_def Let_def)
    have "refs_at ps L F ?H ?s2"
      by (rule refs_at_file [OF r f, of _ "?x\<lparr>f_ref := 0, f_type := FD_NONE\<rparr>"])
        (use r p m True l in \<open>auto simp: uses_inode_def upd_file_def refs_at_def split: if_splits\<close>)
    then show ?thesis using close_last_refs [OF c2, of ps L F H] by (simp cong: if_cong)
  qed
qed

lemma fileclose_refs:
  fixes s :: "'a pstate_scheme"
  assumes "refs_ok L (add_mset f F) H s" "fileclose kend pid f s = Inr s'"
  shows "refs_ok L F H s'"
  using fileclose_refs_at [of "procs s" L f F H s] fileclose_same [OF assms(2)] assms by (simp add: refs_ok_def same_procs_def)

text \<open>Descriptors.\<close>

lemma refs_ok_live:
  "refs_ok L F H s \<Longrightarrow> p \<in> L \<Longrightarrow> p < NPROC \<and> pr_state (procs s ! p) \<notin> {UNUSED, ZOMBIE}"
  by (simp add: refs_ok_def refs_at_def)

lemma refs_ok_proc_at:
  fixes s :: "'a pstate_scheme"
  shows "refs_ok L F H s \<Longrightarrow> p < NPROC \<Longrightarrow> proc_refs_ok (procs s ! p) \<and> procs s ! p \<in> set (procs s) \<and> p < length (procs s)"
  by (simp add: refs_ok_def refs_at_def)

lemma set_fd_refs:
  fixes s :: "'a pstate_scheme"
  assumes r: "refs_ok L F H s" and p: "p \<in> L" and fd: "fd < NOFILE"
    and F: "F + ref_of (pr_ofile (procs s ! p) ! fd) = F' + ref_of fo" "\<And>g. g \<in># F' + ref_of fo \<Longrightarrow> g < NFILE"
  shows "refs_ok L F' H (set_fd p fd fo s)"
proof -
  let ?x = "procs s ! p"
  have p': "p < NPROC" "pr_state ?x \<notin> {UNUSED, ZOMBIE}" using refs_ok_live [OF r p] by auto
  note ok = refs_ok_proc_at [OF r p'(1)]
  then have l: "fd < length (pr_ofile ?x)" using fd by (simp add: proc_refs_ok_def refs_at_def)
  have c: "count (ref_of o') g = of_bool (o' = Some g)" for o' g by (cases o') auto
  show ?thesis
  proof (rule refs_ok_proc [OF r p'(1), of _ "?x\<lparr>pr_ofile := (pr_ofile ?x)[fd := fo]\<rparr>"])
    show "proc_refs_ok (?x\<lparr>pr_ofile := (pr_ofile ?x)[fd := fo]\<rparr>)"
      using ok p' F(2) by (auto simp: proc_refs_ok_def refs_at_def ref_of_def dest!: set_update_subset_insert [THEN subsetD] split: option.splits)
    show "count_list (pr_ofile (?x\<lparr>pr_ofile := (pr_ofile ?x)[fd := fo]\<rparr>)) (Some f) + count F' f = count_list (pr_ofile ?x) (Some f) + count F f" for f
      using count_list_update [OF l, of fo "Some f"] arg_cong [OF F(1), of "\<lambda>M. count M f"] by (simp add: c)
    show "j < NINODE" if "j \<in># H" for j using r that by (simp add: refs_ok_def refs_at_def)
  qed (use F(2) p' in \<open>auto simp: set_fd_def upd_proc_def\<close>)
qed

lemma fdalloc_refs:
  fixes s :: "'a pstate_scheme"
  assumes r: "refs_ok L (add_mset f F) H s" and p: "p \<in> L" and a: "fdalloc p f s = (Some fd, s')"
  shows "refs_ok L F H s'" "fd < NOFILE" "s' = set_fd p fd (Some f) s" "pr_ofile (procs s ! p) ! fd = None"
proof -
  show fd: "fd < NOFILE" and e: "s' = set_fd p fd (Some f) s" and n: "pr_ofile (procs s ! p) ! fd = None"
    using a by (auto simp: fdalloc_def find_range split: option.splits)
  show "refs_ok L F H s'" unfolding e by (rule set_fd_refs [OF r p fd]) (use n r in \<open>auto simp: refs_ok_def refs_at_def\<close>)
qed

lemma argfd_file:
  fixes s :: "'a pstate_scheme"
  assumes r: "refs_ok L F H s" and p: "p < NPROC" and a: "argfd p n s = Inr (Some (fd, f))"
  shows "fd < NOFILE" "f < NFILE" "pr_ofile (procs s ! p) ! fd = Some f"
proof -
  obtain w where "argint p n s = Inr w" "0 \<le> sint w" "sint w < int NOFILE" and f: "pr_ofile (procs s ! p) ! nat (sint w) = Some f" "fd = nat (sint w)"
    using a by (auto simp: argfd_def Let_def split: if_splits)
  then show fd: "fd < NOFILE" by simp
  show e: "pr_ofile (procs s ! p) ! fd = Some f" using f by simp
  then have "Some f \<in> set (pr_ofile (procs s ! p))" using fd refs_ok_proc_at [OF r p] by (metis nth_mem proc_refs_ok_def refs_at_def)
  then show "f < NFILE" using refs_ok_proc_at [OF r p] by (auto simp: proc_refs_ok_def refs_at_def)
qed

lemma set_fd_simps [simp]:
  fixes s :: "'a pstate_scheme"
  shows "ftable (set_fd p fd fo s) = ftable s" "itable (set_fd p fd fo s) = itable s"
    "procs (set_fd p fd fo s) = (procs s)[p := (procs s ! p)\<lparr>pr_ofile := (pr_ofile (procs s ! p))[fd := fo]\<rparr>]"
  by (simp_all add: set_fd_def upd_proc_def)

lemma sys_dup_refs:
  fixes s :: "'a pstate_scheme"
  assumes r: "refs_ok L F H s" and p: "p \<in> L" and c: "sys_dup p s = Inr (k, s')"
  shows "refs_ok L F H s'"
proof -
  obtain a where a: "argfd p 0 s = Inr a" using c by (auto simp: sys_dup_def)
  show ?thesis
  proof (cases "k = - 1 \<and> s' = s")
    case False
    then obtain fd0 f fd s1 where 1: "a = Some (fd0, f)" "fdalloc p f s = (Some fd, s1)" "filedup f s1 = Inr s'"
      using c a by (auto simp: sys_dup_def fdalloc_def split: option.splits)
    have p': "p < NPROC" using refs_ok_live [OF r p] by simp
    note f = argfd_file [OF r p' a [unfolded 1(1)]]
    have fd: "fd < NOFILE" "s1 = set_fd p fd (Some f) s" "pr_ofile (procs s ! p) ! fd = None"
      using 1(2) by (auto simp: fdalloc_def find_range split: option.splits)
    let ?g = "\<lambda>x :: kfile. x\<lparr>f_ref := f_ref x + 1\<rparr>"
    have "f_ref (ftable s ! f) \<ge> 1" "s' = upd_file f ?g (set_fd p fd (Some f) s)"
      using 1(3) unfolding filedup_def fd(2) by (simp_all split: if_splits)
    then have d: "filedup f s = Inr (upd_file f ?g s)" and e: "s' = set_fd p fd (Some f) (upd_file f ?g s)"
      by (simp_all add: filedup_def upd_file_def set_fd_def upd_proc_def)
    have b: "\<forall>g \<in># F. g < NFILE" using r by (simp add: refs_ok_def refs_at_def)
    show ?thesis
      unfolding e by (rule set_fd_refs [OF filedup_refs [OF r f(2) d] p fd(1)]) (use fd(3) f(2) b in \<open>auto simp: upd_file_def\<close>)
  qed (use r in simp)
qed

lemma sys_close_refs:
  fixes s :: "'a pstate_scheme"
  assumes r: "refs_ok L F H s" and p: "p \<in> L" and c: "sys_close K p s = Inr (k, s')"
  shows "refs_ok L F H s'"
proof -
  obtain a where a: "argfd p 0 s = Inr a" using c by (auto simp: sys_close_def)
  show ?thesis
  proof (cases a)
    case (Some x)
    then obtain fd f where x: "a = Some (fd, f)" by (cases x) auto
    then have cl: "close_file K p f (set_fd p fd None s) = Inr s'" using c a by (auto simp: sys_close_def)
    have p': "p < NPROC" using refs_ok_live [OF r p] by simp
    note f = argfd_file [OF r p' a [unfolded x]]
    have "refs_ok L (add_mset f F) H (set_fd p fd None s)"
      by (rule set_fd_refs [OF r p f(1)]) (use f r in \<open>auto simp: refs_ok_def refs_at_def\<close>)
    then show ?thesis using cl fileclose_refs unfolding close_file_def by blast
  qed (use c a r in \<open>simp add: sys_close_def\<close>)
qed

lemma set_open_refs:
  fixes s :: "'a pstate_scheme"
  assumes r: "refs_ok L F (add_mset ip H) s" and f: "f < NFILE" "0 < f_ref (ftable s ! f)" "f_type (ftable s ! f) = FD_NONE"
  shows "refs_ok L F H (set_open f ip omode s)"
proof -
  obtain x where x: "set_open f ip omode s = upd_file f (\<lambda>_. x) s" "f_ref x = f_ref (ftable s ! f)" "f_type x \<in> {FD_INODE, FD_DEVICE}" "f_ip x = ip"
    by (cases "i_type (itable s ! ip) = T_DEVICE") (auto simp: set_open_def upd_file_def Let_def)
  show ?thesis
    unfolding x(1)
    by (rule refs_ok_file [OF r f(1), of _ x]) (use x r f in \<open>auto simp: upd_file_def uses_inode_def refs_ok_def refs_at_def\<close>)
qed

lemma close_file_rule:
  fixes s :: "'a pstate_scheme"
  shows "refs_ok L (add_mset f F) H s \<Longrightarrow> (\<And>s'. refs_ok L F H s' \<Longrightarrow> P s') \<Longrightarrow> okE (close_file K p f s) P"
  by (auto simp: okE_def close_file_def dest: fileclose_refs)

lemma open_file_rule:
  fixes s :: "'a pstate_scheme"
  assumes r: "refs_ok L F (add_mset ip H) s" and p: "p \<in> L" and P: "\<And>k s'. refs_ok L F H s' \<Longrightarrow> P (k, s')"
  shows "okE (case filealloc s of (None, s) \<Rightarrow> put_fails p ip s
            | (Some f, s) \<Rightarrow> (case fdalloc p f s of (None, s) \<Rightarrow> bindE (close_file K p f s) (put_fails p ip)
                | (Some fd, s) \<Rightarrow>
                    let s = set_open f ip omode s in
                    bindE (if omode AND O_TRUNC \<noteq> 0 \<and> i_type (itable s ! ip) = T_FILE then itrunc pid ip s else Inr s) (\<lambda>s.
                      bindE (iunlock pid ip s) (\<lambda>s. bindE (end_op pid s) (\<lambda>s. Inr (int fd, s)))))) P"
proof -
  obtain fo s1 where a: "filealloc s = (fo, s1)" by fastforce
  show ?thesis
  proof (cases fo)
    case None
    then have "s1 = s" using a by (auto simp: filealloc_def split: option.splits)
    moreover have "okE (put_fails p ip s) P" by (rule put_fails_rule [OF r]) (rule P)
    ultimately show ?thesis using a None by simp
  next
    case (Some f)
    note fa = filealloc_refs [OF r a [unfolded Some]]
    obtain fdo s2 where b: "fdalloc p f s1 = (fdo, s2)" by fastforce
    show ?thesis
    proof (cases fdo)
      case None
      then have "s2 = s1" using b by (auto simp: fdalloc_def split: option.splits)
      then have "refs_ok L (add_mset f F) (add_mset ip H) s2" using fa(1) by simp
      then have "okE (bindE (close_file K p f s2) (put_fails p ip)) P"
        by - (intro okE_intros | erule close_file_rule put_fails_rule | (rule P, assumption))+
      then show ?thesis using a b Some None by simp
    next
      case (Some fd)
      note fb = fdalloc_refs [OF fa(1) p b [unfolded Some]]
      have "ftable s2 = ftable s1" using fb(3) by simp
      then have "refs_ok L F H (set_open f ip omode s2)" by (intro set_open_refs [OF fb(1) fa(2)]) (use fa in simp_all)
      then have "okE (bindE (if omode AND O_TRUNC \<noteq> 0 \<and> i_type (itable (set_open f ip omode s2) ! ip) = T_FILE
          then itrunc pid ip (set_open f ip omode s2) else Inr (set_open f ip omode s2)) (\<lambda>s.
            bindE (iunlock pid ip s) (\<lambda>s. bindE (end_op pid s) (\<lambda>s. Inr (int fd, s))))) P"
        by - (intro okE_intros | erule quiet_rules | (rule P, assumption))+
      then show ?thesis using a b \<open>fo = Some f\<close> Some by (simp add: Let_def)
    qed
  qed
qed

lemma open_path_rule:
  fixes s :: "'a pstate_scheme"
  assumes "refs_ok L F H s" and p: "p \<in> L" and P: "\<And>k s'. refs_ok L F H s' \<Longrightarrow> P (k, s')"
  shows "okE (open_path K p omode path s) P"
proof -
  have p': "p < NPROC" using refs_ok_live [OF assms(1,2)] by simp
  show ?thesis
    using assms(1) unfolding open_path_def Let_def [of "pr_pid (procs s ! p)"]
    by - (intro okE_intros | erule quiet_rules open_inode_rule [OF _ p'] op_fails_rule put_fails_rule open_file_rule [OF _ p] | (rule P, assumption))+
qed

text \<open>The current directory of \<open>p\<close> is given back before it is replaced.\<close>

lemma drop_cwd_refs:
  fixes s :: "'a pstate_scheme"
  assumes r: "refs_ok L F H s" and p: "p < NPROC" "pr_cwd (procs s ! p) = Some c" and i: "iput pid c s = Inr s1" and e: "end_op pid s1 = Inr s2"
  shows "refs_ok L F H (upd_proc p (\<lambda>x. x\<lparr>pr_cwd := None\<rparr>) s2)"
proof -
  let ?u = "upd_proc p (\<lambda>x. x\<lparr>pr_cwd := None\<rparr>) :: 'a pstate_scheme \<Rightarrow> 'a pstate_scheme"
  note c = refs_ok_cwd [OF r p]
  have b: "\<forall>j \<in># H. j < NINODE" "\<forall>f \<in># F. f < NFILE"
    using r by (auto simp: refs_ok_def refs_at_def)
  have "proc_refs_ok ((procs s ! p)\<lparr>pr_cwd := None\<rparr>)" "p \<in> L \<Longrightarrow> pr_state (procs s ! p) \<notin> {UNUSED, ZOMBIE}"
    using refs_ok_proc_at [OF r p(1)] refs_ok_live [OF r] by (auto simp: proc_refs_ok_def)
  then have "refs_ok L F (add_mset c H) (?u s)"
    by (intro refs_ok_proc [OF r p(1), of _ "(procs s ! p)\<lparr>pr_cwd := None\<rparr>"]) (use p c b in \<open>auto simp: upd_proc_def\<close>)
  then have "refs_at (procs (?u s)) L F (add_mset c H) s" by (simp add: refs_ok_def refs_at_def upd_proc_def)
  then have "refs_at (procs (?u s)) L F H s2"
    by (rule refs_at_quiet [OF iput_refs_at [OF _ i] end_op_quiet [OF e]])
  moreover have "procs s2 = procs s"
    using pstate_more [OF iput_fs_more [OF i]] pstate_more [of s2 s1] end_op_quiet [OF e] by simp
  ultimately show ?thesis by (simp add: refs_ok_def refs_at_def upd_proc_def)
qed

lemma set_cwd_refs:
  fixes s :: "'a pstate_scheme"
  assumes r: "refs_ok L F (add_mset ip H) s" and p: "p \<in> L" "pr_cwd (procs s ! p) = None"
  shows "refs_ok L F H (upd_proc p (\<lambda>x. x\<lparr>pr_cwd := Some ip\<rparr>) s)"
proof -
  have p': "p < NPROC" "pr_state (procs s ! p) \<notin> {UNUSED, ZOMBIE}" using refs_ok_live [OF r p(1)] by auto
  have b: "ip < NINODE" "\<forall>j \<in># H. j < NINODE" "\<forall>f \<in># F. f < NFILE" using r by (simp_all add: refs_ok_def refs_at_def)
  have "proc_refs_ok ((procs s ! p)\<lparr>pr_cwd := Some ip\<rparr>)" using refs_ok_proc_at [OF r p'(1)] p' b by (simp add: proc_refs_ok_def refs_at_def)
  then show ?thesis by (intro refs_ok_proc [OF r p'(1), of _ "(procs s ! p)\<lparr>pr_cwd := Some ip\<rparr>"]) (use p p' b in \<open>auto simp: upd_proc_def\<close>)
qed

lemma sys_chdir_refs:
  fixes s :: "'a pstate_scheme"
  assumes r: "refs_ok L F H s" and p: "p \<in> L" and c: "sys_chdir p s = Inr (k, s')"
  shows "refs_ok L F H s'"
proof -
  have p': "p < NPROC" using refs_ok_live [OF r p] by simp
  let ?pid = "pr_pid (procs s ! p)" and ?Q = "\<lambda>(k :: int, s'). refs_ok L F H s'"
  have fin: "okE (case pr_cwd (procs t ! p) of None \<Rightarrow> Inl NullDeref
      | Some cwd \<Rightarrow> bindE (iput ?pid cwd t) (\<lambda>s. bindE (end_op ?pid s) (\<lambda>s. Inr (0, upd_proc p (\<lambda>x. x\<lparr>pr_cwd := Some ip\<rparr>) s)))) ?Q"
    if t: "refs_ok L F (add_mset ip H) t" for ip and t :: "'a pstate_scheme"
  proof (cases "pr_cwd (procs t ! p)")
    case (Some d)
    have "refs_ok L F H (upd_proc p (\<lambda>x. x\<lparr>pr_cwd := Some ip\<rparr>) s2)" if i: "iput ?pid d t = Inr s1" "end_op ?pid s1 = Inr s2" for s1 s2
    proof -
      let ?t = "upd_proc p (\<lambda>x. x\<lparr>pr_cwd := None\<rparr>) s2"
      have d: "refs_ok L F (add_mset ip H) ?t" by (rule drop_cwd_refs [OF t p' Some i])
      then have l: "p < length (procs s2)" using p' by (simp add: refs_ok_def refs_at_def upd_proc_def)
      then have "upd_proc p (\<lambda>x. x\<lparr>pr_cwd := Some ip\<rparr>) ?t = upd_proc p (\<lambda>x. x\<lparr>pr_cwd := Some ip\<rparr>) s2" by (simp add: upd_proc_def)
      then show ?thesis using set_cwd_refs [OF d p] l by (simp add: upd_proc_def)
    qed
    then show ?thesis using Some by (auto simp: okE_def)
  qed simp
  have "okE (sys_chdir p s) ?Q"
    using r unfolding sys_chdir_def Let_def [of ?pid]
    by - (erule fin | intro okE_intros argstr_rule okE_option | erule quiet_rules proc_namei_rule [OF _ p'] op_fails_rule put_fails_rule | simp)+
  from okE_D [OF this c] show ?thesis by simp
qed

text \<open>Pipes. The two new files are held until they have descriptors.\<close>

lemma set_pipe_refs:
  fixes s :: "'a pstate_scheme"
  assumes r: "refs_ok L F H s" and f: "f < NFILE" "0 < f_ref (ftable s ! f)" "f_type (ftable s ! f) = FD_NONE"
  shows "refs_ok L F H (upd_file f (\<lambda>x. x\<lparr>f_type := FD_PIPE, f_readable := rd, f_writable := wr, f_pipe := pi\<rparr>) s)"
  by (rule refs_ok_file [OF r f(1), of _ "(ftable s ! f)\<lparr>f_type := FD_PIPE, f_readable := rd, f_writable := wr, f_pipe := pi\<rparr>"])
    (use r f in \<open>auto simp: upd_file_def uses_inode_def refs_ok_def refs_at_def\<close>)

lemma fileclose_rule:
  fixes s :: "'a pstate_scheme"
  shows "refs_ok L (add_mset f F) H s \<Longrightarrow> (\<And>s'. refs_ok L F H s' \<Longrightarrow> P s') \<Longrightarrow> okE (fileclose kend pid f s) P"
  by (auto simp: okE_def dest: fileclose_refs)

lemma pipealloc_rule:
  fixes s :: "'a pstate_scheme"
  assumes r: "refs_ok L F H s" and P: "\<And>s'. refs_ok L F H s' \<Longrightarrow> P (None, s')"
    "\<And>f g s'. refs_ok L (add_mset f (add_mset g F)) H s' \<Longrightarrow> P (Some (f, g), s')"
  shows "okE (pipealloc kend pid s) P"
proof (rule okE_I)
  fix x assume pa: "pipealloc kend pid s = Inr x"
  obtain fo s1 where a: "filealloc s = (fo, s1)" by fastforce
  show "P x"
  proof (cases fo)
    case None
    then have "s1 = s" using a by (auto simp: filealloc_def split: option.splits)
    then have "x = (None, s)" using pa a None by (simp add: pipealloc_def close_some_def)
    then show ?thesis using r P(1) by simp
  next
    case (Some f)
    note fa = filealloc_refs [OF r a [unfolded Some]]
    obtain go s2 where b: "filealloc s1 = (go, s2)" by fastforce
    show ?thesis
    proof (cases go)
      case None
      then have "s2 = s1" using b by (auto simp: filealloc_def split: option.splits)
      then obtain s3 where "fileclose kend pid f s1 = Inr s3" "x = (None, s3)"
        using pa a b Some None by (auto simp: pipealloc_def close_some_def)
      then show ?thesis using P(1) fileclose_refs [OF fa(1)] by simp
    next
      case (Some g)
      note ga = filealloc_refs [OF fa(1) b [unfolded Some]]
      have fg: "f \<noteq> g" "f_ref (ftable s2 ! f) = 1" "f_type (ftable s2 ! f) = FD_NONE"
      proof -
        have g: "f_ref (ftable s1 ! g) = 0" "s2 = upd_file g (\<lambda>x. x\<lparr>f_ref := 1\<rparr>) s1"
          using b Some by (auto simp: filealloc_def find_range split: option.splits)
        then show "f \<noteq> g" using fa(3) by auto
        then show "f_ref (ftable s2 ! f) = 1" "f_type (ftable s2 ! f) = FD_NONE" using fa(3,4) g(2) by simp_all
      qed
      obtain pi m where k: "kalloc (fs_mach s2) = (pi, m)" by fastforce
      have m: "refs_ok L (add_mset g (add_mset f F)) H (s2\<lparr>fs_mach := m\<rparr>)" by (rule refs_ok_same [OF ga(1)]) simp_all
      show ?thesis
      proof (cases "pi = 0")
        case True
        then obtain s3 s4 where "fileclose kend pid f (s2\<lparr>fs_mach := m\<rparr>) = Inr s3" "fileclose kend pid g s3 = Inr s4" "x = (None, s4)"
          using pa a b k \<open>fo = Some f\<close> Some by (auto simp: pipealloc_def close_some_def Let_def)
        moreover have "refs_ok L (add_mset f (add_mset g F)) H (s2\<lparr>fs_mach := m\<rparr>)" using m by (simp add: add_mset_commute)
        ultimately show ?thesis using P(1) fileclose_refs by blast
      next
        case False
        let ?s3 = "s2\<lparr>fs_mach := m, pipes := (pipes s2)(pi := pipe_init (pipes s2 pi))\<rparr>"
        let ?s4 = "upd_file f (\<lambda>x. x\<lparr>f_type := FD_PIPE, f_readable := True, f_writable := False, f_pipe := pi\<rparr>) ?s3"
        let ?s5 = "upd_file g (\<lambda>x. x\<lparr>f_type := FD_PIPE, f_readable := False, f_writable := True, f_pipe := pi\<rparr>) ?s4"
        have x: "x = (Some (f, g), ?s5)"
          using pa a b k False \<open>fo = Some f\<close> Some by (auto simp: pipealloc_def close_some_def Let_def)
        have "refs_ok L (add_mset f (add_mset g F)) H ?s3" by (rule refs_ok_same [OF m [unfolded add_mset_commute [of g]]]) simp_all
        then have "refs_ok L (add_mset f (add_mset g F)) H ?s4" by (rule set_pipe_refs) (use fa fg in simp_all)
        then have "refs_ok L (add_mset f (add_mset g F)) H ?s5" by (rule set_pipe_refs) (use ga fg in simp_all)
        then show ?thesis using P(2) x by simp
      qed
    qed
  qed
qed

lemma close_both_rule:
  fixes s :: "'a pstate_scheme"
  assumes "refs_ok L (add_mset f (add_mset g F)) H s" "\<And>s'. refs_ok L F H s' \<Longrightarrow> P (- 1, s')"
  shows "okE (close_both K p f g s) P"
  using assms(1) unfolding close_both_def by - (intro okE_intros | erule close_file_rule | (rule assms(2), assumption))+

lemma store_fds_same:
  fixes s :: "'a pstate_scheme"
  shows "store_fds p a fd0 fd1 s = Inr (r, s') \<Longrightarrow> itable s' = itable s \<and> ftable s' = ftable s \<and> procs s' = procs s"
  by (auto simp: store_fds_def Let_def)

lemma sys_pipe_refs:
  fixes s :: "'a pstate_scheme"
  assumes r: "refs_ok L F H s" and p: "p \<in> L" and c: "sys_pipe K p s = Inr (k, s')"
  shows "refs_ok L F H s'"
proof -
  let ?Q = "\<lambda>(k :: int, s'). refs_ok L F H s'"
  have fin: "okE (case fdalloc p f t of (None, s) \<Rightarrow> close_both K p f g s
          | (Some fd0, s) \<Rightarrow>
              (case fdalloc p g s of (None, s) \<Rightarrow> close_both K p f g (set_fd p fd0 None s)
               | (Some fd1, s) \<Rightarrow>
                   bindE (store_fds p a fd0 fd1 s) (\<lambda>(r, s).
                     if r < 0 then close_both K p f g (set_fd p fd1 None (set_fd p fd0 None s))
                     else Inr (0, s)))) ?Q"
    if t: "refs_ok L (add_mset f (add_mset g F)) H t" for a f g and t :: "'a pstate_scheme"
  proof -
    have b: "\<forall>h \<in># F. h < NFILE" "f < NFILE" "g < NFILE" using t by (simp_all add: refs_ok_def refs_at_def)
    obtain o0 t1 where a0: "fdalloc p f t = (o0, t1)" by fastforce
    have cb: "okE (close_both K p f g u) ?Q" if "refs_ok L (add_mset f (add_mset g F)) H u" for u :: "'a pstate_scheme"
      using close_both_rule [OF that, of ?Q] by simp
    show ?thesis
    proof (cases o0)
      case None
      then have "t1 = t" using a0 by (auto simp: fdalloc_def split: option.splits)
      then show ?thesis using a0 None cb [OF t] by simp
    next
      case (Some fd0)
      note f0 = fdalloc_refs [OF t p a0 [unfolded Some]]
      have l: "p < length (procs t)" "fd0 < length (pr_ofile (procs t ! p))"
        using refs_ok_proc_at [OF t] refs_ok_live [OF t p] f0(2) by (auto simp: proc_refs_ok_def refs_at_def)
      then have at0: "pr_ofile (procs t1 ! p) ! fd0 = Some f" by (simp add: f0(3))
      obtain o1 t2 where a1: "fdalloc p g t1 = (o1, t2)" by fastforce
      show ?thesis
      proof (cases o1)
        case None
        then have "t2 = t1" using a1 by (auto simp: fdalloc_def split: option.splits)
        moreover have "refs_ok L (add_mset f (add_mset g F)) H (set_fd p fd0 None t1)"
          by (rule set_fd_refs [OF f0(1) p f0(2)]) (use at0 b in auto)
        ultimately show ?thesis using a0 a1 Some None cb by simp
      next
        case o1: (Some fd1)
        note f1 = fdalloc_refs [OF f0(1) p a1 [unfolded o1]]
        have ne: "fd0 \<noteq> fd1" using at0 f1(4) by auto
        have l1: "p < length (procs t1)" "fd1 < length (pr_ofile (procs t1 ! p))"
          using refs_ok_proc_at [OF f0(1)] refs_ok_live [OF f0(1) p] f1(2) by (auto simp: proc_refs_ok_def refs_at_def)
        have "okE (store_fds p a fd0 fd1 t2) (\<lambda>(r, u). refs_ok L F H u \<and> procs u = procs t2)"
          using store_fds_same refs_ok_same [OF f1(1)] unfolding okE_def by fast
        moreover have "okE (close_both K p f g (set_fd p fd1 None (set_fd p fd0 None u))) ?Q"
          if u: "refs_ok L F H u" "procs u = procs t2" for u :: "'a pstate_scheme"
        proof -
          have at: "pr_ofile (procs u ! p) ! fd0 = Some f" "pr_ofile (procs u ! p) ! fd1 = Some g"
            using at0 l1 ne by (simp_all add: u(2) f1(3))
          have "refs_ok L (add_mset f F) H (set_fd p fd0 None u)"
            by (rule set_fd_refs [OF u(1) p f0(2)]) (use at b in auto)
          then have "refs_ok L (add_mset f (add_mset g F)) H (set_fd p fd1 None (set_fd p fd0 None u))"
            by (rule set_fd_refs [OF _ p f1(2)]) (use at b l1 ne u(2) f1(3) in auto)
          then show ?thesis by (rule cb)
        qed
        ultimately have "okE (bindE (store_fds p a fd0 fd1 t2) (\<lambda>(r, s).
            if r < 0 then close_both K p f g (set_fd p fd1 None (set_fd p fd0 None s)) else Inr (0, s))) ?Q"
          by (auto simp: okE_def)
        then show ?thesis using a0 a1 Some o1 by simp
      qed
    qed
  qed
  have "okE (sys_pipe K p s) ?Q"
    using r unfolding sys_pipe_def
    by - (erule fin | intro okE_intros argaddr_rule | erule pipealloc_rule | simp)+
  from okE_D [OF this c] show ?thesis by simp
qed

end
