(* ===== verification/FirstProcess.thy ===== *)
theory FirstProcess
  imports Sched
begin


text \<open>
  The address space of a new process and the first process: \<open>proc_pagetable\<close> and \<open>userinit\<close> of \<open>kernel/proc.c\<close>
  (Project 2) on the page tables of \<open>UserMem\<close>, and the invariant of the process table from boot on.
\<close>

unbundle bit_operations_syntax

subsection \<open>A new address space\<close>

lemma top_pages:
  "TRAMPOLINE < MAXVA" "TRAPFRAME < MAXVA" "aligned 4096 TRAMPOLINE" "aligned 4096 TRAPFRAME" "\<not> same_page TRAMPOLINE TRAPFRAME"
  "\<not> same_page TRAMPOLINE 0" "\<not> same_page TRAPFRAME 0"
  by (simp_all add: TRAMPOLINE_def TRAPFRAME_def MAXVA_def PGSIZE_def aligned_def same_page_def word_less_nat_alt)

text \<open>The mappings every process has: trampoline and trap frame, neither accessible in user mode.\<close>

definition fresh_map :: "kimage \<Rightarrow> u64 \<Rightarrow> u64 \<Rightarrow> u64 option" where
  "fresh_map K tf va = (if same_page TRAMPOLINE va then Some (PA2PTE (k_trampoline K) OR (PTE_R OR PTE_X) OR PTE_V)
     else if same_page TRAPFRAME va then Some (PA2PTE tf OR (PTE_R OR PTE_W) OR PTE_V) else None)"

lemma proc_pagetable_spec:
  fixes v :: vmstate
  assumes "kmem_repr (k_end K) v (p # ps)" "4 \<le> length ps"
  shows "\<exists>v' ps'. proc_pagetable K tf v = Inr (p, v') \<and> vm_inv (k_end K) v' p ps' \<and> length ps \<le> length ps' + 4
     \<and> machine.more v' = machine.more v \<and> (\<forall>va < MAXVA. leaf (pmem v') p va = fresh_map K tf va)
     \<and> (\<forall>x. (\<forall>q \<in> set (p # ps). \<not> in_range x q 4096) \<longrightarrow> pmem v' x = pmem v x) \<and> set ps' \<subseteq> set ps
     \<and> tables (pmem v') p \<subseteq> {p} \<union> set ps"
proof -
  have p0: "p \<noteq> 0" using assms(1) by (simp add: kmem_repr_def kpage_def)
  obtain v1 where v1: "uvmcreate v = (p, v1)" "vm_inv (k_end K) v1 p ps" "\<forall>va. leaf (pmem v1) p va = None"
    using uvmcreate_spec [OF assms(1)] by blast
  have m1: "machine.more v1 = machine.more v" and f1: "\<And>x. \<not> in_range x p 4096 \<Longrightarrow> pmem v1 x = pmem v x" and t1: "tables (pmem v1) p = {p}"
  proof -
    have k: "fst (kalloc v) = p" using kalloc_repr_Cons [OF assms(1)] by simp
    then have e: "v1 = (snd (kalloc v))\<lparr>pmem := memset (pmem (snd (kalloc v))) p 0 4096\<rparr>"
      using v1(1) p0 by (cases "kalloc v") (simp add: uvmcreate_def)
    show "machine.more v1 = machine.more v" using kalloc_more [of v] by (simp add: e)
    show "\<not> in_range x p 4096 \<Longrightarrow> pmem v1 x = pmem v x" for x using kalloc_frame [of x v] k by (simp add: e)
    have "kpage (k_end K) p" using assms(1) by (simp add: kmem_repr_def)
    then show "tables (pmem v1) p = {p}" using zero_page_table(2) [of "k_end K" p] by (simp add: e)
  qed
  obtain v2 ps2 where v2: "mappages p TRAMPOLINE PGSIZE (k_trampoline K) (PTE_R OR PTE_X) v1 = Inr (0, v2)" "vm_keeps (k_end K) p v1 ps v2 ps2"
      "length ps \<le> length ps2 + 2" "machine.more v2 = machine.more v1"
      "\<forall>vb < MAXVA. leaf (pmem v2) p vb = (if same_page TRAMPOLINE vb then Some (PA2PTE (k_trampoline K) OR (PTE_R OR PTE_X) OR PTE_V) else leaf (pmem v1) p vb)"
    using map_fresh [OF v1(2) top_pages(3,1), of "k_trampoline K" "PTE_R OR PTE_X"] v1(3) assms(2) by auto
  have i2: "vm_inv (k_end K) v2 p ps2" and p2: "\<exists>k. ps2 = drop k ps" "tables (pmem v2) p \<subseteq> {p} \<union> set ps"
    using v2(2) t1 by (auto simp: vm_keeps_def)
  have "leaf (pmem v2) p TRAPFRAME = None" using v2(5) v1(3) top_pages by simp
  then obtain v3 ps3 where v3: "mappages p TRAPFRAME PGSIZE tf (PTE_R OR PTE_W) v2 = Inr (0, v3)" "vm_keeps (k_end K) p v2 ps2 v3 ps3"
      "length ps2 \<le> length ps3 + 2" "machine.more v3 = machine.more v2"
      "\<forall>vb < MAXVA. leaf (pmem v3) p vb = (if same_page TRAPFRAME vb then Some (PA2PTE tf OR (PTE_R OR PTE_W) OR PTE_V) else leaf (pmem v2) p vb)"
    using map_fresh [OF i2 top_pages(4,2), of tf "PTE_R OR PTE_W"] v2(3) assms(2) by auto
  have "proc_pagetable K tf v = Inr (p, v3)" using v1(1) p0 v2(1) v3(1) by (simp add: proc_pagetable_def)
  moreover have "vm_inv (k_end K) v3 p ps3" using v3(2) by (simp add: vm_keeps_def)
  moreover have "length ps \<le> length ps3 + 4" using v2(3) v3(3) by simp
  moreover have "\<forall>va < MAXVA. leaf (pmem v3) p va = fresh_map K tf va"
    using v3(5) v2(5) v1(3) top_pages(5) by (auto simp: fresh_map_def same_page_def)
  moreover have sub2: "set ps2 \<subseteq> set ps" using p2(1) by (auto dest: in_set_dropD)
  moreover have "set ps3 \<subseteq> set ps" using v3(2) sub2 by (auto simp: vm_keeps_def dest: in_set_dropD)
  moreover have "tables (pmem v3) p \<subseteq> {p} \<union> set ps" using v3(2) p2(2) sub2 unfolding vm_keeps_def by blast
  moreover have "pmem v3 x = pmem v x" if x: "\<forall>q \<in> set (p # ps). \<not> in_range x q 4096" for x
  proof -
    have "pmem v3 x = pmem v2 x" using v3(2) x p2(2) sub2 by (fastforce simp: vm_keeps_def)
    also have "\<dots> = pmem v1 x" using v2(2) x t1 by (fastforce simp: vm_keeps_def)
    finally show ?thesis using f1 x by simp
  qed
  ultimately show ?thesis using m1 v2(4) v3(4) by auto
qed

text \<open>Writing a page that is neither a table nor free.\<close>

lemma vm_inv_fill:
  fixes s :: "'a machine_scheme"
  assumes inv: "vm_inv kend s pt ps" and q: "aligned 4096 q" "q \<notin> tables (pmem s) pt \<union> set ps"
    and m: "\<And>x. \<not> in_range x q 4096 \<Longrightarrow> m x = pmem s x"
  shows "vm_inv kend (s\<lparr>pmem := m\<rparr>) pt ps" "leaf m pt va = leaf (pmem s) pt va" "tables m pt = tables (pmem s) pt"
proof -
  have wf: "pt_wf kend (pmem s) pt" and km: "kmem_repr kend s ps" and dj: "tables (pmem s) pt \<inter> set ps = {}" using inv by (auto simp: vm_inv_def)
  have out: "\<not> in_range x q 4096" if "t \<in> tables (pmem s) pt \<union> set ps" "in_range x t 4096" for t x
  proof -
    have "aligned 4096 t" "t \<noteq> q" using that(1) wf km q(2) by (auto simp: pt_wf_def kmem_repr_def kpage_def)
    then show ?thesis using page_disjoint [of t q x] q(1) that(2) by blast
  qed
  then have "agree_on (tables (pmem s) pt) (pmem s) m" using m by (auto simp: agree_on_def)
  note f = leaf_frame [OF wf this]
  have "free_chain m (freelist s) ps = free_chain (pmem s) (freelist s) ps"
    by (rule free_chain_cong) (use out m in blast)
  then have "kmem_repr kend (s\<lparr>pmem := m\<rparr>) ps" using km by (simp add: kmem_repr_def)
  then show "vm_inv kend (s\<lparr>pmem := m\<rparr>) pt ps" "leaf m pt va = leaf (pmem s) pt va" "tables m pt = tables (pmem s) pt"
    using f dj by (simp_all add: vm_inv_def)
qed

lemma below_kpage:
  assumes "kpage kend t" "in_range x src k" "unat src + k \<le> unat kend"
  shows "\<not> in_range x t 4096"
proof -
  have t: "kend \<le> t" "unat t < 2281701376" using assms(1) by (simp_all add: kpage_def word_less_nat_alt)
  have "unat src + k \<le> 18446744073709551616" using assms(3) unat_lt64 [of kend] by linarith
  then have "unat x < unat src + k" using assms(2) by (simp add: in_range_nowrap)
  then have "unat x < unat t" using assms(3) t(1) by (simp add: word_le_nat_alt)
  then show ?thesis using t(2) by (subst in_range_nowrap) simp_all
qed

text \<open>\<open>uvmfirst\<close> maps page 0 to a new frame \<open>q\<close> and fills it with bytes below the end of the kernel.\<close>

lemma uvmfirst_spec:
  fixes v :: vmstate
  assumes inv: "vm_inv kend v pt (q # ps)" and n: "2 \<le> length ps" "k < 4096" and free: "leaf (pmem v) pt 0 = None"
    and src: "unat src + k \<le> unat kend"
  shows "\<exists>v' ps'. uvmfirst pt src k v = Inr v' \<and> vm_inv kend v' pt ps' \<and> bytes_at (pmem v') q k = bytes_at (pmem v) src k
     \<and> (\<forall>va < MAXVA. leaf (pmem v') pt va = (if same_page 0 va then Some (PA2PTE q OR (PTE_W OR PTE_R OR PTE_X OR PTE_U) OR PTE_V) else leaf (pmem v) pt va))
     \<and> tables (pmem v') pt \<subseteq> tables (pmem v) pt \<union> set ps \<and> set ps' \<subseteq> set ps \<and> machine.more v' = machine.more v"
proof -
  have km: "kmem_repr kend v (q # ps)" using inv by (simp add: vm_inv_def)
  have kp: "kpage kend t" if "t \<in> tables (pmem v) pt \<union> set (q # ps)" for t using that inv by (auto simp: vm_inv_def kmem_repr_def pt_wf_def)
  have qs: "q \<notin> set ps" "q \<notin> tables (pmem v) pt" "q \<noteq> 0" using inv by (auto simp: vm_inv_def kmem_repr_def kpage_def)
  define m where "m = memset (pmem (snd (kalloc v))) q 0 4096"
  define v1 where "v1 = (snd (kalloc v))\<lparr>pmem := m\<rparr>"
  have kq: "fst (kalloc v) = q" using kalloc_repr_Cons [OF km] by simp
  have m: "m x = pmem v x" if "\<not> in_range x q 4096" for x using that kalloc_frame [of x v] kq by (simp add: m_def)
  note f1 = kalloc_fill [OF inv m, folded v1_def]
  have al: "aligned 4096 (0 :: u64)" "(0 :: u64) < MAXVA" by (simp_all add: aligned_def MAXVA_def word_less_nat_alt)
  obtain v2 ps2 where v2: "mappages pt 0 PGSIZE q (PTE_W OR PTE_R OR PTE_X OR PTE_U) v1 = Inr (0, v2)" "vm_keeps kend pt v1 ps v2 ps2"
      "machine.more v2 = machine.more v1"
      "\<forall>vb < MAXVA. leaf (pmem v2) pt vb = (if same_page 0 vb then Some (PA2PTE q OR (PTE_W OR PTE_R OR PTE_X OR PTE_U) OR PTE_V) else leaf (pmem v1) pt vb)"
    using map_fresh [OF f1(1) al, of q "PTE_W OR PTE_R OR PTE_X OR PTE_U"] n(1) free f1(2) by auto
  define v3 where "v3 = v2\<lparr>pmem := memmove (pmem v2) q src k\<rparr>"
  have un: "uvmfirst pt src k v = Inr v3"
    using v2(1) kq n(2) by (cases "kalloc v") (simp add: uvmfirst_def v3_def v1_def m_def)
  have i2: "vm_inv kend v2 pt ps2" and t2: "tables (pmem v2) pt \<subseteq> tables (pmem v) pt \<union> set ps" and d2: "set ps2 \<subseteq> set ps"
    using v2(2) f1(3) unfolding vm_keeps_def by (blast, blast, metis set_drop_subset)
  have aq: "aligned 4096 q" "unat q + k \<le> 18446744073709551616"
  proof -
    have "kpage kend q" by (rule kp) simp
    then show "aligned 4096 q" "unat q + k \<le> 18446744073709551616" using n(2) by (simp_all add: kpage_def word_less_nat_alt)
  qed
  have sk: "unat src + k \<le> 18446744073709551616" using src unat_lt64 [of kend] by linarith
  have low: "\<not> in_range x t 4096" if "in_range x src k" "t \<in> tables (pmem v) pt \<union> set (q # ps)" for x t
    using below_kpage [OF kp [OF that(2)] that(1) src] .
  have mv: "pmem v3 x = (if in_range x q k then pmem v2 (src + (x - q)) else pmem v2 x)" for x
    unfolding v3_def using memmove_apply [OF sk aq(2)] by simp
  have q2: "q \<notin> tables (pmem v2) pt \<union> set ps2" using qs t2 d2 by auto
  note f3 = vm_inv_fill [OF i2 aq(1) q2, of "pmem v3"]
  have out: "pmem v3 x = pmem v2 x" if "\<not> in_range x q 4096" for x
    using that in_range_mono [of x q k 4096] n(2) by (auto simp: mv)
  have s2: "pmem v2 x = pmem v x" if "in_range x src k" for x
  proof -
    have "pmem v2 x = pmem v1 x" using v2(2) low [OF that] f1(3) by (auto simp: vm_keeps_def)
    then show ?thesis using m low [OF that, of q] by (simp add: v1_def)
  qed
  have "bytes_at (pmem v3) q k = bytes_at (pmem v) src k"
    unfolding bytes_at_def
  proof (rule map_cong [OF refl])
    fix i assume "i \<in> set [0..<k]"
    then have "in_range (q + of_nat i) q k" "in_range (src + of_nat i) src k" using n(2) by (simp_all add: unat_of_nat)
    then show "pmem v3 (q + of_nat i) = pmem v (src + of_nat i)" using s2 by (simp add: mv)
  qed
  moreover have "vm_inv kend v3 pt ps2" using f3(1) [OF out] by (simp add: v3_def)
  moreover have "leaf (pmem v3) pt va = leaf (pmem v2) pt va" "tables (pmem v3) pt = tables (pmem v2) pt" for va
    using f3(2,3) [OF out] by simp_all
  moreover have "machine.more v3 = machine.more v" using v2(3) by (simp add: v3_def v1_def)
  ultimately show ?thesis using un v2(4) f1(2) t2 d2 by auto
qed

subsection \<open>The first process\<close>

lemma vm_view_repr [simp]: "kmem_repr kend (vm_view cur s) ps \<longleftrightarrow> kmem_repr kend (fs_mach s) ps"
  by (simp add: kmem_repr_def vm_view_def)

lemma put_vm_simps [simp]:
  "fs_mach (put_vm v s) = \<lparr>pmem = pmem v, freelist = freelist v\<rparr>" "procs (put_vm v s) = procs s" "initproc (put_vm v s) = initproc s"
  "itable (put_vm v s) = itable s"
  by (simp_all add: put_vm_def)

lemma vm_view_simps [simp]: "pmem (vm_view cur s) = pmem (fs_mach s)" "freelist (vm_view cur s) = freelist (fs_mach s)"
  by (simp_all add: vm_view_def)

lemma vm_inv_cong:
  fixes s :: "'a machine_scheme" and s' :: "'b machine_scheme"
  shows "pmem s' = pmem s \<Longrightarrow> freelist s' = freelist s \<Longrightarrow> vm_inv kend s' pt ps = vm_inv kend s pt ps"
  by (simp add: vm_inv_def kmem_repr_def)

lemma find_first: "0 < n \<Longrightarrow> P 0 \<Longrightarrow> find P [0..<n] = Some 0"
  by (simp add: upt_conv_Cons)

text \<open>\<open>allocproc\<close> when memory suffices and \<open>i\<close> is the first free entry.\<close>

lemma allocproc_first:
  fixes s :: "'a pstate_scheme"
  assumes f: "find (\<lambda>p. pr_state (procs s ! p) = UNUSED) [0..<NPROC] = Some i" and len: "length (procs s) = NPROC"
    and km: "kmem_repr (k_end K) (fs_mach s) (tf # pt # ps)" "4 \<le> length ps"
  shows "\<exists>s' ps'. allocproc K cur s = Inr (Some i, s') \<and> vm_inv (k_end K) (fs_mach s') pt ps' \<and> length ps \<le> length ps' + 4 \<and> set ps' \<subseteq> set ps
     \<and> pr_pid (procs s' ! i) = nextpid s \<and> pr_trapframe (procs s' ! i) = tf \<and> pr_pagetable (procs s' ! i) = pt
     \<and> (\<forall>va < MAXVA. leaf (pmem (fs_mach s')) pt va = fresh_map K tf va) \<and> tables (pmem (fs_mach s')) pt \<subseteq> {pt} \<union> set ps
     \<and> (\<forall>x. (\<forall>q \<in> set (tf # pt # ps). \<not> in_range x q 4096) \<longrightarrow> pmem (fs_mach s') x = pmem (fs_mach s) x)
     \<and> itable s' = itable s \<and> length (procs s') = NPROC"
proof -
  have n: "i < NPROC" using find_upt_Some [OF f] by simp
  define m where "m = snd (kalloc (fs_mach s))"
  have k: "kalloc (fs_mach s) = (tf, m)" "tf \<noteq> 0" "kmem_repr (k_end K) m (pt # ps)" "pt \<noteq> 0"
    using kalloc_repr_Cons [OF km(1)] km(1) by (auto simp: m_def kmem_repr_def kpage_def prod_eq_iff)
  define s2 where "s2 = upd_proc i (\<lambda>x. x\<lparr>pr_trapframe := tf\<rparr>) ((upd_proc i (\<lambda>x. x\<lparr>pr_pid := nextpid s, pr_state := USED\<rparr>) (s\<lparr>nextpid := pid_succ (nextpid s)\<rparr>))\<lparr>fs_mach := m\<rparr>)"
  have m2: "fs_mach s2 = m" "itable s2 = itable s" by (simp_all add: s2_def upd_proc_def)
  have "kmem_repr (k_end K) (vm_view cur s2) (pt # ps)" using k(3) by (simp add: m2)
  from proc_pagetable_spec [OF this km(2), of tf] obtain v ps' where v: "proc_pagetable K tf (vm_view cur s2) = Inr (pt, v)"
    "vm_inv (k_end K) v pt ps'" "length ps \<le> length ps' + 4" "\<forall>va < MAXVA. leaf (pmem v) pt va = fresh_map K tf va"
    "\<forall>x. (\<forall>q \<in> set (pt # ps). \<not> in_range x q 4096) \<longrightarrow> pmem v x = pmem m x" "set ps' \<subseteq> set ps" "tables (pmem v) pt \<subseteq> {pt} \<union> set ps"
    by (auto simp: m2)
  define s' where "s' = upd_proc i (\<lambda>x. x\<lparr>pr_context := \<lparr>c_ra = k_forkret K, c_sp = pr_kstack x + PGSIZE, c_s = replicate 12 0\<rparr>\<rparr>)
      (upd_proc i (\<lambda>x. x\<lparr>pr_pagetable := pt\<rparr>) (put_vm v s2))"
  have "allocproc K cur s = Inr (Some i, s')"
    using f k(1,2,4) v(1) by (simp add: allocproc_def allocpid_def s2_def [symmetric] on_vm_def s'_def)
  moreover have "vm_inv (k_end K) (fs_mach s') pt ps'" using v(2) by (simp add: s'_def vm_inv_cong [of "\<lparr>pmem = pmem v, freelist = freelist v\<rparr>" v])
  moreover have "pr_pid (procs s' ! i) = nextpid s \<and> pr_trapframe (procs s' ! i) = tf \<and> pr_pagetable (procs s' ! i) = pt \<and> length (procs s') = NPROC"
    using n len by (simp add: s'_def s2_def nth_list_update)
  moreover have pm: "pmem (fs_mach s') = pmem v" by (simp add: s'_def)
  moreover have "\<forall>x. (\<forall>q \<in> set (tf # pt # ps). \<not> in_range x q 4096) \<longrightarrow> pmem (fs_mach s') x = pmem (fs_mach s) x"
  proof (intro allI impI)
    fix x assume x: "\<forall>q \<in> set (tf # pt # ps). \<not> in_range x q 4096"
    then have "pmem v x = pmem m x" using v(5) by simp
    also have "\<dots> = pmem (fs_mach s) x" using x kalloc_frame [of x "fs_mach s"] k(1) by simp
    finally show "pmem (fs_mach s') x = pmem (fs_mach s) x" by (simp only: pm)
  qed
  moreover have "itable s' = itable s" by (simp add: s'_def m2 upd_proc_def put_vm_def)
  ultimately show ?thesis using v(3,4,6,7) by metis
qed

text \<open>The address space of the first process: one page, for user and supervisor, and what every process has.\<close>

definition first_map :: "kimage \<Rightarrow> u64 \<Rightarrow> u64 \<Rightarrow> u64 \<Rightarrow> u64 option" where
  "first_map K tf frame va = (if same_page 0 va then Some (PA2PTE frame OR (PTE_W OR PTE_R OR PTE_X OR PTE_U) OR PTE_V) else fresh_map K tf va)"

lemma iget_holds:
  fixes s :: "'a fsst_scheme"
  assumes "iget dev inum s = Inr (ip, s')" "length (itable s) = NINODE"
  shows "ip < NINODE" "holds dev inum (itable s' ! ip)" "i_ref (itable s' ! ip) = i_ref (itable s ! ip) + 1" "j \<noteq> ip \<Longrightarrow> itable s' ! j = itable s ! j"
  using assms by (auto simp: iget_def holds_def find_range upd_inode_def split: option.splits)

lemma userinit_succeeds:
  fixes s :: pstate
  assumes boot: "boot_ok s" and km: "kmem_repr (k_end K) (fs_mach s) (tf # pt # ps)" "7 \<le> length ps"
    and src: "unat (k_initcode K) + 52 \<le> unat (k_end K)" and ip: "\<exists>r. iget ROOTDEV ROOTINO s = Inr r" and il: "length (itable s) = NINODE"
  shows "\<exists>s' frame. userinit K s = Inr s' \<and> initproc s' = Some 0 \<and> pr_state (procs s' ! 0) = RUNNABLE \<and> pr_pid (procs s' ! 0) = 1
     \<and> pr_sz (procs s' ! 0) = PGSIZE \<and> pr_trapframe (procs s' ! 0) = tf \<and> pr_pagetable (procs s' ! 0) = pt
     \<and> (\<forall>va < MAXVA. leaf (pmem (fs_mach s')) pt va = first_map K tf frame va)
     \<and> bytes_at (pmem (fs_mach s')) frame 52 = bytes_at (pmem (fs_mach s)) (k_initcode K) 52
     \<and> load64 (pmem (fs_mach s')) (tf + TF_EPC) = 0 \<and> load64 (pmem (fs_mach s')) (tf + TF_SP) = PGSIZE
     \<and> (\<exists>ip < NINODE. pr_cwd (procs s' ! 0) = Some ip \<and> holds ROOTDEV ROOTINO (itable s' ! ip)
          \<and> i_ref (itable s' ! ip) = i_ref (itable s ! ip) + 1 \<and> (\<forall>j. j \<noteq> ip \<longrightarrow> itable s' ! j = itable s ! j))"
proof -
  have n: "0 < NPROC" by (simp add: NPROC_def)
  have st: "pr_state (procs s ! 0) = UNUSED" "length (procs s) = NPROC" "nextpid s = 1" using boot n by (auto simp: boot_ok_def)
  have "4 \<le> length ps" using km(2) by simp
  have fi: "find (\<lambda>p. pr_state (procs s ! p) = UNUSED) [0..<NPROC] = Some 0" by (rule find_first) (use n st in simp_all)
  from allocproc_first [OF fi st(2) km(1) \<open>4 \<le> length ps\<close>, of None] obtain s1 ps1 where s1: "allocproc K None s = Inr (Some 0, s1)"
    and i1: "vm_inv (k_end K) (fs_mach s1) pt ps1" "length ps \<le> length ps1 + 4" "set ps1 \<subseteq> set ps"
    and x1: "pr_pid (procs s1 ! 0) = 1" "pr_trapframe (procs s1 ! 0) = tf" "pr_pagetable (procs s1 ! 0) = pt" "length (procs s1) = NPROC"
    and l1: "\<forall>va < MAXVA. leaf (pmem (fs_mach s1)) pt va = fresh_map K tf va" "tables (pmem (fs_mach s1)) pt \<subseteq> {pt} \<union> set ps"
    and f1: "\<forall>x. (\<forall>q \<in> set (tf # pt # ps). \<not> in_range x q 4096) \<longrightarrow> pmem (fs_mach s1) x = pmem (fs_mach s) x" "itable s1 = itable s"
    unfolding st(3) by blast
  obtain q qs where q: "ps1 = q # qs" "2 \<le> length qs"
    using i1(2) km(2) by (cases ps1) auto
  define t1 where "t1 = s1\<lparr>initproc := Some 0\<rparr>"
  have vt: "vm_inv (k_end K) (vm_view None t1) pt (q # qs)"
    using i1(1) q(1) vm_inv_cong [of "vm_view None t1" "fs_mach s1"] by (simp add: t1_def)
  have "leaf (pmem (vm_view None t1)) pt 0 = None"
    using l1(1) top_pages(6,7) by (simp add: t1_def fresh_map_def MAXVA_def word_less_nat_alt)
  from uvmfirst_spec [OF vt q(2) _ this, of 52 "k_initcode K"] src obtain v qs' where
    v: "uvmfirst pt (k_initcode K) 52 (vm_view None t1) = Inr v" "vm_inv (k_end K) v pt qs'"
      "bytes_at (pmem v) q 52 = bytes_at (pmem (fs_mach s1)) (k_initcode K) 52"
      "\<forall>va < MAXVA. leaf (pmem v) pt va = first_map K tf q va"
      "tables (pmem v) pt \<subseteq> tables (pmem (fs_mach s1)) pt \<union> set qs" "set qs' \<subseteq> set qs"
    using l1(1) by (auto simp: t1_def first_map_def)
  define s2 where "s2 = put_vm v t1"
  have i2: "in_vm None (uvmfirst (pr_pagetable (procs s1 ! 0)) (k_initcode K) 52) t1 = Inr s2"
    using v(1) x1(3) by (simp add: in_vm_def s2_def)
  define s3 where "s3 = upd_proc 0 (\<lambda>x. x\<lparr>pr_name := copy_name [0x69,0x6e,0x69,0x74,0x63,0x6f,0x64,0x65,0] (pr_name x)\<rparr>)
       (set_trapframe 0 TF_SP PGSIZE (set_trapframe 0 TF_EPC 0 (upd_proc 0 (\<lambda>x. x\<lparr>pr_sz := PGSIZE\<rparr>) s2)))"
  have it: "itable s3 = itable s"
    using f1(2) by (simp add: s3_def s2_def t1_def set_trapframe_def upd_proc_def)
  obtain ip s4 where s4: "iget ROOTDEV ROOTINO s3 = Inr (ip, s4)"
    using ip iget_panics_iff [of ROOTDEV ROOTINO s] iget_panics_iff [of ROOTDEV ROOTINO s3] unfolding it by (metis surj_pair)
  define s' where "s' = upd_proc 0 (\<lambda>x. x\<lparr>pr_cwd := Some ip, pr_state := RUNNABLE\<rparr>) s4"
  have u: "userinit K s = Inr s'"
    unfolding userinit_def s1 bindE_simps split_conv option.case t1_def [symmetric] i2 Let_def s3_def [symmetric] namei_root s4 s'_def by simp
  have same4: "procs s4 = procs s3" "initproc s4 = initproc s3" "fs_mach s4 = fs_mach s3"
    using s4 iget_same [OF s4] by (auto simp: same_procs_def same_ctl_def iget_def upd_inode_def split: option.splits)
  let ?m = "store64 (store64 (pmem v) (tf + TF_EPC) 0) (tf + TF_SP) PGSIZE"
  have m: "pmem (fs_mach s') = ?m"
    using x1(2,4) n by (simp add: s'_def same4 s3_def set_trapframe_def s2_def t1_def nth_list_update)
  have kt: "aligned 4096 tf" "tf \<notin> {pt} \<union> set ps" "aligned 4096 q" "q \<in> set ps" using km(1) i1(3) q(1) by (auto simp: kmem_repr_def kpage_def)
  have tfr: "\<not> in_range x (tf + TF_EPC) 8" "\<not> in_range x (tf + TF_SP) 8" if "\<not> in_range x tf 4096" for x
  proof -
    have b: "unat tf < 2281701376" using km(1) by (simp add: kmem_repr_def kpage_def word_less_nat_alt)
    have "unat (tf + TF_EPC) = unat tf + 24" "unat (tf + TF_SP) = unat tf + 48"
      using b by (simp_all add: TF_EPC_def TF_SP_def unat_add64)
    then show "\<not> in_range x (tf + TF_EPC) 8" "\<not> in_range x (tf + TF_SP) 8" using that b by (auto simp: in_range_nowrap)
  qed
  have out: "?m x = pmem v x" if "\<not> in_range x tf 4096" for x using tfr [OF that] by (simp add: store64_other)
  have "tf \<notin> tables (pmem v) pt \<union> set qs'" using v(5,6) l1(2) kt(2) i1(3) q(1) by auto
  then have lf: "leaf ?m pt va = leaf (pmem v) pt va" for va
    by (rule vm_inv_fill(2) [OF v(2) kt(1) _ out])
  have "?m x = pmem v x" if "in_range x q 52" for x
  proof (rule out)
    have "in_range x q 4096" using that by (rule in_range_mono) simp
    then show "\<not> in_range x tf 4096" using page_disjoint [OF kt(3,1)] kt(2,4) by auto
  qed
  then have "bytes_at ?m q 52 = bytes_at (pmem v) q 52" by (intro bytes_at_cong) (simp add: unat_of_nat)
  also have "\<dots> = bytes_at (pmem (fs_mach s)) (k_initcode K) 52"
    unfolding v(3)
  proof (rule bytes_at_cong)
    fix i :: nat assume i: "i < 52"
    have r: "in_range (k_initcode K + of_nat i) (k_initcode K) 52" using i by (simp add: unat_of_nat)
    have "\<not> in_range (k_initcode K + of_nat i) t 4096" if t: "t \<in> set (tf # pt # ps)" for t
    proof -
      have "kpage (k_end K) t" using km(1) t unfolding kmem_repr_def by blast
      then show ?thesis using r src by (rule below_kpage)
    qed
    then show "pmem (fs_mach s1) (k_initcode K + of_nat i) = pmem (fs_mach s) (k_initcode K + of_nat i)" using f1(1) by blast
  qed
  finally have bts: "bytes_at ?m q 52 = bytes_at (pmem (fs_mach s)) (k_initcode K) 52" .
  have b: "unat tf < 2281701376" using km(1) by (simp add: kmem_repr_def kpage_def word_less_nat_alt)
  have u8: "unat (tf + TF_EPC) = unat tf + 24" "unat (tf + TF_SP) = unat tf + 48" using b by (simp_all add: TF_EPC_def TF_SP_def unat_add64)
  have "unat tf mod 8 = 0" using kt(1) mod_mod_cancel [of 8 4096 "unat tf"] by (simp add: aligned_def)
  then have "aligned 8 (tf + TF_EPC)" "aligned 8 (tf + TF_SP)" unfolding aligned_def u8 by presburger+
  moreover have "tf + TF_SP \<noteq> tf + TF_EPC" by (simp add: TF_SP_def TF_EPC_def)
  ultimately have e: "load64 ?m (tf + TF_EPC) = 0" by (simp add: load64_store64_other)
  have x: "procs s' ! 0 = (procs s3 ! 0)\<lparr>pr_cwd := Some ip, pr_state := RUNNABLE\<rparr>" "initproc s' = Some 0"
    using x1(4) n by (simp_all add: s'_def same4 s3_def s2_def t1_def set_trapframe_def)
  have y: "pr_pid (procs s3 ! 0) = 1" "pr_sz (procs s3 ! 0) = PGSIZE" "pr_trapframe (procs s3 ! 0) = tf" "pr_pagetable (procs s3 ! 0) = pt"
    using x1 n by (simp_all add: s3_def s2_def t1_def set_trapframe_def nth_list_update)
  have "itable s' = itable s4" by (simp add: s'_def upd_proc_def)
  then have "\<exists>ip < NINODE. pr_cwd (procs s' ! 0) = Some ip \<and> holds ROOTDEV ROOTINO (itable s' ! ip)
          \<and> i_ref (itable s' ! ip) = i_ref (itable s ! ip) + 1 \<and> (\<forall>j. j \<noteq> ip \<longrightarrow> itable s' ! j = itable s ! j)"
    using iget_holds [OF s4] x(1) il by (intro exI [of _ ip]) (simp add: it)
  then show ?thesis
    by (intro exI [of _ s'] exI [of _ q]) (use u v(4) lf bts e x y in \<open>simp add: m\<close>)
qed

subsection \<open>A machine that boots\<close>

definition no_proc :: proc where
  "no_proc = \<lparr>pr_state = UNUSED, pr_chan = None, pr_killed = False, pr_xstate = 0, pr_pid = 0, pr_parent = None, pr_kstack = 0, pr_sz = 0,
     pr_pagetable = 0, pr_trapframe = 0, pr_context = \<lparr>c_ra = 0, c_sp = 0, c_s = []\<rparr>, pr_ofile = replicate NOFILE None, pr_cwd = None,
     pr_name = replicate 16 0, pr_ondemand = False, pr_heap_tracker = replicate MAXHEAP \<lparr>hp_addr = 0, hp_last_load_time = 0, hp_loaded = False, hp_startblock = 0\<rparr>, pr_resident_heap_pages = 0, pr_cow_group = 0, pr_cow_enabled = 0\<rparr>"

definition demo_image :: kimage where
  "demo_image = \<lparr>k_end = demo_end, k_trampoline = 0x80007000, k_forkret = 0x80001000, k_initcode = 0x80002000\<rparr>"

lemma demo_image_simps [simp]: "k_end demo_image = demo_end" "unat (k_initcode demo_image) + 52 \<le> unat demo_end"
  by (simp_all add: demo_image_def demo_end_def)

definition demo_procs :: "machine \<Rightarrow> pstate" where
  "demo_procs m = filest.extend demo_files (pstate.fields (replicate 64 no_proc) 1 None [] None (\<lambda>_. None) (\<lambda>_. 0) (\<lambda>_. User)) \<lparr>fs_mach := m\<rparr>"

lemma demo_procs_fields:
  "procs (demo_procs m) = replicate 64 no_proc" "nextpid (demo_procs m) = 1" "wait_lock (demo_procs m) = None" "cpu_proc (demo_procs m) = (\<lambda>_. None)"
  "sched_pos (demo_procs m) = (\<lambda>_. 0)" "kphases (demo_procs m) = (\<lambda>_. User)" "fs_mach (demo_procs m) = m" "itable (demo_procs m) = itable demo_fs"
  by (simp_all add: demo_procs_def filest.defs pstate.defs demo_files_def fsst.defs)

lemma demo_boots:
  "\<exists>(s :: pstate) s' ps. boot_ok s \<and> kmem_repr demo_end (fs_mach s) (0x87FFF000 # 0x87FFE000 # ps) \<and> 7 \<le> length ps
     \<and> (\<exists>r. iget ROOTDEV ROOTINO s = Inr r) \<and> length (itable s) = NINODE \<and> userinit demo_image s = Inr s'"
proof -
  obtain m :: machine where "kmem_repr demo_end m demo_pages"
    using demo_kinit [of "\<lparr>pmem = (\<lambda>_. 0), freelist = 0\<rparr>"] by auto
  then have km: "kmem_repr demo_end (fs_mach (demo_procs m)) (0x87FFF000 # 0x87FFE000 # drop 2 demo_pages)" "7 \<le> length (drop 2 demo_pages)"
    by (simp_all add: demo_procs_fields demo_pages_def)
  have b: "boot_ok (demo_procs m)" by (simp add: boot_ok_def demo_procs_fields no_proc_def NPROC_def)
  have "0 < NINODE" "holds 1 1 (itable demo_fs ! 0)" using demo_entry [of 0] by (simp_all add: NINODE_def holds_def root_entry_def)
  then have ip: "\<exists>r. iget ROOTDEV ROOTINO (demo_procs m) = Inr r"
    unfolding iget_panics_iff demo_procs_fields ROOTDEV_def ROOTINO_def by blast
  have il: "length (itable (demo_procs m)) = NINODE" by (simp add: demo_procs_fields demo_fs_fields NINODE_def)
  have "\<exists>s'. userinit demo_image (demo_procs m) = Inr s'"
    using userinit_succeeds [OF b _ km(2) _ ip il, of demo_image "0x87FFF000" "0x87FFE000"] km(1) by auto
  then show ?thesis using b km ip il by blast
qed

subsection \<open>Properties\<close>

text \<open>C18: the first process. With nine free pages, \<open>userinit\<close> builds process 1 in the first entry: runnable, one page large, its page table
  mapping page 0 to a frame (read, write, execute, user) that holds the bytes of \<open>initcode\<close>, the trampoline and the trap frame to pages user
  code cannot access, and nothing else; its trap frame starts it at address 0 with the stack at the top of the page. Its current directory is
  an entry of the inode table that stands for the root directory and counts one more reference; no other entry changes.\<close>

theorem userinit_first_process:
  fixes s :: pstate
  assumes "boot_ok s" "kmem_repr (k_end K) (fs_mach s) (tf # pt # ps)" "7 \<le> length ps"
    and "unat (k_initcode K) + 52 \<le> unat (k_end K)" "\<exists>r. iget ROOTDEV ROOTINO s = Inr r" "length (itable s) = NINODE"
  shows "\<exists>s' frame. userinit K s = Inr s' \<and> initproc s' = Some 0 \<and> pr_state (procs s' ! 0) = RUNNABLE \<and> pr_pid (procs s' ! 0) = 1
     \<and> pr_sz (procs s' ! 0) = PGSIZE \<and> pr_trapframe (procs s' ! 0) = tf \<and> pr_pagetable (procs s' ! 0) = pt
     \<and> (\<forall>va < MAXVA. leaf (pmem (fs_mach s')) pt va = first_map K tf frame va)
     \<and> bytes_at (pmem (fs_mach s')) frame 52 = bytes_at (pmem (fs_mach s)) (k_initcode K) 52
     \<and> load64 (pmem (fs_mach s')) (tf + TF_EPC) = 0 \<and> load64 (pmem (fs_mach s')) (tf + TF_SP) = PGSIZE
     \<and> (\<exists>ip < NINODE. pr_cwd (procs s' ! 0) = Some ip \<and> holds ROOTDEV ROOTINO (itable s' ! ip)
          \<and> i_ref (itable s' ! ip) = i_ref (itable s ! ip) + 1 \<and> (\<forall>j. j \<noteq> ip \<longrightarrow> itable s' ! j = itable s ! j))"
  by (rule userinit_succeeds [OF assms])

theorem userinit_first_process_witness:
  "\<exists>(s :: pstate) s' ip. boot_ok s \<and> userinit demo_image s = Inr s' \<and> pr_pid (procs s' ! 0) = 1 \<and> pr_state (procs s' ! 0) = RUNNABLE
     \<and> pr_cwd (procs s' ! 0) = Some ip \<and> holds ROOTDEV ROOTINO (itable s' ! ip)"
proof -
  obtain s :: pstate and ps where s: "boot_ok s" "kmem_repr demo_end (fs_mach s) (0x87FFF000 # 0x87FFE000 # ps)" "7 \<le> length ps"
    "\<exists>r. iget ROOTDEV ROOTINO s = Inr r" "length (itable s) = NINODE"
    using demo_boots by blast
  then show ?thesis
    using userinit_first_process [of s demo_image, unfolded demo_image_simps(1), OF s(1-3) demo_image_simps(2) s(4,5)] by blast
qed

text \<open>C3: the process table is consistent in every state the kernel can reach after \<open>userinit\<close>, for all interleavings of forks, exits,
  waits, sleeps, wake-ups, kills and scheduling on eight harts: a process runs on exactly one hart when its state is \<open>RUNNING\<close> and on none
  otherwise; every process but the first that is not being created has a parent, and parents are alive; an entry is \<open>USED\<close> exactly while
  one \<open>fork\<close> is building it; \<open>wait_lock\<close> is held by exactly the process that scans the table in \<open>wait\<close>, which is running; a free entry has
  pid 0. As long as \<open>nextpid\<close>, a C \<open>int\<close>, has not wrapped around in the run, the pids of processes are positive, below \<open>nextpid\<close> (so that
  the next one is fresh) and distinct.\<close>

theorem process_table_invariant:
  assumes "boot_ok s0" "userinit K s0 = Inr s1" "(kstep K)\<^sup>*\<^sup>* s1 s" and p: "p < NPROC"
  shows "(pr_state (procs s ! p) = RUNNING \<longleftrightarrow> (\<exists>!c. cpu_proc s c = Some p))
     \<and> (\<forall>q. pr_parent (procs s ! p) = Some q \<longrightarrow> q < NPROC \<and> q \<noteq> p \<and> pr_state (procs s ! q) \<in> {SLEEPING, RUNNABLE, RUNNING})
     \<and> (pr_parent (procs s ! p) = None \<longrightarrow> initproc s = Some p \<or> pr_state (procs s ! p) \<in> {UNUSED, USED})
     \<and> (pr_state (procs s ! p) = USED \<longleftrightarrow> (\<exists>!f. kphases s f = Forked p \<or> kphases s f = Linked p))
     \<and> (wait_lock s = Some p \<longleftrightarrow> kphases s p = Scanning \<or> kphases s p = Sleepy)
     \<and> (wait_lock s = Some p \<longrightarrow> pr_state (procs s ! p) = RUNNING)
     \<and> (pr_state (procs s ! p) = UNUSED \<longrightarrow> pr_pid (procs s ! p) = 0)
     \<and> ((\<lambda>s s'. kstep K s s' \<and> no_wrap s s')\<^sup>*\<^sup>* s1 s \<and> pr_state (procs s ! p) \<noteq> UNUSED \<longrightarrow>
          0 < pr_pid (procs s ! p) \<and> pr_pid (procs s ! p) < nextpid s \<and> (\<forall>q < NPROC. pr_pid (procs s ! q) = pr_pid (procs s ! p) \<longrightarrow> q = p))"
proof (intro conjI impI)
  have inv1: "sys_inv s1" by (rule userinit_inv [OF assms(2,1)])
  have "ctl_inv s" by (rule ksteps_inv [OF assms(3) sys_ctl [OF inv1]])
  then have t: "cpu_ok (tview_of s)" "pid_ok (tview_of s)" "family_ok (tview_of s)" "phase_ok (tview_of s)" "wait_ok (tview_of s)"
    by (simp_all add: ctl_inv_def tinv_def)
  have "t_st (tview_of s) p = RUNNING \<longleftrightarrow> (\<exists>c. runs (tview_of s) c p)" "\<And>c c'. runs (tview_of s) c p \<Longrightarrow> runs (tview_of s) c' p \<Longrightarrow> c = c'"
    using t(1) unfolding cpu_ok_def by blast+
  then show "pr_state (procs s ! p) = RUNNING \<longleftrightarrow> (\<exists>!c. cpu_proc s c = Some p)" using p by (auto simp: runs_def)
  have "live (tview_of s) q \<and> q \<noteq> p" if "pr_parent (procs s ! p) = Some q" for q using t(3) p that unfolding family_ok_def by simp
  then show "\<forall>q. pr_parent (procs s ! p) = Some q \<longrightarrow> q < NPROC \<and> q \<noteq> p \<and> pr_state (procs s ! q) \<in> {SLEEPING, RUNNABLE, RUNNING}"
    by (auto simp: live_def)
  have "t_init (tview_of s) = Some p \<or> t_st (tview_of s) p \<in> {UNUSED, USED}" if "pr_parent (procs s ! p) = None"
    using t(3) p that unfolding family_ok_def by simp
  then show "initproc s = Some p \<or> pr_state (procs s ! p) \<in> {UNUSED, USED}" if "pr_parent (procs s ! p) = None" using p that by simp
  have f: "forking (tview_of s) f q \<longleftrightarrow> kphases s f = Forked q \<or> kphases s f = Linked q" for f q by (simp add: forking_def)
  have "t_st (tview_of s) p = USED \<longleftrightarrow> (\<exists>f. forking (tview_of s) f p)" "\<And>f g. forking (tview_of s) f p \<Longrightarrow> forking (tview_of s) g p \<Longrightarrow> f = g"
    using t(4) p unfolding phase_ok_def by blast+
  then show "pr_state (procs s ! p) = USED \<longleftrightarrow> (\<exists>!f. kphases s f = Forked p \<or> kphases s f = Linked p)" using p unfolding f by auto
  have "t_lock (tview_of s) = Some p \<longleftrightarrow> t_ph (tview_of s) p = Scanning \<or> t_ph (tview_of s) p = Sleepy"
    "t_lock (tview_of s) = Some p \<longrightarrow> t_st (tview_of s) p = RUNNING" using t(5) unfolding wait_ok_def by blast+
  then show "wait_lock s = Some p \<longleftrightarrow> kphases s p = Scanning \<or> kphases s p = Sleepy"
    "wait_lock s = Some p \<Longrightarrow> pr_state (procs s ! p) = RUNNING" using p by simp_all
  show "pr_pid (procs s ! p) = 0" if "pr_state (procs s ! p) = UNUSED" using t(2) p that by (simp add: pid_ok_def)
  assume u: "(\<lambda>s s'. kstep K s s' \<and> no_wrap s s')\<^sup>*\<^sup>* s1 s \<and> pr_state (procs s ! p) \<noteq> UNUSED"
  then have "sys_inv s" using ksteps_sys_inv inv1 by blast
  then have "pid_fresh (tview_of s)" by (simp add: sys_inv_def)
  moreover have "t_st (tview_of s) p \<noteq> UNUSED" using u p by simp
  ultimately have "0 < t_pid (tview_of s) p" "t_pid (tview_of s) p < t_next (tview_of s)"
    "\<And>q. q < NPROC \<Longrightarrow> t_pid (tview_of s) q = t_pid (tview_of s) p \<Longrightarrow> q = p" using p unfolding pid_fresh_def by metis+
  then show "0 < pr_pid (procs s ! p)" "pr_pid (procs s ! p) < nextpid s" "\<forall>q < NPROC. pr_pid (procs s ! q) = pr_pid (procs s ! p) \<longrightarrow> q = p"
    using p by auto
qed

theorem process_table_invariant_witness:
  "\<exists>s0 s1 s :: pstate. boot_ok s0 \<and> userinit demo_image s0 = Inr s1 \<and> (kstep demo_image)\<^sup>*\<^sup>* s1 s \<and> cpu_proc s 0 = Some 0
     \<and> pr_state (procs s ! 0) = RUNNING \<and> pr_pid (procs s ! 0) < nextpid s"
proof -
  obtain s0 s1 :: pstate and ps where s0: "boot_ok s0" "userinit demo_image s0 = Inr s1" "kmem_repr demo_end (fs_mach s0) (0x87FFF000 # 0x87FFE000 # ps)"
    "7 \<le> length ps" "\<exists>r. iget ROOTDEV ROOTINO s0 = Inr r" "length (itable s0) = NINODE"
    using demo_boots by blast
  have r: "pr_state (procs s1 ! 0) = RUNNABLE"
    using userinit_succeeds [of s0 demo_image, unfolded demo_image_simps(1), OF s0(1,3,4) demo_image_simps(2) s0(5,6)] s0(2) by auto
  obtain p where v: "tview_of s1 = (tview_of s0)\<lparr>t_st := (t_st (tview_of s0))(p := RUNNABLE), t_pid := (t_pid (tview_of s0))(p := 1), t_next := 2, t_init := Some p\<rparr>"
    "sched_pos s1 = sched_pos s0" "length (procs s1) = NPROC"
    by (rule userinit_view [OF s0(2,1)])
  have c: "cpu_proc s1 0 = None" "sched_pos s1 0 = 0"
    using arg_cong [OF v(1), of t_cpu] v(2) s0(1) by (simp_all add: boot_ok_def)
  let ?s = "scheduler_visit 0 s1"
  have k: "kstep demo_image s1 ?s \<and> no_wrap s1 ?s"
    using kstep.visit [of 0 s1] c(1) by (auto simp: NCPU_def no_wrap_def scheduler_visit_def Let_def)
  then have st: "(kstep demo_image)\<^sup>*\<^sup>* s1 ?s" and nw: "(\<lambda>s s'. kstep demo_image s s' \<and> no_wrap s s')\<^sup>*\<^sup>* s1 ?s" by auto
  have run: "cpu_proc ?s 0 = Some 0" using r c(2) by (simp add: scheduler_visit_def is_runnable_def)
  have z: "0 < NPROC" by (simp add: NPROC_def)
  have "pr_state (procs ?s ! 0) = RUNNING \<longleftrightarrow> (\<exists>!c. cpu_proc ?s c = Some 0)"
    using process_table_invariant [OF s0(1,2) st z] by (rule conjunct1)
  moreover have run0: "pr_state (procs ?s ! 0) = RUNNING" using r c(2) z v(3) by (simp add: scheduler_visit_def is_runnable_def)
  moreover have "pr_pid (procs ?s ! 0) < nextpid ?s"
    using process_table_invariant [OF s0(1,2) st z] nw run0 by (metis procstate.distinct(7))
  ultimately show ?thesis using s0(1,2) st run by blast
qed

end
