(* ===== verification/KillWait.thy ===== *)
theory KillWait
  imports FirstProcess
begin


text \<open>
  What single operations of \<open>kernel/proc.c\<close> (Project 2) do: the scheduler's round robin, \<open>exit\<close>, \<open>wait\<close> and \<open>kill\<close>,
  and what the invariant says of a process asleep in \<open>wait\<close>.
\<close>

subsection \<open>The scheduler\<close>

lemma visit_skips:
  assumes "\<And>i. i < k \<Longrightarrow> \<not> is_runnable ((sched_pos s c + i) mod NPROC) s" "sched_pos s c < NPROC"
  shows "(scheduler_visit c ^^ k) s = s\<lparr>sched_pos := (sched_pos s)(c := (sched_pos s c + k) mod NPROC)\<rparr>"
  using assms
proof (induction k)
  case 0
  then show ?case by simp
next
  case (Suc k)
  have "\<not> is_runnable ((sched_pos s c + k) mod NPROC) s" using Suc.prems(1) by simp
  moreover have "(scheduler_visit c ^^ k) s = s\<lparr>sched_pos := (sched_pos s)(c := (sched_pos s c + k) mod NPROC)\<rparr>"
    by (rule Suc.IH) (use Suc.prems in auto)
  ultimately show ?case
    unfolding funpow.simps comp_apply by (simp add: scheduler_visit_def is_runnable_def mod_Suc_eq) (simp add: fun_upd_def)
qed

text \<open>C19: the scheduler of an idle hart starts the next runnable process in cyclic order after the one it ran last, within one round of the
  table: no runnable process waits while the loop passes over it.\<close>

theorem scheduler_runs_next:
  assumes "sched_pos s c < NPROC" "p < NPROC" "is_runnable p s" "length (procs s) = NPROC"
  shows "\<exists>k < NPROC. let q = (sched_pos s c + k) mod NPROC; s' = (scheduler_visit c ^^ Suc k) s in
     is_runnable q s \<and> (\<forall>i < k. \<not> is_runnable ((sched_pos s c + i) mod NPROC) s)
     \<and> cpu_proc s' c = Some q \<and> pr_state (procs s' ! q) = RUNNING \<and> sched_pos s' c = Suc q mod NPROC"
proof -
  let ?r = "\<lambda>i. is_runnable ((sched_pos s c + i) mod NPROC) s"
  have "\<exists>i < NPROC. ?r i"
  proof (cases "sched_pos s c \<le> p")
    case True
    then have "?r (p - sched_pos s c)" using assms(2,3) by simp
    then show ?thesis using assms(2) by (intro exI [of _ "p - sched_pos s c"]) simp
  next
    case False
    then have "(sched_pos s c + (p + NPROC - sched_pos s c)) mod NPROC = p" using assms(1,2) by simp
    then show ?thesis using False assms(1-3) by (intro exI [of _ "p + NPROC - sched_pos s c"]) auto
  qed
  then obtain k where k: "k < NPROC" "?r k" "\<forall>i < k. \<not> ?r i"
    using exists_least_iff [of "\<lambda>i. i < NPROC \<and> ?r i"] by (metis order.strict_trans)
  let ?q = "(sched_pos s c + k) mod NPROC"
  let ?t = "s\<lparr>sched_pos := (sched_pos s)(c := ?q)\<rparr>"
  have "(scheduler_visit c ^^ Suc k) s = scheduler_visit c ?t"
    using visit_skips [of k s c] k(3) assms(1) by simp
  moreover have "?q < NPROC" using k(1) by simp
  ultimately show ?thesis
    using k assms(4) by (intro exI [of _ k]) (simp add: scheduler_visit_def is_runnable_def Let_def)
qed

subsection \<open>Exit and wait\<close>

text \<open>C17: \<open>exit\<close> under \<open>wait_lock\<close>: the process becomes a zombie with its status and leaves its hart; its children get \<open>init\<close> as parent;
  exactly the processes asleep on its parent, and on \<open>init\<close> if it had children, become runnable; nothing else in the table changes.\<close>

theorem exit_hands_over:
  fixes s :: pstate
  assumes "sys_inv s" "cpu_proc s c = Some p" "exit_finish c p status s = Inr s'" "q < NPROC"
  shows "procs s' ! q =
     (if q = p then (procs s ! p)\<lparr>pr_xstate := status, pr_state := ZOMBIE\<rparr>
      else let x = procs s ! q; y = (if pr_parent x = Some p then x\<lparr>pr_parent := initproc s\<rparr> else x) in
        if pr_state x = SLEEPING \<and> (pr_chan x = map_option ProcChan (pr_parent (procs s ! p))
             \<or> (\<exists>r < NPROC. pr_parent (procs s ! r) = Some p) \<and> pr_chan x = map_option ProcChan (initproc s))
        then y\<lparr>pr_state := RUNNABLE\<rparr> else y)
     \<and> cpu_proc s' = (cpu_proc s)(c := None)"
proof -
  have len: "length (procs s) = NPROC" and t: "tinv (tview_of s)" using assms(1) by (auto simp: sys_inv_def ctl_inv_def)
  have "runs (tview_of s) c p" using assms(2) by (simp add: runs_def)
  then have "t_st (tview_of s) p = RUNNING" "p < NPROC" using t unfolding tinv_def cpu_ok_def by blast+
  moreover have "t_par (tview_of s) p \<noteq> Some p" using t \<open>p < NPROC\<close> unfolding tinv_def family_ok_def by blast
  ultimately have p: "p < NPROC" "pr_state (procs s ! p) = RUNNING" "pr_parent (procs s ! p) \<noteq> Some p" by simp_all
  have e: "s' = s\<lparr>procs := (map (\<lambda>q. wake (Some p) (map_option ProcChan (pr_parent (procs s ! p))) q (adopted NPROC p s q)) [0..<NPROC])
        [p := (wake (Some p) (map_option ProcChan (pr_parent (procs s ! p))) p (adopted NPROC p s p))\<lparr>pr_xstate := status, pr_state := ZOMBIE\<rparr>],
        cpu_proc := (cpu_proc s)(c := None)\<rparr>"
    by (rule exit_finish_eq [OF assms(3) len p(1,3)])
  have a: "adopted NPROC p s p = procs s ! p" using p by (simp add: adopted_def Let_def wake_def)
  show ?thesis
    using assms(4) p by (auto simp: e a nth_list_update adopted_def wake_def Let_def)
qed



lemma le_bytes_4 [simp]: "length (le_bytes 4 w) = 4" "le_bytes 4 w \<noteq> []"
  by (simp_all add: le_bytes_def)


text \<open>C4: no exit is missed. From any state that satisfies the invariant (as the state after \<open>userinit\<close> does), in every state the kernel
  can reach, a process asleep in \<open>wait\<close> sleeps on itself, has a child, and none of its children is a zombie: a child that exits before
  its parent has gone to sleep is seen by the scan, one that exits after wakes it.\<close>

theorem no_missed_exit:
  assumes "sys_inv s" "(kstep K)\<^sup>*\<^sup>* s s'" "p < NPROC" "pr_state (procs s' ! p) = SLEEPING" "pr_chan (procs s' ! p) = Some (ProcChan q)"
  shows "q = p \<and> (\<exists>c < NPROC. child p s' c) \<and> (\<forall>c < NPROC. child p s' c \<longrightarrow> pr_state (procs s' ! c) \<noteq> ZOMBIE)"
proof -
  have w: "wait_ok (tview_of s')" using ksteps_inv [OF assms(2) sys_ctl [OF assms(1)]] by (simp add: ctl_inv_def tinv_def)
  have a: "t_st (tview_of s') p = SLEEPING" "t_ch (tview_of s') p = Some (ProcChan q)" using assms(3-5) by simp_all
  then have q: "q = p" using w unfolding wait_ok_def by blast
  then have "dozing (tview_of s') p" using a by (simp add: dozing_def)
  then have "\<exists>c < NPROC. t_par (tview_of s') c = Some p" "\<forall>c < NPROC. t_par (tview_of s') c = Some p \<longrightarrow> t_st (tview_of s') c \<noteq> ZOMBIE"
    using w unfolding wait_ok_def by blast+
  then show ?thesis using q by (auto simp: child_def)
qed

subsection \<open>The code keeps to the protocol\<close>

text \<open>C10: every run of the kernel's operations on the process table, from a state that satisfies the invariant, is a run of the
  protocol of \<open>Lifecycle\<close> on the states, channels, pids, parents, harts and \<open>wait_lock\<close>: the code takes no step the
  protocol does not have.\<close>

theorem kernel_refines_lifecycle:
  assumes "(kstep K)\<^sup>*\<^sup>* s s'" "sys_inv s"
  shows "tstep\<^sup>*\<^sup>* (tview_of s) (tview_of s')"
  using assms
proof (induction rule: rtranclp_induct)
  case (step y z)
  then have "tstep\<^sup>*\<^sup>* (tview_of y) (tview_of z)" using kstep_view [OF step.hyps(2)] ksteps_inv sys_ctl tmoves_steps by blast
  then show ?case using step.IH step.prems by (meson rtranclp_trans)
qed simp

subsection \<open>Kill\<close>

lemma table_pids:
  fixes s :: pstate
  assumes "sys_inv s" "p < NPROC"
  shows "pr_state (procs s ! p) = UNUSED \<Longrightarrow> pr_pid (procs s ! p) = 0"
    and "pr_state (procs s ! p) \<noteq> UNUSED \<Longrightarrow> 0 < pr_pid (procs s ! p)"
    and "pr_state (procs s ! p) \<noteq> UNUSED \<Longrightarrow> q < NPROC \<Longrightarrow> pr_pid (procs s ! p) = pr_pid (procs s ! q) \<Longrightarrow> p = q"
proof -
  have t: "pid_ok (tview_of s)" "pid_fresh (tview_of s)" using assms(1) by (simp_all add: sys_inv_def ctl_inv_def tinv_def)
  have "t_st (tview_of s) p = UNUSED \<longrightarrow> t_pid (tview_of s) p = 0" "t_st (tview_of s) p \<noteq> UNUSED \<longrightarrow> 0 < t_pid (tview_of s) p"
    using t assms(2) unfolding pid_ok_def pid_fresh_def by blast+
  then show "pr_state (procs s ! p) = UNUSED \<Longrightarrow> pr_pid (procs s ! p) = 0" "pr_state (procs s ! p) \<noteq> UNUSED \<Longrightarrow> 0 < pr_pid (procs s ! p)"
    using assms(2) by simp_all
  have "q < NPROC \<Longrightarrow> t_st (tview_of s) p \<noteq> UNUSED \<Longrightarrow> t_pid (tview_of s) p = t_pid (tview_of s) q \<Longrightarrow> p = q"
    using t(2) assms(2) unfolding pid_fresh_def by blast
  then show "pr_state (procs s ! p) \<noteq> UNUSED \<Longrightarrow> q < NPROC \<Longrightarrow> pr_pid (procs s ! p) = pr_pid (procs s ! q) \<Longrightarrow> p = q"
    using assms(2) by simp
qed

text \<open>C29: \<open>kill\<close> with the pid of a process marks exactly that process and wakes it if it sleeps; with a pid no entry has it changes
  nothing and returns -1.\<close>

theorem kill_hits_its_pid:
  fixes s :: pstate
  assumes "sys_inv s" "p < NPROC" "pr_state (procs s ! p) \<noteq> UNUSED"
  shows "kill (pr_pid (procs s ! p)) s = (0, upd_proc p (\<lambda>x. x\<lparr>pr_killed := True,
       pr_state := (if pr_state x = SLEEPING then RUNNABLE else pr_state x)\<rparr>) s)
     \<and> (\<forall>pid. (\<forall>q < NPROC. pr_pid (procs s ! q) \<noteq> pid) \<longrightarrow> kill pid s = (- 1, s))"
proof
  have "find (\<lambda>q. pr_pid (procs s ! q) = pr_pid (procs s ! p)) [0..<NPROC] = Some p"
  proof (cases "find (\<lambda>q. pr_pid (procs s ! q) = pr_pid (procs s ! p)) [0..<NPROC]")
    case None
    then show ?thesis using assms(2) by (auto simp: find_None_iff)
  next
    case (Some q)
    have "q < NPROC" "pr_pid (procs s ! q) = pr_pid (procs s ! p)" using find_upt_Some(1,2) [OF Some] by simp_all
    then have "p = q" by (intro table_pids(3) [OF assms]) simp_all
    then show ?thesis using Some by simp
  qed
  then show "kill (pr_pid (procs s ! p)) s = (0, upd_proc p (\<lambda>x. x\<lparr>pr_killed := True,
       pr_state := (if pr_state x = SLEEPING then RUNNABLE else pr_state x)\<rparr>) s)"
    by (simp add: kill_def)
  show "\<forall>pid. (\<forall>q < NPROC. pr_pid (procs s ! q) \<noteq> pid) \<longrightarrow> kill pid s = (- 1, s)"
  proof (intro allI impI)
    fix pid assume "\<forall>q < NPROC. pr_pid (procs s ! q) \<noteq> pid"
    then have "find (\<lambda>q. pr_pid (procs s ! q) = pid) [0..<NPROC] = None" by (simp add: find_None_iff)
    then show "kill pid s = (- 1, s)" by (simp add: kill_def)
  qed
qed

text \<open>A new process keeps the flag of its entry.\<close>

lemma allocproc_killed:
  fixes s :: pstate
  assumes "allocproc K cur s = Inr (Some np, s')" "length (procs s) = NPROC"
  shows "find (\<lambda>p. pr_state (procs s ! p) = UNUSED) [0..<NPROC] = Some np \<and> pr_killed (procs s' ! np) = pr_killed (procs s ! np)"
proof (cases "find (\<lambda>p. pr_state (procs s ! p) = UNUSED) [0..<NPROC]")
  case None
  then show ?thesis using assms(1) by (simp add: allocproc_def)
next
  case (Some p)
  define s2 where "s2 = upd_proc p (\<lambda>x. x\<lparr>pr_trapframe := fst (kalloc (fs_mach s))\<rparr>)
    ((upd_proc p (\<lambda>x. x\<lparr>pr_pid := nextpid s, pr_state := USED\<rparr>) (s\<lparr>nextpid := pid_succ (nextpid s)\<rparr>))\<lparr>fs_mach := snd (kalloc (fs_mach s))\<rparr>)"
  obtain pt s3 where s3: "on_vm cur (proc_pagetable K (fst (kalloc (fs_mach s)))) s2 = Inr (pt, s3)" and np: "np = p"
    and s': "s' = upd_proc p (\<lambda>x. x\<lparr>pr_context := \<lparr>c_ra = k_forkret K, c_sp = pr_kstack x + PGSIZE, c_s = replicate 12 0\<rparr>\<rparr>)
          (upd_proc p (\<lambda>x. x\<lparr>pr_pagetable := pt\<rparr>) s3)"
    using assms(1) Some by (auto simp: allocproc_def allocpid_def Let_def s2_def split: prod.splits if_splits)
  have "procs s3 = procs s2" using on_vm_same [OF s3] by (simp add: same_procs_def)
  moreover have "p < NPROC" using find_upt_Some [OF Some] by simp
  ultimately show ?thesis using assms(2) Some np by (simp add: s' s2_def)
qed

text \<open>C30: \<open>kill\<close> does not reject pid 0, which the free entries have. It then succeeds, marks the first free entry, and, as \<open>allocproc\<close> does
  not clear the mark, the next process is created already killed (and exits on its first return to user space).\<close>

theorem kill_zero_kills_newborn:
  fixes s :: pstate
  assumes "sys_inv s" "kill 0 s = (r, s1)" "allocproc K cur s1 = Inr (Some np, s2)"
  shows "r = 0 \<and> pr_state (procs s ! np) = UNUSED \<and> pr_killed (procs s2 ! np)"
proof -
  have len: "length (procs s) = NPROC" using assms(1) by (simp add: sys_inv_def ctl_inv_def)
  have l1: "length (procs s1) = NPROC" using kill_view(1) [OF len, of 0] assms(2) len by (simp add: same_ctl_def)
  note a = allocproc_killed [OF assms(3) l1]
  have z: "pr_pid (procs s ! q) = 0 \<longleftrightarrow> pr_state (procs s ! q) = UNUSED" if "q < NPROC" for q
    using table_pids(1,2) [OF assms(1) that] by fastforce
  show ?thesis
  proof (cases "find (\<lambda>p. pr_pid (procs s ! p) = 0) [0..<NPROC]")
    case None
    then have "s1 = s" using assms(2) by (simp add: kill_def)
    moreover have "\<forall>q < NPROC. pr_state (procs s ! q) \<noteq> UNUSED" using None z by (simp add: find_None_iff)
    ultimately show ?thesis using find_upt_Some(1,2) [OF conjunct1 [OF a]] by simp
  next
    case (Some p)
    note p = find_upt_Some [OF Some]
    have s1: "r = 0" "s1 = upd_proc p (\<lambda>x. x\<lparr>pr_killed := True, pr_state := (if pr_state x = SLEEPING then RUNNABLE else pr_state x)\<rparr>) s"
      using assms(2) Some by (auto simp: kill_def)
    have u: "pr_state (procs s1 ! q) = UNUSED \<longleftrightarrow> pr_state (procs s ! q) = UNUSED" if "q < NPROC" for q
      using that len p(1) z [OF p(1)] p(2) by (auto simp: s1(2) nth_list_update)
    note np = find_upt_Some [OF conjunct1 [OF a]]
    have "np = p"
    proof (rule ccontr)
      assume "np \<noteq> p"
      then consider "np < p" | "p < np" by linarith
      then show False
      proof cases
        case 1
        then show ?thesis using p(3) [of np] np(1,2) u z by auto
      next
        case 2
        then show ?thesis using np(3) [of p] p(1,2) u z by auto
      qed
    qed
    then show ?thesis using a s1 p len z by simp
  qed
qed

subsection \<open>Witnesses: a parent asleep in \<open>wait\<close> and its running child\<close>

definition demo_parent :: proc where
  "demo_parent = no_proc\<lparr>pr_state := SLEEPING, pr_chan := Some (ProcChan 0), pr_pid := 1\<rparr>"

definition demo_child :: proc where
  "demo_child = no_proc\<lparr>pr_state := RUNNING, pr_pid := 2, pr_parent := Some 0\<rparr>"

definition demo_family :: "machine \<Rightarrow> pstate" where
  "demo_family m = (demo_procs m)\<lparr>procs := demo_parent # demo_child # replicate 62 no_proc, nextpid := 3, initproc := Some 0,
     cpu_proc := (\<lambda>_. None)(0 := Some 1), kphases := (\<lambda>_. User)(0 := Asleep, 1 := Exiting)\<rparr>"

lemma demo_family_procs: "p < NPROC \<Longrightarrow> procs (demo_family m) ! p = (if p = 0 then demo_parent else if p = 1 then demo_child else no_proc)"
  by (cases p; cases "p - 1") (simp_all add: demo_family_def NPROC_def del: replicate.simps)

lemma demo_family_fields:
  "length (procs (demo_family m)) = NPROC" "nextpid (demo_family m) = 3" "initproc (demo_family m) = Some 0" "wait_lock (demo_family m) = None"
  "cpu_proc (demo_family m) = (\<lambda>_. None)(0 := Some 1)" "kphases (demo_family m) = (\<lambda>_. User)(0 := Asleep, 1 := Exiting)"
  "sched_pos (demo_family m) = (\<lambda>_. 0)" "fs_mach (demo_family m) = m"
  by (simp_all add: demo_family_def demo_procs_fields NPROC_def del: replicate.simps)

lemma demo_family_inv: "sys_inv (demo_family m)"
proof -
  let ?t = "\<lparr>t_st = (\<lambda>p. if p = 0 then SLEEPING else if p = 1 then RUNNING else UNUSED), t_ch = (\<lambda>p. if p = 0 then Some (ProcChan 0) else None),
    t_pid = (\<lambda>p. if p = 0 then 1 else if p = 1 then 2 else 0), t_par = (\<lambda>p. if p = 1 then Some 0 else None), t_next = 3, t_init = Some 0,
    t_lock = None, t_cpu = (\<lambda>_. None)(0 := Some 1), t_ph = (\<lambda>_. User)(0 := Asleep, 1 := Exiting)\<rparr>"
  have n: "0 < NPROC" "1 < NPROC" by (simp_all add: NPROC_def)
  have t: "tview_of (demo_family m) = ?t"
    using n by (intro tview_ext) (auto simp: demo_family_procs demo_family_fields demo_parent_def demo_child_def no_proc_def)
  have "cpu_ok ?t" using n by (auto simp: cpu_ok_def runs_def)
  moreover have "pid_ok ?t" "pid_fresh ?t" by (auto simp: pid_ok_def pid_fresh_def split: if_splits)
  moreover have "family_ok ?t" using n by (auto simp: family_ok_def live_def)
  moreover have "phase_ok ?t" using n by (auto simp: phase_ok_def live_def forking_def)
  moreover have "wait_ok ?t" using n by (auto simp: wait_ok_def dozing_def)
  ultimately show ?thesis using n by (simp add: sys_inv_def ctl_inv_def t tinv_def demo_family_fields)
qed

text \<open>The same with a machine that has no memory left.\<close>

definition demo_kin :: pstate where
  "demo_kin = demo_family \<lparr>pmem = (\<lambda>_. 0), freelist = 0\<rparr>"

lemma demo_kin_inv: "sys_inv demo_kin"
  unfolding demo_kin_def by (rule demo_family_inv)

theorem scheduler_runs_next_witness:
  "\<exists>(s :: pstate) k. is_runnable 3 s \<and> sched_pos s 0 = 62 \<and> cpu_proc ((scheduler_visit 0 ^^ k) s) 0 = Some 3"
proof -
  let ?s = "upd_proc 3 (\<lambda>x. x\<lparr>pr_state := RUNNABLE\<rparr>) (demo_kin\<lparr>sched_pos := (\<lambda>_. 0)(0 := 62)\<rparr>)"
  have n: "3 < NPROC" "62 < NPROC" by (simp_all add: NPROC_def)
  have r: "q < NPROC \<Longrightarrow> is_runnable q ?s \<longleftrightarrow> q = 3" for q
    using n by (auto simp: is_runnable_def nth_list_update demo_kin_def demo_family_procs demo_family_fields demo_parent_def demo_child_def no_proc_def)
  have a: "sched_pos ?s 0 < NPROC" "is_runnable 3 ?s" "length (procs ?s) = NPROC"
    using n r by (simp_all add: demo_kin_def demo_family_fields)
  obtain k where k: "is_runnable ((sched_pos ?s 0 + k) mod NPROC) ?s" "cpu_proc ((scheduler_visit 0 ^^ Suc k) ?s) 0 = Some ((sched_pos ?s 0 + k) mod NPROC)"
    using scheduler_runs_next [OF a(1) n(1) a(2,3)] unfolding Let_def by blast
  have "(sched_pos ?s 0 + k) mod NPROC = 3" using r k(1) n by simp
  then show ?thesis using k(2) a(2) by (intro exI [of _ ?s] exI [of _ "Suc k"]) (simp del: funpow.simps)
qed

theorem exit_hands_over_witness:
  "\<exists>s'. exit_finish 0 1 7 demo_kin = Inr s' \<and> pr_state (procs s' ! 0) = RUNNABLE \<and> pr_state (procs s' ! 1) = ZOMBIE
     \<and> pr_xstate (procs s' ! 1) = 7"
proof -
  have n: "0 < NPROC" "1 < NPROC" by (simp_all add: NPROC_def)
  have c: "cpu_proc demo_kin 0 = Some 1" by (simp add: demo_family_fields demo_kin_def)
  have "\<exists>s'. exit_finish 0 1 7 demo_kin = Inr s'"
    using n by (simp add: exit_finish_def reparent_eq wakeup_eq sched_def demo_family_fields demo_kin_def)
  then obtain s' where s': "exit_finish 0 1 7 demo_kin = Inr s'" by blast
  note x = exit_hands_over [OF demo_kin_inv c s']
  show ?thesis
    using s' x [OF n(1)] x [OF n(2)] n
    by (simp add: demo_family_procs demo_kin_def demo_parent_def demo_child_def no_proc_def)
qed

theorem no_missed_exit_witness:
  "\<exists>s'. (kstep demo_image)\<^sup>*\<^sup>* demo_kin s' \<and> pr_state (procs s' ! 0) = SLEEPING \<and> (\<exists>c < NPROC. child 0 s' c)
     \<and> (\<forall>c < NPROC. child 0 s' c \<longrightarrow> pr_state (procs s' ! c) \<noteq> ZOMBIE)"
proof -
  let ?s = "scheduler_visit 1 demo_kin"
  have n: "0 < NPROC" by (simp add: NPROC_def)
  have e: "procs ?s = procs demo_kin"
    using n by (simp add: scheduler_visit_def is_runnable_def demo_family_fields demo_kin_def demo_family_procs demo_kin_def demo_parent_def)
  have st: "(kstep demo_image)\<^sup>*\<^sup>* demo_kin ?s"
    using kstep.visit [of 1 "demo_kin" demo_image] by (auto simp: NCPU_def demo_family_fields demo_kin_def)
  have p: "pr_state (procs ?s ! 0) = SLEEPING" "pr_chan (procs ?s ! 0) = Some (ProcChan 0)"
    using n unfolding e by (simp_all add: demo_family_procs demo_kin_def demo_parent_def)
  show ?thesis using no_missed_exit [OF demo_kin_inv st n p] st p(1) by blast
qed

theorem kernel_refines_lifecycle_witness:
  "\<exists>s'. (kstep demo_image)\<^sup>*\<^sup>* demo_kin s' \<and> pr_state (procs s' ! 0) = RUNNABLE \<and> tstep\<^sup>*\<^sup>* (tview_of demo_kin) (tview_of s')"
proof -
  have n: "0 < NPROC" by (simp add: NPROC_def)
  have k: "(kstep demo_image)\<^sup>*\<^sup>* demo_kin (snd (kill 1 demo_kin))"
    using kstep.kills [of demo_kin 0 1 demo_image 1] by (auto simp: demo_family_fields demo_kin_def)
  have u: "pr_state (procs demo_kin ! 0) \<noteq> UNUSED" using n by (simp add: demo_family_procs demo_kin_def demo_parent_def)
  have "[0..<NPROC] = 0 # [1..<NPROC]" by (simp add: NPROC_def upt_conv_Cons)
  then have "pr_state (procs (snd (kill 1 demo_kin)) ! 0) = RUNNABLE"
    using n by (simp add: kill_def demo_family_procs demo_family_fields demo_kin_def demo_parent_def no_proc_def)
  then show ?thesis using k kernel_refines_lifecycle [OF k demo_kin_inv] by blast
qed


theorem kill_hits_its_pid_witness:
  "fst (kill 1 demo_kin) = 0 \<and> pr_state (procs (snd (kill 1 demo_kin)) ! 0) = RUNNABLE \<and> fst (kill 5 demo_kin) = - 1"
proof -
  have n: "0 < NPROC" by (simp add: NPROC_def)
  have p: "pr_pid (procs demo_kin ! 0) = 1" "pr_state (procs demo_kin ! 0) = SLEEPING" "length (procs demo_kin) = NPROC"
    using n by (simp_all add: demo_family_procs demo_family_fields demo_kin_def demo_parent_def)
  have "\<forall>q < NPROC. pr_pid (procs demo_kin ! q) \<noteq> 5"
    by (auto simp: demo_family_procs demo_kin_def demo_parent_def demo_child_def no_proc_def)
  moreover have u: "pr_state (procs demo_kin ! 0) \<noteq> UNUSED" using p(2) by simp
  ultimately have k5: "kill 5 demo_kin = (- 1, demo_kin)"
    using conjunct2 [OF kill_hits_its_pid [OF demo_kin_inv n u]] by blast
  show ?thesis
    using conjunct1 [OF kill_hits_its_pid [OF demo_kin_inv n u]] k5 p n by simp
qed

theorem kill_zero_kills_newborn_witness:
  "\<exists>m s1 np s2. kill 0 (demo_family m) = (0, s1) \<and> allocproc demo_image (Some 1) s1 = Inr (Some np, s2) \<and> pr_killed (procs s2 ! np)"
proof -
  obtain m :: machine where m: "kmem_repr demo_end m demo_pages"
    using demo_kinit [of "\<lparr>pmem = (\<lambda>_. 0), freelist = 0\<rparr>"] by auto
  let ?s = "demo_family m"
  have n: "2 < NPROC" by (simp add: NPROC_def)
  have u: "[0..<NPROC] = 0 # 1 # 2 # [3..<NPROC]" by (simp add: NPROC_def upt_conv_Cons)
  have p: "procs ?s ! 0 = demo_parent" "procs ?s ! 1 = demo_child" "procs ?s ! 2 = no_proc" "length (procs ?s) = NPROC"
    using n by (simp_all add: demo_family_procs demo_family_fields)
  define s1 where "s1 = upd_proc 2 (\<lambda>x. x\<lparr>pr_killed := True, pr_state := (if pr_state x = SLEEPING then RUNNABLE else pr_state x)\<rparr>) ?s"
  have k: "kill 0 ?s = (0, s1)"
    unfolding kill_def u using p by (simp add: s1_def demo_parent_def demo_child_def no_proc_def)
  have f: "find (\<lambda>p. pr_state (procs s1 ! p) = UNUSED) [0..<NPROC] = Some 2"
    unfolding u using p n by (simp add: s1_def demo_parent_def demo_child_def no_proc_def)
  have km: "kmem_repr (k_end demo_image) (fs_mach s1) (0x87FFF000 # 0x87FFE000 # drop 2 demo_pages)" "4 \<le> length (drop 2 demo_pages)"
    "length (procs s1) = NPROC"
    using m p(4) by (simp_all add: s1_def demo_family_fields demo_pages_def)
  obtain s2 where a: "allocproc demo_image (Some 1) s1 = Inr (Some 2, s2)"
    using allocproc_first [OF f km(3,1,2), of "Some 1"] by blast
  then show ?thesis using k kill_zero_kills_newborn [OF demo_family_inv k a] by blast
qed

end
