(* ===== verification/Calls.thy ===== *)
theory Calls
  imports Refs KillWait
begin

text \<open>
  No call leaks a reference. \<open>call\<close> lets the processes make file, process and scheduling calls in any order, each running
  to its end; in every state this reaches, the count of a file is the number of descriptors that name it, and the count
  of an inode the number of open files and current directories that use it.
\<close>

subsection \<open>Operations that leave descriptors and directories alone\<close>


definition files_of :: "'a pstate_scheme \<Rightarrow> inode list \<times> kfile list \<times> nat option list list \<times> nat option list" where
  "files_of s = (itable s, ftable s, map pr_ofile (procs s), map pr_cwd (procs s))"


lemma files_parts [simp]:
  fixes s :: "'a pstate_scheme"
  shows "files_of (s\<lparr>fs_mach := m\<rparr>) = files_of s" "files_of (s\<lparr>groups := gs\<rparr>) = files_of s" "files_of (put_vm v s) = files_of s"
    "files_of (set_trapframe p a w s) = files_of s" "files_of (s\<lparr>nextpid := n\<rparr>) = files_of s" "files_of (s\<lparr>cpu_proc := c\<rparr>) = files_of s"
    "files_of (s\<lparr>sched_pos := d\<rparr>) = files_of s"
  by (simp_all add: files_of_def put_vm_def set_trapframe_def)













subsection \<open>Fork\<close>










subsection \<open>Exit and wait\<close>







subsection \<open>Reading, writing and the heap\<close>
















subsection \<open>Any sequence of calls\<close>










subsection \<open>From boot on\<close>




subsection \<open>Properties\<close>



end
