(* ===== verification/Spec2Isabelle.thy ===== *)
theory Spec2Isabelle
  imports Ulthread TrapEmulate Boot Swap Calls
begin

text \<open>
  A verification development for the four xv6-RISC-V course projects under \<^verbatim>\<open>src/Project-1\<close> to
  \<^verbatim>\<open>src/Project-4\<close>: a measuring boot loader, a kernel with demand paging and copy-on-write fork, a
  user-level threading library and a trap-and-emulate virtual machine monitor, over the kernel services
  they share. File names below are relative to \<^verbatim>\<open>cse536-release/xv6-riscv\<close> of the project named.

  \<^bold>\<open>Conventions.\<close> Machine integers are words of their width, C ints that stay small are \<open>int\<close>. Physical
  memory is a function from 64-bit addresses to bytes, so that page tables, the free list and user pages
  alias as on the machine. Operations pass the state explicitly; a panic, a null dereference, an
  out-of-bounds access or a sleep is the left value of a sum (\<open>kerror\<close> of \<open>Prelude\<close>). Console output is
  a trace where its order matters (\<open>Ulthread\<close>) and is left out elsewhere.

  \<^bold>\<open>Theories, from the bottom.\<close>
  \<^item> \<open>Prelude\<close>: words, memory, address ranges, error values, the named theorem collections.
  \<^item> \<open>Riscv\<close>: the page macros of \<^verbatim>\<open>kernel/riscv.h\<close> and the layout of \<^verbatim>\<open>kernel/memlayout.h\<close>.
  \<^item> \<open>KString\<close>: \<^verbatim>\<open>kernel/string.c\<close>; every routine against byte lists, overlap included.
  \<^item> \<open>Kalloc\<close>: \<^verbatim>\<open>kernel/kalloc.c\<close>; the free list threaded through free pages, the locale \<open>page_allocator\<close>
    and its interpretation; \<open>kinit\<close> frees every page once, allocations are disjoint.
  \<^item> \<open>CowGroup\<close>: the group table of \<^verbatim>\<open>kernel/cow.c\<close> (Project 2).
  \<^item> \<open>Vm\<close>, \<open>PageTable\<close>, \<open>UserMem\<close>: \<^verbatim>\<open>kernel/vm.c\<close> (Project 2). \<open>leaf\<close> is the address-space map a page
    table stands for and \<open>vm_inv\<close> the invariant of its tables and the free list; \<open>mappages\<close>, \<open>uvmunmap\<close>,
    \<open>walkaddr\<close> and \<open>copyin\<close> are proved against it.
  \<^item> \<open>Cow\<close>: copy-on-write fork and write faults of \<^verbatim>\<open>kernel/cow.c\<close>: two address spaces over one free list.
  \<^item> \<open>Swap\<close>: the heap tracker (\<^verbatim>\<open>kernel/proc.c\<close>, \<^verbatim>\<open>kernel/exec.c\<close>), and eviction, retrieval and the heap
    fault of \<^verbatim>\<open>kernel/pfault.c\<close> over the buffer cache.
  \<^item> \<open>Locks\<close>: \<^verbatim>\<open>kernel/spinlock.c\<close> and \<^verbatim>\<open>kernel/sleeplock.c\<close>; spin locks as an interleaving of harts.
  \<^item> \<open>Bio\<close>: \<^verbatim>\<open>kernel/bio.c\<close>, the linked list of buffers; the locale \<open>block_cache\<close> states what a client may
    rely on in terms of an abstract view (contents, disk, references, locked blocks), and the
    interpretation \<open>bc\<close> proves it of the code.
  \<^item> \<open>Log\<close>: \<^verbatim>\<open>kernel/log.c\<close> on that interface; a crash is a prefix of the disk writes.
  \<^item> \<open>Fs\<close>, \<open>Inode\<close>, \<open>FileIO\<close>: \<^verbatim>\<open>kernel/fs.c\<close>: the inode table, block allocation, inodes on disk, reading and
    writing files, directories and paths, over the buffer cache and the log. \<open>Fs\<close> has the definitions and the counts
    of the inode table, \<open>Inode\<close> block allocation and the round trip of an inode, \<open>FileIO\<close> the contents of files.
  \<^item> \<open>Pipe\<close>, \<open>File\<close>: \<^verbatim>\<open>kernel/pipe.c\<close> and \<^verbatim>\<open>kernel/file.c\<close>: the ring buffer as a queue, the file table.
  \<^item> \<open>Lifecycle\<close>: the life of a process as an abstract protocol (\<open>tstep\<close>) on states, channels, pids, parents, harts and
    \<open>wait_lock\<close>, and its invariant.
  \<^item> \<open>Proc\<close>: \<^verbatim>\<open>kernel/proc.c\<close> and \<^verbatim>\<open>proc.h\<close>: the process table, \<open>fork\<close>, \<open>exit\<close>, \<open>wait\<close>, \<open>sleep\<close>, \<open>wakeup\<close>, \<open>kill\<close> and the
    scheduler. \<open>Sched\<close>: the steps of the kernel (\<open>kstep\<close>, one per critical section) and their simulation by the protocol.
    \<open>FirstProcess\<close>: \<open>userinit\<close> and the invariant from boot on. \<open>KillWait\<close>: exit, wait, kill and scheduling.
  \<^item> \<open>Sysfile\<close>: \<^verbatim>\<open>kernel/sysfile.c\<close> but \<open>sys_exec\<close>, argument fetching of \<^verbatim>\<open>kernel/syscall.c\<close>, \<^verbatim>\<open>kernel/sysproc.c\<close>.
    \<open>Refs\<close>: who holds a reference to a file or an inode, with a rule for each operation in the form of a weakest
    precondition (\<open>okE\<close>). \<open>Calls\<close>: sequences of calls of all processes (\<open>call\<close>).
  \<^item> \<open>Sha256\<close>, \<open>Boot\<close>: \<^verbatim>\<open>bootloader/sha256.c\<close>, \<^verbatim>\<open>elf.c\<close>, \<^verbatim>\<open>load.c\<close>, \<^verbatim>\<open>start.c\<close> (Project 1); the hash against
    FIPS 180-4, the boot decision, the loaded image and the PMP regions.
  \<^item> \<open>Ulthread\<close>: \<^verbatim>\<open>user/ulthread.c\<close>, \<^verbatim>\<open>ulthread.h\<close> and \<^verbatim>\<open>ulthread_swtch.S\<close> (Project 3), with a step relation
    for the interleaving of threads and scheduler.
  \<^item> \<open>TrapEmulate\<close>: \<^verbatim>\<open>kernel/trap-and-emulate.c\<close> (Project 4).

  \<^bold>\<open>What the theorems show.\<close> Functional correctness of the memory system (a mapping changes exactly its
  range, copies are exact across page boundaries, fork shares frames read-only, a write fault gives a
  private copy); crash atomicity of the log and refinement of the buffer cache; files as byte
  sequences, directories and paths, block allocation; pipes as queues; the counts of the inode and file tables, and that no
  sequence of system calls leaks a reference; the process table: its invariant over all interleavings, no exit is missed by
  a waiting parent, refinement of the protocol, what exit, wait, kill and the scheduler do; mutual exclusion of spin locks; the secure boot decision and memory isolation; equality of the hash with its standard;
  the scheduling policies and context switches of the thread library; the privilege checks, round trips
  and register invariant of the monitor. Some theorems state that the code does less than it means to
  (the manifest lists them as findings): an evicted page loses three quarters of its contents, heap
  growth tracks the wrong pages after the first call, \<open>kill(0)\<close> kills a process not yet born, round robin drops a lone
  yielding thread, an unprivileged CSR write still takes effect.

  \<^bold>\<open>Bounds and fuel.\<close> The address loops of \<open>Vm\<close> end because \<open>walk\<close> panics at \<open>MAXVA\<close>. \<open>freewalk\<close> recurses
  to depth 3, the depth of a page table. The list scans of \<open>Bio\<close> have fuel \<open>NBUF + 1\<close>, which a
  well-formed list never exhausts. \<open>sha256_update\<close> is a \<open>partial_function\<close>, as its loop does not end for
  lengths from \<open>2^32\<close> on. Process numbers are C ints and wrap around (\<open>pid_succ\<close>); that they
  are distinct is shown for runs in which \<open>nextpid\<close> has not wrapped around (\<open>no_wrap\<close>), everything else for all runs. The linker
  symbol \<open>end\<close>, the trusted digests generated at build time and the
  addresses of static objects are parameters.

  \<^bold>\<open>Not modelled.\<close> Device drivers (\<^verbatim>\<open>uart.c\<close>, \<^verbatim>\<open>plic.c\<close>, \<^verbatim>\<open>virtio_disk.c\<close>, \<^verbatim>\<open>console.c\<close>, \<^verbatim>\<open>printf.c\<close>), whose
  effect is on memory-mapped devices; trap entry and the context switch in assembly other than that of
  the thread library; \<^verbatim>\<open>mkfs\<close>, the shell, the user programs and tests; TLB state and memory ordering
  beyond the order of steps; the registers a hart saves in \<open>swtch\<close>. \<^verbatim>\<open>exec.c\<close> is modelled only in its reset of the heap tracker, so \<open>exec\<close> is
  not among the calls of \<open>Calls\<close>; neither are \<open>sleep\<close> and \<open>uptime\<close>, which only wait for or read the clock. \<open>Calls\<close> runs each call to its end or
  its sleep: calls of two processes that interleave inside the file system are not covered there.
\<close>

end
